(* ===== verification/Prelude.thy ===== *)
theory Prelude
  imports Main "HOL-Library.Word" "HOL-Library.Monad_Syntax" "HOL-Library.Multiset"
begin

text \<open>
  What the component theories share: names for the machine integers, fixed-sz arrays of
  possibly uninitialised slots (\<open>[MaybeUninit<T>; N]\<close>) with raw slices over them, the
  reverse search and the binary search of the standard library, and the generic list,
  option and word lemmas that the component proofs use.

  A value of type \<open>'a option\<close> that a definition of this development returns is \<open>None\<close>
  exactly where the Rust code would panic (\<open>unwrap\<close> of \<open>None\<close>, \<open>unreachable!\<close>), read an
  uninitialised slot, leave an array, or loop forever.
\<close>

unbundle bit_operations_syntax

type_synonym u8 = "8 word"
type_synonym u16 = "16 word"
type_synonym u32 = "32 word"
type_synonym u64 = "64 word"
type_synonym usize = nat
type_synonym addr = nat

abbreviation U64_MAX :: u64 where
  "U64_MAX \<equiv> 0xFFFFFFFFFFFFFFFF"

named_theorems page_simps \<open>how the page operations change the slices of a page\<close>
named_theorems latch_simps \<open>how the latch operations change a cell version\<close>
named_theorems read_simps \<open>how a change of a page or of the heap changes the reads\<close>

section \<open>Arrays of possibly uninitialised slots\<close>

definition array_uninit :: "nat \<Rightarrow> 'a option list" where
  "array_uninit n = replicate n None"

definition array_read :: "'a option list \<Rightarrow> nat \<Rightarrow> 'a option" where
  "array_read xs i = (if i < length xs then xs ! i else None)"

definition array_write :: "'a option list \<Rightarrow> nat \<Rightarrow> 'a \<Rightarrow> 'a option list option" where
  "array_write xs i x = (if i < length xs then Some (xs[i := Some x]) else None)"

definition raw_slice :: "'a option list \<Rightarrow> nat \<Rightarrow> 'a list option" where
  "raw_slice xs n = (if n \<le> length xs then those (take n xs) else None)"

text \<open>\<open>iter().enumerate().for_each(|(i, x)| ptr.add(base + i).write(x))\<close>\<close>

fun array_write_list :: "'a option list \<Rightarrow> nat \<Rightarrow> 'a list \<Rightarrow> 'a option list option" where
  "array_write_list xs i [] = Some xs"
| "array_write_list xs i (y # ys) =
     Option.bind (array_write xs i y) (\<lambda>xs'. array_write_list xs' (Suc i) ys)"

section \<open>Searches of the standard library\<close>

fun rfind_index :: "('a \<Rightarrow> bool) \<Rightarrow> 'a list \<Rightarrow> nat option" where
  "rfind_index P [] = None"
| "rfind_index P (x # xs) =
     (case rfind_index P xs of
        Some i \<Rightarrow> Some (Suc i)
      | None \<Rightarrow> if P x then Some 0 else None)"

definition rfind :: "('a \<Rightarrow> bool) \<Rightarrow> 'a list \<Rightarrow> 'a option" where
  "rfind P xs = List.find P (rev xs)"

text \<open>
  \<open>slice::binary_search_by\<close>: halve the window \<open>[base, base + sz)\<close>, keep the right half
  unless the middle compares greater, then test the one element left.
\<close>

function bs_window :: "('a \<Rightarrow> 'b::linorder) \<Rightarrow> 'b \<Rightarrow> 'a list \<Rightarrow> nat \<Rightarrow> nat \<Rightarrow> nat" where
  "bs_window f x xs base sz =
     (if 1 < sz then
        (let half = sz div 2; mid = base + half in
         bs_window f x xs (if x < f (xs ! mid) then base else mid) (sz - half))
      else base)"
  by pat_completeness auto
termination
  by (relation "measure (\<lambda>(f, x, xs, base, sz). sz)") auto

definition binary_search_by_key :: "('a \<Rightarrow> 'b::linorder) \<Rightarrow> 'b \<Rightarrow> 'a list \<Rightarrow> nat + nat" where
  "binary_search_by_key f x xs =
     (if xs = [] then Inl 0
      else (let base = bs_window f x xs 0 (length xs) in
            if f (xs ! base) = x then Inr base
            else Inl (base + (if f (xs ! base) < x then 1 else 0))))"

declare bs_window.simps [simp del]

section \<open>Lemmas on arrays\<close>

lemma length_array_uninit [simp]: "length (array_uninit n) = n"
  by (simp add: array_uninit_def)

lemma those_Some_iff: "those xs = Some ys \<longleftrightarrow> xs = map Some ys"
  by (induction xs arbitrary: ys) (auto split: option.splits)

lemma those_map_Some [simp]: "those (map Some ys) = Some ys"
  by (simp add: those_Some_iff)

lemma raw_slice_Some_iff:
  "raw_slice xs n = Some ys \<longleftrightarrow> n \<le> length xs \<and> take n xs = map Some ys"
  by (simp add: raw_slice_def those_Some_iff)

lemma raw_slice_0 [simp]: "raw_slice xs 0 = Some []"
  by (simp add: raw_slice_def)

lemma raw_slice_length: "raw_slice xs n = Some ys \<Longrightarrow> length ys = n"
  by (auto simp: raw_slice_Some_iff dest: arg_cong [where f = length])

lemma raw_slice_nth:
  assumes "raw_slice xs n = Some ys" and "i < n"
  shows "i < length xs" and "xs ! i = Some (ys ! i)"
proof -
  have n: "n \<le> length xs" and t: "take n xs = map Some ys"
    using assms(1) by (simp_all add: raw_slice_Some_iff)
  show "i < length xs" using n assms(2) by simp
  have "xs ! i = take n xs ! i" using assms(2) by simp
  also have "\<dots> = Some (ys ! i)"
    using t assms raw_slice_length [OF assms(1)] by simp
  finally show "xs ! i = Some (ys ! i)" .
qed

lemma array_read_raw_slice:
  "raw_slice xs n = Some ys \<Longrightarrow> i < n \<Longrightarrow> array_read xs i = Some (ys ! i)"
  by (simp add: array_read_def raw_slice_nth)

lemma array_write_Some [simp]:
  "i < length xs \<Longrightarrow> array_write xs i x = Some (xs[i := Some x])"
  by (simp add: array_write_def)

lemma array_write_length: "array_write xs i x = Some xs' \<Longrightarrow> length xs' = length xs"
  by (auto simp: array_write_def split: if_splits)

lemma raw_slice_write_beyond [simp]:
  "n \<le> i \<Longrightarrow> raw_slice (xs[i := y]) n = raw_slice xs n"
  by (simp add: raw_slice_def)

lemma raw_slice_write_end:
  assumes "raw_slice xs n = Some ys" and "n < length xs"
  shows "raw_slice (xs[n := Some x]) (Suc n) = Some (ys @ [x])"
  using assms by (simp add: raw_slice_Some_iff take_Suc_conv_app_nth)

lemma raw_slice_write_inside:
  assumes "raw_slice xs n = Some ys" and "i < n"
  shows "raw_slice (xs[i := Some x]) n = Some (ys[i := x])"
proof -
  have "take n (xs[i := Some x]) = (take n xs)[i := Some x]"
    by (simp add: take_update_swap)
  then show ?thesis
    using assms by (simp add: raw_slice_Some_iff map_update)
qed

lemma array_write_list_ok:
  assumes "raw_slice xs n = Some zs" and "n + length ys \<le> length xs"
  shows "\<exists>xs'. array_write_list xs n ys = Some xs' \<and> length xs' = length xs
           \<and> raw_slice xs' (n + length ys) = Some (zs @ ys)"
  using assms
proof (induction ys arbitrary: xs n zs)
  case Nil
  then show ?case by simp
next
  case (Cons y ys)
  have len: "n < length xs" using Cons.prems(2) by simp
  have "raw_slice (xs[n := Some y]) (Suc n) = Some (zs @ [y])"
    using Cons.prems(1) len by (rule raw_slice_write_end)
  from Cons.IH [OF this] obtain xs' where
    "array_write_list (xs[n := Some y]) (Suc n) ys = Some xs'" "length xs' = length xs"
    "raw_slice xs' (Suc n + length ys) = Some ((zs @ [y]) @ ys)"
    using Cons.prems(2) by auto
  then show ?case using len by simp
qed

section \<open>Lemmas on searches\<close>

lemma rfind_index_None_iff: "rfind_index P xs = None \<longleftrightarrow> (\<forall>x \<in> set xs. \<not> P x)"
  by (induction xs) (auto split: option.splits)

lemma rfind_index_SomeD:
  assumes "rfind_index P xs = Some i"
  shows "i < length xs" and "P (xs ! i)" and "\<And>j. i < j \<Longrightarrow> j < length xs \<Longrightarrow> \<not> P (xs ! j)"
proof -
  have "i < length xs \<and> P (xs ! i) \<and> (\<forall>j. i < j \<longrightarrow> j < length xs \<longrightarrow> \<not> P (xs ! j))"
    using assms
  proof (induction xs arbitrary: i)
    case Nil
    then show ?case by simp
  next
    case (Cons x xs)
    show ?case
    proof (cases "rfind_index P xs")
      case None
      then have "\<forall>y \<in> set xs. \<not> P y" by (simp only: rfind_index_None_iff)
      then show ?thesis
        using Cons.prems None by (auto simp: nth_Cons split: if_splits nat.splits)
    next
      case (Some k)
      then show ?thesis
        using Cons.IH [OF Some] Cons.prems by (auto simp: nth_Cons split: nat.splits)
    qed
  qed
  then show "i < length xs" "P (xs ! i)" "\<And>j. i < j \<Longrightarrow> j < length xs \<Longrightarrow> \<not> P (xs ! j)"
    by blast+
qed

lemma rfind_index_eqI:
  assumes "i < length xs" and "P (xs ! i)" and "\<And>j. i < j \<Longrightarrow> j < length xs \<Longrightarrow> \<not> P (xs ! j)"
  shows "rfind_index P xs = Some i"
proof (cases "rfind_index P xs")
  case None
  then show ?thesis using assms(1,2) by (auto simp: rfind_index_None_iff)
next
  case (Some k)
  note k = rfind_index_SomeD [OF Some]
  have "\<not> i < k" using assms(3) k(1,2) by blast
  moreover have "\<not> k < i" using k(3) assms(1,2) by blast
  ultimately show ?thesis using Some by simp
qed

lemma rfind_index_append:
  "rfind_index P (xs @ ys) =
     (case rfind_index P ys of Some i \<Rightarrow> Some (length xs + i) | None \<Rightarrow> rfind_index P xs)"
  by (induction xs) (auto split: option.splits)

lemma rfind_index_cong:
  assumes "length xs = length ys" and "\<And>i. i < length xs \<Longrightarrow> P (xs ! i) = Q (ys ! i)"
  shows "rfind_index P xs = rfind_index Q ys"
  using assms
proof (induction xs ys rule: list_induct2)
  case Nil
  then show ?case by simp
next
  case (Cons x xs y ys)
  have "P x = Q y" using Cons.prems [of 0] by simp
  moreover have "rfind_index P xs = rfind_index Q ys"
    using Cons.prems by (intro Cons.IH) (metis length_Cons Suc_less_eq nth_Cons_Suc)
  ultimately show ?case by simp
qed

lemma rfind_append [simp]:
  "rfind P (xs @ [x]) = (if P x then Some x else rfind P xs)"
  by (simp add: rfind_def)

lemma rfind_Nil [simp]: "rfind P [] = None"
  by (simp add: rfind_def)

lemma rfind_None_iff: "rfind P xs = None \<longleftrightarrow> (\<forall>x \<in> set xs. \<not> P x)"
  by (auto simp: rfind_def find_None_iff)

lemma rfind_filter: "rfind P (filter Q xs) = rfind (\<lambda>x. P x \<and> Q x) xs"
  by (induction xs rule: rev_induct) auto

lemma rfind_eq_index: "rfind P xs = map_option (nth xs) (rfind_index P xs)"
proof (induction xs rule: rev_induct)
  case Nil
  then show ?case by simp
next
  case (snoc x xs)
  show ?case
  proof (cases "P x")
    case True
    then show ?thesis by (simp add: rfind_index_append)
  next
    case False
    have "map_option (nth (xs @ [x])) (rfind_index P xs) = map_option (nth xs) (rfind_index P xs)"
      by (cases "rfind_index P xs") (auto simp: nth_append dest: rfind_index_SomeD)
    then show ?thesis using False snoc by (simp add: rfind_index_append)
  qed
qed

lemma rfind_SomeD: "rfind P xs = Some x \<Longrightarrow> x \<in> set xs \<and> P x"
  by (auto simp: rfind_eq_index dest: rfind_index_SomeD(1,2) intro: nth_mem)

lemma rfind_cong: "(\<And>x. x \<in> set xs \<Longrightarrow> P x = Q x) \<Longrightarrow> rfind P xs = rfind Q xs"
  by (induction xs rule: rev_induct) auto

lemma rfind_unique:
  assumes "x \<in> set xs" "P x" "\<And>y. y \<in> set xs \<Longrightarrow> P y \<Longrightarrow> y = x"
  shows "rfind P xs = Some x"
proof (cases "rfind P xs")
  case None
  then show ?thesis using assms(1,2) by (auto simp: rfind_None_iff)
next
  case (Some y)
  then show ?thesis using assms(3) [of y] by (auto dest: rfind_SomeD)
qed

section \<open>Lemmas on the binary search\<close>

lemma bs_window_spec:
  assumes "sorted (map f xs)" and "0 < sz" and "base + sz \<le> length xs"
    and "base = 0 \<or> f (xs ! base) \<le> x"
    and "\<forall>i. base + sz \<le> i \<and> i < length xs \<longrightarrow> x < f (xs ! i)"
  shows "bs_window f x xs base sz < length xs
    \<and> (bs_window f x xs base sz = 0 \<or> f (xs ! bs_window f x xs base sz) \<le> x)
    \<and> (\<forall>i. bs_window f x xs base sz < i \<and> i < length xs \<longrightarrow> x < f (xs ! i))"
  using assms
proof (induction f x xs base sz rule: bs_window.induct)
  case (1 f x xs base sz)
  have mono: "f (xs ! i) \<le> f (xs ! j)" if "i \<le> j" "j < length xs" for i j
    using sorted_nth_mono [OF "1.prems"(1), of i j] that by simp
  show ?case
  proof (cases "1 < sz")
    case False
    with "1.prems"(2) have sz: "sz = 1" by simp
    have eq: "bs_window f x xs base sz = base"
      using False by (simp add: bs_window.simps [of f x xs base sz])
    show ?thesis unfolding eq using "1.prems"(3-5) sz by auto
  next
    case True
    define half where "half = sz div 2"
    define mid where "mid = base + half"
    define b where "b = (if x < f (xs ! mid) then base else mid)"
    have half: "0 < half" "half < sz" "half \<le> sz - half"
      using True by (auto simp: half_def)
    have eq: "bs_window f x xs base sz = bs_window f x xs b (sz - half)"
      using True by (simp add: bs_window.simps [of f x xs base sz] Let_def half_def mid_def b_def)
    have p1: "b + (sz - half) \<le> length xs"
      using "1.prems"(3) half by (auto simp: b_def mid_def)
    have p2: "b = 0 \<or> f (xs ! b) \<le> x"
      using "1.prems"(4) by (auto simp: b_def)
    have p3: "\<forall>i. b + (sz - half) \<le> i \<and> i < length xs \<longrightarrow> x < f (xs ! i)"
    proof (intro allI impI)
      fix i assume i: "b + (sz - half) \<le> i \<and> i < length xs"
      show "x < f (xs ! i)"
      proof (cases "x < f (xs ! mid)")
        case True
        then have "mid \<le> i" using i half by (auto simp: mid_def b_def)
        then show ?thesis using mono [of mid i] i True by (auto intro: less_le_trans)
      next
        case False
        then show ?thesis using i half "1.prems"(5) by (simp add: mid_def b_def)
      qed
    qed
    show ?thesis
      unfolding eq
      using "1.IH" [OF True half_def mid_def, folded b_def, OF "1.prems"(1) _ p1 p2 p3] half by simp
  qed
qed

text \<open>
  The contract of the search on a slice sorted by the searched key: a hit is the last one,
  a miss is the insertion point.
\<close>

lemma binary_search_cases:
  assumes "sorted (map f xs)"
  shows "case binary_search_by_key f x xs of
      Inr i \<Rightarrow> i < length xs \<and> f (xs ! i) = x
        \<and> (\<forall>j. i < j \<and> j < length xs \<longrightarrow> x < f (xs ! j))
    | Inl i \<Rightarrow> i \<le> length xs \<and> (\<forall>j < i. f (xs ! j) < x)
        \<and> (\<forall>j. i \<le> j \<and> j < length xs \<longrightarrow> x < f (xs ! j))"
proof (cases "xs = []")
  case True
  then show ?thesis by (simp add: binary_search_by_key_def)
next
  case False
  define b where "b = bs_window f x xs 0 (length xs)"
  have b: "b < length xs" "b = 0 \<or> f (xs ! b) \<le> x"
    "\<forall>i. b < i \<and> i < length xs \<longrightarrow> x < f (xs ! i)"
    using bs_window_spec [OF assms, of "length xs" 0 x] False unfolding b_def by force+
  have mono: "f (xs ! i) \<le> f (xs ! b)" if "i \<le> b" for i
    using sorted_nth_mono [OF assms, of i b] that b(1) by simp
  consider "f (xs ! b) = x" | "f (xs ! b) < x" | "x < f (xs ! b)" by fastforce
  then show ?thesis
  proof cases
    case 1
    then show ?thesis using b False by (simp add: binary_search_by_key_def b_def [symmetric])
  next
    case 2
    have "f (xs ! j) < x" if "j < Suc b" for j
      using mono [of j] 2 that by (simp add: less_Suc_eq_le le_less_trans)
    then show ?thesis
      using b 2 False by (simp add: binary_search_by_key_def b_def [symmetric] Suc_le_eq)
  next
    case 3
    then have "b = 0" using b(2) by auto
    have "x < f (xs ! j)" if "j < length xs" for j
      using 3 b(3) that \<open>b = 0\<close> by (cases "j = 0") auto
    then show ?thesis
      using 3 False \<open>b = 0\<close> by (auto simp: binary_search_by_key_def b_def [symmetric] Suc_le_eq)
  qed
qed

section \<open>Stable sorting and filtering\<close>

lemma mset_sort_key: "mset (sort_key f xs) = mset xs"
  by simp

lemma mset_eq_lengthD: "mset xs = mset ys \<Longrightarrow> length xs = length ys"
  by (metis size_mset)

lemma mset_eq_setE: "mset xs = mset ys \<Longrightarrow> set xs = set ys"
  by (rule mset_eq_setD)

text \<open>A search for something a list holds at most once does not depend on the order.\<close>

lemma rfind_permuted:
  assumes "mset xs = mset ys" and "\<And>x y. x \<in> set xs \<Longrightarrow> y \<in> set xs \<Longrightarrow> P x \<Longrightarrow> P y \<Longrightarrow> x = y"
  shows "rfind P xs = rfind P ys"
proof (cases "rfind P xs")
  case None
  then show ?thesis using mset_eq_setE [OF assms(1)] by (metis rfind_None_iff)
next
  case (Some x)
  then have x: "x \<in> set xs" "P x" by (auto dest: rfind_SomeD)
  have "rfind P ys = Some x"
    using x assms(2) mset_eq_setE [OF assms(1)] by (intro rfind_unique) auto
  then show ?thesis using Some by simp
qed

section \<open>Successors of keys\<close>

text \<open>
  The successor function of the keys, below the largest key. At the largest key itself it may
  saturate, as \<open>inc_key\<close> of \<open>u64\<close> does.
\<close>

lemma max_version: "(x :: u64) \<le> U64_MAX"
  using unsigned_less [of x, where 'a = nat] by (simp add: word_le_nat_alt)

definition succ_law :: "('k::linorder \<Rightarrow> 'k) \<Rightarrow> 'k \<Rightarrow> bool" where
  "succ_law inc mx \<longleftrightarrow> (\<forall>k < mx. \<forall>j. inc k \<le> j \<longleftrightarrow> k < j) \<and> (\<forall>k \<ge> mx. mx \<le> inc k)"

lemma succ_law_below:
  assumes "succ_law inc mx" and "j < mx"
  shows "inc k \<le> j \<longleftrightarrow> k < j"
  using assms unfolding succ_law_def by (metis leD le_less_linear less_trans order.trans)

lemma succ_law_from: "succ_law inc mx \<Longrightarrow> k < mx \<Longrightarrow> inc k \<le> j \<longleftrightarrow> k < j"
  by (simp add: succ_law_def)

end
