(* ===== verification/Page_Len.thy ===== *)
theory Page_Len
  imports Prelude
begin

text \<open>
  The packed length word of \<^verbatim>\<open>mv_page_model/node.rs\<close> (active entries in the upper sixteen bits,
  dead entries in the lower sixteen), and the contract that the leaf and the internal pages
  share: an entry is written behind the committed ones and becomes visible when the packed
  length is committed. The contract is the locale \<open>append_page\<close>; both pages interpret it.
\<close>

definition active_len :: "u32 \<Rightarrow> u32" where
  "active_len len = drop_bit 16 len"

definition dead_len :: "u32 \<Rightarrow> u32" where
  "dead_len len = len AND 0xFFFF"

definition from_len_sum :: "u32 \<Rightarrow> usize" where
  "from_len_sum len = unat (active_len len + dead_len len)"

definition from_len :: "u32 \<Rightarrow> u32 \<times> u32" where
  "from_len len = (active_len len, dead_len len)"

definition from_active_dead :: "u32 \<Rightarrow> u32 \<Rightarrow> u32" where
  "from_active_dead active dead = push_bit 16 active OR dead"

section \<open>Lemmas on the packed word\<close>

lemma mask16: "(0xFFFF :: u32) = mask 16"
  by (simp add: mask_eq_exp_minus_1)

lemma unat_active_len: "unat (active_len len) = unat len div 65536"
  by (simp add: active_len_def unat_drop_bit_eq drop_bit_eq_div unat_div)

lemma unat_dead_len: "unat (dead_len len) = unat len mod 65536"
proof -
  have "dead_len len = take_bit 16 len"
    unfolding dead_len_def mask16 by (simp add: take_bit_eq_mask)
  then show ?thesis by (simp add: unsigned_take_bit_eq take_bit_eq_mod unat_mod)
qed

lemma active_len_bound: "unat (active_len len) < 65536"
  using unsigned_less [of len, where 'a = nat] by (simp add: unat_active_len)

lemma dead_len_bound: "unat (dead_len len) < 65536"
  by (simp add: unat_dead_len)

lemma from_len_sum_eq: "from_len_sum len = unat (active_len len) + unat (dead_len len)"
  using active_len_bound [of len] dead_len_bound [of len]
  by (simp add: from_len_sum_def unat_word_ariths)

lemma unat_from_active_dead:
  assumes "unat a < 65536" and "unat d < 65536"
  shows "unat (from_active_dead a d) = 65536 * unat a + unat d"
proof -
  have d16: "\<not> bit d n" if "16 \<le> n" for n
  proof -
    have "take_bit 16 (unat d) = unat d" using assms(2) by (simp add: take_bit_nat_eq_self)
    then have "\<not> bit (unat d) n" using that by (metis bit_take_bit_iff not_less)
    then show ?thesis by (auto simp: bit_unsigned_iff dest: bit_imp_le_length)
  qed
  have "push_bit 16 a AND d = 0"
    by (rule bit_word_eqI) (auto simp: bit_and_iff bit_push_bit_iff d16)
  then have "from_active_dead a d = push_bit 16 a + d"
    by (simp add: from_active_dead_def disjunctive_add_eq_or)
  also have "push_bit 16 a = a * 65536" by (simp add: push_bit_eq_mult)
  finally show ?thesis
    using assms by (simp add: unat_word_ariths mult.commute)
qed

lemma active_len_from [simp]:
  "unat a < 65536 \<Longrightarrow> unat d < 65536 \<Longrightarrow> active_len (from_active_dead a d) = a"
  by (rule word_unat_eq_iff [THEN iffD2]) (simp add: unat_active_len unat_from_active_dead)

lemma dead_len_from [simp]:
  "unat a < 65536 \<Longrightarrow> unat d < 65536 \<Longrightarrow> dead_len (from_active_dead a d) = d"
  by (rule word_unat_eq_iff [THEN iffD2]) (simp add: unat_dead_len unat_from_active_dead)

lemma from_active_dead_inverse [simp]: "from_active_dead (active_len len) (dead_len len) = len"
  using active_len_bound [of len] dead_len_bound [of len]
  by (intro word_unat_eq_iff [THEN iffD2])
    (simp add: unat_from_active_dead unat_active_len unat_dead_len)

lemma active_len_0 [simp]: "active_len 0 = 0"
  by (simp add: active_len_def)

lemma dead_len_0 [simp]: "dead_len 0 = 0"
  by (simp add: dead_len_def)

lemma unat_plus_delta:
  fixes x :: u32
  assumes "0 \<le> int (unat x) + d" and "int (unat x) + d < 65536"
  shows "unat (x + word_of_int d) = nat (int (unat x) + d)"
proof -
  have "x + word_of_int d = word_of_int (int (unat x) + d)" by simp
  moreover have "unat (word_of_int k :: u32) = nat (take_bit 32 k)" for k
    by (simp add: unsigned_of_int)
  moreover have "take_bit 32 (int (unat x) + d) = int (unat x) + d"
    using assms by (simp add: take_bit_int_eq_self)
  ultimately show ?thesis by metis
qed

text \<open>The number of (active, dead) entries a length word stands for.\<close>

definition len_counts :: "u32 \<Rightarrow> nat \<times> nat" where
  "len_counts len = (unat (active_len len), unat (dead_len len))"

lemma len_counts_0 [simp]: "len_counts 0 = (0, 0)"
  by (simp add: len_counts_def)

lemma from_len_sum_counts: "from_len_sum len = fst (len_counts len) + snd (len_counts len)"
  by (simp add: len_counts_def from_len_sum_eq)

lemma len_counts_from_active_dead:
  "a < 65536 \<Longrightarrow> d < 65536 \<Longrightarrow> len_counts (from_active_dead (word_of_nat a) (word_of_nat d)) = (a, d)"
  by (simp add: len_counts_def unsigned_of_nat take_bit_nat_eq_self)

lemma len_counts_delta:
  assumes "len_counts len = (a, d)"
    and "0 \<le> int a + da" "int a + da < 65536" "0 \<le> int d + dd" "int d + dd < 65536"
  shows "len_counts (from_active_dead (active_len len + word_of_int da) (dead_len len + word_of_int dd))
    = (nat (int a + da), nat (int d + dd))"
proof -
  have "unat (active_len len + word_of_int da) = nat (int a + da)"
    "unat (dead_len len + word_of_int dd) = nat (int d + dd)"
    using assms by (auto simp: len_counts_def unat_plus_delta)
  then show ?thesis using assms(2-) by (simp add: len_counts_def nat_less_iff)
qed

section \<open>The contract of the append-only pages\<close>

text \<open>
  \<open>stored\<close> is the content of a slot, committed or not; \<open>count\<close> the committed (active, dead)
  entries; \<open>slots\<close> the committed entries.
\<close>

locale append_page =
  fixes stored :: "'pg \<Rightarrow> nat \<Rightarrow> 'e option"
    and cap :: "'pg \<Rightarrow> nat"
    and count :: "'pg \<Rightarrow> nat \<times> nat"
    and slots :: "'pg \<Rightarrow> 'e list option"
    and push :: "'pg \<Rightarrow> 'e \<Rightarrow> nat \<Rightarrow> 'pg option"
    and commit :: "'pg \<Rightarrow> int \<Rightarrow> int \<Rightarrow> 'pg"
  assumes slots_iff: "slots p = Some es \<longleftrightarrow>
      length es = fst (count p) + snd (count p) \<and> length es \<le> cap p
      \<and> (\<forall>i < length es. stored p i = Some (es ! i))"
    and push_inside: "i < cap p \<Longrightarrow> \<exists>p'. push p e i = Some p' \<and> cap p' = cap p
      \<and> count p' = count p \<and> stored p' = (stored p)(i := Some e)"
    and push_outside: "cap p \<le> i \<Longrightarrow> push p e i = None"
    and commit_stored: "stored (commit p da dd) = stored p"
    and commit_cap: "cap (commit p da dd) = cap p"
    and commit_count: "count p = (a, d) \<Longrightarrow> 0 \<le> int a + da \<Longrightarrow> int a + da < 65536 \<Longrightarrow>
      0 \<le> int d + dd \<Longrightarrow> int d + dd < 65536 \<Longrightarrow>
      count (commit p da dd) = (nat (int a + da), nat (int d + dd))"
begin

lemma push_invisible:
  assumes "slots p = Some es" and "length es \<le> i" and "push p e i = Some p'"
  shows "slots p' = Some es"
proof -
  have "i < cap p" using assms(3) push_outside [of p i e] by (cases "i < cap p") auto
  then have "cap p' = cap p" "count p' = count p" "stored p' = (stored p)(i := Some e)"
    using push_inside [of i p e] assms(3) by auto
  then show ?thesis using assms(1,2) by (auto simp: slots_iff)
qed

lemma append_one:
  assumes "slots p = Some es" and "count p = (a, d)" and "length es < cap p" and "cap p < 65536"
    and "0 \<le> int a + da" and "0 \<le> int d + dd" and "da + dd = 1"
  shows "\<exists>p'. push p e (length es) = Some p' \<and> slots (commit p' da dd) = Some (es @ [e])
    \<and> count (commit p' da dd) = (nat (int a + da), nat (int d + dd))
    \<and> cap (commit p' da dd) = cap p"
proof -
  obtain p' where p': "push p e (length es) = Some p'" "cap p' = cap p" "count p' = count p"
    "stored p' = (stored p)(length es := Some e)"
    using push_inside [OF assms(3)] by blast
  have len: "length es = a + d" using assms(1,2) by (simp add: slots_iff)
  have cnt: "count (commit p' da dd) = (nat (int a + da), nat (int d + dd))"
    using assms len p'(3) by (intro commit_count) auto
  have "slots (commit p' da dd) = Some (es @ [e])"
    using assms p' cnt len
    by (auto simp: slots_iff commit_stored commit_cap nth_append less_Suc_eq)
  then show ?thesis using p' cnt by (auto simp: commit_cap)
qed

lemma append_two:
  assumes "slots p = Some es" and "count p = (a, d)" and "Suc (length es) < cap p" and "cap p < 65536"
    and "0 \<le> int a + da" and "0 \<le> int d + dd" and "da + dd = 2"
  shows "\<exists>p1 p2. push p e1 (length es) = Some p1 \<and> push p1 e2 (Suc (length es)) = Some p2
    \<and> slots (commit p2 da dd) = Some (es @ [e1, e2])
    \<and> count (commit p2 da dd) = (nat (int a + da), nat (int d + dd))
    \<and> cap (commit p2 da dd) = cap p"
proof -
  obtain p1 where p1: "push p e1 (length es) = Some p1" "cap p1 = cap p" "count p1 = count p"
    "stored p1 = (stored p)(length es := Some e1)"
    using push_inside [of "length es" p e1] assms(3) by auto
  obtain p2 where p2: "push p1 e2 (Suc (length es)) = Some p2" "cap p2 = cap p" "count p2 = count p"
    "stored p2 = (stored p1)(Suc (length es) := Some e2)"
    using push_inside [of "Suc (length es)" p1 e2] assms(3) p1 by auto
  have len: "length es = a + d" using assms(1,2) by (simp add: slots_iff)
  have cnt: "count (commit p2 da dd) = (nat (int a + da), nat (int d + dd))"
    using assms len p2(3) by (intro commit_count) auto
  have "slots (commit p2 da dd) = Some (es @ [e1, e2])"
    using assms p1 p2 cnt len
    by (auto simp: slots_iff commit_stored commit_cap nth_append nth_Cons less_Suc_eq split: nat.splits)
  then show ?thesis using p1 p2 cnt by (auto simp: commit_cap)
qed

end

section \<open>Properties\<close>

text \<open>
  C29: packing and unpacking the length word are inverse as long as both counts fit sixteen
  bits, the sum is the number of entries, and every length word is the packing of its parts.
\<close>

theorem page_len_roundtrip:
  assumes "unat active < 65536" and "unat dead < 65536"
  shows "from_len (from_active_dead active dead) = (active, dead)
    \<and> from_len_sum (from_active_dead active dead) = unat active + unat dead
    \<and> from_active_dead (fst (from_len len)) (snd (from_len len)) = len"
  using assms by (simp add: from_len_def from_len_sum_eq)

theorem page_len_roundtrip_witness:
  "from_len (from_active_dead 100 25) = (100, 25) \<and> from_len_sum (from_active_dead 100 25) = 125"
  using page_len_roundtrip [of 100 25 0] by simp

end
