(* ===== verification/Version_Info.thy ===== *)
theory Version_Info
  imports Prelude
begin

text \<open>
  \<^verbatim>\<open>mv_record_model/version_info.rs\<close>, \<^verbatim>\<open>mv_page_model/time_matcher.rs\<close> and
  \<^verbatim>\<open>mv_record_model/record_point.rs\<close>: the lifespan of a record (an insertion version and a
  deletion version whose top bit says that it is set), the obsolete mark in the top bit of
  the versions of an internal page, and the records themselves.
\<close>

type_synonym version = u64
type_synonym snapshot = u64

section \<open>Deletion versions and lifespans\<close>

datatype deleted_version = DeletedVersion version

definition NON_NULL_FLAG :: version where
  "NON_NULL_FLAG = 0x8000000000000000"

definition NULL_FLAG :: version where
  "NULL_FLAG = 0"

definition EXTRACTOR :: version where
  "EXTRACTOR = 0x7FFFFFFFFFFFFFFF"

definition deleted_new_null :: deleted_version where
  "deleted_new_null = DeletedVersion NULL_FLAG"

definition deleted_new :: "version \<Rightarrow> deleted_version" where
  "deleted_new del_version = DeletedVersion (del_version OR NON_NULL_FLAG)"

fun deleted_get :: "deleted_version \<Rightarrow> version option" where
  "deleted_get (DeletedVersion v) =
     (if v AND NON_NULL_FLAG = 0 then None else Some (v AND EXTRACTOR))"

record version_info =
  insert_version :: version
  delete_version :: deleted_version

definition version_info_new :: "version \<Rightarrow> version_info" where
  "version_info_new v = \<lparr>insert_version = v, delete_version = deleted_new_null\<rparr>"

definition version_info_from :: "version \<Rightarrow> version \<Rightarrow> version_info" where
  "version_info_from ins del = \<lparr>insert_version = ins, delete_version = deleted_new del\<rparr>"

definition matches :: "version_info \<Rightarrow> version \<Rightarrow> bool" where
  "matches self v \<longleftrightarrow> insert_version self \<le> v
     \<and> (case deleted_get (delete_version self) of Some del \<Rightarrow> v < del | None \<Rightarrow> True)"

definition deletion_version :: "version_info \<Rightarrow> version option" where
  "deletion_version self = deleted_get (delete_version self)"

definition is_deleted :: "version_info \<Rightarrow> bool" where
  "is_deleted self \<longleftrightarrow> deleted_get (delete_version self) \<noteq> None"

definition vi_delete :: "version_info \<Rightarrow> version \<Rightarrow> version_info \<times> bool" where
  "vi_delete self del =
     (if is_deleted self then (self, False)
      else (self\<lparr>delete_version := deleted_new del\<rparr>, True))"

definition undelete :: "version_info \<Rightarrow> version_info" where
  "undelete self = self\<lparr>delete_version := deleted_new_null\<rparr>"

section \<open>The obsolete mark of page versions\<close>

definition OBSOLETE_VERSION_MARK :: version where
  "OBSOLETE_VERSION_MARK = 0x8000000000000000"

definition into_cmp :: "version \<Rightarrow> version" where
  "into_cmp self = self AND NOT OBSOLETE_VERSION_MARK"

definition match_version_active :: "version \<Rightarrow> version \<Rightarrow> bool" where
  "match_version_active self other \<longleftrightarrow> self \<le> other"

definition lt_self_any :: "version \<Rightarrow> version \<Rightarrow> bool" where
  "lt_self_any self other \<longleftrightarrow> self AND NOT OBSOLETE_VERSION_MARK < other"

definition is_obsolete :: "version \<Rightarrow> bool" where
  "is_obsolete self \<longleftrightarrow> self AND OBSOLETE_VERSION_MARK \<noteq> 0"

definition is_active :: "version \<Rightarrow> bool" where
  "is_active self \<longleftrightarrow> self AND OBSOLETE_VERSION_MARK = 0"

definition matched :: "version \<Rightarrow> version \<Rightarrow> bool" where
  "matched self other \<longleftrightarrow> self AND NOT OBSOLETE_VERSION_MARK \<le> other"

section \<open>Records\<close>

record ('k, 'p) record_point =
  r_key :: 'k
  r_version :: version_info
  r_payload :: 'p

record ('k, 'p) record_point_result =
  res_key :: 'k
  res_payload :: 'p

definition record_point_new :: "'k \<Rightarrow> version_info \<Rightarrow> 'p \<Rightarrow> ('k, 'p) record_point" where
  "record_point_new k v p = \<lparr>r_key = k, r_version = v, r_payload = p\<rparr>"

definition record_point_result_from :: "('k, 'p) record_point \<Rightarrow> ('k, 'p) record_point_result" where
  "record_point_result_from r = \<lparr>res_key = r_key r, res_payload = r_payload r\<rparr>"

abbreviation live :: "('k, 'p) record_point \<Rightarrow> bool" where
  "live r \<equiv> \<not> is_deleted (r_version r)"

abbreviation r_insert :: "('k, 'p) record_point \<Rightarrow> version" where
  "r_insert r \<equiv> insert_version (r_version r)"

section \<open>Bit lemmas for the top bit\<close>

abbreviation VERSION_LIMIT :: version where
  "VERSION_LIMIT \<equiv> 0x8000000000000000"

lemma top_bit_iff: "bit (0x8000000000000000 :: u64) n \<longleftrightarrow> n = 63"
proof -
  have eq: "(0x8000000000000000 :: u64) = push_bit 63 1" by (simp add: push_bit_eq_mult)
  have "bit (push_bit 63 (1 :: u64)) n \<longleftrightarrow> n = 63"
    unfolding bit_push_bit_iff bit_1_iff by auto
  then show ?thesis by (simp only: eq)
qed

lemma low_bits_iff: "bit (0x7FFFFFFFFFFFFFFF :: u64) n \<longleftrightarrow> n < 63"
proof -
  have eq: "(0x7FFFFFFFFFFFFFFF :: u64) = mask 63" by (simp add: mask_eq_exp_minus_1)
  have "bit (mask 63 :: u64) n \<longleftrightarrow> n < 63"
    unfolding bit_mask_iff by auto
  then show ?thesis by (simp only: eq)
qed

lemma bit_NON_NULL_FLAG [simp]: "bit NON_NULL_FLAG n \<longleftrightarrow> n = 63"
  unfolding NON_NULL_FLAG_def by (rule top_bit_iff)

lemma bit_EXTRACTOR [simp]: "bit EXTRACTOR n \<longleftrightarrow> n < 63"
  unfolding EXTRACTOR_def by (rule low_bits_iff)

lemma bit_OBSOLETE_VERSION_MARK [simp]: "bit OBSOLETE_VERSION_MARK n \<longleftrightarrow> n = 63"
  unfolding OBSOLETE_VERSION_MARK_def by (rule top_bit_iff)

lemma below_limit_iff: "(v :: u64) < VERSION_LIMIT \<longleftrightarrow> \<not> bit v 63"
proof
  assume "v < VERSION_LIMIT"
  then have "unat v < 2 ^ 63" by (simp add: word_less_nat_alt)
  then have "drop_bit 63 (unat v) = 0" by (simp add: drop_bit_eq_div)
  then have "\<not> bit (unat v) 63" by (simp add: bit_iff_odd_drop_bit)
  then show "\<not> bit v 63" by (simp add: bit_unsigned_iff)
next
  assume "\<not> bit v 63"
  then have "take_bit 63 v = v"
    by (intro bit_word_eqI) (auto simp: bit_take_bit_iff less_Suc_eq numeral_eq_Suc)
  then have "unat v = take_bit 63 (unat v)"
    by (metis unsigned_take_bit_eq)
  also have "\<dots> < 2 ^ 63" by (rule take_bit_nat_less_exp)
  finally show "v < VERSION_LIMIT" by (simp add: word_less_nat_alt)
qed

lemma extractor_or_flag [simp]:
  assumes "v < VERSION_LIMIT"
  shows "(v OR NON_NULL_FLAG) AND EXTRACTOR = v"
proof (rule bit_word_eqI)
  fix n assume "n < LENGTH(64)"
  then have "n < 63 \<or> n = 63" by auto
  moreover have "\<not> bit v 63" using assms unfolding below_limit_iff .
  ultimately show "bit ((v OR NON_NULL_FLAG) AND EXTRACTOR) n = bit v n"
    by (auto simp: bit_and_iff bit_or_iff)
qed

lemma or_flag_and_flag [simp]: "(v OR NON_NULL_FLAG) AND NON_NULL_FLAG \<noteq> 0"
proof
  assume "(v OR NON_NULL_FLAG) AND NON_NULL_FLAG = 0"
  then have "\<not> bit ((v OR NON_NULL_FLAG) AND NON_NULL_FLAG) 63" by (simp only: bit_0_eq) simp
  then show False by (simp only: bit_and_iff bit_or_iff bit_NON_NULL_FLAG) simp
qed

lemma into_cmp_below [simp]:
  assumes "v < VERSION_LIMIT"
  shows "v AND NOT OBSOLETE_VERSION_MARK = v"
proof (rule bit_word_eqI)
  fix n assume "n < LENGTH(64)"
  moreover have "\<not> bit v 63" using assms unfolding below_limit_iff .
  ultimately show "bit (v AND NOT OBSOLETE_VERSION_MARK) n = bit v n"
    by (auto simp: bit_and_iff bit_not_iff)
qed

lemma into_cmp_mark [simp]:
  "(v OR OBSOLETE_VERSION_MARK) AND NOT OBSOLETE_VERSION_MARK = v AND NOT OBSOLETE_VERSION_MARK"
  by (rule bit_word_eqI) (auto simp: bit_and_iff bit_or_iff bit_not_iff)

lemma is_active_iff: "is_active v \<longleftrightarrow> v < VERSION_LIMIT"
proof -
  have "v AND OBSOLETE_VERSION_MARK = 0 \<longleftrightarrow> \<not> bit v 63"
  proof
    assume "v AND OBSOLETE_VERSION_MARK = 0"
    then have "\<not> bit (v AND OBSOLETE_VERSION_MARK) 63" by simp
    then show "\<not> bit v 63" by (simp add: bit_and_iff)
  next
    assume "\<not> bit v 63"
    then show "v AND OBSOLETE_VERSION_MARK = 0"
      by (intro bit_word_eqI) (auto simp: bit_and_iff)
  qed
  then show ?thesis by (simp only: is_active_def below_limit_iff)
qed

lemma is_obsolete_not_active: "is_obsolete v = (\<not> is_active v)"
  by (simp add: is_obsolete_def is_active_def)

lemma not_active_marked [simp]: "\<not> is_active (v OR OBSOLETE_VERSION_MARK)"
  by (simp only: is_active_iff below_limit_iff bit_or_iff bit_OBSOLETE_VERSION_MARK) simp

lemma matched_marked [simp]: "matched (v OR OBSOLETE_VERSION_MARK) u = matched v u"
  by (simp add: matched_def)

lemma into_cmp_marked [simp]: "into_cmp (v OR OBSOLETE_VERSION_MARK) = into_cmp v"
  by (simp add: into_cmp_def)

lemma matched_below: "v < VERSION_LIMIT \<Longrightarrow> matched v u \<longleftrightarrow> v \<le> u"
  by (simp add: matched_def)

text \<open>The next version does not wrap around.\<close>

lemma version_step: "w < VERSION_LIMIT \<Longrightarrow> w < w + 1"
  by (simp add: word_less_nat_alt unat_word_ariths)

lemma version_le_step: "w < VERSION_LIMIT \<Longrightarrow> v < w + 1 \<longleftrightarrow> v \<le> w"
  by (simp add: word_less_nat_alt word_le_nat_alt unat_word_ariths) linarith

section \<open>Lemmas on lifespans\<close>

lemma deleted_get_null [simp]: "deleted_get deleted_new_null = None"
  by (simp add: deleted_new_null_def NULL_FLAG_def)

lemma deleted_get_new [simp]: "d < VERSION_LIMIT \<Longrightarrow> deleted_get (deleted_new d) = Some d"
  unfolding deleted_new_def deleted_get.simps by (simp only: or_flag_and_flag extractor_or_flag) simp

lemma deleted_get_new_Some: "deleted_get (deleted_new d) \<noteq> None"
  unfolding deleted_new_def deleted_get.simps by (simp only: or_flag_and_flag) simp

lemma is_deleted_new [simp]: "\<not> is_deleted (version_info_new v)"
  by (simp add: is_deleted_def version_info_new_def)

lemma insert_version_new [simp]: "insert_version (version_info_new v) = v"
  by (simp add: version_info_new_def)

lemma matches_live: "\<not> is_deleted i \<Longrightarrow> matches i v \<longleftrightarrow> insert_version i \<le> v"
  by (auto simp: matches_def is_deleted_def)

lemma matches_imp_insert_le: "matches i v \<Longrightarrow> insert_version i \<le> v"
  by (simp add: matches_def)

lemma is_deleted_after_delete [simp]: "is_deleted (fst (vi_delete i d))"
  using deleted_get_new_Some [of d] by (auto simp: vi_delete_def is_deleted_def)

lemma insert_version_delete [simp]: "insert_version (fst (vi_delete i d)) = insert_version i"
  by (simp add: vi_delete_def)

lemma matches_delete:
  assumes "\<not> is_deleted i" and "d < VERSION_LIMIT"
  shows "matches (fst (vi_delete i d)) v \<longleftrightarrow> insert_version i \<le> v \<and> v < d"
  using assms by (simp add: vi_delete_def matches_def)

lemma matches_delete_before:
  assumes "d < VERSION_LIMIT" and "v < d"
  shows "matches (fst (vi_delete i d)) v = matches i v"
  using assms by (auto simp: vi_delete_def matches_def is_deleted_def)

section \<open>Properties\<close>

text \<open>
  C27: a lifespan built from an insertion version and a deletion version below \<open>2^63\<close> gives
  the deletion version back, matches exactly the versions from the insertion (inclusive) to the
  deletion (exclusive), and a record that is not deleted matches every version from its
  insertion on.
\<close>

theorem version_info_lifespan:
  assumes "del < VERSION_LIMIT"
  shows "deletion_version (version_info_from ins del) = Some del
    \<and> (matches (version_info_from ins del) v \<longleftrightarrow> ins \<le> v \<and> v < del)
    \<and> deletion_version (version_info_new ins) = None
    \<and> (matches (version_info_new ins) v \<longleftrightarrow> ins \<le> v)"
  using assms
  by (simp add: deletion_version_def version_info_from_def version_info_new_def matches_def)

theorem version_info_lifespan_witness:
  "(9 :: u64) < VERSION_LIMIT \<and> matches (version_info_from 4 9) 8 \<and> \<not> matches (version_info_from 4 9) 9"
  using version_info_lifespan [of 9 4 8] version_info_lifespan [of 9 4 9] by simp

text \<open>
  C26: deleting a live lifespan sets the deletion version once: the first deletion succeeds,
  keeps every earlier snapshot's view of the record and hides it from the deletion version on;
  a second deletion reports failure and changes nothing; \<open>undelete\<close> restores the lifespan.
\<close>

theorem vi_delete_once:
  assumes "\<not> is_deleted i" and "d < VERSION_LIMIT"
  shows "snd (vi_delete i d)
    \<and> (v < d \<longrightarrow> matches (fst (vi_delete i d)) v = matches i v)
    \<and> (d \<le> v \<longrightarrow> \<not> matches (fst (vi_delete i d)) v)
    \<and> vi_delete (fst (vi_delete i d)) d' = (fst (vi_delete i d), False)
    \<and> (delete_version i = deleted_new_null \<longrightarrow> undelete (fst (vi_delete i d)) = i)"
proof -
  have "vi_delete (fst (vi_delete i d)) d' = (fst (vi_delete i d), False)"
    by (simp add: vi_delete_def [of "fst (vi_delete i d)"])
  moreover have "undelete (fst (vi_delete i d)) = i" if "delete_version i = deleted_new_null"
    using that assms by (simp add: vi_delete_def undelete_def)
  moreover have "snd (vi_delete i d)" using assms by (simp add: vi_delete_def)
  ultimately show ?thesis
    using assms matches_delete [OF assms, of v] matches_delete_before [OF assms(2), of v i] by auto
qed

theorem vi_delete_once_witness:
  "\<not> is_deleted (version_info_new 4) \<and> snd (vi_delete (version_info_new 4) 9)
    \<and> matches (fst (vi_delete (version_info_new 4) 9)) 8
    \<and> undelete (fst (vi_delete (version_info_new 4) 9)) = version_info_new 4"
proof -
  have h: "\<not> is_deleted (version_info_new 4)" "(9 :: u64) < VERSION_LIMIT" by simp_all
  have "matches (version_info_new 4) 8" by (simp add: matches_live)
  moreover have "delete_version (version_info_new 4) = deleted_new_null"
    by (simp add: version_info_new_def)
  ultimately show ?thesis using vi_delete_once [OF h, of 8] h by simp
qed

text \<open>
  C28: marking a page version obsolete changes only whether the entry is active: the masked
  version, and so which snapshots match the entry, stays the same, and versions below
  \<open>2^63\<close> are active and compare as plain numbers.
\<close>

theorem obsolete_mark_keeps_matching:
  "matched (v OR OBSOLETE_VERSION_MARK) u = matched v u
    \<and> into_cmp (v OR OBSOLETE_VERSION_MARK) = into_cmp v
    \<and> is_obsolete (v OR OBSOLETE_VERSION_MARK)
    \<and> (is_active v \<longleftrightarrow> v < VERSION_LIMIT)
    \<and> (if is_active v then matched v u = match_version_active v u else is_obsolete v)"
  by (simp add: is_obsolete_not_active matched_below match_version_active_def flip: is_active_iff)

end
