(* ===== verification/Leaf_Page.thy ===== *)
theory Leaf_Page
  imports Page_Len Version_Info
begin

text \<open>
  \<^verbatim>\<open>mv_page_model/leaf_page.rs\<close>: a leaf is the packed length word and a fixed array of
  \<open>NUM_RECORDS\<close> record slots. Records are only ever appended; a deletion sets the deletion
  version of a record in place and moves one unit from the active to the dead count.
\<close>

record ('k, 'p) leaf_page =
  l_len :: u32
  record_data :: "('k, 'p) record_point option list"

definition leaf_new :: "nat \<Rightarrow> ('k, 'p) leaf_page" where
  "leaf_new num_records = \<lparr>l_len = 0, record_data = array_uninit num_records\<rparr>"

definition leaf_len :: "('k, 'p) leaf_page \<Rightarrow> usize" where
  "leaf_len p = from_len_sum (l_len p)"

definition as_records :: "('k, 'p) leaf_page \<Rightarrow> ('k, 'p) record_point list option" where
  "as_records p = raw_slice (record_data p) (leaf_len p)"

definition leaf_is_empty :: "('k, 'p) leaf_page \<Rightarrow> bool" where
  "leaf_is_empty p \<longleftrightarrow> leaf_len p = 0"

definition leaf_is_full :: "('k, 'p) leaf_page \<Rightarrow> bool" where
  "leaf_is_full p \<longleftrightarrow> leaf_len p = length (record_data p)"

definition leaf_active_dead_count :: "('k, 'p) leaf_page \<Rightarrow> u32 \<times> u32" where
  "leaf_active_dead_count p = from_len (l_len p)"

text \<open>\<open>LeafPage::from\<close> (and \<open>Clone\<close>): copy the committed records and the counts into a new page.\<close>

definition leaf_from :: "('k, 'p) leaf_page \<Rightarrow> ('k, 'p) leaf_page option" where
  "leaf_from p = do {
     rs \<leftarrow> as_records p;
     let new_page = leaf_new (length (record_data p));
     xs \<leftarrow> array_write_list (record_data new_page) 0 rs;
     let (active, dead) = leaf_active_dead_count p;
     Some (new_page\<lparr>l_len := from_active_dead active dead, record_data := xs\<rparr>)
   }"

definition leaf_push_uncommitted ::
    "('k, 'p) leaf_page \<Rightarrow> ('k, 'p) record_point \<Rightarrow> usize \<Rightarrow> ('k, 'p) leaf_page option" where
  "leaf_push_uncommitted p r i = do {
     xs \<leftarrow> array_write (record_data p) i r;
     Some (p\<lparr>record_data := xs\<rparr>)
   }"

definition leaf_commit_delta :: "('k, 'p) leaf_page \<Rightarrow> int \<Rightarrow> int \<Rightarrow> ('k, 'p) leaf_page" where
  "leaf_commit_delta p active_delta dead_delta =
     (let len = l_len p;
          active = active_len len + word_of_int active_delta;
          dead = dead_len len + word_of_int dead_delta
      in p\<lparr>l_len := from_active_dead active dead\<rparr>)"

text \<open>\<open>drop_in_place\<close> leaves the slot without a value.\<close>

definition leaf_undo_uncommitted :: "('k, 'p) leaf_page \<Rightarrow> usize \<Rightarrow> ('k, 'p) leaf_page option" where
  "leaf_undo_uncommitted p i = do {
     _ \<leftarrow> array_read (record_data p) i;
     Some (p\<lparr>record_data := (record_data p)[i := None]\<rparr>)
   }"

definition leaf_on_reuse :: "('k, 'p) leaf_page \<Rightarrow> ('k, 'p) leaf_page option" where
  "leaf_on_reuse p = do {
     let len = leaf_len p;
     _ \<leftarrow> raw_slice (record_data p) len;
     Some (p\<lparr>l_len := 0, record_data := replicate len None @ drop len (record_data p)\<rparr>)
   }"

text \<open>\<open>bulk_push\<close> and \<open>bulk_push_from_slice_ref\<close> differ only in how they are handed the records.\<close>

definition leaf_bulk_push ::
    "('k, 'p) leaf_page \<Rightarrow> ('k, 'p) record_point list \<Rightarrow> ('k, 'p) leaf_page option" where
  "leaf_bulk_push p records = do {
     let len = leaf_len p;
     xs \<leftarrow> array_write_list (record_data p) len records;
     Some (p\<lparr>record_data := xs,
             l_len := from_active_dead (word_of_nat len + word_of_nat (length records)) 0\<rparr>)
   }"

text \<open>
  \<open>delete\<close> and \<open>delete_after_update\<close>: \<open>Ok(None)\<close> no record with the key, \<open>Err(())\<close> it is
  already deleted, \<open>Ok(Some(info))\<close> its deletion version has been set. The second searches
  behind the newest record.
\<close>

definition leaf_delete_at ::
    "('k, 'p) leaf_page \<Rightarrow> ('k, 'p) record_point list \<Rightarrow> usize option \<Rightarrow> version
       \<Rightarrow> ('k, 'p) leaf_page \<times> (unit + version_info option)" where
  "leaf_delete_at p rs found del =
     (case found of
        None \<Rightarrow> (p, Inr None)
      | Some i \<Rightarrow>
          (let r = rs ! i; (ver_info, ok) = vi_delete (r_version r) del in
           if ok then
             (p\<lparr>record_data := (record_data p)[i := Some (r\<lparr>r_version := ver_info\<rparr>)]\<rparr>,
              Inr (Some ver_info))
           else (p, Inl ())))"

definition leaf_delete ::
    "('k, 'p) leaf_page \<Rightarrow> 'k \<Rightarrow> version \<Rightarrow> (('k, 'p) leaf_page \<times> (unit + version_info option)) option" where
  "leaf_delete p key del = do {
     rs \<leftarrow> as_records p;
     Some (leaf_delete_at p rs (rfind_index (\<lambda>r. r_key r = key) rs) del)
   }"

definition leaf_delete_after_update ::
    "('k, 'p) leaf_page \<Rightarrow> 'k \<Rightarrow> version \<Rightarrow> (('k, 'p) leaf_page \<times> (unit + version_info option)) option" where
  "leaf_delete_after_update p key del = do {
     rs \<leftarrow> as_records p;
     Some (leaf_delete_at p rs (rfind_index (\<lambda>r. r_key r = key) (butlast rs)) del)
   }"

section \<open>The page contract\<close>

lemma array_read_write:
  "i < length xs \<Longrightarrow> array_read (xs[i := Some e]) = (array_read xs)(i := Some e)"
  by (rule ext) (simp add: array_read_def)

lemma raw_slice_stored:
  "raw_slice xs n = Some es \<longleftrightarrow>
     length es = n \<and> length es \<le> length xs \<and> (\<forall>i < length es. array_read xs i = Some (es ! i))"
proof
  assume a: "raw_slice xs n = Some es"
  note len = raw_slice_length [OF a]
  show "length es = n \<and> length es \<le> length xs \<and> (\<forall>i < length es. array_read xs i = Some (es ! i))"
    using a len by (auto simp: array_read_raw_slice [OF a] raw_slice_Some_iff)
next
  assume b: "length es = n \<and> length es \<le> length xs \<and> (\<forall>i < length es. array_read xs i = Some (es ! i))"
  have "take n xs = map Some es"
    using b by (intro nth_equalityI) (auto simp: array_read_def split: if_splits)
  then show "raw_slice xs n = Some es" using b by (simp add: raw_slice_Some_iff)
qed

interpretation lp: append_page
  "\<lambda>p. array_read (record_data p)" "\<lambda>p. length (record_data p)" "\<lambda>p. len_counts (l_len p)"
  as_records leaf_push_uncommitted leaf_commit_delta
proof (unfold_locales, goal_cases)
  case (1 p es)
  then show ?case by (auto simp: as_records_def leaf_len_def raw_slice_stored from_len_sum_counts)
next
  case (2 i p e)
  then show ?case by (simp add: leaf_push_uncommitted_def array_read_write)
next
  case (3 p i e)
  then show ?case by (simp add: leaf_push_uncommitted_def array_write_def)
next
  case (4 p da dd)
  then show ?case by (simp add: leaf_commit_delta_def Let_def)
next
  case (5 p da dd)
  then show ?case by (simp add: leaf_commit_delta_def Let_def)
next
  case (6 p a d da dd)
  then show ?case by (simp add: leaf_commit_delta_def Let_def len_counts_delta)
qed

section \<open>Well-formed leaves\<close>

text \<open>
  \<open>leaf_view p rs\<close>: the committed records of \<open>p\<close> are \<open>rs\<close>, the packed counts agree with the
  live and the deleted records among them, and the capacity fits the packed counts.
\<close>

definition leaf_view :: "('k, 'p) leaf_page \<Rightarrow> ('k, 'p) record_point list \<Rightarrow> bool" where
  "leaf_view p rs \<longleftrightarrow> as_records p = Some rs
     \<and> len_counts (l_len p) = (length (filter live rs), length (filter (\<lambda>r. \<not> live r) rs))
     \<and> length (record_data p) < 65536"

abbreviation leaf_cap :: "('k, 'p) leaf_page \<Rightarrow> nat" where
  "leaf_cap p \<equiv> length (record_data p)"

lemma leaf_view_as_records [page_simps]: "leaf_view p rs \<Longrightarrow> as_records p = Some rs"
  by (simp add: leaf_view_def)

lemma leaf_view_length [page_simps]: "leaf_view p rs \<Longrightarrow> leaf_len p = length rs"
  by (auto simp: leaf_view_def as_records_def dest: raw_slice_length)

lemma leaf_view_cap: "leaf_view p rs \<Longrightarrow> length rs \<le> leaf_cap p"
  by (auto simp: leaf_view_def as_records_def raw_slice_stored)

lemma leaf_view_new: "n < 65536 \<Longrightarrow> leaf_view (leaf_new n) []"
  by (simp add: leaf_view_def leaf_new_def as_records_def leaf_len_def from_len_sum_counts)

lemma leaf_view_counts:
  "leaf_view p rs \<Longrightarrow> unat (fst (leaf_active_dead_count p)) = length (filter live rs)
     \<and> unat (snd (leaf_active_dead_count p)) = length (filter (\<lambda>r. \<not> live r) rs)"
  by (simp add: leaf_view_def leaf_active_dead_count_def from_len_def len_counts_def)

lemma leaf_view_insert:
  assumes "leaf_view p rs" and "length rs < leaf_cap p" and "live r"
  shows "\<exists>p'. leaf_push_uncommitted p r (length rs) = Some p'
    \<and> leaf_view (leaf_commit_delta p' 1 0) (rs @ [r]) \<and> leaf_cap (leaf_commit_delta p' 1 0) = leaf_cap p"
proof -
  have "\<exists>p'. leaf_push_uncommitted p r (length rs) = Some p'
    \<and> as_records (leaf_commit_delta p' 1 0) = Some (rs @ [r])
    \<and> len_counts (l_len (leaf_commit_delta p' 1 0)) =
        (nat (int (length (filter live rs)) + 1), nat (int (length (filter (\<lambda>r. \<not> live r) rs)) + 0))
    \<and> leaf_cap (leaf_commit_delta p' 1 0) = leaf_cap p"
    using assms by (intro lp.append_one) (auto simp: leaf_view_def)
  then show ?thesis using assms by (auto simp: leaf_view_def nat_add_distrib)
qed

lemma leaf_view_bulk_push:
  assumes "leaf_view p []" and "length rs \<le> leaf_cap p" and "\<forall>r \<in> set rs. live r"
  shows "\<exists>p'. leaf_bulk_push p rs = Some p' \<and> leaf_view p' rs \<and> leaf_cap p' = leaf_cap p"
proof -
  have len: "leaf_len p = 0" using leaf_view_length [OF assms(1)] by simp
  have cap: "leaf_cap p < 65536" using assms(1) by (simp add: leaf_view_def)
  obtain xs where xs: "array_write_list (record_data p) 0 rs = Some xs"
    "length xs = leaf_cap p" "raw_slice xs (length rs) = Some rs"
    using array_write_list_ok [of "record_data p" 0 "[]" rs] assms(2) by auto
  have "filter live rs = rs" "filter (\<lambda>r. \<not> live r) rs = []"
    using assms(3) by (simp_all add: filter_id_conv filter_empty_conv)
  moreover have "len_counts (from_active_dead (word_of_nat (length rs)) 0) = (length rs, 0)"
    using len_counts_from_active_dead [of "length rs" 0] assms(2) cap by simp
  ultimately show ?thesis
    using xs len cap
    by (simp add: leaf_bulk_push_def leaf_view_def as_records_def leaf_len_def from_len_sum_counts)
qed

text \<open>Setting one record's deletion version: the records and, after the commit, the counts.\<close>

definition kill :: "version \<Rightarrow> ('k, 'p) record_point \<Rightarrow> ('k, 'p) record_point" where
  "kill del r = r\<lparr>r_version := fst (vi_delete (r_version r) del)\<rparr>"

lemma kill_simps [simp]:
  "r_key (kill d r) = r_key r" "r_insert (kill d r) = r_insert r" "\<not> live (kill d r)"
  "r_payload (kill d r) = r_payload r"
  by (simp_all add: kill_def)

lemma leaf_delete_at_live:
  assumes "live (rs ! i)"
  shows "leaf_delete_at p rs (Some i) del =
    (p\<lparr>record_data := (record_data p)[i := Some (kill del (rs ! i))]\<rparr>,
     Inr (Some (r_version (kill del (rs ! i)))))"
  using assms by (simp add: leaf_delete_at_def vi_delete_def kill_def Let_def)

lemma leaf_delete_at_dead: "\<not> live (rs ! i) \<Longrightarrow> leaf_delete_at p rs (Some i) del = (p, Inl ())"
  by (simp add: leaf_delete_at_def vi_delete_def)

lemma length_filter_update:
  assumes "i < length xs" "P (xs ! i)" "\<not> P y"
  shows "length (filter P (xs[i := y])) = length (filter P xs) - 1"
    and "0 < length (filter P xs)"
proof -
  have xs: "xs = take i xs @ xs ! i # drop (Suc i) xs" using assms(1) by (simp add: id_take_nth_drop)
  have "xs[i := y] = take i xs @ y # drop (Suc i) xs" using assms(1) by (simp add: upd_conv_take_nth_drop)
  then show "length (filter P (xs[i := y])) = length (filter P xs) - 1"
    using assms(2,3) by (subst (2) xs) simp
  show "0 < length (filter P xs)" using assms(2) by (subst xs) simp
qed

lemma leaf_view_kill:
  assumes "leaf_view p rs" and "i < length rs" and "live (rs ! i)"
  shows "leaf_view (leaf_commit_delta (p\<lparr>record_data := (record_data p)[i := Some (kill del (rs ! i))]\<rparr>) (-1) 1)
     (rs[i := kill del (rs ! i)])"
proof -
  define a d where "a = length (filter live rs)" and "d = length (filter (\<lambda>r. \<not> live r) rs)"
  define q where "q = p\<lparr>record_data := (record_data p)[i := Some (kill del (rs ! i))]\<rparr>"
  define rs' where "rs' = rs[i := kill del (rs ! i)]"
  have cnt: "len_counts (l_len q) = (a, d)" and cap: "leaf_cap q < 65536"
    using assms(1) by (simp_all add: leaf_view_def a_def d_def q_def)
  have sum: "a + d = length rs" using sum_length_filter_compl [of live rs] by (simp add: a_def d_def)
  have "length rs \<le> leaf_cap p" by (rule leaf_view_cap [OF assms(1)])
  moreover have "0 < a" "length (filter live rs') = a - 1"
    using length_filter_update [of i rs live "kill del (rs ! i)"] assms(2,3)
    by (simp_all add: a_def rs'_def)
  moreover have "length (filter live rs') + length (filter (\<lambda>r. \<not> live r) rs') = length rs"
    using sum_length_filter_compl [of live rs'] by (simp add: rs'_def)
  ultimately have cnt': "len_counts (l_len (leaf_commit_delta q (-1) 1)) =
      (length (filter live rs'), length (filter (\<lambda>r. \<not> live r) rs'))"
    using lp.commit_count [OF cnt, of "-1" 1] sum cap by (auto simp: q_def nat_diff_distrib)
  have "raw_slice (record_data p) (leaf_len p) = Some rs"
    using assms(1) by (simp add: leaf_view_def as_records_def)
  then have "raw_slice (record_data q) (length rs) = Some rs'"
    using assms(2) leaf_view_length [OF assms(1)]
    by (simp add: q_def rs'_def raw_slice_write_inside)
  moreover have "leaf_len (leaf_commit_delta q (-1) 1) = length rs"
    using cnt' sum_length_filter_compl [of live rs']
    by (simp add: leaf_len_def from_len_sum_counts rs'_def)
  ultimately have "as_records (leaf_commit_delta q (-1) 1) = Some rs'"
    by (simp add: as_records_def leaf_commit_delta_def Let_def)
  then show ?thesis
    using cnt' cap by (simp add: leaf_view_def q_def rs'_def lp.commit_cap)
qed

end
