(* ===== verification/Interval.thy ===== *)
theory Interval
  imports Prelude
begin

text \<open>
  \<^verbatim>\<open>mv_utils/interval.rs\<close>: closed key intervals, the fences of the pages and the ranges of the
  queries. The bounds are compared with the order of the key type; the \<open>u64\<close> instance has
  the extra constructors. Every operation is a total function on the two bounds.
\<close>

record 'k interval =
  lower :: 'k
  upper :: 'k

abbreviation interval_new :: "'k \<Rightarrow> 'k \<Rightarrow> 'k interval" where
  "interval_new l u \<equiv> \<lparr>lower = l, upper = u\<rparr>"

definition interval_blank :: "u64 interval" where
  "interval_blank = interval_new U64_MAX 0"

definition interval_max :: "u64 interval" where
  "interval_max = interval_new 0 U64_MAX"

definition is_upper_max :: "u64 interval \<Rightarrow> bool" where
  "is_upper_max i \<longleftrightarrow> upper i = U64_MAX"

definition is_lower_min :: "u64 interval \<Rightarrow> bool" where
  "is_lower_min i \<longleftrightarrow> lower i = 0"

definition set_lower :: "'k interval \<Rightarrow> 'k \<Rightarrow> 'k interval" where
  "set_lower i e = i\<lparr>lower := e\<rparr>"

definition set_upper :: "'k interval \<Rightarrow> 'k \<Rightarrow> 'k interval" where
  "set_upper i e = i\<lparr>upper := e\<rparr>"

text \<open>\<open>merge\<close>, \<open>merge_mut\<close> and \<open>merged\<close> compute the same bounds and differ in how they return them.\<close>

definition interval_merge :: "'k::linorder interval \<Rightarrow> 'k interval \<Rightarrow> 'k interval" where
  "interval_merge self i = \<lparr>lower = min (lower i) (lower self), upper = max (upper i) (upper self)\<rparr>"

text \<open>\<open>expand\<close>, \<open>expanded\<close> and \<open>expand_mut\<close> likewise.\<close>

definition interval_expand :: "'k::linorder interval \<Rightarrow> 'k \<Rightarrow> 'k interval" where
  "interval_expand self e = \<lparr>lower = min (lower self) e, upper = max (upper self) e\<rparr>"

definition intersection :: "'k::linorder interval \<Rightarrow> 'k interval \<Rightarrow> 'k interval" where
  "intersection self other =
     interval_new (max (lower self) (lower other)) (min (upper self) (upper other))"

definition covers :: "'k::linorder interval \<Rightarrow> 'k interval \<Rightarrow> bool" where
  "covers self other \<longleftrightarrow> lower self \<le> lower other \<and> upper other \<le> upper self"

definition covers_or_merge :: "'k::linorder interval \<Rightarrow> 'k interval \<Rightarrow> bool \<times> 'k interval" where
  "covers_or_merge self other =
     (if covers self other then (True, self) else (False, interval_merge self other))"

definition is_disjoint :: "'k::linorder interval \<Rightarrow> 'k interval \<Rightarrow> bool" where
  "is_disjoint self other \<longleftrightarrow> upper other < lower self \<or> upper self < lower other"

definition overlap :: "'k::linorder interval \<Rightarrow> 'k interval \<Rightarrow> bool" where
  "overlap self other \<longleftrightarrow> \<not> is_disjoint self other"

definition is_subset :: "'k::linorder interval \<Rightarrow> 'k interval \<Rightarrow> bool" where
  "is_subset self other \<longleftrightarrow> lower other \<le> lower self \<and> upper self \<le> upper other"

definition contains :: "'k::linorder interval \<Rightarrow> 'k \<Rightarrow> bool" where
  "contains self x \<longleftrightarrow> lower self \<le> x \<and> x \<le> upper self"

text \<open>\<open>impl Into<U64interval> for Range<u64>\<close>: \<open>end.checked_sub(1).unwrap_or(u64::MIN)\<close>.\<close>

definition range_into_interval :: "u64 \<Rightarrow> u64 \<Rightarrow> u64 interval" where
  "range_into_interval start end = interval_new start (if end = 0 then 0 else end - 1)"

text \<open>\<open>Ord\<close> and \<open>PartialOrd\<close> compare the lower bounds only.\<close>

definition interval_cmp_le :: "'k::linorder interval \<Rightarrow> 'k interval \<Rightarrow> bool" where
  "interval_cmp_le self other \<longleftrightarrow> lower self \<le> lower other"

section \<open>Lemmas\<close>

lemma contains_new [simp]: "contains (interval_new l u) x \<longleftrightarrow> l \<le> x \<and> x \<le> u"
  by (simp add: contains_def)

lemma covers_contains: "covers a b \<Longrightarrow> contains b x \<Longrightarrow> contains a x"
  by (auto simp: covers_def contains_def)

lemma merge_contains_left: "contains a x \<Longrightarrow> contains (interval_merge a b) x"
  by (auto simp: contains_def interval_merge_def min.coboundedI2 max.coboundedI2)

lemma merge_contains_right: "contains b x \<Longrightarrow> contains (interval_merge a b) x"
  by (auto simp: contains_def interval_merge_def min.coboundedI1 max.coboundedI1)

lemma overlap_sym: "overlap a b = overlap b a"
  by (auto simp: overlap_def is_disjoint_def)

text \<open>Fences that do not overlap have no key in common.\<close>

lemma not_overlap_contains: "\<not> overlap a b \<Longrightarrow> contains a x \<Longrightarrow> \<not> contains b x"
  by (auto simp: overlap_def is_disjoint_def contains_def)

section \<open>Properties\<close>

text \<open>
  C30: two non-empty intervals overlap exactly when some key lies in both, and then their
  intersection holds exactly the common keys.
\<close>

theorem overlap_iff_common_key:
  fixes a b :: "'k::linorder interval"
  assumes "lower a \<le> upper a" and "lower b \<le> upper b"
  shows "(overlap a b \<longleftrightarrow> (\<exists>x. contains a x \<and> contains b x))
    \<and> (\<forall>x. contains (intersection a b) x \<longleftrightarrow> contains a x \<and> contains b x)"
proof -
  have "contains a (max (lower a) (lower b)) \<and> contains b (max (lower a) (lower b))"
    if "overlap a b"
    using assms that by (auto simp: overlap_def is_disjoint_def contains_def not_less)
  then have "overlap a b \<longleftrightarrow> (\<exists>x. contains a x \<and> contains b x)"
    using not_overlap_contains by blast
  moreover have "\<forall>x. contains (intersection a b) x \<longleftrightarrow> contains a x \<and> contains b x"
    by (auto simp: contains_def intersection_def)
  ultimately show ?thesis by blast
qed

theorem overlap_iff_common_key_witness:
  "overlap (interval_new (3::nat) 7) (interval_new 7 9)
    \<and> contains (intersection (interval_new (3::nat) 7) (interval_new 7 9)) 7"
proof -
  have h: "lower (interval_new (3::nat) 7) \<le> upper (interval_new 3 7)"
    "lower (interval_new (7::nat) 9) \<le> upper (interval_new 7 9)" by simp_all
  have "contains (interval_new (3::nat) 7) 7 \<and> contains (interval_new (7::nat) 9) 7" by simp
  then show ?thesis using overlap_iff_common_key [OF h] by blast
qed

text \<open>
  C31: the merge of two intervals is the smallest interval that covers both, so the fence a
  page merge builds covers the two merged fences and no interval covering them is smaller.
\<close>

theorem interval_merge_least_cover:
  fixes a b c :: "'k::linorder interval"
  shows "covers (interval_merge a b) a \<and> covers (interval_merge a b) b
    \<and> (covers c a \<and> covers c b \<longleftrightarrow> covers c (interval_merge a b))"
  by (auto simp: covers_def interval_merge_def)

text \<open>
  C32: converting a Rust range \<open>start..end\<close> with a non-zero end gives exactly the keys of the
  range. With \<open>end = 0\<close> the range is empty, yet the interval built for \<open>0..0\<close> holds key 0.
\<close>

theorem range_into_interval_keys:
  "(end \<noteq> 0 \<longrightarrow> (contains (range_into_interval start end) x \<longleftrightarrow> start \<le> x \<and> x < end))
    \<and> contains (range_into_interval 0 0) 0"
proof -
  have "x \<le> end - 1 \<longleftrightarrow> x < end" if "end \<noteq> 0"
    using that by (simp add: word_le_nat_alt word_less_nat_alt unat_minus_one unat_eq_0 [symmetric])
      linarith
  then show ?thesis by (auto simp: range_into_interval_def)
qed

theorem range_into_interval_keys_witness:
  "contains (range_into_interval 3 8) 7 \<and> \<not> contains (range_into_interval 3 8) 8"
  using range_into_interval_keys [of 8 3 7] range_into_interval_keys [of 8 3 8] by simp

end
