(* ===== verification/Internal_Page.thy ===== *)
theory Internal_Page
  imports Leaf_Page Interval
begin

text \<open>
  \<^verbatim>\<open>mv_page_model/internal_page.rs\<close>: an internal page is the packed length word and three
  parallel arrays of \<open>FAN_OUT\<close> slots: the key fence, the version and the child of every entry.
  Children (\<open>BlockRef\<close>) are addresses of the block heap. An entry dies when its version gets
  the obsolete mark; it stays in place for the readers of older snapshots.
\<close>

record 'k internal_page =
  i_len :: u32
  key_interval_region :: "'k interval option list"
  version_region :: "version option list"
  pointer_region :: "addr option list"

type_synonym 'k entry = "'k interval \<times> version \<times> addr"

abbreviation e_fence :: "'k entry \<Rightarrow> 'k interval" where "e_fence e \<equiv> fst e"
abbreviation e_version :: "'k entry \<Rightarrow> version" where "e_version e \<equiv> fst (snd e)"
abbreviation e_child :: "'k entry \<Rightarrow> addr" where "e_child e \<equiv> snd (snd e)"

definition internal_new :: "nat \<Rightarrow> 'k internal_page" where
  "internal_new fan_out = \<lparr>i_len = 0, key_interval_region = array_uninit fan_out,
     version_region = array_uninit fan_out, pointer_region = array_uninit fan_out\<rparr>"

definition internal_active_dead_count :: "'k internal_page \<Rightarrow> u32 \<times> u32" where
  "internal_active_dead_count p = from_len (i_len p)"

definition internal_active_len :: "'k internal_page \<Rightarrow> usize" where
  "internal_active_len p = unat (active_len (i_len p))"

definition internal_dead_len :: "'k internal_page \<Rightarrow> usize" where
  "internal_dead_len p = unat (dead_len (i_len p))"

definition sum_len :: "'k internal_page \<Rightarrow> usize" where
  "sum_len p = from_len_sum (i_len p)"

definition internal_keys :: "'k internal_page \<Rightarrow> 'k interval list option" where
  "internal_keys p = raw_slice (key_interval_region p) (sum_len p)"

definition internal_versions :: "'k internal_page \<Rightarrow> version list option" where
  "internal_versions p = raw_slice (version_region p) (sum_len p)"

definition internal_children :: "'k internal_page \<Rightarrow> addr list option" where
  "internal_children p = raw_slice (pointer_region p) (sum_len p)"

definition keys_versions :: "'k internal_page \<Rightarrow> ('k interval list \<times> version list) option" where
  "keys_versions p = do {
     ks \<leftarrow> internal_keys p;
     vs \<leftarrow> internal_versions p;
     Some (ks, vs)
   }"

definition keys_versions_pointers ::
    "'k internal_page \<Rightarrow> ('k interval list \<times> version list \<times> addr list) option" where
  "keys_versions_pointers p = do {
     ks \<leftarrow> internal_keys p;
     vs \<leftarrow> internal_versions p;
     cs \<leftarrow> internal_children p;
     Some (ks, vs, cs)
   }"

definition get_key :: "'k internal_page \<Rightarrow> usize \<Rightarrow> 'k interval option" where
  "get_key p i = array_read (key_interval_region p) i"

definition get_version :: "'k internal_page \<Rightarrow> usize \<Rightarrow> version option" where
  "get_version p i = array_read (version_region p) i"

definition get_pointer :: "'k internal_page \<Rightarrow> usize \<Rightarrow> addr option" where
  "get_pointer p i = array_read (pointer_region p) i"

definition last_child :: "'k internal_page \<Rightarrow> addr option" where
  "last_child p = (if sum_len p = 0 then None else get_pointer p (sum_len p - 1))"

definition internal_push_uncommitted ::
    "'k internal_page \<Rightarrow> 'k interval \<Rightarrow> version \<Rightarrow> addr \<Rightarrow> usize \<Rightarrow> 'k internal_page option" where
  "internal_push_uncommitted p key_interval v ptr i = do {
     ks \<leftarrow> array_write (key_interval_region p) i key_interval;
     vs \<leftarrow> array_write (version_region p) i v;
     cs \<leftarrow> array_write (pointer_region p) i ptr;
     Some (p\<lparr>key_interval_region := ks, version_region := vs, pointer_region := cs\<rparr>)
   }"

definition internal_commit_delta :: "'k internal_page \<Rightarrow> int \<Rightarrow> int \<Rightarrow> 'k internal_page" where
  "internal_commit_delta p active_delta dead_delta =
     (let len = i_len p;
          active = active_len len + word_of_int active_delta;
          dead = dead_len len + word_of_int dead_delta
      in p\<lparr>i_len := from_active_dead active dead\<rparr>)"

definition mark_version_obsolete :: "'k internal_page \<Rightarrow> usize \<Rightarrow> 'k internal_page option" where
  "mark_version_obsolete p i = do {
     v \<leftarrow> array_read (version_region p) i;
     Some (p\<lparr>version_region := (version_region p)[i := Some (v OR OBSOLETE_VERSION_MARK)]\<rparr>)
   }"

definition internal_on_reuse :: "'k internal_page \<Rightarrow> 'k internal_page option" where
  "internal_on_reuse p = do {
     let len = sum_len p;
     _ \<leftarrow> raw_slice (pointer_region p) len;
     Some (p\<lparr>i_len := 0, pointer_region := replicate len None @ drop len (pointer_region p)\<rparr>)
   }"

text \<open>
  \<open>bulk_push\<close> and \<open>bulk_push_from_slice\<close>: the same three writes per entry behind the active
  ones, then the active count.
\<close>

definition internal_bulk_push :: "'k internal_page \<Rightarrow> 'k entry list \<Rightarrow> 'k internal_page option" where
  "internal_bulk_push p entries = do {
     let len = internal_active_len p;
     ks \<leftarrow> array_write_list (key_interval_region p) len (map e_fence entries);
     vs \<leftarrow> array_write_list (version_region p) len (map e_version entries);
     cs \<leftarrow> array_write_list (pointer_region p) len (map e_child entries);
     Some (p\<lparr>key_interval_region := ks, version_region := vs, pointer_region := cs,
             i_len := from_active_dead (word_of_nat len + word_of_nat (length entries)) 0\<rparr>)
   }"

text \<open>\<open>InternalPage::from\<close> (and \<open>Clone\<close>).\<close>

definition internal_from :: "nat \<Rightarrow> 'k internal_page \<Rightarrow> 'k internal_page option" where
  "internal_from fan_out p = do {
     let new_page = internal_new fan_out;
     (ks, vs, cs) \<leftarrow> keys_versions_pointers p;
     ks' \<leftarrow> array_write_list (key_interval_region new_page) 0 ks;
     vs' \<leftarrow> array_write_list (version_region new_page) 0 vs;
     cs' \<leftarrow> array_write_list (pointer_region new_page) 0 cs;
     let (active, dead) = internal_active_dead_count p;
     Some (new_page\<lparr>key_interval_region := ks', version_region := vs', pointer_region := cs',
                    i_len := from_active_dead active dead\<rparr>)
   }"

section \<open>The page contract\<close>

text \<open>The committed entries: the three slices zipped, as the clients of the page use them.\<close>

definition internal_entries :: "'k internal_page \<Rightarrow> 'k entry list option" where
  "internal_entries p =
     map_option (\<lambda>(ks, vs, cs). zip ks (zip vs cs)) (keys_versions_pointers p)"

definition internal_cap :: "'k internal_page \<Rightarrow> nat" where
  "internal_cap p =
     min (length (key_interval_region p)) (min (length (version_region p)) (length (pointer_region p)))"

definition internal_stored :: "'k internal_page \<Rightarrow> nat \<Rightarrow> 'k entry option" where
  "internal_stored p i = do {
     k \<leftarrow> get_key p i;
     v \<leftarrow> get_version p i;
     c \<leftarrow> get_pointer p i;
     Some (k, v, c)
   }"

abbreviation push_entry :: "'k internal_page \<Rightarrow> 'k entry \<Rightarrow> usize \<Rightarrow> 'k internal_page option" where
  "push_entry p e i \<equiv> internal_push_uncommitted p (e_fence e) (e_version e) (e_child e) i"

lemma keys_versions_pointers_iff:
  "keys_versions_pointers p = Some (ks, vs, cs) \<longleftrightarrow>
     raw_slice (key_interval_region p) (sum_len p) = Some ks
     \<and> raw_slice (version_region p) (sum_len p) = Some vs
     \<and> raw_slice (pointer_region p) (sum_len p) = Some cs"
  by (auto simp: keys_versions_pointers_def internal_keys_def internal_versions_def
      internal_children_def bind_eq_Some_conv)

lemma zip3_maps:
  assumes "length ks = n" and "length vs = n" and "length cs = n"
  shows "map e_fence (zip ks (zip vs cs)) = ks" and "map e_version (zip ks (zip vs cs)) = vs"
    and "map e_child (zip ks (zip vs cs)) = cs"
  using assms by (auto intro!: nth_equalityI)

lemma internal_entries_iff:
  "internal_entries p = Some es \<longleftrightarrow>
     raw_slice (key_interval_region p) (sum_len p) = Some (map e_fence es)
     \<and> raw_slice (version_region p) (sum_len p) = Some (map e_version es)
     \<and> raw_slice (pointer_region p) (sum_len p) = Some (map e_child es)"
proof
  assume "internal_entries p = Some es"
  then obtain ks vs cs where k: "keys_versions_pointers p = Some (ks, vs, cs)"
    and es: "es = zip ks (zip vs cs)"
    by (auto simp: internal_entries_def)
  note r = k [unfolded keys_versions_pointers_iff]
  have "length ks = sum_len p" "length vs = sum_len p" "length cs = sum_len p"
    using r by (auto dest: raw_slice_length)
  then have "map e_fence es = ks" "map e_version es = vs" "map e_child es = cs"
    by (simp_all add: es zip3_maps)
  then show "raw_slice (key_interval_region p) (sum_len p) = Some (map e_fence es)
     \<and> raw_slice (version_region p) (sum_len p) = Some (map e_version es)
     \<and> raw_slice (pointer_region p) (sum_len p) = Some (map e_child es)"
    using r by simp
next
  assume "raw_slice (key_interval_region p) (sum_len p) = Some (map e_fence es)
     \<and> raw_slice (version_region p) (sum_len p) = Some (map e_version es)
     \<and> raw_slice (pointer_region p) (sum_len p) = Some (map e_child es)"
  then have "keys_versions_pointers p = Some (map e_fence es, map e_version es, map e_child es)"
    by (simp add: keys_versions_pointers_iff)
  moreover have "zip (map e_fence es) (zip (map e_version es) (map e_child es)) = es"
    by (induction es) auto
  ultimately show "internal_entries p = Some es" by (simp add: internal_entries_def)
qed

lemma internal_stored_iff:
  "internal_stored p i = Some e \<longleftrightarrow> get_key p i = Some (e_fence e)
     \<and> get_version p i = Some (e_version e) \<and> get_pointer p i = Some (e_child e)"
  by (cases e) (auto simp: internal_stored_def bind_eq_Some_conv)

interpretation ip: append_page internal_stored internal_cap "\<lambda>p. len_counts (i_len p)"
  internal_entries push_entry internal_commit_delta
proof (unfold_locales, goal_cases)
  case (1 p es)
  show ?case
    by (auto simp: internal_entries_iff raw_slice_stored internal_stored_iff internal_cap_def
        get_key_def get_version_def get_pointer_def sum_len_def from_len_sum_counts)
next
  case (2 i p e)
  then show ?case
    by (auto simp: internal_push_uncommitted_def internal_cap_def internal_stored_def
        get_key_def get_version_def get_pointer_def array_read_write fun_eq_iff)
next
  case (3 p i e)
  then show ?case
    by (auto simp: internal_push_uncommitted_def internal_cap_def array_write_def
        min_le_iff_disj bind_eq_None_conv)
next
  case (4 p da dd)
  show ?case
    by (rule ext) (simp add: internal_commit_delta_def Let_def internal_stored_def get_key_def
        get_version_def get_pointer_def)
next
  case (5 p da dd)
  show ?case by (simp add: internal_commit_delta_def Let_def internal_cap_def)
next
  case (6 p a d da dd)
  then show ?case by (simp add: internal_commit_delta_def Let_def len_counts_delta)
qed

section \<open>Well-formed internal pages\<close>

abbreviation e_active :: "'k entry \<Rightarrow> bool" where
  "e_active e \<equiv> is_active (e_version e)"

definition index_view :: "'k internal_page \<Rightarrow> 'k entry list \<Rightarrow> bool" where
  "index_view p es \<longleftrightarrow> internal_entries p = Some es
     \<and> len_counts (i_len p) = (length (filter e_active es), length (filter (\<lambda>e. \<not> e_active e) es))
     \<and> internal_cap p < 65536"

lemma index_view_length [page_simps]: "index_view p es \<Longrightarrow> sum_len p = length es"
  by (auto simp: index_view_def internal_entries_iff dest!: raw_slice_length)

lemma index_view_cap: "index_view p es \<Longrightarrow> length es \<le> internal_cap p"
  using ip.slots_iff [of p es] unfolding index_view_def by blast

lemma index_view_slices [page_simps]:
  assumes "index_view p es"
  shows "keys_versions_pointers p = Some (map e_fence es, map e_version es, map e_child es)"
    and "keys_versions p = Some (map e_fence es, map e_version es)"
    and "internal_keys p = Some (map e_fence es)"
    and "internal_versions p = Some (map e_version es)"
    and "internal_children p = Some (map e_child es)"
  using assms
  by (simp_all add: index_view_def internal_entries_iff keys_versions_pointers_iff keys_versions_def
      internal_keys_def internal_versions_def internal_children_def)

lemma index_view_get [page_simps]:
  assumes "index_view p es" and "i < length es"
  shows "get_key p i = Some (e_fence (es ! i))" and "get_version p i = Some (e_version (es ! i))"
    and "get_pointer p i = Some (e_child (es ! i))"
proof -
  have "internal_stored p i = Some (es ! i)"
    using assms ip.slots_iff [of p es] unfolding index_view_def by blast
  then show "get_key p i = Some (e_fence (es ! i))" "get_version p i = Some (e_version (es ! i))"
    "get_pointer p i = Some (e_child (es ! i))"
    by (simp_all add: internal_stored_iff)
qed

lemma index_view_new: "n < 65536 \<Longrightarrow> index_view (internal_new n) []"
  by (simp add: index_view_def internal_new_def internal_entries_iff sum_len_def
      from_len_sum_counts internal_cap_def)

lemma internal_cap_new [simp]: "internal_cap (internal_new n) = n"
  by (simp add: internal_cap_def internal_new_def)

lemma index_view_counts:
  "index_view p es \<Longrightarrow> unat (fst (internal_active_dead_count p)) = length (filter e_active es)
     \<and> unat (snd (internal_active_dead_count p)) = length (filter (\<lambda>e. \<not> e_active e) es)"
  by (simp add: index_view_def internal_active_dead_count_def from_len_def len_counts_def)

lemma index_view_bulk_push:
  assumes "index_view p []" and "length es \<le> internal_cap p" and "\<forall>e \<in> set es. e_active e"
  shows "\<exists>p'. internal_bulk_push p es = Some p' \<and> index_view p' es \<and> internal_cap p' = internal_cap p"
proof -
  have cap: "internal_cap p < 65536" using assms(1) by (simp add: index_view_def)
  have len: "internal_active_len p = 0"
    using assms(1) by (simp add: index_view_def internal_active_len_def len_counts_def)
  obtain ks where ks: "array_write_list (key_interval_region p) 0 (map e_fence es) = Some ks"
    "length ks = length (key_interval_region p)" "raw_slice ks (length es) = Some (map e_fence es)"
    using array_write_list_ok [of "key_interval_region p" 0 "[]" "map e_fence es"] assms(2)
    by (auto simp: internal_cap_def)
  obtain vs where vs: "array_write_list (version_region p) 0 (map e_version es) = Some vs"
    "length vs = length (version_region p)" "raw_slice vs (length es) = Some (map e_version es)"
    using array_write_list_ok [of "version_region p" 0 "[]" "map e_version es"] assms(2)
    by (auto simp: internal_cap_def)
  obtain cs where cs: "array_write_list (pointer_region p) 0 (map e_child es) = Some cs"
    "length cs = length (pointer_region p)" "raw_slice cs (length es) = Some (map e_child es)"
    using array_write_list_ok [of "pointer_region p" 0 "[]" "map e_child es"] assms(2)
    by (auto simp: internal_cap_def)
  have "filter e_active es = es" "filter (\<lambda>e. \<not> e_active e) es = []"
    using assms(3) by (simp_all add: filter_id_conv filter_empty_conv)
  moreover have "len_counts (from_active_dead (word_of_nat (length es)) 0) = (length es, 0)"
    using len_counts_from_active_dead [of "length es" 0] assms(2) cap by simp
  ultimately show ?thesis
    using ks vs cs len cap
    by (simp add: internal_bulk_push_def index_view_def internal_entries_iff sum_len_def
        from_len_sum_counts internal_cap_def)
qed

end
