(* ===== verification/Smart_Cell.thy ===== *)
theory Smart_Cell
  imports Prelude
begin

text \<open>
  \<^verbatim>\<open>mv_sync/smart_cell.rs\<close>: the optimistic latch around every block. The latch word is a
  version counter whose bit 62 is the write flag. A reader remembers the (masked) word it
  saw; a writer holds the word with the flag set and publishes the next version when its guard
  is dropped. A \<open>SmartCell\<close> (an \<open>Arc\<close>) is an address of a heap of cells.

  The second half is the latch as a state machine: any number of live guard objects, each step
  one atomic operation of one of them, in any order.
\<close>

type_synonym latch_version = u64

definition OBSOLETE_FLAG_VERSION :: latch_version where
  "OBSOLETE_FLAG_VERSION = 0x8000000000000000"

definition WRITE_FLAG_VERSION :: latch_version where
  "WRITE_FLAG_VERSION = 0x4000000000000000"

definition WRITE_OBSOLETE_FLAG_VERSION :: latch_version where
  "WRITE_OBSOLETE_FLAG_VERSION = 0xC000000000000000"

record 'e opt_cell =
  cell :: 'e
  cell_version :: latch_version

definition CELL_START_VERSION :: latch_version where
  "CELL_START_VERSION = 0"

definition opt_cell_new :: "'e \<Rightarrow> 'e opt_cell" where
  "opt_cell_new data = \<lparr>cell = data, cell_version = CELL_START_VERSION\<rparr>"

text \<open>
  \<open>compare_exchange_weak\<close> may fail although the word is the expected one: the argument
  \<open>spurious\<close> says whether it does.
\<close>

definition write_lock :: "bool \<Rightarrow> 'e opt_cell \<Rightarrow> latch_version \<Rightarrow> 'e opt_cell \<times> latch_version option" where
  "write_lock spurious self read_version =
     (if cell_version self = read_version \<and> \<not> spurious
      then (self\<lparr>cell_version := WRITE_FLAG_VERSION OR read_version\<rparr>,
            Some (WRITE_FLAG_VERSION OR read_version))
      else (self, None))"

datatype smart_guard = Reader addr latch_version | Writer addr latch_version

type_synonym 'e cells = "addr \<rightharpoonup> 'e opt_cell"

fun guard_addr :: "smart_guard \<Rightarrow> addr" where
  "guard_addr (Reader a v) = a"
| "guard_addr (Writer a v) = a"

text \<open>\<open>Clone for SmartGuard\<close>: a writer is not cloned.\<close>

fun guard_clone :: "smart_guard \<Rightarrow> smart_guard option" where
  "guard_clone (Reader a v) = Some (Reader a v)"
| "guard_clone (Writer a v) = None"

definition guard_deref :: "'e cells \<Rightarrow> smart_guard \<Rightarrow> 'e option" where
  "guard_deref h g = map_option cell (h (guard_addr g))"

fun is_still_live :: "'e cells \<Rightarrow> smart_guard \<Rightarrow> bool option" where
  "is_still_live h (Reader a stat) = map_option (\<lambda>c. stat = cell_version c) (h a)"
| "is_still_live h (Writer a v) = Some True"

fun upgrade_write_lock :: "bool \<Rightarrow> 'e cells \<Rightarrow> smart_guard \<Rightarrow> ('e cells \<times> smart_guard \<times> bool) option" where
  "upgrade_write_lock spurious h (Reader a read_latch) = do {
     c \<leftarrow> h a;
     Some (case write_lock spurious c (read_latch AND NOT WRITE_OBSOLETE_FLAG_VERSION) of
             (c', Some write_latch) \<Rightarrow> (h(a \<mapsto> c'), Writer a write_latch, True)
           | (c', None) \<Rightarrow> (h(a \<mapsto> c'), Reader a read_latch, False))
   }"
| "upgrade_write_lock spurious h (Writer a v) = Some (h, Writer a v, True)"

definition inner_cell :: "smart_guard \<Rightarrow> addr" where
  "inner_cell g = guard_addr g"

definition unsafe_borrow :: "'e cells \<Rightarrow> addr \<Rightarrow> 'e option" where
  "unsafe_borrow h a = map_option cell (h a)"

text \<open>A write through \<open>unsafe_borrow_mut\<close> (and through \<open>deref_mut\<close> of a guard).\<close>

definition unsafe_borrow_mut :: "'e cells \<Rightarrow> addr \<Rightarrow> 'e \<Rightarrow> 'e cells option" where
  "unsafe_borrow_mut h a e = map_option (\<lambda>c. h(a \<mapsto> c\<lparr>cell := e\<rparr>)) (h a)"

definition borrow_read :: "'e cells \<Rightarrow> addr \<Rightarrow> smart_guard option" where
  "borrow_read h a =
     map_option (\<lambda>c. Reader a (cell_version c AND NOT WRITE_OBSOLETE_FLAG_VERSION)) (h a)"

fun guard_drop :: "'e cells \<Rightarrow> smart_guard \<Rightarrow> 'e cells option" where
  "guard_drop h (Writer a write_version) =
     map_option (\<lambda>c. h(a \<mapsto> c\<lparr>cell_version := (write_version + 1) XOR WRITE_FLAG_VERSION\<rparr>)) (h a)"
| "guard_drop h (Reader a v) = Some h"

section \<open>The latch word\<close>

abbreviation COUNT_LIMIT :: u64 where
  "COUNT_LIMIT \<equiv> 0x4000000000000000"

lemma bit_WRITE_FLAG [simp]: "bit WRITE_FLAG_VERSION n \<longleftrightarrow> n = 62"
proof -
  have eq: "WRITE_FLAG_VERSION = push_bit 62 1"
    by (simp add: WRITE_FLAG_VERSION_def push_bit_eq_mult)
  have "bit (push_bit 62 (1 :: u64)) n \<longleftrightarrow> n = 62"
    unfolding bit_push_bit_iff bit_1_iff by auto
  then show ?thesis by (simp only: eq)
qed

lemma bit_WRITE_OBSOLETE_FLAG [simp]: "bit WRITE_OBSOLETE_FLAG_VERSION n \<longleftrightarrow> n = 62 \<or> n = 63"
proof -
  have eq: "WRITE_OBSOLETE_FLAG_VERSION = push_bit 62 (mask 2)"
    by (simp add: WRITE_OBSOLETE_FLAG_VERSION_def push_bit_eq_mult mask_eq_exp_minus_1)
  have "bit (push_bit 62 (mask 2 :: u64)) n \<longleftrightarrow> n = 62 \<or> n = 63"
    unfolding bit_push_bit_iff bit_mask_iff by auto
  then show ?thesis by (simp only: eq)
qed

lemma count_bits:
  assumes "w < COUNT_LIMIT" and "62 \<le> n"
  shows "\<not> bit w n"
proof -
  have "unat w < 2 ^ 62" using assms(1) by (simp add: word_less_nat_alt)
  then have "take_bit 62 (unat w) = unat w" by (simp add: take_bit_nat_eq_self)
  then have "\<not> bit (unat w) n" using assms(2) by (metis bit_take_bit_iff not_less)
  then show ?thesis by (auto simp: bit_unsigned_iff dest: bit_imp_le_length)
qed

lemma count_bits_62 [simp]: "w < COUNT_LIMIT \<Longrightarrow> \<not> bit w 62" "w < COUNT_LIMIT \<Longrightarrow> \<not> bit w 63"
  by (simp_all add: count_bits)

lemma mask_count [latch_simps]:
  assumes "w < COUNT_LIMIT"
  shows "w AND NOT WRITE_OBSOLETE_FLAG_VERSION = w"
    and "(WRITE_FLAG_VERSION OR w) AND NOT WRITE_OBSOLETE_FLAG_VERSION = w"
  using assms by (auto intro!: bit_word_eqI simp: bit_simps)

lemma or_flag_eq_plus: "w < COUNT_LIMIT \<Longrightarrow> WRITE_FLAG_VERSION OR w = WRITE_FLAG_VERSION + w"
  by (intro disjunctive_add_eq_or [symmetric] bit_word_eqI) (auto simp: bit_simps)

lemma release_word [latch_simps]:
  assumes "w + 1 < COUNT_LIMIT" and "w < COUNT_LIMIT"
  shows "((WRITE_FLAG_VERSION OR w) + 1) XOR WRITE_FLAG_VERSION = w + 1"
proof -
  have "(WRITE_FLAG_VERSION OR w) + 1 = WRITE_FLAG_VERSION OR (w + 1)"
    using assms by (simp only: or_flag_eq_plus add.assoc)
  also have "\<dots> XOR WRITE_FLAG_VERSION = w + 1"
    using assms(1) by (auto intro!: bit_word_eqI simp: bit_simps)
  finally show ?thesis .
qed

lemma flagged_neq [latch_simps]: "w < COUNT_LIMIT \<Longrightarrow> u < COUNT_LIMIT \<Longrightarrow> WRITE_FLAG_VERSION OR w \<noteq> u"
proof
  assume "w < COUNT_LIMIT" "u < COUNT_LIMIT" "WRITE_FLAG_VERSION OR w = u"
  moreover have "bit (WRITE_FLAG_VERSION OR w) 62" by (simp add: bit_simps)
  ultimately show False by simp
qed

lemma flagged_inj [latch_simps]:
  "w < COUNT_LIMIT \<Longrightarrow> u < COUNT_LIMIT \<Longrightarrow> WRITE_FLAG_VERSION OR w = WRITE_FLAG_VERSION OR u \<longleftrightarrow> w = u"
  by (simp add: or_flag_eq_plus)

section \<open>The latch as a state machine\<close>

text \<open>
  \<open>guards\<close> holds the live guard objects under arbitrary names; \<open>seen\<close> is ghost state: what
  the cell of a guard held when the guard was taken.
\<close>

record 'e latch_sys =
  l_heap :: "'e cells"
  guards :: "nat \<rightharpoonup> smart_guard"
  seen :: "nat \<rightharpoonup> 'e"

inductive latch_step :: "'e latch_sys \<Rightarrow> 'e latch_sys \<Rightarrow> bool" where
  alloc: "l_heap s a = None \<Longrightarrow>
    latch_step s (s\<lparr>l_heap := (l_heap s)(a \<mapsto> opt_cell_new e)\<rparr>)"
| borrow: "guards s g = None \<Longrightarrow> borrow_read (l_heap s) a = Some gu \<Longrightarrow>
    latch_step s (s\<lparr>guards := (guards s)(g \<mapsto> gu), seen := (seen s)(g := unsafe_borrow (l_heap s) a)\<rparr>)"
| clone: "guards s g = Some gu \<Longrightarrow> guards s g' = None \<Longrightarrow> guard_clone gu = Some gu' \<Longrightarrow>
    latch_step s (s\<lparr>guards := (guards s)(g' \<mapsto> gu'), seen := (seen s)(g' := seen s g)\<rparr>)"
| upgrade: "guards s g = Some gu \<Longrightarrow> upgrade_write_lock spurious (l_heap s) gu = Some (h', gu', ok) \<Longrightarrow>
    latch_step s (s\<lparr>l_heap := h', guards := (guards s)(g \<mapsto> gu')\<rparr>)"
| mutate: "guards s g = Some (Writer a v) \<Longrightarrow> unsafe_borrow_mut (l_heap s) a e = Some h' \<Longrightarrow>
    latch_step s (s\<lparr>l_heap := h'\<rparr>)"
| release: "guards s g = Some gu \<Longrightarrow> guard_drop (l_heap s) gu = Some h' \<Longrightarrow>
    latch_step s (s\<lparr>l_heap := h', guards := (guards s)(g := None), seen := (seen s)(g := None)\<rparr>)"

inductive latch_run :: "nat \<Rightarrow> 'e latch_sys \<Rightarrow> 'e latch_sys \<Rightarrow> bool" where
  start: "latch_run 0 s s"
| step: "latch_run n s s' \<Longrightarrow> latch_step s' s'' \<Longrightarrow> latch_run (Suc n) s s''"

definition latch_init :: "'e latch_sys" where
  "latch_init = \<lparr>l_heap = Map.empty, guards = Map.empty, seen = Map.empty\<rparr>"

definition no_writer :: "'e latch_sys \<Rightarrow> addr \<Rightarrow> bool" where
  "no_writer s a \<longleftrightarrow> (\<forall>g v. guards s g \<noteq> Some (Writer a v))"

definition sole_writer :: "'e latch_sys \<Rightarrow> addr \<Rightarrow> nat \<Rightarrow> latch_version \<Rightarrow> bool" where
  "sole_writer s a g v \<longleftrightarrow> guards s g = Some (Writer a v)
     \<and> (\<forall>g' v'. guards s g' = Some (Writer a v') \<longrightarrow> g' = g)"

definition cell_inv :: "nat \<Rightarrow> 'e latch_sys \<Rightarrow> addr \<Rightarrow> 'e opt_cell \<Rightarrow> bool" where
  "cell_inv n s a c \<longleftrightarrow> (\<exists>w. unat w \<le> n \<and> w < COUNT_LIMIT
     \<and> (cell_version c = w \<and> no_writer s a
        \<or> cell_version c = WRITE_FLAG_VERSION OR w \<and> (\<exists>g. sole_writer s a g (WRITE_FLAG_VERSION OR w))))"

definition reader_inv :: "'e latch_sys \<Rightarrow> nat \<Rightarrow> addr \<Rightarrow> latch_version \<Rightarrow> bool" where
  "reader_inv s g a v \<longleftrightarrow> (\<exists>c. l_heap s a = Some c \<and> v < COUNT_LIMIT
     \<and> v \<le> cell_version c AND NOT WRITE_OBSOLETE_FLAG_VERSION
     \<and> (v = cell_version c \<longrightarrow> seen s g = Some (cell c)))"

definition latch_inv :: "nat \<Rightarrow> 'e latch_sys \<Rightarrow> bool" where
  "latch_inv n s \<longleftrightarrow>
     (\<forall>a c. l_heap s a = Some c \<longrightarrow> cell_inv n s a c)
     \<and> (\<forall>g a v. guards s g = Some (Reader a v) \<longrightarrow> reader_inv s g a v)
     \<and> (\<forall>g a v. guards s g = Some (Writer a v) \<longrightarrow> l_heap s a \<noteq> None)"

lemma latch_invD:
  assumes "latch_inv n s"
  shows "l_heap s a = Some c \<Longrightarrow> cell_inv n s a c"
    and "guards s g = Some (Reader a v) \<Longrightarrow> reader_inv s g a v"
    and "guards s g = Some (Writer a v) \<Longrightarrow> \<exists>c. l_heap s a = Some c"
  using assms unfolding latch_inv_def by blast+

lemma cell_inv_frame:
  assumes "cell_inv n s a c" and "n \<le> m" and "cell_version c' = cell_version c"
    and "\<And>g v. guards s' g = Some (Writer a v) \<longleftrightarrow> guards s g = Some (Writer a v)"
  shows "cell_inv m s' a c'"
proof -
  have "no_writer s' a = no_writer s a" "sole_writer s' a g v = sole_writer s a g v" for g v
    using assms(4) by (simp_all add: no_writer_def sole_writer_def)
  then show ?thesis using assms(1-3) unfolding cell_inv_def by (auto intro: le_trans)
qed

lemma reader_inv_frame:
  assumes "reader_inv s g a v" and "l_heap s' a = l_heap s a" and "seen s' g = seen s g"
  shows "reader_inv s' g a v"
  using assms unfolding reader_inv_def by simp

lemma cell_inv_writer:
  assumes "cell_inv n s a c" and "guards s g = Some (Writer a v)"
  obtains w where "unat w \<le> n" "w < COUNT_LIMIT" "v = WRITE_FLAG_VERSION OR w" "cell_version c = v"
    "\<And>g' v'. guards s g' = Some (Writer a v') \<Longrightarrow> g' = g"
proof -
  have "\<not> no_writer s a" using assms(2) by (auto simp: no_writer_def)
  with assms(1) obtain w k where w: "unat w \<le> n" "w < COUNT_LIMIT"
    "cell_version c = WRITE_FLAG_VERSION OR w" "sole_writer s a k (WRITE_FLAG_VERSION OR w)"
    by (auto simp: cell_inv_def)
  moreover have "k = g" "v = WRITE_FLAG_VERSION OR w" "\<And>g' v'. guards s g' = Some (Writer a v') \<Longrightarrow> g' = g"
    using w(4) assms(2) by (auto simp: sole_writer_def)
  ultimately show thesis using that [of w] by simp
qed

lemma cell_inv_new: "no_writer s a \<Longrightarrow> cell_inv n s a (opt_cell_new e)"
  unfolding cell_inv_def
  by (intro exI [of _ 0]) (simp add: opt_cell_new_def CELL_START_VERSION_def)

text \<open>The masked latch word is the version count, whether or not a writer is active.\<close>

lemma cell_inv_count:
  assumes "cell_inv n s a c"
  shows "cell_version c AND NOT WRITE_OBSOLETE_FLAG_VERSION < COUNT_LIMIT"
    and "v < COUNT_LIMIT \<Longrightarrow> cell_version c = v \<Longrightarrow> no_writer s a"
  using assms unfolding cell_inv_def by (auto simp: mask_count dest: flagged_neq)

subsection \<open>Every step keeps the invariant\<close>

lemma latch_inv_alloc:
  assumes "latch_inv n s" and "l_heap s a = None"
  shows "latch_inv (Suc n) (s\<lparr>l_heap := (l_heap s)(a \<mapsto> opt_cell_new e)\<rparr>)"
proof -
  have nw: "no_writer s a" using latch_invD(3) [OF assms(1)] assms(2) by (force simp: no_writer_def)
  have rd: "guards s g = Some (Reader b v) \<Longrightarrow> b \<noteq> a" for g b v
    using latch_invD(2) [OF assms(1)] assms(2) by (fastforce simp: reader_inv_def)
  let ?s = "s\<lparr>l_heap := (l_heap s)(a \<mapsto> opt_cell_new e)\<rparr>"
  have "cell_inv (Suc n) ?s b c" if "l_heap ?s b = Some c" for b c
  proof (cases "b = a")
    case True
    then show ?thesis using that nw by (auto intro!: cell_inv_new simp: no_writer_def)
  next
    case False
    then have "l_heap s b = Some c" using that by simp
    then show ?thesis by (intro cell_inv_frame [OF latch_invD(1) [OF assms(1)]]) auto
  qed
  moreover have "reader_inv ?s g b v" if "guards s g = Some (Reader b v)" for g b v
    using latch_invD(2) [OF assms(1) that] rd [OF that] by (auto intro: reader_inv_frame)
  ultimately show ?thesis using latch_invD(3) [OF assms(1)] unfolding latch_inv_def by auto
qed

lemma latch_inv_borrow:
  assumes "latch_inv n s" and "guards s g = None" and "borrow_read (l_heap s) a = Some gu"
  shows "latch_inv (Suc n)
    (s\<lparr>guards := (guards s)(g \<mapsto> gu), seen := (seen s)(g := unsafe_borrow (l_heap s) a)\<rparr>)"
proof -
  obtain c where c: "l_heap s a = Some c"
    "gu = Reader a (cell_version c AND NOT WRITE_OBSOLETE_FLAG_VERSION)"
    using assms(3) by (auto simp: borrow_read_def)
  note inv = latch_invD [OF assms(1)]
  let ?s = "s\<lparr>guards := (guards s)(g \<mapsto> gu), seen := (seen s)(g := unsafe_borrow (l_heap s) a)\<rparr>"
  have "reader_inv ?s g a (cell_version c AND NOT WRITE_OBSOLETE_FLAG_VERSION)"
    using c cell_inv_count [OF inv(1) [OF c(1)]] by (auto simp: reader_inv_def unsafe_borrow_def)
  moreover have "reader_inv ?s g' b v" if "guards s g' = Some (Reader b v)" "g' \<noteq> g" for g' b v
    using inv(2) [OF that(1)] that(2) by (auto intro: reader_inv_frame)
  moreover have "cell_inv (Suc n) ?s b c'" if "l_heap s b = Some c'" for b c'
    using assms(2) c(2) by (intro cell_inv_frame [OF inv(1) [OF that]]) auto
  ultimately show ?thesis using c inv(3) unfolding latch_inv_def by auto
qed

lemma latch_inv_clone:
  assumes "latch_inv n s" and "guards s g = Some gu" and "guards s g' = None" and "guard_clone gu = Some gu'"
  shows "latch_inv (Suc n) (s\<lparr>guards := (guards s)(g' \<mapsto> gu'), seen := (seen s)(g' := seen s g)\<rparr>)"
proof -
  obtain a v where gu: "gu = Reader a v" "gu' = Reader a v"
    using assms(4) by (cases gu) auto
  note inv = latch_invD [OF assms(1)]
  let ?s = "s\<lparr>guards := (guards s)(g' \<mapsto> gu'), seen := (seen s)(g' := seen s g)\<rparr>"
  have "reader_inv ?s g' a v"
    using inv(2) [of g a v] assms(2) gu by (auto simp: reader_inv_def)
  moreover have "reader_inv ?s k b u" if "guards s k = Some (Reader b u)" "k \<noteq> g'" for k b u
    using inv(2) [OF that(1)] that(2) by (auto intro: reader_inv_frame)
  moreover have "cell_inv (Suc n) ?s b c'" if "l_heap s b = Some c'" for b c'
    using assms(3) gu by (intro cell_inv_frame [OF inv(1) [OF that]]) auto
  ultimately show ?thesis using gu inv(3) unfolding latch_inv_def by auto
qed

text \<open>
  A cell that changes under its writer: the others are framed, and the readers of the cell
  itself only need the new word to differ from their own and not to fall behind it.
\<close>

lemma latch_inv_write:
  assumes inv: "latch_inv n s" and c: "l_heap s a = Some c"
    and cell: "cell_inv (Suc n) (s\<lparr>l_heap := (l_heap s)(a \<mapsto> c'), guards := gs, seen := sn\<rparr>) a c'"
    and others: "\<And>k b v. b \<noteq> a \<Longrightarrow> gs k = Some (Writer b v) \<longleftrightarrow> guards s k = Some (Writer b v)"
    and readers: "\<And>k b v. gs k = Some (Reader b v) \<Longrightarrow> guards s k = Some (Reader b v) \<and> sn k = seen s k"
    and word: "\<And>v. v < COUNT_LIMIT \<Longrightarrow> v \<le> cell_version c AND NOT WRITE_OBSOLETE_FLAG_VERSION
      \<Longrightarrow> v \<le> cell_version c' AND NOT WRITE_OBSOLETE_FLAG_VERSION \<and> v \<noteq> cell_version c'"
  shows "latch_inv (Suc n) (s\<lparr>l_heap := (l_heap s)(a \<mapsto> c'), guards := gs, seen := sn\<rparr>)"
    (is "latch_inv _ ?s")
proof -
  have "cell_inv (Suc n) ?s b d" if "l_heap ?s b = Some d" for b d
  proof (cases "b = a")
    case True
    then show ?thesis using that cell by simp
  next
    case False
    then have "l_heap s b = Some d" using that by simp
    then show ?thesis using False others by (intro cell_inv_frame [OF latch_invD(1) [OF inv]]) auto
  qed
  moreover have "reader_inv ?s k b v" if k: "gs k = Some (Reader b v)" for k b v
  proof (cases "b = a")
    case True
    then have "v < COUNT_LIMIT" "v \<le> cell_version c AND NOT WRITE_OBSOLETE_FLAG_VERSION"
      using latch_invD(2) [OF inv, of k b v] readers [OF k] c by (auto simp: reader_inv_def)
    then show ?thesis using True word by (auto simp: reader_inv_def)
  next
    case False
    then show ?thesis
      using latch_invD(2) [OF inv, of k b v] readers [OF k] by (auto intro: reader_inv_frame)
  qed
  moreover have "l_heap ?s b \<noteq> None" if "gs k = Some (Writer b v)" for k b v
    using that others [of b k v] latch_invD(3) [OF inv, of k b v] by auto
  ultimately show ?thesis unfolding latch_inv_def by simp
qed

lemma sys_same [simp]: "s\<lparr>guards := guards s, seen := seen s\<rparr> = s" "s\<lparr>l_heap := h, seen := seen s\<rparr> = s\<lparr>l_heap := h\<rparr>"
  "s\<lparr>l_heap := h, guards := gs, seen := seen s\<rparr> = s\<lparr>l_heap := h, guards := gs\<rparr>"
  "s\<lparr>l_heap := h, guards := guards s\<rparr> = s\<lparr>l_heap := h\<rparr>" "s\<lparr>l_heap := l_heap s\<rparr> = s"
  by simp_all

lemma latch_inv_mono: "latch_inv n s \<Longrightarrow> latch_inv (Suc n) s"
  unfolding latch_inv_def using cell_inv_frame [of n s _ _ "Suc n" _ s] by (auto 0 3)

lemma upgrade_success:
  assumes "latch_inv n s" and "guards s g = Some (Reader a v)"
    and "upgrade_write_lock sp (l_heap s) (Reader a v) = Some (h', gu', True)"
  shows "\<exists>c. l_heap s a = Some c \<and> cell_version c = v \<and> v < COUNT_LIMIT \<and> seen s g = Some (cell c)
    \<and> no_writer s a \<and> unat v \<le> n
    \<and> h' = (l_heap s)(a \<mapsto> c\<lparr>cell_version := WRITE_FLAG_VERSION OR v\<rparr>)
    \<and> gu' = Writer a (WRITE_FLAG_VERSION OR v)"
proof -
  obtain c where c: "l_heap s a = Some c" "v < COUNT_LIMIT" "v = cell_version c \<longrightarrow> seen s g = Some (cell c)"
    using latch_invD(2) [OF assms(1,2)] by (auto simp: reader_inv_def)
  have ver: "cell_version c = v" and res: "h' = (l_heap s)(a \<mapsto> c\<lparr>cell_version := WRITE_FLAG_VERSION OR v\<rparr>)"
    "gu' = Writer a (WRITE_FLAG_VERSION OR v)"
    using assms(3) c by (auto simp: write_lock_def mask_count split: if_splits)
  have "cell_inv n s a c" by (rule latch_invD(1) [OF assms(1) c(1)])
  then have "no_writer s a" "unat v \<le> n"
    using ver c(2) by (auto simp: cell_inv_def dest: flagged_neq)
  then show ?thesis using c ver res by auto
qed

lemma latch_inv_upgrade:
  assumes "latch_inv n s" and "guards s g = Some gu"
    and "upgrade_write_lock sp (l_heap s) gu = Some (h', gu', ok)"
  shows "latch_inv (Suc n) (s\<lparr>l_heap := h', guards := (guards s)(g \<mapsto> gu')\<rparr>)"
proof (cases gu)
  case (Writer a v)
  then have "s\<lparr>l_heap := h', guards := (guards s)(g \<mapsto> gu')\<rparr> = s"
    using assms(2,3) by (simp add: fun_upd_idem)
  then show ?thesis using latch_inv_mono [OF assms(1)] by simp
next
  case (Reader a v)
  show ?thesis
  proof (cases ok)
    case False
    then have "h' = l_heap s" "gu' = gu"
      using assms(3) Reader
      by (auto simp: bind_eq_Some_conv write_lock_def fun_upd_idem split: if_splits)
    then have "s\<lparr>l_heap := h', guards := (guards s)(g \<mapsto> gu')\<rparr> = s"
      using assms(2) by (simp add: fun_upd_idem)
    then show ?thesis using latch_inv_mono [OF assms(1)] by simp
  next
    case True
    obtain c where c: "l_heap s a = Some c" "cell_version c = v" "v < COUNT_LIMIT" "no_writer s a" "unat v \<le> n"
      "h' = (l_heap s)(a \<mapsto> c\<lparr>cell_version := WRITE_FLAG_VERSION OR v\<rparr>)"
      "gu' = Writer a (WRITE_FLAG_VERSION OR v)"
      using upgrade_success [of n s g a v sp h' gu'] assms Reader True by auto
    have "latch_inv (Suc n) (s\<lparr>l_heap := h', guards := (guards s)(g \<mapsto> gu'), seen := seen s\<rparr>)"
      unfolding c(6)
    proof (rule latch_inv_write [OF assms(1) c(1)], goal_cases)
      case 1
      show ?case
        using c unfolding cell_inv_def
        by (intro exI [of _ v]) (auto simp: sole_writer_def no_writer_def)
    qed (use c assms(2) Reader in \<open>auto simp: mask_count flagged_neq [symmetric] split: if_splits\<close>)
    then show ?thesis by simp
  qed
qed

lemma latch_inv_mutate:
  assumes "latch_inv n s" and "guards s g = Some (Writer a v)"
    and "unsafe_borrow_mut (l_heap s) a e = Some h'"
  shows "latch_inv (Suc n) (s\<lparr>l_heap := h'\<rparr>)"
proof -
  obtain c where c: "l_heap s a = Some c" "h' = (l_heap s)(a \<mapsto> c\<lparr>cell := e\<rparr>)"
    using assms(3) by (auto simp: unsafe_borrow_mut_def)
  have ci: "cell_inv n s a c" by (rule latch_invD(1) [OF assms(1) c(1)])
  obtain w where w: "w < COUNT_LIMIT" "cell_version c = WRITE_FLAG_VERSION OR w"
    using cell_inv_writer [OF ci assms(2)] by metis
  have "latch_inv (Suc n) (s\<lparr>l_heap := h', guards := guards s, seen := seen s\<rparr>)"
    unfolding c(2)
    by (rule latch_inv_write [OF assms(1) c(1)])
      (use c w in \<open>auto intro: cell_inv_frame [OF ci] simp: flagged_neq [symmetric]\<close>)
  then show ?thesis by simp
qed

lemma count_step:
  assumes "unat w \<le> n" and "Suc n < 2 ^ 62"
  shows "w + 1 < COUNT_LIMIT" and "unat (w + 1) = unat w + 1"
proof -
  show u: "unat (w + 1) = unat w + 1" using assms by (simp add: unat_word_ariths)
  show "w + 1 < COUNT_LIMIT" using assms u by (simp add: word_less_nat_alt)
qed

lemma latch_inv_release:
  assumes "latch_inv n s" and "guards s g = Some gu" and "guard_drop (l_heap s) gu = Some h'"
    and "Suc n < 2 ^ 62"
  shows "latch_inv (Suc n) (s\<lparr>l_heap := h', guards := (guards s)(g := None), seen := (seen s)(g := None)\<rparr>)"
proof (cases gu)
  case (Reader a v)
  have h: "h' = l_heap s" using assms(3) Reader by simp
  let ?s = "s\<lparr>l_heap := h', guards := (guards s)(g := None), seen := (seen s)(g := None)\<rparr>"
  have "cell_inv (Suc n) ?s b d" if "l_heap s b = Some d" for b d
    using assms(2) Reader by (intro cell_inv_frame [OF latch_invD(1) [OF assms(1) that]]) auto
  moreover have "reader_inv ?s k b u" if "guards s k = Some (Reader b u)" "k \<noteq> g" for k b u
    using latch_invD(2) [OF assms(1) that(1)] that(2) h by (auto intro: reader_inv_frame)
  ultimately show ?thesis using h latch_invD(3) [OF assms(1)] unfolding latch_inv_def by auto
next
  case (Writer a v)
  obtain c where c: "l_heap s a = Some c"
    "h' = (l_heap s)(a \<mapsto> c\<lparr>cell_version := (v + 1) XOR WRITE_FLAG_VERSION\<rparr>)"
    using assms(3) Writer by auto
  have ci: "cell_inv n s a c" by (rule latch_invD(1) [OF assms(1) c(1)])
  obtain w where w: "unat w \<le> n" "w < COUNT_LIMIT" "v = WRITE_FLAG_VERSION OR w" "cell_version c = v"
    "\<And>g' v'. guards s g' = Some (Writer a v') \<Longrightarrow> g' = g"
    using cell_inv_writer [OF ci] assms(2) Writer by metis
  note w1 = count_step [OF w(1) assms(4)]
  have ver: "(v + 1) XOR WRITE_FLAG_VERSION = w + 1" using w w1 by (simp add: release_word)
  have word: "u \<le> w + 1 \<and> u \<noteq> w + 1" if "u \<le> w" for u
    using that w1 by (auto simp: word_le_nat_alt)
  show ?thesis
    unfolding c(2) ver
  proof (rule latch_inv_write [OF assms(1) c(1)], goal_cases)
    case 1
    show ?case
      using w w1 unfolding cell_inv_def by (intro exI [of _ "w + 1"]) (auto simp: no_writer_def)
  next
    case (2 k b u)
    then show ?case using assms(2) Writer by simp
  next
    case (3 k b u)
    then show ?case by (simp split: if_splits)
  next
    case (4 u)
    then have "u \<le> w" using w(2-4) by (simp add: mask_count)
    then show ?case using word w1 by (simp add: mask_count)
  qed
qed

lemma latch_step_inv:
  assumes "latch_step s s'" and "latch_inv n s" and "Suc n < 2 ^ 62"
  shows "latch_inv (Suc n) s'"
  using assms(1)
  by cases (use assms(2,3) in \<open>auto intro: latch_inv_alloc latch_inv_borrow latch_inv_clone
      latch_inv_upgrade latch_inv_mutate latch_inv_release\<close>)

lemma latch_run_inv:
  assumes "latch_run n latch_init s" and "n < 2 ^ 62"
  shows "latch_inv n s"
  using assms
proof (induction n "latch_init :: 'a latch_sys" s rule: latch_run.induct)
  case start
  show ?case by (simp add: latch_inv_def latch_init_def)
next
  case (step n s' s'')
  then show ?case by (auto intro: latch_step_inv)
qed

section \<open>Properties\<close>

text \<open>
  C16: mutual exclusion. In every state that the latch reaches in fewer than \<open>2^62\<close> steps, at
  most one live guard of a cell is a writer; while it is, the latch word carries the write flag
  and every reader of the cell fails validation.
\<close>

theorem latch_mutual_exclusion:
  assumes "latch_run n latch_init s" and "n < 2 ^ 62" and "guards s g = Some (Writer a v)"
  shows "(guards s g' = Some (Writer a v') \<longrightarrow> g' = g \<and> v' = v)
    \<and> (guards s g' = Some (Reader a u) \<longrightarrow> is_still_live (l_heap s) (Reader a u) = Some False)"
proof -
  note inv = latch_run_inv [OF assms(1,2)]
  obtain c where c: "l_heap s a = Some c" using latch_invD(3) [OF inv assms(3)] by blast
  obtain w where w: "w < COUNT_LIMIT" "v = WRITE_FLAG_VERSION OR w" "cell_version c = v"
    "\<And>g' v'. guards s g' = Some (Writer a v') \<Longrightarrow> g' = g"
    using cell_inv_writer [OF latch_invD(1) [OF inv c] assms(3)] by metis
  have "u < COUNT_LIMIT" if "guards s g' = Some (Reader a u)"
    using latch_invD(2) [OF inv that] by (auto simp: reader_inv_def)
  then show ?thesis using w c assms(3) flagged_neq [of w u] by auto
qed


text \<open>One cell, borrowed by guard 0, is upgraded, written and released under guard 1.\<close>

definition latch_demo :: "nat latch_sys" where
  "latch_demo = \<lparr>l_heap = [0 \<mapsto> opt_cell_new 7],
     guards = [0 \<mapsto> Reader 0 0], seen = [0 \<mapsto> 7]\<rparr>"

lemma latch_demo_run: "latch_run 2 latch_init latch_demo"
proof -
  let ?s = "latch_init\<lparr>l_heap := [0 \<mapsto> opt_cell_new (7 :: nat)]\<rparr>"
  have "latch_run 1 latch_init ?s"
    using latch_run.step [OF latch_run.start latch_step.alloc [of latch_init 0 "7 :: nat"]]
    by (simp add: latch_init_def)
  moreover have "latch_step ?s latch_demo"
    using latch_step.borrow [of ?s 0 0 "Reader 0 0"]
    by (simp add: latch_init_def latch_demo_def borrow_read_def unsafe_borrow_def opt_cell_new_def
        CELL_START_VERSION_def)
  ultimately show ?thesis using latch_run.step [of 1] by (simp add: numeral_2_eq_2)
qed


definition latch_demo2 :: "nat latch_sys" where
  "latch_demo2 = latch_demo\<lparr>
     l_heap := [0 \<mapsto> \<lparr>cell = 7, cell_version = WRITE_FLAG_VERSION\<rparr>],
     guards := [0 \<mapsto> Reader 0 0, 1 \<mapsto> Writer 0 WRITE_FLAG_VERSION], seen := [0 \<mapsto> 7, 1 \<mapsto> 7]\<rparr>"

lemma latch_demo2_run: "latch_run 4 latch_init latch_demo2"
proof -
  let ?s = "latch_demo\<lparr>guards := [0 \<mapsto> Reader 0 0, 1 \<mapsto> Reader 0 0], seen := [0 \<mapsto> 7, 1 \<mapsto> 7]\<rparr>"
  have "latch_step latch_demo ?s"
    using latch_step.clone [of latch_demo 0 "Reader 0 0" 1 "Reader 0 0"] by (simp add: latch_demo_def)
  moreover have "latch_step ?s latch_demo2"
    using latch_step.upgrade [of ?s 1 "Reader 0 0" False]
    by (simp add: latch_demo_def latch_demo2_def opt_cell_new_def CELL_START_VERSION_def write_lock_def
        fun_upd_twist)
  ultimately show ?thesis
    using latch_run.step [OF latch_run.step [OF latch_demo_run]] by (simp add: eval_nat_numeral)
qed

theorem latch_mutual_exclusion_witness:
  "guards latch_demo2 1 = Some (Writer 0 WRITE_FLAG_VERSION)
    \<and> is_still_live (l_heap latch_demo2) (Reader 0 0) = Some False"
proof -
  have "guards latch_demo2 1 = Some (Writer 0 WRITE_FLAG_VERSION)"
    "guards latch_demo2 0 = Some (Reader 0 0)"
    by (simp_all add: latch_demo2_def)
  then show ?thesis using latch_mutual_exclusion [OF latch_demo2_run, of 1 0 _ 0] by simp
qed

end
