(* ===== verification/Node.thy ===== *)
theory Node
  imports Internal_Page Smart_Cell
begin

text \<open>
  \<^verbatim>\<open>mv_page_model/node.rs\<close>, \<^verbatim>\<open>mv_block/block.rs\<close> and the fill degrees at the top of
  \<^verbatim>\<open>mv_tree/smo.rs\<close>: a node is a tagged union of the two pages. A block is a node in a latched
  cell; dereferencing a block gives its node.

  The tag is a field beside the union, so \<open>mark_leaf\<close> and \<open>mark_internal\<close> reinterpret the page:
  the length word is the only part of a page that the other kind reads before it is written.
\<close>

datatype ('k, 'p) node = NInternal "'k internal_page" | NLeaf "('k, 'p) leaf_page"

type_synonym ('k, 'p) blocks = "('k, 'p) node cells"

definition new_leaf :: "nat \<Rightarrow> ('k, 'p) node" where
  "new_leaf num_records = NLeaf (leaf_new num_records)"

definition new_internal :: "nat \<Rightarrow> ('k, 'p) node" where
  "new_internal fan_out = NInternal (internal_new fan_out)"

fun is_leaf :: "('k, 'p) node \<Rightarrow> bool" where
  "is_leaf (NLeaf p) \<longleftrightarrow> True"
| "is_leaf (NInternal p) \<longleftrightarrow> False"

fun node_as_records :: "('k, 'p) node \<Rightarrow> ('k, 'p) record_point list option" where
  "node_as_records (NLeaf p) = as_records p"
| "node_as_records (NInternal p) = None"

fun node_keys :: "('k, 'p) node \<Rightarrow> 'k interval list option" where
  "node_keys (NInternal p) = internal_keys p"
| "node_keys (NLeaf p) = None"

fun node_children :: "('k, 'p) node \<Rightarrow> addr list option" where
  "node_children (NInternal p) = internal_children p"
| "node_children (NLeaf p) = None"

fun node_keys_versions_pointers :: "('k, 'p) node \<Rightarrow> ('k interval list \<times> version list \<times> addr list) option" where
  "node_keys_versions_pointers (NInternal p) = keys_versions_pointers p"
| "node_keys_versions_pointers (NLeaf p) = None"

text \<open>\<open>as_leaf_page\<close>, \<open>as_leaf_page_ref\<close>: \<open>unreachable!\<close> on an internal page.\<close>

fun as_leaf_page :: "('k, 'p) node \<Rightarrow> ('k, 'p) leaf_page option" where
  "as_leaf_page (NLeaf p) = Some p"
| "as_leaf_page (NInternal p) = None"

text \<open>\<open>as_internal_page\<close>, \<open>as_internal_page_ref\<close>, \<open>try_as_internal_page_ref\<close>.\<close>

fun as_internal_page :: "('k, 'p) node \<Rightarrow> 'k internal_page option" where
  "as_internal_page (NInternal p) = Some p"
| "as_internal_page (NLeaf p) = None"

fun node_on_reuse :: "('k, 'p) node \<Rightarrow> ('k, 'p) node option" where
  "node_on_reuse (NInternal p) = map_option NInternal (internal_on_reuse p)"
| "node_on_reuse (NLeaf p) = map_option NLeaf (leaf_on_reuse p)"

fun node_len :: "('k, 'p) node \<Rightarrow> usize" where
  "node_len (NInternal p) = sum_len p"
| "node_len (NLeaf p) = leaf_len p"

fun mark_leaf :: "nat \<Rightarrow> ('k, 'p) node \<Rightarrow> ('k, 'p) node" where
  "mark_leaf num_records (NLeaf p) = NLeaf p"
| "mark_leaf num_records (NInternal p) = NLeaf \<lparr>l_len = i_len p, record_data = array_uninit num_records\<rparr>"

fun mark_internal :: "nat \<Rightarrow> ('k, 'p) node \<Rightarrow> ('k, 'p) node" where
  "mark_internal fan_out (NInternal p) = NInternal p"
| "mark_internal fan_out (NLeaf p) =
     NInternal \<lparr>i_len = l_len p, key_interval_region = array_uninit fan_out,
       version_region = array_uninit fan_out, pointer_region = array_uninit fan_out\<rparr>"

fun node_clone :: "nat \<Rightarrow> ('k, 'p) node \<Rightarrow> ('k, 'p) node option" where
  "node_clone fan_out (NLeaf p) = map_option NLeaf (leaf_from p)"
| "node_clone fan_out (NInternal p) = map_option NInternal (internal_from fan_out p)"

section \<open>Fill degrees\<close>

text \<open>The const generics of the tree.\<close>

record page_sizes =
  FAN_OUT :: nat
  NUM_RECORDS :: nat

datatype block_unsafe_degree = DegreeOk | Overflow | ActiveUnderflow

definition max_units :: "page_sizes \<Rightarrow> ('k, 'p) node \<Rightarrow> usize" where
  "max_units C n = (if is_leaf n then NUM_RECORDS C else FAN_OUT C)"

definition filling_40_percent :: "page_sizes \<Rightarrow> ('k, 'p) node \<Rightarrow> usize" where
  "filling_40_percent C n = (2 * max_units C n + 4) div 5"

definition filling_80_percent :: "page_sizes \<Rightarrow> ('k, 'p) node \<Rightarrow> usize" where
  "filling_80_percent C n = (4 * max_units C n + 4) div 5"

definition filling_20_percent :: "page_sizes \<Rightarrow> ('k, 'p) node \<Rightarrow> usize" where
  "filling_20_percent C n = (max_units C n + 4) div 5"

definition overflow_units_count :: "page_sizes \<Rightarrow> ('k, 'p) node \<Rightarrow> usize" where
  "overflow_units_count C n = (if is_leaf n then NUM_RECORDS C else FAN_OUT C - 1)"

fun active_dead_count :: "('k, 'p) node \<Rightarrow> u32 \<times> u32" where
  "active_dead_count (NInternal p) = internal_active_dead_count p"
| "active_dead_count (NLeaf p) = leaf_active_dead_count p"

definition unsafe_degree :: "page_sizes \<Rightarrow> ('k, 'p) node \<Rightarrow> block_unsafe_degree" where
  "unsafe_degree C n =
     (let (a, d) = active_dead_count n; active = unat a; dead = unat d; one_d = filling_20_percent C n in
      if active \<le> one_d then ActiveUnderflow
      else
        (let is_overflow = (active + dead \<ge> overflow_units_count C n) in
         if is_overflow \<and> active \<le> one_d * 2 then ActiveUnderflow
         else if is_overflow then Overflow
         else DegreeOk))"

definition unsafe_degree_root :: "page_sizes \<Rightarrow> ('k, 'p) node \<Rightarrow> block_unsafe_degree" where
  "unsafe_degree_root C n =
     (let (a, d) = active_dead_count n; active = unat a; dead = unat d in
      if active = 1 \<and> \<not> is_leaf n then ActiveUnderflow
      else if active + dead \<ge> overflow_units_count C n then Overflow
      else DegreeOk)"

end
