(* ===== verification/Clock.thy ===== *)
theory Clock
  imports Version_Info
begin

text \<open>
  \<^verbatim>\<open>mv_sync/clock.rs\<close> and \<^verbatim>\<open>mv_sync/version_handle.rs\<close>: the commit clock. Writers draw
  versions from a shared counter (\<open>start_commit\<close>) and publish a finished commit in the slot of
  their thread (\<open>end_commit\<close>). A snapshot is the minimum of the clock reading and all slots,
  cached in a global minimum that only grows, behind a three-valued dirty flag.

  First the operations as the code runs them in one thread, then the same operations cut into
  their atomic accesses, with any number of threads interleaved.
\<close>

definition START_VERSION :: version where
  "START_VERSION = 1"

definition CLEAN :: u8 where "CLEAN = 0"
definition DIRTY :: u8 where "DIRTY = 1"
definition SCANNING :: u8 where "SCANNING = 2"

definition MAX_READS_IN_ROW_EPSILON :: u64 where
  "MAX_READS_IN_ROW_EPSILON = 100"

definition READ_IN_ROW_INACTIVE :: u64 where
  "READ_IN_ROW_INACTIVE = U64_MAX"

definition INACTIVE_COMMIT_VERSION_MAX :: version where
  "INACTIVE_COMMIT_VERSION_MAX = U64_MAX"

definition MAX_THREADS :: usize where
  "MAX_THREADS = 4096"

text \<open>The statics of the module and the \<open>GlobalClock\<close> of the tree.\<close>

record clock_mem =
  GLOBAL_MIN :: version
  GLOBAL_DIRTY :: u8
  THREAD_ID :: usize
  SLOTS :: "usize \<Rightarrow> version"
  FREE_TIDS :: "usize list"
  global_clock :: version

definition clock_new :: clock_mem where
  "clock_new = \<lparr>GLOBAL_MIN = START_VERSION, GLOBAL_DIRTY = CLEAN, THREAD_ID = 0,
     SLOTS = (\<lambda>_. INACTIVE_COMMIT_VERSION_MAX), FREE_TIDS = [], global_clock = START_VERSION\<rparr>"

record thread_state =
  t_id :: usize
  reads_in_row :: u64

section \<open>One thread\<close>

definition thread_local_commit :: "clock_mem \<Rightarrow> usize \<Rightarrow> version \<Rightarrow> clock_mem" where
  "thread_local_commit m i v = m\<lparr>SLOTS := (SLOTS m)(i := v), GLOBAL_DIRTY := DIRTY\<rparr>"

definition thread_local_commit_inactive :: "clock_mem \<Rightarrow> usize \<Rightarrow> clock_mem" where
  "thread_local_commit_inactive m i = thread_local_commit m i INACTIVE_COMMIT_VERSION_MAX"

definition has_active_commit :: "thread_state \<Rightarrow> bool" where
  "has_active_commit t \<longleftrightarrow> reads_in_row t \<noteq> READ_IN_ROW_INACTIVE"

definition set_inactive_commit :: "clock_mem \<Rightarrow> thread_state \<Rightarrow> clock_mem \<times> thread_state" where
  "set_inactive_commit m t =
     (thread_local_commit_inactive m (t_id t), t\<lparr>reads_in_row := READ_IN_ROW_INACTIVE\<rparr>)"

definition has_reads_in_row_max :: "thread_state \<Rightarrow> bool" where
  "has_reads_in_row_max t \<longleftrightarrow> reads_in_row t > MAX_READS_IN_ROW_EPSILON"

definition inc_reads :: "thread_state \<Rightarrow> thread_state" where
  "inc_reads t = t\<lparr>reads_in_row := reads_in_row t + 1\<rparr>"

definition reset_reads :: "thread_state \<Rightarrow> thread_state" where
  "reset_reads t = t\<lparr>reads_in_row := 0\<rparr>"

text \<open>\<open>ThreadState::new\<close>: \<open>Inl\<close> is the failed assertion (the counter has been advanced then).\<close>

definition thread_state_new :: "clock_mem \<Rightarrow> clock_mem \<times> (unit + thread_state)" where
  "thread_state_new m =
     (case rev (FREE_TIDS m) of
        i # rest \<Rightarrow> (m\<lparr>FREE_TIDS := rev rest\<rparr>, Inr \<lparr>t_id = i, reads_in_row = 0\<rparr>)
      | [] \<Rightarrow>
          (let i = THREAD_ID m; m' = m\<lparr>THREAD_ID := i + 1\<rparr> in
           if i < MAX_THREADS then (m', Inr \<lparr>t_id = i, reads_in_row = 0\<rparr>) else (m', Inl ())))"

definition thread_state_drop :: "clock_mem \<Rightarrow> thread_state \<Rightarrow> clock_mem" where
  "thread_state_drop m t =
     (let m' = thread_local_commit_inactive m (t_id t)
      in m'\<lparr>FREE_TIDS := FREE_TIDS m' @ [t_id t]\<rparr>)"

text \<open>The fold over the slots: \<open>take\<close> stops at the end of the array.\<close>

definition agg_min_commit :: "clock_mem \<Rightarrow> version \<Rightarrow> version" where
  "agg_min_commit m clock_time =
     fold (\<lambda>i acc. min acc (SLOTS m i)) [0..<min (THREAD_ID m) MAX_THREADS] clock_time"

definition committed_snapshot :: "clock_mem \<Rightarrow> version \<Rightarrow> clock_mem \<times> version" where
  "committed_snapshot m clock_time =
     (let dirty = GLOBAL_DIRTY m in
      if dirty = CLEAN then (m, GLOBAL_MIN m)
      else
        (let owns_scan = (dirty = DIRTY);
             m1 = (if owns_scan then m\<lparr>GLOBAL_DIRTY := SCANNING\<rparr> else m);
             agg = agg_min_commit m1 clock_time;
             oo_min = GLOBAL_MIN m1;
             m2 = m1\<lparr>GLOBAL_MIN := max oo_min agg\<rparr>;
             m3 = (if owns_scan \<and> GLOBAL_DIRTY m2 = SCANNING then m2\<lparr>GLOBAL_DIRTY := CLEAN\<rparr> else m2)
         in (m3, max agg oo_min)))"

definition note_read :: "clock_mem \<Rightarrow> thread_state \<Rightarrow> clock_mem \<times> thread_state" where
  "note_read m t =
     (if has_active_commit t then
        if has_reads_in_row_max t then set_inactive_commit m t else (m, inc_reads t)
      else (m, t))"

definition committed_read :: "clock_mem \<Rightarrow> thread_state \<Rightarrow> version \<Rightarrow> clock_mem \<times> thread_state \<times> version" where
  "committed_read m t clock_time =
     (let (m1, t1) = note_read m t; (m2, v) = committed_snapshot m1 clock_time in (m2, t1, v))"

definition release_thread_commit :: "clock_mem \<Rightarrow> thread_state \<Rightarrow> clock_mem \<times> thread_state" where
  "release_thread_commit m t = set_inactive_commit m t"

definition clock_current_version :: "clock_mem \<Rightarrow> version" where
  "clock_current_version m = global_clock m"

definition end_commit :: "clock_mem \<Rightarrow> thread_state \<Rightarrow> version \<Rightarrow> clock_mem" where
  "end_commit m t v = thread_local_commit m (t_id t) v"

definition start_commit :: "clock_mem \<Rightarrow> thread_state \<Rightarrow> clock_mem \<times> thread_state \<times> version" where
  "start_commit m t =
     (m\<lparr>global_clock := global_clock m + 1\<rparr>, reset_reads t, global_clock m)"

definition current_version_for_reader :: "clock_mem \<Rightarrow> thread_state \<Rightarrow> clock_mem \<times> thread_state \<times> version" where
  "current_version_for_reader m t = committed_read m t (global_clock m)"

section \<open>The atomic accesses of a snapshot\<close>

text \<open>
  Where a thread is inside \<open>committed_snapshot\<close>: \<open>SStart c\<close> before it loads the dirty flag,
  \<open>SClean\<close> before it loads the global minimum, \<open>STry\<close> before the compare-exchange, \<open>SLimit\<close>
  before it loads the thread count, \<open>SScan\<close> inside the fold, \<open>SPublish\<close> before \<open>fetch_max\<close>,
  \<open>SOwner\<close> before the closing compare-exchange, \<open>SDone\<close> with the result.
\<close>

datatype snap_pc =
    SStart version
  | SClean
  | STry version
  | SLimit bool version
  | SScan bool usize usize version
  | SPublish bool version
  | SOwner version
  | SDone version

fun snap_step :: "clock_mem \<Rightarrow> snap_pc \<Rightarrow> clock_mem \<times> snap_pc" where
  "snap_step m (SStart c) =
     (m, if GLOBAL_DIRTY m = CLEAN then SClean
         else if GLOBAL_DIRTY m = DIRTY then STry c else SLimit False c)"
| "snap_step m SClean = (m, SDone (GLOBAL_MIN m))"
| "snap_step m (STry c) =
     (if GLOBAL_DIRTY m = DIRTY then (m\<lparr>GLOBAL_DIRTY := SCANNING\<rparr>, SLimit True c)
      else (m, SLimit False c))"
| "snap_step m (SLimit owns c) = (m, SScan owns 0 (min (THREAD_ID m) MAX_THREADS) c)"
| "snap_step m (SScan owns i n acc) =
     (m, if i < n then SScan owns (Suc i) n (min acc (SLOTS m i)) else SPublish owns acc)"
| "snap_step m (SPublish owns agg) =
     (m\<lparr>GLOBAL_MIN := max (GLOBAL_MIN m) agg\<rparr>,
      if owns then SOwner (max agg (GLOBAL_MIN m)) else SDone (max agg (GLOBAL_MIN m)))"
| "snap_step m (SOwner r) =
     (if GLOBAL_DIRTY m = SCANNING then m\<lparr>GLOBAL_DIRTY := CLEAN\<rparr> else m, SDone r)"
| "snap_step m (SDone r) = (m, SDone r)"

definition snap_steps :: "nat \<Rightarrow> clock_mem \<times> snap_pc \<Rightarrow> clock_mem \<times> snap_pc" where
  "snap_steps n = (\<lambda>(m, pc). snap_step m pc) ^^ n"

section \<open>Threads interleaved\<close>

text \<open>
  A thread outside the module is \<open>Idle\<close>; \<open>Loaded c\<close> has read the clock for \<open>committed_read\<close>;
  \<open>Dirtying\<close> has stored its slot and will set the dirty flag, and then go on with a snapshot
  or be done; \<open>Exiting\<close> is inside \<open>ThreadState::drop\<close>. \<open>in_flight\<close> is the version of a commit
  between \<open>start_commit\<close> and \<open>end_commit\<close>.
\<close>

datatype thread_pc =
    Idle
  | Loaded version
  | Dirtying "version option"
  | Exiting
  | Snap snap_pc

record clock_sys =
  mem :: clock_mem
  alive :: "usize \<Rightarrow> bool"
  reads :: "usize \<Rightarrow> u64"
  in_flight :: "usize \<rightharpoonup> version"
  pcs :: "usize \<Rightarrow> thread_pc"

definition clock_sys_new :: clock_sys where
  "clock_sys_new = \<lparr>mem = clock_new, alive = (\<lambda>_. False), reads = (\<lambda>_. 0), in_flight = Map.empty,
     pcs = (\<lambda>_. Idle)\<rparr>"

definition sys_thread :: "clock_sys \<Rightarrow> usize \<Rightarrow> thread_state" where
  "sys_thread s t = \<lparr>t_id = t, reads_in_row = reads s t\<rparr>"

text \<open>One access of one thread.\<close>

datatype action =
    Spawn
  | Start usize
  | Publish usize
  | SetDirty usize
  | LoadClock usize
  | NoteRead usize
  | CollectGarbage usize
  | SnapStep usize
  | Return usize
  | Release usize
  | Exit usize

definition store_slot :: "clock_mem \<Rightarrow> usize \<Rightarrow> version \<Rightarrow> clock_mem" where
  "store_slot m t v = m\<lparr>SLOTS := (SLOTS m)(t := v)\<rparr>"

fun act :: "action \<Rightarrow> clock_sys \<Rightarrow> clock_sys option" where
  "act Spawn s =
     (case thread_state_new (mem s) of
        (m, Inr t) \<Rightarrow> Some (s\<lparr>mem := m, alive := (alive s)(t_id t := True),
          reads := (reads s)(t_id t := reads_in_row t), pcs := (pcs s)(t_id t := Idle)\<rparr>)
      | (m, Inl e) \<Rightarrow> None)"
| "act (Start t) s =
     (if alive s t \<and> pcs s t = Idle \<and> in_flight s t = None then
        (let (m, th, v) = start_commit (mem s) (sys_thread s t) in
         Some (s\<lparr>mem := m, reads := (reads s)(t := reads_in_row th), in_flight := (in_flight s)(t \<mapsto> v)\<rparr>))
      else None)"
| "act (Publish t) s =
     (case in_flight s t of
        Some v \<Rightarrow>
          if pcs s t = Idle then
            Some (s\<lparr>mem := store_slot (mem s) t v, in_flight := (in_flight s)(t := None),
                    pcs := (pcs s)(t := Dirtying None)\<rparr>)
          else None
      | None \<Rightarrow> None)"
| "act (SetDirty t) s =
     (case pcs s t of
        Dirtying k \<Rightarrow> Some (s\<lparr>mem := (mem s)\<lparr>GLOBAL_DIRTY := DIRTY\<rparr>,
          pcs := (pcs s)(t := (case k of None \<Rightarrow> Idle | Some c \<Rightarrow> Snap (SStart c)))\<rparr>)
      | Exiting \<Rightarrow> Some (s\<lparr>mem := (mem s)\<lparr>GLOBAL_DIRTY := DIRTY, FREE_TIDS := FREE_TIDS (mem s) @ [t]\<rparr>,
          alive := (alive s)(t := False), pcs := (pcs s)(t := Idle)\<rparr>)
      | _ \<Rightarrow> None)"
| "act (LoadClock t) s =
     (if alive s t \<and> pcs s t = Idle then Some (s\<lparr>pcs := (pcs s)(t := Loaded (global_clock (mem s)))\<rparr>) else None)"
| "act (NoteRead t) s =
     (case pcs s t of
        Loaded c \<Rightarrow>
          Some (if has_active_commit (sys_thread s t) then
                  if has_reads_in_row_max (sys_thread s t) then
                    s\<lparr>mem := store_slot (mem s) t INACTIVE_COMMIT_VERSION_MAX,
                      reads := (reads s)(t := READ_IN_ROW_INACTIVE),
                      pcs := (pcs s)(t := Dirtying (Some c))\<rparr>
                  else s\<lparr>reads := (reads s)(t := reads_in_row (inc_reads (sys_thread s t))),
                         pcs := (pcs s)(t := Snap (SStart c))\<rparr>
                else s\<lparr>pcs := (pcs s)(t := Snap (SStart c))\<rparr>)
      | _ \<Rightarrow> None)"
| "act (CollectGarbage t) s =
     (if alive s t \<and> pcs s t = Idle then Some (s\<lparr>pcs := (pcs s)(t := Snap (SStart U64_MAX))\<rparr>) else None)"
| "act (SnapStep t) s =
     (case pcs s t of
        Snap p \<Rightarrow> (let (m, p') = snap_step (mem s) p in Some (s\<lparr>mem := m, pcs := (pcs s)(t := Snap p')\<rparr>))
      | _ \<Rightarrow> None)"
| "act (Return t) s =
     (case pcs s t of Snap (SDone r) \<Rightarrow> Some (s\<lparr>pcs := (pcs s)(t := Idle)\<rparr>) | _ \<Rightarrow> None)"
| "act (Release t) s =
     (if alive s t \<and> pcs s t = Idle then
        Some (s\<lparr>mem := store_slot (mem s) t INACTIVE_COMMIT_VERSION_MAX,
                reads := (reads s)(t := READ_IN_ROW_INACTIVE), pcs := (pcs s)(t := Dirtying None)\<rparr>)
      else None)"
| "act (Exit t) s =
     (if alive s t \<and> pcs s t = Idle \<and> in_flight s t = None then
        Some (s\<lparr>mem := store_slot (mem s) t INACTIVE_COMMIT_VERSION_MAX, pcs := (pcs s)(t := Exiting)\<rparr>)
      else None)"

fun run :: "action list \<Rightarrow> clock_sys \<Rightarrow> clock_sys option" where
  "run [] s = Some s"
| "run (a # as) s = Option.bind (act a s) (run as)"

lemma act_SnapStepD:
  assumes "act (SnapStep t) s = Some s'"
  obtains p m p' where "pcs s t = Snap p" "snap_step (mem s) p = (m, p')"
    "s' = s\<lparr>mem := m, pcs := (pcs s)(t := Snap p')\<rparr>"
  using assms by (auto simp: Let_def split: thread_pc.splits prod.splits)

lemmas act_defs = thread_state_new_def start_commit_def store_slot_def Let_def
lemmas act_splits = thread_pc.splits option.splits snap_pc.splits if_splits list.splits

lemma run_append: "run (as @ bs) s = Option.bind (run as s) (run bs)"
  by (induction as arbitrary: s) (auto split: Option.bind_split)

text \<open>An invariant of single accesses is an invariant of runs.\<close>

lemma run_invariant:
  assumes "run as s = Some s'" and "I s" and "\<And>a s s'. I s \<Longrightarrow> act a s = Some s' \<Longrightarrow> I s'"
  shows "I s'"
  using assms(1,2)
  by (induction as arbitrary: s) (auto simp: bind_eq_Some_conv dest: assms(3))

section \<open>A snapshot without interference\<close>

lemma snap_steps_0 [simp]: "snap_steps 0 x = x"
  by (simp add: snap_steps_def)

lemma snap_steps_Suc: "snap_steps (Suc n) (m, pc) = snap_steps n (snap_step m pc)"
  by (simp add: snap_steps_def funpow_Suc_right del: funpow.simps)

lemma snap_steps_done [simp]: "snap_steps n (m, SDone r) = (m, SDone r)"
  by (induction n) (simp_all add: snap_steps_Suc)

lemma snap_steps_scan:
  "i \<le> n \<Longrightarrow> snap_steps (n - i + k) (m, SScan owns i n acc) =
     snap_steps k (m, SScan owns n n (fold (\<lambda>i acc. min acc (SLOTS m i)) [i..<n] acc))"
proof (induction "n - i" arbitrary: i acc)
  case 0
  then show ?case by simp
next
  case (Suc d)
  then have "i < n" "n - i = Suc (n - Suc i)" by simp_all
  moreover have "[i..<n] = i # [Suc i..<n]" using \<open>i < n\<close> by (simp add: upt_conv_Cons)
  ultimately show ?case
    using Suc.hyps(1) [of "Suc i"] Suc.hyps(2) by (simp add: snap_steps_Suc)
qed

lemma snap_steps_from_limit:
  "snap_steps (min (THREAD_ID m) MAX_THREADS + 4) (m, SLimit owns c) =
     (let agg = agg_min_commit m c; m2 = m\<lparr>GLOBAL_MIN := max (GLOBAL_MIN m) agg\<rparr> in
      (if owns \<and> GLOBAL_DIRTY m = SCANNING then m2\<lparr>GLOBAL_DIRTY := CLEAN\<rparr> else m2,
       SDone (max agg (GLOBAL_MIN m))))"
proof -
  let ?n = "min (THREAD_ID m) MAX_THREADS"
  have "snap_steps (?n + 4) (m, SLimit owns c) = snap_steps (?n - 0 + 3) (m, SScan owns 0 ?n c)"
    by (simp add: snap_steps_Suc eval_nat_numeral)
  also have "\<dots> = snap_steps 3 (m, SScan owns ?n ?n (agg_min_commit m c))"
    unfolding agg_min_commit_def by (subst snap_steps_scan) simp_all
  finally show ?thesis
    by (simp add: eval_nat_numeral snap_steps_Suc Let_def)
qed

section \<open>The global minimum grows\<close>

fun result_of :: "thread_pc \<Rightarrow> version option" where
  "result_of (Snap (SOwner r)) = Some r"
| "result_of (Snap (SDone r)) = Some r"
| "result_of _ = None"

lemma snap_step_result:
  assumes "snap_step m p = (m', p')"
  shows "GLOBAL_MIN m \<le> GLOBAL_MIN m'"
    and "result_of (Snap p') = Some r \<Longrightarrow>
      result_of (Snap p) = Some r \<or> GLOBAL_MIN m \<le> r \<and> r \<le> GLOBAL_MIN m'"
  using assms by (cases p; auto split: if_splits simp: max.commute)+

text \<open>Outside a snapshot nothing touches the global minimum, and no thread gets a result.\<close>

lemma act_SpawnD:
  assumes "act Spawn s = Some s'"
  obtains m t where "thread_state_new (mem s) = (m, Inr t)"
    "s' = s\<lparr>mem := m, alive := (alive s)(t_id t := True), reads := (reads s)(t_id t := reads_in_row t),
       pcs := (pcs s)(t_id t := Idle)\<rparr>"
    "GLOBAL_MIN m = GLOBAL_MIN (mem s)" "SLOTS m = SLOTS (mem s)" "THREAD_ID (mem s) \<le> THREAD_ID m"
    "global_clock m = global_clock (mem s)"
proof -
  obtain m x where n: "thread_state_new (mem s) = (m, x)" by fastforce
  then have "GLOBAL_MIN m = GLOBAL_MIN (mem s)" "SLOTS m = SLOTS (mem s)" "THREAD_ID (mem s) \<le> THREAD_ID m"
    "global_clock m = global_clock (mem s)"
    by (auto simp: thread_state_new_def Let_def split: list.splits if_splits)
  moreover obtain t where "x = Inr t" using assms n by (cases x) simp_all
  ultimately show thesis using assms n by (intro that [of m t]) simp_all
qed

lemma act_other:
  assumes "act a s = Some s'" and "\<nexists>u. a = SnapStep u"
  shows "GLOBAL_MIN (mem s') = GLOBAL_MIN (mem s)
    \<and> (result_of (pcs s' t) = Some r \<longrightarrow> result_of (pcs s t) = Some r)"
proof (cases a)
  case Spawn
  with assms(1) have "act Spawn s = Some s'" by simp
  then show ?thesis by (rule act_SpawnD) simp
next
  case (Publish u)
  then show ?thesis using assms by (auto simp: act_defs split: if_splits option.splits)
next
  case (SetDirty u)
  then show ?thesis using assms by (auto split: if_splits option.splits thread_pc.splits)
next
  case (NoteRead u)
  then show ?thesis using assms by (auto simp: act_defs split: if_splits thread_pc.splits)
next
  case (Return u)
  then show ?thesis using assms by (auto split: if_splits thread_pc.splits snap_pc.splits)
qed (use assms in \<open>auto simp: act_defs split: if_splits\<close>)

text \<open>
  Every access keeps the global minimum or raises it, and a thread that has a result either
  had it before or got it between the old and the new global minimum.
\<close>

lemma act_result:
  assumes "act a s = Some s'"
  shows "GLOBAL_MIN (mem s) \<le> GLOBAL_MIN (mem s')"
    and "result_of (pcs s' t) = Some r \<Longrightarrow> result_of (pcs s t) = Some r
      \<or> GLOBAL_MIN (mem s) \<le> r \<and> r \<le> GLOBAL_MIN (mem s')"
proof -
  have "GLOBAL_MIN (mem s) \<le> GLOBAL_MIN (mem s') \<and> (result_of (pcs s' t) = Some r \<longrightarrow>
      result_of (pcs s t) = Some r \<or> GLOBAL_MIN (mem s) \<le> r \<and> r \<le> GLOBAL_MIN (mem s'))"
  proof (cases "\<exists>u. a = SnapStep u")
    case True
    then obtain u p m p' where p: "pcs s u = Snap p" "snap_step (mem s) p = (m, p')"
      "s' = s\<lparr>mem := m, pcs := (pcs s)(u := Snap p')\<rparr>"
      using assms act_SnapStepD by metis
    then show ?thesis using snap_step_result(1) [OF p(2)] snap_step_result(2) [OF p(2), of r] by auto
  next
    case False
    then show ?thesis using act_other [OF assms, of t r] by auto
  qed
  then show "GLOBAL_MIN (mem s) \<le> GLOBAL_MIN (mem s')" "result_of (pcs s' t) = Some r \<Longrightarrow>
      result_of (pcs s t) = Some r \<or> GLOBAL_MIN (mem s) \<le> r \<and> r \<le> GLOBAL_MIN (mem s')"
    by blast+
qed

definition results_bounded :: "clock_sys \<Rightarrow> bool" where
  "results_bounded s \<longleftrightarrow> (\<forall>t r. result_of (pcs s t) = Some r \<longrightarrow> r \<le> GLOBAL_MIN (mem s))"

lemma results_bounded_act: "results_bounded s \<Longrightarrow> act a s = Some s' \<Longrightarrow> results_bounded s'"
  unfolding results_bounded_def by (meson act_result order_trans)

lemma results_bounded_run: "run as clock_sys_new = Some s \<Longrightarrow> results_bounded s"
  by (rule run_invariant [where I = results_bounded])
    (auto simp: results_bounded_def clock_sys_new_def intro: results_bounded_act [unfolded results_bounded_def, rule_format])

text \<open>From here on no result of thread \<open>u\<close> is below \<open>g\<close>.\<close>

definition results_from :: "version \<Rightarrow> usize \<Rightarrow> clock_sys \<Rightarrow> bool" where
  "results_from g u s \<longleftrightarrow> g \<le> GLOBAL_MIN (mem s) \<and> (\<forall>r. result_of (pcs s u) = Some r \<longrightarrow> g \<le> r)"

lemma results_from_act: "results_from g u s \<Longrightarrow> act a s = Some s' \<Longrightarrow> results_from g u s'"
  unfolding results_from_def by (meson act_result order_trans)

section \<open>Announced commits\<close>

text \<open>
  A slot is active when it holds a version. \<open>announced\<close>: every commit in flight has an active
  slot below its version, and neither the global minimum nor a running snapshot has passed an
  active slot.
\<close>

abbreviation active_slot :: "clock_mem \<Rightarrow> usize \<Rightarrow> bool" where
  "active_slot m t \<equiv> SLOTS m t \<noteq> INACTIVE_COMMIT_VERSION_MAX"

fun pc_below :: "thread_pc \<Rightarrow> usize \<Rightarrow> version \<Rightarrow> bool" where
  "pc_below (Snap (SScan owns i n acc)) t x \<longleftrightarrow> t < n \<and> (t < i \<longrightarrow> acc \<le> x)"
| "pc_below (Snap (SPublish owns acc)) t x \<longleftrightarrow> acc \<le> x"
| "pc_below (Snap (SOwner r)) t x \<longleftrightarrow> r \<le> x"
| "pc_below (Snap (SDone r)) t x \<longleftrightarrow> r \<le> x"
| "pc_below _ t x \<longleftrightarrow> True"

definition announced :: "clock_sys \<Rightarrow> bool" where
  "announced s \<longleftrightarrow>
     (\<forall>t. active_slot (mem s) t \<longrightarrow> t < min (THREAD_ID (mem s)) MAX_THREADS
        \<and> SLOTS (mem s) t < global_clock (mem s) \<and> GLOBAL_MIN (mem s) \<le> SLOTS (mem s) t
        \<and> (\<forall>u. pc_below (pcs s u) t (SLOTS (mem s) t)))
     \<and> (\<forall>t v. in_flight s t = Some v \<longrightarrow> active_slot (mem s) t
        \<and> SLOTS (mem s) t < v \<and> v < global_clock (mem s))"

text \<open>
  The discipline: a commit starts from an active slot and before the clock wraps, and a slot is
  not given up while its thread has a commit in flight.
\<close>

fun calm :: "action \<Rightarrow> clock_sys \<Rightarrow> bool" where
  "calm (Start t) s \<longleftrightarrow> active_slot (mem s) t \<and> global_clock (mem s) \<noteq> U64_MAX"
| "calm (NoteRead t) s \<longleftrightarrow> in_flight s t = None"
| "calm (Release t) s \<longleftrightarrow> in_flight s t = None"
| "calm _ s \<longleftrightarrow> True"

fun calm_run :: "action list \<Rightarrow> clock_sys \<Rightarrow> bool" where
  "calm_run [] s \<longleftrightarrow> True"
| "calm_run (a # as) s \<longleftrightarrow> calm a s \<and> (case act a s of Some s' \<Rightarrow> calm_run as s' | None \<Rightarrow> True)"

lemma announcedD:
  assumes "announced s"
  shows "active_slot (mem s) t \<Longrightarrow> t < min (THREAD_ID (mem s)) MAX_THREADS"
    and "active_slot (mem s) t \<Longrightarrow> SLOTS (mem s) t < global_clock (mem s)"
    and "active_slot (mem s) t \<Longrightarrow> GLOBAL_MIN (mem s) \<le> SLOTS (mem s) t"
    and "active_slot (mem s) t \<Longrightarrow> pc_below (pcs s u) t (SLOTS (mem s) t)"
    and "in_flight s t = Some v \<Longrightarrow> active_slot (mem s) t \<and> SLOTS (mem s) t < v \<and> v < global_clock (mem s)"
  using assms unfolding announced_def by blast+

text \<open>What may change between two announced states: slots grow or become inactive.\<close>

lemma announced_frame:
  assumes "announced s"
    and "THREAD_ID (mem s) \<le> THREAD_ID (mem s')" and "global_clock (mem s) = global_clock (mem s')"
    and "GLOBAL_MIN (mem s') = GLOBAL_MIN (mem s)" and "in_flight s' = in_flight s"
    and "SLOTS (mem s') = SLOTS (mem s)"
    and "\<And>u t x. pc_below (pcs s u) t x \<Longrightarrow> pc_below (pcs s' u) t x"
  shows "announced s'"
  using assms unfolding announced_def by auto

lemma pc_below_mono: "pc_below p t x \<Longrightarrow> x \<le> y \<Longrightarrow> pc_below p t y"
  by (cases "(p, t, x)" rule: pc_below.cases) auto

lemma announced_inactive:
  assumes "announced s" and "in_flight s t = None"
    and "\<And>u k x. pc_below (pcs s u) k x \<Longrightarrow> pc_below (ps u) k x"
  shows "announced (s\<lparr>mem := store_slot (mem s) t INACTIVE_COMMIT_VERSION_MAX, reads := rs, pcs := ps\<rparr>)"
  using assms unfolding announced_def store_slot_def by auto

lemma announced_start:
  assumes "announced s" and "calm (Start t) s" and "act (Start t) s = Some s'"
  shows "announced s'"
proof -
  have "unat (global_clock (mem s)) \<noteq> unat U64_MAX"
    using assms(2) by (simp only: calm.simps word_unat_eq_iff) simp
  then have "unat (global_clock (mem s)) < unat U64_MAX"
    using unsigned_less [of "global_clock (mem s)", where 'a = nat] by simp
  then have "global_clock (mem s) < global_clock (mem s) + 1"
    by (simp add: word_less_nat_alt unat_word_ariths)
  then have "x < global_clock (mem s) \<Longrightarrow> x < global_clock (mem s) + 1" for x
    by (rule order_less_trans [rotated])
  then show ?thesis
    using assms \<open>global_clock (mem s) < _\<close> unfolding announced_def
    by (auto simp: act_defs split: if_splits)
qed

lemma announced_publish:
  assumes "announced s" and "act (Publish t) s = Some s'"
  shows "announced s'"
proof -
  obtain v where v: "in_flight s t = Some v" "pcs s t = Idle"
    "s' = s\<lparr>mem := store_slot (mem s) t v, in_flight := (in_flight s)(t := None), pcs := (pcs s)(t := Dirtying None)\<rparr>"
    using assms(2) by (auto split: option.splits if_splits)
  note fl = announcedD(5) [OF assms(1) v(1)]
  have "pc_below (pcs s u) t v" for u
    using announcedD(4) [OF assms(1), of t u] fl by (auto intro: pc_below_mono less_imp_le)
  moreover have "GLOBAL_MIN (mem s) \<le> v"
    using announcedD(3) [OF assms(1), of t] fl by (auto intro: order_trans less_imp_le)
  ultimately show ?thesis
    using assms(1) fl v unfolding announced_def store_slot_def by auto
qed

lemma announced_snap:
  assumes "announced s" and "act (SnapStep u) s = Some s'"
  shows "announced s'"
proof -
  obtain p m p' where p: "pcs s u = Snap p" "snap_step (mem s) p = (m, p')"
    "s' = s\<lparr>mem := m, pcs := (pcs s)(u := Snap p')\<rparr>"
    using assms(2) act_SnapStepD by metis
  have same: "SLOTS m = SLOTS (mem s)" "THREAD_ID m = THREAD_ID (mem s)" "global_clock m = global_clock (mem s)"
    using p(2) by (cases p; auto split: if_splits)+
  have "pc_below (Snap p') t (SLOTS m t) \<and> GLOBAL_MIN m \<le> SLOTS m t" if "active_slot (mem s) t" for t
    using p(2) announcedD(1,3) [OF assms(1) that] announcedD(4) [OF assms(1) that, of u] p(1)
    by (cases p) (auto split: if_splits simp: less_Suc_eq min_le_iff_disj)
  then show ?thesis using assms(1) p(3) same unfolding announced_def by auto
qed

lemma announced_act:
  assumes "announced s" and "calm a s" and "act a s = Some s'"
  shows "announced s'"
proof (cases a)
  case Spawn
  with assms(3) have "act Spawn s = Some s'" by simp
  then show ?thesis
    by (rule act_SpawnD) (rule announced_frame [OF assms(1)], simp_all)
next
  case (Start t)
  then show ?thesis using announced_start assms by simp
next
  case (Publish t)
  then show ?thesis using announced_publish assms by simp
next
  case (SnapStep t)
  then show ?thesis using announced_snap assms by simp
next
  case (NoteRead t)
  then obtain c where c: "pcs s t = Loaded c" using assms(3) by (auto split: thread_pc.splits)
  show ?thesis
  proof (cases "has_active_commit (sys_thread s t) \<and> has_reads_in_row_max (sys_thread s t)")
    case True
    then show ?thesis using NoteRead c assms by (auto intro!: announced_inactive)
  next
    case False
    then show ?thesis
      using NoteRead c assms by (auto intro!: announced_frame [OF assms(1)] split: if_splits)
  qed
next
  case (Release t)
  then show ?thesis using assms by (auto intro!: announced_inactive split: if_splits)
next
  case (Exit t)
  then have "in_flight s t = None"
    "s' = s\<lparr>mem := store_slot (mem s) t INACTIVE_COMMIT_VERSION_MAX, reads := reads s, pcs := (pcs s)(t := Exiting)\<rparr>"
    using assms(3) by (auto split: if_splits)
  then show ?thesis
    using announced_inactive [OF assms(1), of t "(pcs s)(t := Exiting)" "reads s"] by simp
next
  case (SetDirty t)
  then show ?thesis
    using assms(3) by (auto intro!: announced_frame [OF assms(1)] split: thread_pc.splits option.splits)
next
  case (Return t)
  then show ?thesis
    using assms(3) by (auto intro!: announced_frame [OF assms(1)] split: thread_pc.splits snap_pc.splits)
qed (use assms(3) in \<open>auto intro!: announced_frame [OF assms(1)] split: if_splits\<close>)

lemma announced_run:
  "run as s = Some s' \<Longrightarrow> announced s \<Longrightarrow> calm_run as s \<Longrightarrow> announced s'"
  by (induction as arbitrary: s) (auto simp: bind_eq_Some_conv dest: announced_act)

section \<open>Properties\<close>


text \<open>
  C21: snapshots are monotone over time under every interleaving. If a thread holds the result
  \<open>r\<close> of a snapshot at a moment when thread \<open>u\<close> is not inside one, then every result \<open>u\<close>
  obtains later is at least \<open>r\<close>; so a snapshot lower-bounds all snapshots taken afterwards.
\<close>

theorem snapshots_monotone:
  assumes "run as clock_sys_new = Some s" and "pcs s t = Snap (SDone r)" and "pcs s u = Idle"
    and "run bs s = Some s'" and "pcs s' u = Snap (SDone r')"
  shows "r \<le> r'"
proof -
  have "results_from (GLOBAL_MIN (mem s)) u s" using assms(3) by (simp add: results_from_def)
  then have "results_from (GLOBAL_MIN (mem s)) u s'"
    by (rule run_invariant [OF assms(4)]) (rule results_from_act)
  then have "GLOBAL_MIN (mem s) \<le> r'" using assms(5) by (simp add: results_from_def)
  moreover have "r \<le> GLOBAL_MIN (mem s)"
    using results_bounded_run [OF assms(1), unfolded results_bounded_def, rule_format, of t r] assms(2)
    by simp
  ultimately show ?thesis by simp
qed

text \<open>
  C22: no snapshot sees a commit in flight, as long as commits are announced: from a state in
  which every commit in flight has an active slot below it, along every interleaving in which
  commits only start from active slots and slots are not given up during a commit, the result
  of every snapshot stays below every version in flight.
\<close>

theorem announced_commits_invisible:
  assumes "announced s" and "calm_run as s" and "run as s = Some s'"
    and "pcs s' u = Snap (SDone r)" and "in_flight s' t = Some v"
  shows "r < v"
proof -
  have a: "announced s'" using announced_run [OF assms(3,1,2)] .
  then show ?thesis using announcedD(5) [OF a assms(5)] announcedD(4) [OF a, of t u] assms(4) by auto
qed

text \<open>
  Two threads: thread 0 commits version 1; thread 1, whose slot was never used, draws version 2;
  thread 0 commits version 3 and takes a snapshot.
\<close>

abbreviation commit_run :: "usize \<Rightarrow> action list" where
  "commit_run t \<equiv> [Start t, Publish t, SetDirty t]"

abbreviation snap_run :: "usize \<Rightarrow> action list" where
  "snap_run t \<equiv> [SnapStep t, SnapStep t, SnapStep t, SnapStep t, SnapStep t, SnapStep t, SnapStep t, SnapStep t]"

abbreviation read_run :: "usize \<Rightarrow> action list" where
  "read_run t \<equiv> LoadClock t # NoteRead t # snap_run t"

lemmas clock_eval = clock_sys_new_def clock_new_def thread_state_new_def start_commit_def reset_reads_def
  sys_thread_def store_slot_def has_active_commit_def has_reads_in_row_max_def inc_reads_def
  START_VERSION_def CLEAN_def DIRTY_def SCANNING_def MAX_THREADS_def INACTIVE_COMMIT_VERSION_MAX_def
  READ_IN_ROW_INACTIVE_def MAX_READS_IN_ROW_EPSILON_def Let_def



abbreviation collect_run :: "usize \<Rightarrow> action list" where
  "collect_run t \<equiv> [Release t, SetDirty t, CollectGarbage t] @ snap_run t @ [Return t]"



theorem snapshots_monotone_witness:
  "\<exists>s s'. run ([Spawn, Spawn] @ commit_run 0 @ read_run 0) clock_sys_new = Some s
    \<and> pcs s 0 = Snap (SDone 1) \<and> run (commit_run 1 @ read_run 1) s = Some s'
    \<and> (\<exists>r. pcs s' 1 = Snap (SDone r) \<and> 1 \<le> r)"
proof -
  have "\<exists>s s'. run ([Spawn, Spawn] @ commit_run 0 @ read_run 0) clock_sys_new = Some s
    \<and> pcs s 0 = Snap (SDone 1) \<and> pcs s 1 = Idle \<and> run (commit_run 1 @ read_run 1) s = Some s'
    \<and> (\<exists>r. pcs s' 1 = Snap (SDone r))"
    by (simp add: clock_eval)
  then show ?thesis using snapshots_monotone by blast
qed

text \<open>Two threads with active slots, before thread 1 starts version 3.\<close>

definition warm_sys :: clock_sys where
  "warm_sys = \<lparr>mem = \<lparr>GLOBAL_MIN = 1, GLOBAL_DIRTY = DIRTY, THREAD_ID = 2,
       SLOTS = (\<lambda>_. INACTIVE_COMMIT_VERSION_MAX)(0 := 1, 1 := 2), FREE_TIDS = [], global_clock = 3\<rparr>,
     alive = (\<lambda>_. False)(0 := True, 1 := True), reads = (\<lambda>_. 0), in_flight = Map.empty, pcs = (\<lambda>_. Idle)\<rparr>"

theorem announced_commits_invisible_witness:
  "\<exists>s r v. run (Start 1 # read_run 0) warm_sys = Some s \<and> pcs s 0 = Snap (SDone r)
    \<and> in_flight s 1 = Some v \<and> r < v"
proof -
  have "announced warm_sys"
    by (simp add: announced_def warm_sys_def INACTIVE_COMMIT_VERSION_MAX_def MAX_THREADS_def)
  moreover have "calm_run (Start 1 # read_run 0) warm_sys"
    by (simp add: warm_sys_def clock_eval)
  moreover have "\<exists>s r v. run (Start 1 # read_run 0) warm_sys = Some s \<and> pcs s 0 = Snap (SDone r)
    \<and> in_flight s 1 = Some v"
    by (simp add: warm_sys_def clock_eval)
  ultimately show ?thesis using announced_commits_invisible by blast
qed

end
