(* ===== verification/Skip_List.thy ===== *)
theory Skip_List
  imports Prelude "HOL-Library.Product_Lexorder"
begin

text \<open>
  The concurrent ordered maps that the program takes from a library (\<open>SkipMap\<close>, \<open>SkipSet\<close>) are
  parameters of the model: a record of the two operations that change them, over the list of
  the entries in iteration order. \<open>skip_laws\<close> is the documented behaviour the program relies
  on: iteration is in strictly ascending key order, \<open>insert\<close> replaces the entry of its key,
  \<open>remove\<close> removes it and tells whether it was there. \<open>ref_ops\<close> is one implementation.
\<close>

record ('k, 'v) skip_ops =
  sl_insert :: "'k \<Rightarrow> 'v \<Rightarrow> ('k \<times> 'v) list \<Rightarrow> ('k \<times> 'v) list"
  sl_remove :: "'k \<Rightarrow> ('k \<times> 'v) list \<Rightarrow> ('k \<times> 'v) list \<times> bool"

definition ascending :: "('k::linorder \<times> 'v) list \<Rightarrow> bool" where
  "ascending xs \<longleftrightarrow> sorted_wrt (<) (map fst xs)"

definition skip_laws :: "('k::linorder, 'v) skip_ops \<Rightarrow> bool" where
  "skip_laws L \<longleftrightarrow>
     (\<forall>k v xs. ascending xs \<longrightarrow> ascending (sl_insert L k v xs)
        \<and> set (sl_insert L k v xs) = insert (k, v) {e \<in> set xs. fst e \<noteq> k})
     \<and> (\<forall>k xs. ascending xs \<longrightarrow> ascending (fst (sl_remove L k xs))
        \<and> set (fst (sl_remove L k xs)) = {e \<in> set xs. fst e \<noteq> k}
        \<and> (snd (sl_remove L k xs) \<longleftrightarrow> k \<in> fst ` set xs))"

text \<open>\<open>front\<close> and \<open>back\<close> of the iteration.\<close>

definition sl_front :: "('k \<times> 'v) list \<Rightarrow> ('k \<times> 'v) option" where
  "sl_front xs = (case xs of [] \<Rightarrow> None | x # _ \<Rightarrow> Some x)"

definition sl_back :: "('k \<times> 'v) list \<Rightarrow> ('k \<times> 'v) option" where
  "sl_back xs = (if xs = [] then None else Some (last xs))"

fun ref_insert :: "'k::linorder \<Rightarrow> 'v \<Rightarrow> ('k \<times> 'v) list \<Rightarrow> ('k \<times> 'v) list" where
  "ref_insert k v [] = [(k, v)]"
| "ref_insert k v ((k', v') # xs) =
     (if k < k' then (k, v) # (k', v') # xs
      else if k = k' then (k, v) # xs
      else (k', v') # ref_insert k v xs)"

definition ref_ops :: "('k::linorder, 'v) skip_ops" where
  "ref_ops = \<lparr>sl_insert = ref_insert,
     sl_remove = (\<lambda>k xs. (filter (\<lambda>e. fst e \<noteq> k) xs, k \<in> fst ` set xs))\<rparr>"

section \<open>Lemmas\<close>

lemma ascending_simps [simp]:
  "ascending []" "ascending (x # xs) \<longleftrightarrow> (\<forall>y \<in> set xs. fst x < fst y) \<and> ascending xs"
  by (auto simp: ascending_def)

lemma ascending_append:
  "ascending (xs @ ys) \<longleftrightarrow> ascending xs \<and> ascending ys \<and> (\<forall>x \<in> set xs. \<forall>y \<in> set ys. fst x < fst y)"
  by (auto simp: ascending_def sorted_wrt_append)

lemma ascending_filter: "ascending xs \<Longrightarrow> ascending (filter P xs)"
  by (induction xs) auto

lemma ascending_unique: "ascending xs \<Longrightarrow> (k, v) \<in> set xs \<Longrightarrow> (k, v') \<in> set xs \<Longrightarrow> v = v'"
  by (induction xs) auto

lemma ascending_distinct: "ascending xs \<Longrightarrow> distinct xs"
  by (induction xs) auto

lemma ascending_set_eq:
  assumes "ascending xs" "ascending ys" "set xs = set ys"
  shows "xs = ys"
  using assms
proof (induction xs arbitrary: ys)
  case Nil
  then show ?case by simp
next
  case (Cons x xs)
  then obtain y zs where y: "ys = y # zs" by (cases ys) auto
  have "x = y"
    using Cons.prems y by (auto simp: set_eq_iff) (metis less_asym prod.collapse fst_conv)+
  moreover have "set xs = set zs"
    using Cons.prems y \<open>x = y\<close> by (auto simp: set_eq_iff) (metis less_irrefl)+
  ultimately show ?case using Cons.IH [of zs] Cons.prems y by simp
qed

lemma skip_lawsD:
  assumes "skip_laws L" and "ascending xs"
  shows "ascending (sl_insert L k v xs)"
    and "set (sl_insert L k v xs) = insert (k, v) {e \<in> set xs. fst e \<noteq> k}"
    and "ascending (fst (sl_remove L k xs))"
    and "set (fst (sl_remove L k xs)) = {e \<in> set xs. fst e \<noteq> k}"
    and "snd (sl_remove L k xs) \<longleftrightarrow> k \<in> fst ` set xs"
  using assms unfolding skip_laws_def by blast+

lemma sl_remove_eq:
  assumes "skip_laws L" and "ascending xs"
  shows "sl_remove L k xs = (filter (\<lambda>e. fst e \<noteq> k) xs, k \<in> fst ` set xs)"
proof -
  have "fst (sl_remove L k xs) = filter (\<lambda>e. fst e \<noteq> k) xs"
    using skip_lawsD(3,4) [OF assms] by (intro ascending_set_eq ascending_filter assms) auto
  then show ?thesis using skip_lawsD(5) [OF assms, of k] by (simp add: prod_eq_iff)
qed

lemma sl_front_least:
  "ascending xs \<Longrightarrow> sl_front xs = Some e \<Longrightarrow> e \<in> set xs \<and> (\<forall>e' \<in> set xs. fst e \<le> fst e')"
  by (cases xs) (auto simp: sl_front_def less_imp_le)

lemma sl_front_Nil [simp]: "sl_front [] = None"
  by (simp add: sl_front_def)

lemma sl_front_None [simp]: "sl_front xs = None \<longleftrightarrow> xs = []"
  by (cases xs) (auto simp: sl_front_def)

lemma sl_back_greatest:
  "ascending xs \<Longrightarrow> sl_back xs = Some e \<Longrightarrow> e \<in> set xs \<and> (\<forall>e' \<in> set xs. fst e' \<le> fst e)"
  by (cases xs rule: rev_cases) (auto simp: sl_back_def ascending_append less_imp_le)

lemma ref_insert_laws:
  "ascending xs \<Longrightarrow> set (ref_insert k v xs) = insert (k, v) {e \<in> set xs. fst e \<noteq> k}
     \<and> ascending (ref_insert k v xs)"
  by (induction k v xs rule: ref_insert.induct) (auto simp: not_less dest: less_imp_neq)

lemma ref_ops_laws: "skip_laws ref_ops"
  by (simp add: skip_laws_def ref_ops_def ref_insert_laws ascending_filter)

end
