(* ===== verification/Garbage.thy ===== *)
theory Garbage
  imports Clock Skip_List
begin

text \<open>
  \<^verbatim>\<open>mv_gc\<close>: which blocks died at which version (\<^verbatim>\<open>block_tracer.rs\<close>), which readers are live
  or about to be (\<^verbatim>\<open>query_tracer.rs\<close>), and which dead block may be handed out again
  (\<^verbatim>\<open>tracker_handle.rs\<close>). The skip lists are the parameters \<open>L\<close>. The last part is the
  protocol between readers and collectors as a state machine.
\<close>

type_synonym dead_page_key = "version \<times> u64"
type_synonym ticket = "snapshot \<times> u64"

record gc_lib =
  dead_lib :: "(dead_page_key, addr) skip_ops"
  live_lib :: "(ticket, unit) skip_ops"

section \<open>Dead blocks\<close>

record block_trace =
  bt_index :: "(dead_page_key \<times> addr) list"
  bt_seq :: u64

definition block_trace_new :: block_trace where
  "block_trace_new = \<lparr>bt_index = [], bt_seq = 0\<rparr>"

definition pop_min_if :: "gc_lib \<Rightarrow> (version \<Rightarrow> bool) \<Rightarrow> block_trace \<Rightarrow> block_trace \<times> addr option" where
  "pop_min_if L is_reclaimable bt =
     (case sl_front (bt_index bt) of
        None \<Rightarrow> (bt, None)
      | Some (k, v) \<Rightarrow>
          if is_reclaimable (fst k) then
            (let (idx, removed) = sl_remove (dead_lib L) k (bt_index bt)
             in (bt\<lparr>bt_index := idx\<rparr>, if removed then Some v else None))
          else (bt, None))"

definition bt_register_died_page :: "gc_lib \<Rightarrow> version \<Rightarrow> addr \<Rightarrow> block_trace \<Rightarrow> block_trace" where
  "bt_register_died_page L death_version page bt =
     bt\<lparr>bt_index := sl_insert (dead_lib L) (death_version, bt_seq bt) page (bt_index bt),
        bt_seq := bt_seq bt + 1\<rparr>"

definition bt_register_died_page_col :: "gc_lib \<Rightarrow> (version \<times> addr) list \<Rightarrow> block_trace \<Rightarrow> block_trace" where
  "bt_register_died_page_col L dead_pages bt =
     fold (\<lambda>(d_v, d_p). bt_register_died_page L d_v d_p) dead_pages bt"

section \<open>Live readers\<close>

record transaction_trace =
  tt_readers :: "(ticket \<times> unit) list"
  tt_pins :: "(ticket \<times> unit) list"
  tt_seq :: u64

definition transaction_trace_new :: transaction_trace where
  "transaction_trace_new = \<lparr>tt_readers = [], tt_pins = [], tt_seq = 0\<rparr>"

fun or_min :: "version option \<Rightarrow> version option \<Rightarrow> version option" where
  "or_min (Some r) (Some p) = Some (min r p)"
| "or_min None p = p"
| "or_min r None = r"

definition tt_peek_min :: "transaction_trace \<Rightarrow> snapshot option" where
  "tt_peek_min tt = or_min (map_option (\<lambda>e. fst (fst e)) (sl_front (tt_readers tt)))
     (map_option (\<lambda>e. fst (fst e)) (sl_front (tt_pins tt)))"

definition tt_pin :: "gc_lib \<Rightarrow> snapshot \<Rightarrow> transaction_trace \<Rightarrow> transaction_trace \<times> ticket" where
  "tt_pin L lower_bound tt =
     (let ticket = (lower_bound, tt_seq tt)
      in (tt\<lparr>tt_seq := tt_seq tt + 1, tt_pins := sl_insert (live_lib L) ticket () (tt_pins tt)\<rparr>, ticket))"

definition tt_unpin :: "gc_lib \<Rightarrow> ticket \<Rightarrow> transaction_trace \<Rightarrow> transaction_trace" where
  "tt_unpin L ticket tt = tt\<lparr>tt_pins := fst (sl_remove (live_lib L) ticket (tt_pins tt))\<rparr>"

definition tt_peek_max :: "transaction_trace \<Rightarrow> snapshot option" where
  "tt_peek_max tt =
     (if tt_pins tt \<noteq> [] then Some U64_MAX
      else map_option (\<lambda>e. fst (fst e)) (sl_back (tt_readers tt)))"

definition tt_on_tx_start :: "gc_lib \<Rightarrow> snapshot \<Rightarrow> transaction_trace \<Rightarrow> transaction_trace" where
  "tt_on_tx_start L snapshot tt =
     tt\<lparr>tt_readers := sl_insert (live_lib L) (snapshot, tt_seq tt) () (tt_readers tt),
        tt_seq := tt_seq tt + 1\<rparr>"

text \<open>The candidates are tried in order until one removal succeeds.\<close>

fun remove_first :: "gc_lib \<Rightarrow> (ticket \<times> unit) list \<Rightarrow> (ticket \<times> unit) list \<Rightarrow> (ticket \<times> unit) list" where
  "remove_first L [] xs = xs"
| "remove_first L (e # candidates) xs =
     (let (xs', removed) = sl_remove (live_lib L) (fst e) xs
      in if removed then xs' else remove_first L candidates xs')"

definition tt_on_tx_completed :: "gc_lib \<Rightarrow> snapshot \<Rightarrow> transaction_trace \<Rightarrow> transaction_trace" where
  "tt_on_tx_completed L snapshot tt =
     (let candidates = filter (\<lambda>e. (snapshot, 0) \<le> fst e \<and> fst e \<le> (snapshot, U64_MAX)) (tt_readers tt)
      in tt\<lparr>tt_readers := remove_first L candidates (tt_readers tt)\<rparr>)"

section \<open>The tracker\<close>

record tracker =
  live_tx :: transaction_trace
  dead_blocks :: block_trace

definition tracker_new :: tracker where
  "tracker_new = \<lparr>live_tx = transaction_trace_new, dead_blocks = block_trace_new\<rparr>"

definition on_tx_start :: "gc_lib \<Rightarrow> snapshot \<Rightarrow> tracker \<Rightarrow> tracker" where
  "on_tx_start L snap_shot tr = tr\<lparr>live_tx := tt_on_tx_start L snap_shot (live_tx tr)\<rparr>"

definition on_tx_completed :: "gc_lib \<Rightarrow> snapshot \<Rightarrow> tracker \<Rightarrow> tracker" where
  "on_tx_completed L snap_shot tr = tr\<lparr>live_tx := tt_on_tx_completed L snap_shot (live_tx tr)\<rparr>"

definition register_died_page :: "gc_lib \<Rightarrow> version \<Rightarrow> addr \<Rightarrow> tracker \<Rightarrow> tracker" where
  "register_died_page L page_version page tr =
     tr\<lparr>dead_blocks := bt_register_died_page L page_version page (dead_blocks tr)\<rparr>"

definition register_died_page_col :: "gc_lib \<Rightarrow> (version \<times> addr) list \<Rightarrow> tracker \<Rightarrow> tracker" where
  "register_died_page_col L dead_pages tr =
     tr\<lparr>dead_blocks := bt_register_died_page_col L dead_pages (dead_blocks tr)\<rparr>"

definition newest_live_si :: "tracker \<Rightarrow> snapshot option" where
  "newest_live_si tr = tt_peek_max (live_tx tr)"

definition pin_reader :: "gc_lib \<Rightarrow> snapshot \<Rightarrow> tracker \<Rightarrow> tracker \<times> ticket" where
  "pin_reader L lower_bound tr =
     (let (tt, ticket) = tt_pin L lower_bound (live_tx tr) in (tr\<lparr>live_tx := tt\<rparr>, ticket))"

definition unpin_reader :: "gc_lib \<Rightarrow> ticket \<Rightarrow> tracker \<Rightarrow> tracker" where
  "unpin_reader L ticket tr = tr\<lparr>live_tx := tt_unpin L ticket (live_tx tr)\<rparr>"

text \<open>\<open>map_or(committed, |live_min| live_min.min(committed))\<close>\<close>

definition reclaim_bound :: "version \<Rightarrow> tracker \<Rightarrow> version" where
  "reclaim_bound committed tr =
     (case tt_peek_min (live_tx tr) of None \<Rightarrow> committed | Some live_min \<Rightarrow> min live_min committed)"

definition free_block :: "gc_lib \<Rightarrow> clock_mem \<Rightarrow> tracker \<Rightarrow> clock_mem \<times> tracker \<times> addr option" where
  "free_block L m tr =
     (let (m', committed) = committed_snapshot m U64_MAX;
          bound = reclaim_bound committed tr;
          (bt, block) = pop_min_if L (\<lambda>death_version. death_version < bound) (dead_blocks tr)
      in (m', tr\<lparr>dead_blocks := bt\<rparr>, block))"

section \<open>The registry of live readers\<close>

text \<open>
  The contract of the reader registry: a multiset of snapshots, in which a start adds one
  occurrence, a completion takes one away, and the peek is the least element.
\<close>

locale reader_registry =
  fixes ok :: "'s \<Rightarrow> bool"
    and room :: "'s \<Rightarrow> bool"
    and live_set :: "'s \<Rightarrow> version multiset"
    and pinned :: "'s \<Rightarrow> version multiset"
    and start :: "version \<Rightarrow> 's \<Rightarrow> 's"
    and complete :: "version \<Rightarrow> 's \<Rightarrow> 's"
    and peek :: "'s \<Rightarrow> version option"
  assumes start_ok: "ok s \<Longrightarrow> room s \<Longrightarrow> ok (start v s) \<and> live_set (start v s) = add_mset v (live_set s)
      \<and> pinned (start v s) = pinned s"
    and complete_ok: "ok s \<Longrightarrow> ok (complete v s) \<and> live_set (complete v s) = live_set s - {#v#}
      \<and> pinned (complete v s) = pinned s"
    and peek_ok: "ok s \<Longrightarrow> peek s = (if live_set s + pinned s = {#} then None
      else Some (Min_mset (live_set s + pinned s)))"
begin

lemma peek_le: "ok s \<Longrightarrow> v \<in># live_set s + pinned s \<Longrightarrow> \<exists>m. peek s = Some m \<and> m \<le> v"
  by (auto simp: peek_ok)

lemma start_complete:
  assumes "ok s" and "room s"
  shows "live_set (complete v (start v s)) = live_set s" and "peek (complete v (start v s)) = peek s"
proof -
  have a: "ok (start v s)" "live_set (start v s) = add_mset v (live_set s)" "pinned (start v s) = pinned s"
    using start_ok [OF assms] by auto
  then show "live_set (complete v (start v s)) = live_set s"
    using complete_ok [OF a(1), of v] a(2) by simp
  then show "peek (complete v (start v s)) = peek s"
    using complete_ok [OF a(1), of v] assms(1) a(3) by (simp add: peek_ok)
qed

end

definition trace_ok :: "transaction_trace \<Rightarrow> bool" where
  "trace_ok tt \<longleftrightarrow> ascending (tt_readers tt) \<and> ascending (tt_pins tt)
     \<and> (\<forall>e \<in> set (tt_readers tt) \<union> set (tt_pins tt). snd (fst e) < tt_seq tt)"

abbreviation snapshots_of :: "(ticket \<times> unit) list \<Rightarrow> version multiset" where
  "snapshots_of xs \<equiv> image_mset (\<lambda>e. fst (fst e)) (mset xs)"

lemma insert_fresh_mset:
  assumes "skip_laws L" and "ascending xs" and "k \<notin> fst ` set xs"
  shows "mset (sl_insert L k v xs) = add_mset (k, v) (mset xs)"
proof -
  have "set_mset (mset (sl_insert L k v xs)) = set_mset (add_mset (k, v) (mset xs))"
    using skip_lawsD(2) [OF assms(1,2), of k v] assms(3) by force
  moreover have "distinct (sl_insert L k v xs)" "distinct ((k, v) # xs)"
    using skip_lawsD(1) [OF assms(1,2)] assms(2,3) by (force intro: ascending_distinct)+
  ultimately show ?thesis
    using set_eq_iff_mset_eq_distinct [of "sl_insert L k v xs" "(k, v) # xs"] by simp
qed

lemma front_min:
  assumes "ascending xs"
  shows "map_option (\<lambda>e. fst (fst e)) (sl_front xs) =
    (if xs = [] then None else Some (Min_mset (snapshots_of xs)))"
proof (cases "sl_front xs")
  case None
  then show ?thesis by simp
next
  case (Some e)
  then have e: "e \<in> set xs" "\<forall>e' \<in> set xs. fst e \<le> fst e'"
    using sl_front_least [OF assms Some] by auto
  have "fst (fst e) \<le> fst (fst e')" if "e' \<in> set xs" for e'
    using e(2) that by (force simp: less_eq_prod_def)
  then have "Min_mset (snapshots_of xs) = fst (fst e)"
    using e(1) by (intro Min_eqI) auto
  then show ?thesis using Some e(1) by auto
qed

lemma tt_peek_min_eq:
  assumes "trace_ok tt"
  shows "tt_peek_min tt = (let live = snapshots_of (tt_readers tt) + snapshots_of (tt_pins tt) in
    if live = {#} then None else Some (Min_mset live))"
proof -
  have a: "ascending (tt_readers tt)" "ascending (tt_pins tt)" using assms by (auto simp: trace_ok_def)
  show ?thesis
    unfolding tt_peek_min_def front_min [OF a(1)] front_min [OF a(2)]
    by (auto simp: Let_def Min_Un)
qed

lemma remove_one_mset:
  assumes "ascending xs" and "(k, v) \<in> set xs"
  shows "mset (filter (\<lambda>e. fst e \<noteq> k) xs) = mset xs - {#(k, v)#}"
  using assms
proof (induction xs)
  case Nil
  then show ?case by simp
next
  case (Cons x xs)
  show ?case
  proof (cases "fst x = k")
    case True
    then have "x = (k, v)" using Cons.prems by (auto dest: less_imp_neq)
    moreover have "filter (\<lambda>e. fst e \<noteq> k) xs = xs"
      using Cons.prems True by (auto simp: filter_id_conv dest: less_imp_neq)
    ultimately show ?thesis by simp
  next
    case False
    then show ?thesis using Cons by auto
  qed
qed

lemma completed_readers:
  assumes "skip_laws (live_lib L)" and "trace_ok tt"
  shows "trace_ok (tt_on_tx_completed L v tt)
    \<and> snapshots_of (tt_readers (tt_on_tx_completed L v tt)) = snapshots_of (tt_readers tt) - {#v#}
    \<and> tt_pins (tt_on_tx_completed L v tt) = tt_pins tt"
proof -
  let ?xs = "tt_readers tt"
  have asc: "ascending ?xs" using assms(2) by (simp add: trace_ok_def)
  have cand: "(v, 0) \<le> fst e \<and> fst e \<le> (v, U64_MAX) \<longleftrightarrow> fst (fst e) = v" for e :: "ticket \<times> unit"
    using max_version [of "snd (fst e)"] by (auto simp: less_eq_prod_def)
  define cs where "cs = filter (\<lambda>e. fst (fst e) = v) ?xs"
  show ?thesis
  proof (cases cs)
    case Nil
    then have "v \<notin># snapshots_of ?xs" by (auto simp: cs_def filter_empty_conv)
    then show ?thesis
      using assms(2) Nil by (simp add: tt_on_tx_completed_def cand flip: cs_def)
  next
    case (Cons e rest)
    then have "e \<in> set cs" by simp
    then have e: "e \<in> set ?xs" "fst (fst e) = v" by (auto simp: cs_def)
    then have "remove_first L cs ?xs = filter (\<lambda>x. fst x \<noteq> fst e) ?xs"
      using Cons by (auto simp: sl_remove_eq [OF assms(1) asc])
    moreover have "mset (filter (\<lambda>x. fst x \<noteq> fst e) ?xs) = mset ?xs - {#e#}"
      using remove_one_mset [OF asc, of "fst e" "()"] e(1) by (cases e) simp
    moreover have "tt_on_tx_completed L v tt = tt\<lparr>tt_readers := remove_first L cs ?xs\<rparr>"
      by (simp add: tt_on_tx_completed_def cand cs_def)
    moreover have "trace_ok (tt\<lparr>tt_readers := filter (\<lambda>x. fst x \<noteq> fst e) ?xs\<rparr>)"
      using assms(2) by (auto simp: trace_ok_def ascending_filter)
    ultimately show ?thesis using e by (simp add: image_mset_Diff)
  qed
qed

lemma seq_step: "(x :: u64) \<noteq> U64_MAX \<Longrightarrow> y < x \<Longrightarrow> y < x + 1"
  "(x :: u64) \<noteq> U64_MAX \<Longrightarrow> x < x + 1"
proof -
  assume "x \<noteq> U64_MAX"
  then have "x < U64_MAX" using max_version [of x] by (simp add: order.not_eq_order_implies_strict)
  then show x: "x < x + 1" by (simp add: word_less_nat_alt unat_word_ariths)
  show "y < x \<Longrightarrow> y < x + 1" using x by (rule order_less_trans [rotated])
qed

lemma fresh_ticket:
  assumes "trace_ok tt"
  shows "(v, tt_seq tt) \<notin> fst ` set (tt_readers tt)" and "(v, tt_seq tt) \<notin> fst ` set (tt_pins tt)"
  using assms by (force simp: trace_ok_def)+

lemma later_seqs:
  assumes "trace_ok tt" and "tt_seq tt \<noteq> U64_MAX"
  shows "e \<in> set (tt_readers tt) \<union> set (tt_pins tt) \<Longrightarrow> snd (fst e) < tt_seq tt + 1"
  using assms(1) seq_step(1) [OF assms(2)] unfolding trace_ok_def by blast

lemma started_readers:
  assumes "skip_laws (live_lib L)" and "trace_ok tt" and "tt_seq tt \<noteq> U64_MAX"
  shows "trace_ok (tt_on_tx_start L v tt)
    \<and> snapshots_of (tt_readers (tt_on_tx_start L v tt)) = add_mset v (snapshots_of (tt_readers tt))
    \<and> tt_pins (tt_on_tx_start L v tt) = tt_pins tt"
proof -
  have asc: "ascending (tt_readers tt)" using assms(2) by (simp add: trace_ok_def)
  note law = skip_lawsD(1,2) [OF assms(1) asc, of "(v, tt_seq tt)" "()"]
  have "trace_ok (tt_on_tx_start L v tt)"
    using assms(2) law later_seqs [OF assms(2,3)] seq_step(2) [OF assms(3)]
    by (auto simp: tt_on_tx_start_def trace_ok_def)
  then show ?thesis
    using insert_fresh_mset [OF assms(1) asc fresh_ticket(1) [OF assms(2)]]
    by (simp add: tt_on_tx_start_def)
qed

lemma pinned_readers:
  assumes "skip_laws (live_lib L)" and "trace_ok tt" and "tt_seq tt \<noteq> U64_MAX"
  shows "trace_ok (fst (tt_pin L v tt))
    \<and> set (tt_pins (fst (tt_pin L v tt))) = insert (snd (tt_pin L v tt), ()) (set (tt_pins tt))
    \<and> snapshots_of (tt_pins (fst (tt_pin L v tt))) = add_mset v (snapshots_of (tt_pins tt))
    \<and> tt_readers (fst (tt_pin L v tt)) = tt_readers tt \<and> fst (snd (tt_pin L v tt)) = v
    \<and> (snd (tt_pin L v tt), ()) \<notin> set (tt_pins tt)"
proof -
  have asc: "ascending (tt_pins tt)" using assms(2) by (simp add: trace_ok_def)
  have fresh: "(v, tt_seq tt) \<notin> fst ` set (tt_pins tt)" by (rule fresh_ticket(2) [OF assms(2)])
  then have same: "{e \<in> set (tt_pins tt). fst e \<noteq> (v, tt_seq tt)} = set (tt_pins tt)" by force
  note law = skip_lawsD(1,2) [OF assms(1) asc, of "(v, tt_seq tt)" "()", unfolded same]
  have "trace_ok (fst (tt_pin L v tt))"
    using assms(2) law later_seqs [OF assms(2,3)] seq_step(2) [OF assms(3)]
    by (auto simp: tt_pin_def trace_ok_def Let_def)
  moreover have "((v, tt_seq tt), ()) \<notin> set (tt_pins tt)" using fresh by force
  ultimately show ?thesis
    using law(2) insert_fresh_mset [OF assms(1) asc fresh] by (simp add: tt_pin_def Let_def)
qed

lemma unpinned_readers:
  assumes "skip_laws (live_lib L)" and "trace_ok tt"
  shows "trace_ok (tt_unpin L t tt)
    \<and> set (tt_pins (tt_unpin L t tt)) = {e \<in> set (tt_pins tt). fst e \<noteq> t}
    \<and> tt_readers (tt_unpin L t tt) = tt_readers tt"
  using assms by (auto simp: tt_unpin_def trace_ok_def sl_remove_eq ascending_filter)

text \<open>The trace, together with the library it runs on, implements the registry.\<close>

interpretation tt: reader_registry
  "\<lambda>(L, tt). skip_laws (live_lib L) \<and> trace_ok tt" "\<lambda>(L, tt). tt_seq tt \<noteq> U64_MAX"
  "\<lambda>(L, tt). snapshots_of (tt_readers tt)" "\<lambda>(L, tt). snapshots_of (tt_pins tt)"
  "\<lambda>v (L, tt). (L, tt_on_tx_start L v tt)" "\<lambda>v (L, tt). (L, tt_on_tx_completed L v tt)"
  "\<lambda>(L, tt). tt_peek_min tt"
proof (unfold_locales, goal_cases)
  case (1 s v)
  then show ?case using started_readers [of "fst s" "snd s" v] by (cases s) simp
next
  case (2 s v)
  then show ?case using completed_readers [of "fst s" "snd s" v] by (cases s) simp
next
  case (3 s)
  then show ?case using tt_peek_min_eq [of "snd s"] by (cases s) (simp add: Let_def)
qed

section \<open>The graveyard\<close>

definition graveyard_ok :: "block_trace \<Rightarrow> bool" where
  "graveyard_ok bt \<longleftrightarrow> ascending (bt_index bt) \<and> (\<forall>e \<in> set (bt_index bt). snd (fst e) < bt_seq bt)"

abbreviation dead_of :: "block_trace \<Rightarrow> (version \<times> addr) multiset" where
  "dead_of bt \<equiv> image_mset (\<lambda>e. (fst (fst e), snd e)) (mset (bt_index bt))"

lemma graveyard_register:
  assumes "skip_laws (dead_lib L)" and "graveyard_ok bt" and "bt_seq bt \<noteq> U64_MAX"
  shows "graveyard_ok (bt_register_died_page L d a bt)
    \<and> dead_of (bt_register_died_page L d a bt) = add_mset (d, a) (dead_of bt)"
proof -
  have asc: "ascending (bt_index bt)" using assms(2) by (simp add: graveyard_ok_def)
  note law = skip_lawsD(1,2) [OF assms(1) asc, of "(d, bt_seq bt)" a]
  have "snd (fst e) < bt_seq bt + 1" if "e \<in> set (bt_index bt)" for e
    using assms(2) seq_step(1) [OF assms(3)] that by (auto simp: graveyard_ok_def)
  then have "graveyard_ok (bt_register_died_page L d a bt)"
    using law seq_step(2) [OF assms(3)] by (auto simp: graveyard_ok_def bt_register_died_page_def)
  moreover have "(d, bt_seq bt) \<notin> fst ` set (bt_index bt)"
    using assms(2) by (force simp: graveyard_ok_def)
  ultimately show ?thesis
    using insert_fresh_mset [OF assms(1) asc] by (simp add: bt_register_died_page_def)
qed

lemma graveyard_pop_Some:
  assumes "skip_laws (dead_lib L)" and "graveyard_ok bt" and "pop_min_if L P bt = (bt', Some a)"
  shows "\<exists>d n. sl_front (bt_index bt) = Some ((d, n), a) \<and> P d \<and> (d, a) \<in># dead_of bt
    \<and> (\<forall>x \<in># dead_of bt. d \<le> fst x)
    \<and> graveyard_ok bt' \<and> dead_of bt' = dead_of bt - {#(d, a)#}"
proof -
  have asc: "ascending (bt_index bt)" using assms(2) by (simp add: graveyard_ok_def)
  obtain d n where f: "sl_front (bt_index bt) = Some ((d, n), a)" "P d"
    "bt' = bt\<lparr>bt_index := filter (\<lambda>e. fst e \<noteq> (d, n)) (bt_index bt)\<rparr>"
    using assms(3) by (auto simp: pop_min_if_def sl_remove_eq [OF assms(1) asc] split: option.splits if_splits)
  have e: "((d, n), a) \<in> set (bt_index bt)" "\<forall>e \<in> set (bt_index bt). (d, n) \<le> fst e"
    using sl_front_least [OF asc f(1)] by auto
  have "d \<le> fst (fst e)" if "e \<in> set (bt_index bt)" for e
    using e(2) that by (force simp: less_eq_prod_def)
  moreover have "(d, a) \<in># dead_of bt" using e(1) by force
  moreover have "dead_of bt' = dead_of bt - {#(d, a)#}"
    using remove_one_mset [OF asc e(1)] e(1) f(3) by (simp add: image_mset_Diff)
  moreover have "graveyard_ok bt'" using assms(2) f(3) by (auto simp: graveyard_ok_def ascending_filter)
  ultimately show ?thesis using f by auto
qed

lemma graveyard_pop_None:
  assumes "skip_laws (dead_lib L)" and "graveyard_ok bt" and "pop_min_if L P bt = (bt', None)"
  shows "bt' = bt \<and> (bt_index bt = [] \<or> (\<exists>d n a. sl_front (bt_index bt) = Some ((d, n), a) \<and> \<not> P d))"
proof -
  have asc: "ascending (bt_index bt)" using assms(2) by (simp add: graveyard_ok_def)
  show ?thesis
  proof (cases "sl_front (bt_index bt)")
    case None
    then show ?thesis using assms(3) unfolding pop_min_if_def by simp
  next
    case (Some e)
    obtain d n a where e: "e = ((d, n), a)" by (metis prod.collapse)
    have "(d, n) \<in> fst ` set (bt_index bt)" using sl_front_least [OF asc Some] e by force
    then show ?thesis
      using assms(3) Some e
      by (auto simp: pop_min_if_def sl_remove_eq [OF assms(1) asc] split: if_splits)
  qed
qed

section \<open>Readers and collectors interleaved\<close>

text \<open>
  A reader (\<open>pinned_reader_snapshot\<close> and the query after it): it draws a lower bound, pins it,
  draws its snapshot, may register and release it, and unpins. A collector (\<open>free_block\<close>):
  it draws the committed snapshot, scans the live readers, pops. A snapshot that is drawn
  between two moments lies between the values of the global minimum at these moments.
\<close>

datatype reader_pc =
    RIdle
  | RBound snapshot
  | RPinned ticket
  | RDrawing ticket snapshot
  | RReading ticket snapshot
  | RRegistered ticket snapshot

datatype gc_pc = GIdle | GCommitted version | GBound version

record gc_sys =
  g_min :: version
  g_tracker :: tracker
  g_readers :: "nat \<Rightarrow> reader_pc"
  g_collectors :: "nat \<Rightarrow> gc_pc"
  g_freed :: "(version \<times> addr) set"

abbreviation set_reader :: "gc_sys \<Rightarrow> nat \<Rightarrow> reader_pc \<Rightarrow> gc_sys" where
  "set_reader s r pc \<equiv> s\<lparr>g_readers := (g_readers s)(r := pc)\<rparr>"

abbreviation set_collector :: "gc_sys \<Rightarrow> nat \<Rightarrow> gc_pc \<Rightarrow> gc_sys" where
  "set_collector s g pc \<equiv> s\<lparr>g_collectors := (g_collectors s)(g := pc)\<rparr>"

inductive gc_step :: "gc_lib \<Rightarrow> gc_sys \<Rightarrow> gc_sys \<Rightarrow> bool" for L where
  advance: "g_min s \<le> m \<Longrightarrow> gc_step L s (s\<lparr>g_min := m\<rparr>)"
| lower: "g_readers s r = RIdle \<Longrightarrow> l \<le> g_min s \<Longrightarrow> gc_step L s (set_reader s r (RBound l))"
| pin: "g_readers s r = RBound l \<Longrightarrow> tt_seq (live_tx (g_tracker s)) \<noteq> U64_MAX \<Longrightarrow>
    pin_reader L l (g_tracker s) = (tr, t) \<Longrightarrow>
    gc_step L s (set_reader s r (RPinned t)\<lparr>g_tracker := tr\<rparr>)"
| draw: "g_readers s r = RPinned t \<Longrightarrow> gc_step L s (set_reader s r (RDrawing t (g_min s)))"
| drawn: "g_readers s r = RDrawing t f \<Longrightarrow> f \<le> v \<Longrightarrow> v \<le> g_min s \<Longrightarrow>
    gc_step L s (set_reader s r (RReading t v))"
| register: "g_readers s r = RReading t v \<Longrightarrow> tt_seq (live_tx (g_tracker s)) \<noteq> U64_MAX \<Longrightarrow>
    gc_step L s (set_reader s r (RRegistered t v)\<lparr>g_tracker := on_tx_start L v (g_tracker s)\<rparr>)"
| unregister: "g_readers s r = RRegistered t v \<Longrightarrow>
    gc_step L s (set_reader s r (RReading t v)\<lparr>g_tracker := on_tx_completed L v (g_tracker s)\<rparr>)"
| unpin: "g_readers s r = RReading t v \<Longrightarrow>
    gc_step L s (set_reader s r RIdle\<lparr>g_tracker := unpin_reader L t (g_tracker s)\<rparr>)"
| died: "bt_seq (dead_blocks (g_tracker s)) \<noteq> U64_MAX \<Longrightarrow>
    gc_step L s (s\<lparr>g_tracker := register_died_page L d a (g_tracker s)\<rparr>)"
| committed: "g_collectors s g = GIdle \<Longrightarrow> c \<le> g_min s \<Longrightarrow> gc_step L s (set_collector s g (GCommitted c))"
| scan: "g_collectors s g = GCommitted c \<Longrightarrow>
    gc_step L s (set_collector s g (GBound (reclaim_bound c (g_tracker s))))"
| pop_none: "g_collectors s g = GBound b \<Longrightarrow>
    pop_min_if L (\<lambda>d. d < b) (dead_blocks (g_tracker s)) = (bt, None) \<Longrightarrow>
    gc_step L s (set_collector s g GIdle\<lparr>g_tracker := (g_tracker s)\<lparr>dead_blocks := bt\<rparr>\<rparr>)"
| pop_some: "g_collectors s g = GBound b \<Longrightarrow>
    pop_min_if L (\<lambda>d. d < b) (dead_blocks (g_tracker s)) = (bt, Some a) \<Longrightarrow>
    sl_front (bt_index (dead_blocks (g_tracker s))) = Some ((d, n), a) \<Longrightarrow>
    gc_step L s (set_collector s g GIdle\<lparr>g_tracker := (g_tracker s)\<lparr>dead_blocks := bt\<rparr>,
      g_freed := insert (d, a) (g_freed s)\<rparr>)"

inductive gc_reach :: "gc_lib \<Rightarrow> gc_sys \<Rightarrow> gc_sys \<Rightarrow> bool" for L where
  start: "gc_reach L s s"
| step: "gc_reach L s s' \<Longrightarrow> gc_step L s' s'' \<Longrightarrow> gc_reach L s s''"

definition gc_init :: gc_sys where
  "gc_init = \<lparr>g_min = START_VERSION, g_tracker = tracker_new, g_readers = (\<lambda>_. RIdle),
     g_collectors = (\<lambda>_. GIdle), g_freed = {}\<rparr>"

fun ticket_of :: "reader_pc \<Rightarrow> ticket option" where
  "ticket_of (RPinned t) = Some t"
| "ticket_of (RDrawing t f) = Some t"
| "ticket_of (RReading t v) = Some t"
| "ticket_of (RRegistered t v) = Some t"
| "ticket_of _ = None"

text \<open>The least snapshot a reader can end up with once it has started to draw it.\<close>

fun level_of :: "reader_pc \<Rightarrow> version option" where
  "level_of (RDrawing t f) = Some f"
| "level_of (RReading t v) = Some v"
| "level_of (RRegistered t v) = Some v"
| "level_of _ = None"

fun pc_ok :: "version \<Rightarrow> reader_pc \<Rightarrow> bool" where
  "pc_ok m (RBound l) \<longleftrightarrow> l \<le> m"
| "pc_ok m (RPinned t) \<longleftrightarrow> fst t \<le> m"
| "pc_ok m (RDrawing t f) \<longleftrightarrow> fst t \<le> f \<and> f \<le> m"
| "pc_ok m (RReading t v) \<longleftrightarrow> fst t \<le> v \<and> v \<le> m"
| "pc_ok m (RRegistered t v) \<longleftrightarrow> fst t \<le> v \<and> v \<le> m"
| "pc_ok m RIdle \<longleftrightarrow> True"

fun collector_ok :: "gc_sys \<Rightarrow> gc_pc \<Rightarrow> bool" where
  "collector_ok s (GCommitted c) \<longleftrightarrow> c \<le> g_min s"
| "collector_ok s (GBound b) \<longleftrightarrow> b \<le> g_min s \<and> (\<forall>r x. level_of (g_readers s r) = Some x \<longrightarrow> b \<le> x)"
| "collector_ok s GIdle \<longleftrightarrow> True"

definition gc_inv :: "gc_lib \<Rightarrow> gc_sys \<Rightarrow> bool" where
  "gc_inv L s \<longleftrightarrow> trace_ok (live_tx (g_tracker s)) \<and> graveyard_ok (dead_blocks (g_tracker s))
     \<and> (\<forall>r t. ticket_of (g_readers s r) = Some t \<longrightarrow> (t, ()) \<in> set (tt_pins (live_tx (g_tracker s))))
     \<and> (\<forall>r r' t. ticket_of (g_readers s r) = Some t \<longrightarrow> ticket_of (g_readers s r') = Some t \<longrightarrow> r = r')
     \<and> (\<forall>r. pc_ok (g_min s) (g_readers s r))
     \<and> (\<forall>g. collector_ok s (g_collectors s g))
     \<and> (\<forall>d a. (d, a) \<in> g_freed s \<longrightarrow> d < g_min s \<and> (\<forall>r x. level_of (g_readers s r) = Some x \<longrightarrow> d < x))"

lemma gc_invD:
  assumes "gc_inv L s"
  shows "trace_ok (live_tx (g_tracker s))" and "graveyard_ok (dead_blocks (g_tracker s))"
    and "ticket_of (g_readers s r) = Some t \<Longrightarrow> (t, ()) \<in> set (tt_pins (live_tx (g_tracker s)))"
    and "ticket_of (g_readers s r) = Some t \<Longrightarrow> ticket_of (g_readers s r') = Some t \<Longrightarrow> r = r'"
    and "pc_ok (g_min s) (g_readers s r)" and "collector_ok s (g_collectors s g)"
    and "(d, a) \<in> g_freed s \<Longrightarrow> d < g_min s"
    and "(d, a) \<in> g_freed s \<Longrightarrow> level_of (g_readers s r) = Some x \<Longrightarrow> d < x"
  using assms unfolding gc_inv_def by blast+

lemma pc_ok_mono: "pc_ok m p \<Longrightarrow> m \<le> m' \<Longrightarrow> pc_ok m' p"
  by (cases p) auto

lemma collector_ok_frame:
  assumes "collector_ok s p" and "g_min s \<le> g_min s'"
    and "\<And>r x. level_of (g_readers s' r) = Some x \<Longrightarrow>
      (\<exists>y. level_of (g_readers s r) = Some y \<and> y \<le> x) \<or> g_min s \<le> x"
  shows "collector_ok s' p"
  using assms(1)
proof (cases p)
  case (GBound b)
  then have b: "b \<le> g_min s" "\<And>r x. level_of (g_readers s r) = Some x \<Longrightarrow> b \<le> x"
    using assms(1) by auto
  have "b \<le> x" if "level_of (g_readers s' r) = Some x" for r x
    using assms(3) [OF that] b by (meson order_trans)
  then show ?thesis using GBound b(1) assms(2) by (auto intro: order_trans)
qed (use assms in \<open>auto intro: order_trans\<close>)

text \<open>
  A step of readers: the pins keep the tickets of the readers, levels only grow or are taken
  from the current global minimum.
\<close>

lemma gc_inv_reader:
  assumes inv: "gc_inv L s" and tr: "trace_ok (live_tx tr)" "dead_blocks tr = dead_blocks (g_tracker s)"
    and pins: "\<And>k t. ticket_of (rs k) = Some t \<Longrightarrow> (t, ()) \<in> set (tt_pins (live_tx tr))"
    and uniq: "\<And>k k' t. ticket_of (rs k) = Some t \<Longrightarrow> ticket_of (rs k') = Some t \<Longrightarrow> k = k'"
    and pcs: "\<And>k. pc_ok (g_min s) (rs k)"
    and levels: "\<And>k x. level_of (rs k) = Some x \<Longrightarrow>
      (\<exists>y. level_of (g_readers s k) = Some y \<and> y \<le> x) \<or> g_min s \<le> x"
  shows "gc_inv L (s\<lparr>g_readers := rs, g_tracker := tr\<rparr>)"
proof -
  let ?s = "s\<lparr>g_readers := rs, g_tracker := tr\<rparr>"
  have "collector_ok ?s (g_collectors s g)" for g
    using levels by (intro collector_ok_frame [OF gc_invD(6) [OF inv]]) auto
  moreover have "d < x" if "(d, a) \<in> g_freed s" "level_of (rs k) = Some x" for d a k x
    using levels [OF that(2)] gc_invD(7,8) [OF inv that(1)] by (meson order_less_le_trans)
  moreover have "graveyard_ok (dead_blocks tr)" using gc_invD(2) [OF inv] tr(2) by simp
  ultimately show ?thesis
    using tr(1) pins uniq pcs gc_invD(7) [OF inv] unfolding gc_inv_def by simp
qed

lemma reclaim_bound_le:
  fixes L :: gc_lib
  assumes "skip_laws (live_lib L)" and "trace_ok (live_tx tr)"
  shows "reclaim_bound c tr \<le> c"
    and "(t, ()) \<in> set (tt_pins (live_tx tr)) \<Longrightarrow> reclaim_bound c tr \<le> fst t"
proof -
  show "reclaim_bound c tr \<le> c" by (auto simp: reclaim_bound_def split: option.splits)
  assume "(t, ()) \<in> set (tt_pins (live_tx tr))"
  then have "fst t \<in># snapshots_of (tt_readers (live_tx tr)) + snapshots_of (tt_pins (live_tx tr))" by force
  then obtain m where "tt_peek_min (live_tx tr) = Some m" "m \<le> fst t"
    using tt.peek_le [of "(L, live_tx tr)" "fst t"] assms by auto
  then show "reclaim_bound c tr \<le> fst t" by (auto simp: reclaim_bound_def intro: min.coboundedI1)
qed

lemma level_ticket: "level_of p = Some x \<Longrightarrow> pc_ok m p \<Longrightarrow> \<exists>t. ticket_of p = Some t \<and> fst t \<le> x"
  by (cases p) auto

lemma gc_inv_scan:
  assumes "skip_laws (live_lib L)" and "gc_inv L s" and "g_collectors s g = GCommitted c"
  shows "gc_inv L (set_collector s g (GBound (reclaim_bound c (g_tracker s))))"
proof -
  let ?b = "reclaim_bound c (g_tracker s)"
  let ?s = "set_collector s g (GBound ?b)"
  note inv = gc_invD [OF assms(2)]
  note bound = reclaim_bound_le [OF assms(1) inv(1)]
  have "c \<le> g_min s" using inv(6) [of g] assms(3) by simp
  then have "?b \<le> g_min s" using bound(1) [of c] by (rule order_trans [rotated])
  moreover have "?b \<le> x" if x: "level_of (g_readers s r) = Some x" for r x
  proof -
    obtain t where "ticket_of (g_readers s r) = Some t" "fst t \<le> x"
      using level_ticket [OF x inv(5)] by blast
    then show ?thesis using bound(2) [OF inv(3)] by (meson order_trans)
  qed
  moreover have "collector_ok ?s p = collector_ok s p" for p by (cases p) auto
  ultimately show ?thesis using assms(2) unfolding gc_inv_def by simp
qed

lemma gc_inv_pop:
  assumes "skip_laws (dead_lib L)" and "gc_inv L s" and "g_collectors s g = GBound b"
    and "pop_min_if L (\<lambda>d. d < b) (dead_blocks (g_tracker s)) = (bt, Some a)"
    and "sl_front (bt_index (dead_blocks (g_tracker s))) = Some ((d, n), a)"
  shows "gc_inv L (set_collector s g GIdle\<lparr>g_tracker := (g_tracker s)\<lparr>dead_blocks := bt\<rparr>,
      g_freed := insert (d, a) (g_freed s)\<rparr>)"
proof -
  note inv = gc_invD [OF assms(2)]
  let ?s = "set_collector s g GIdle\<lparr>g_tracker := (g_tracker s)\<lparr>dead_blocks := bt\<rparr>,
      g_freed := insert (d, a) (g_freed s)\<rparr>"
  have p: "graveyard_ok bt" "d < b"
    using graveyard_pop_Some [OF assms(1) inv(2) assms(4)] assms(5) by auto
  have b: "b \<le> g_min s" "\<And>r x. level_of (g_readers s r) = Some x \<Longrightarrow> b \<le> x"
    using inv(6) [of g] assms(3) by auto
  then have "d < g_min s" "\<And>r x. level_of (g_readers s r) = Some x \<Longrightarrow> d < x"
    using p(2) by (meson order_less_le_trans)+
  moreover have "collector_ok ?s p = collector_ok s p" for p by (cases p) auto
  ultimately show ?thesis using assms(2) p(1) unfolding gc_inv_def by auto
qed

lemma gc_inv_pin:
  assumes "skip_laws (live_lib L)" and "gc_inv L s" and "g_readers s r = RBound l"
    and "tt_seq (live_tx (g_tracker s)) \<noteq> U64_MAX" and "pin_reader L l (g_tracker s) = (tr, t)"
  shows "gc_inv L (set_reader s r (RPinned t)\<lparr>g_tracker := tr\<rparr>)"
proof -
  note inv = gc_invD [OF assms(2)]
  have tr: "tr = (g_tracker s)\<lparr>live_tx := fst (tt_pin L l (live_tx (g_tracker s)))\<rparr>"
    "t = snd (tt_pin L l (live_tx (g_tracker s)))"
    using assms(5) by (auto simp: pin_reader_def Let_def split: prod.splits)
  note p = pinned_readers [OF assms(1) inv(1) assms(4), of l, folded tr(2)]
  have new: "ticket_of (g_readers s k) \<noteq> Some t" for k using inv(3) [of k t] p by auto
  have "l \<le> g_min s" using inv(5) [of r] assms(3) by simp
  then have "gc_inv L (s\<lparr>g_readers := (g_readers s)(r := RPinned t), g_tracker := tr\<rparr>)"
    using p new inv(3,4,5) by (intro gc_inv_reader [OF assms(2)]) (auto simp: tr(1) split: if_splits)
  then show ?thesis by simp
qed

lemma gc_inv_unpin:
  assumes "skip_laws (live_lib L)" and "gc_inv L s" and "g_readers s r = RReading t v"
  shows "gc_inv L (set_reader s r RIdle\<lparr>g_tracker := unpin_reader L t (g_tracker s)\<rparr>)"
proof -
  note inv = gc_invD [OF assms(2)]
  have "ticket_of (g_readers s k) = Some t \<Longrightarrow> k = r" for k using inv(4) [of k t r] assms(3) by simp
  then have "gc_inv L (s\<lparr>g_readers := (g_readers s)(r := RIdle), g_tracker := unpin_reader L t (g_tracker s)\<rparr>)"
    using unpinned_readers [OF assms(1) inv(1), of t] inv(3,4,5)
    by (intro gc_inv_reader [OF assms(2)]) (auto simp: unpin_reader_def split: if_splits)
  then show ?thesis by simp
qed

lemma gc_step_inv:
  assumes laws: "skip_laws (live_lib L)" "skip_laws (dead_lib L)" and "gc_step L s s'" and inv: "gc_inv L s"
  shows "gc_inv L s'"
  using assms(3)
proof cases
  case (advance m)
  have "collector_ok s' (g_collectors s g)" for g
    using advance by (intro collector_ok_frame [OF gc_invD(6) [OF inv]]) auto
  moreover have "pc_ok m (g_readers s r)" for r
    using pc_ok_mono [OF gc_invD(5) [OF inv]] advance by blast
  ultimately show ?thesis
    using inv advance unfolding gc_inv_def by (auto intro: order_less_le_trans)
next
  case (lower r l)
  have "gc_inv L (s\<lparr>g_readers := (g_readers s)(r := RBound l), g_tracker := g_tracker s\<rparr>)"
    using lower gc_invD [OF inv] by (intro gc_inv_reader [OF inv]) (auto split: if_splits)
  then show ?thesis using lower by simp
next
  case (pin r l tr t)
  then show ?thesis using gc_inv_pin [OF laws(1) inv] by simp
next
  case (draw r t)
  have "gc_inv L (s\<lparr>g_readers := (g_readers s)(r := RDrawing t (g_min s)), g_tracker := g_tracker s\<rparr>)"
    using draw gc_invD [OF inv] gc_invD(3,4,5) [OF inv, of r]
    by (intro gc_inv_reader [OF inv]) (auto split: if_splits)
  then show ?thesis using draw by simp
next
  case (drawn r t f v)
  have "gc_inv L (s\<lparr>g_readers := (g_readers s)(r := RReading t v), g_tracker := g_tracker s\<rparr>)"
    using drawn gc_invD [OF inv] gc_invD(3,4,5) [OF inv, of r]
    by (intro gc_inv_reader [OF inv]) (auto split: if_splits)
  then show ?thesis using drawn by simp
next
  case (register r t v)
  have "gc_inv L (s\<lparr>g_readers := (g_readers s)(r := RRegistered t v), g_tracker := on_tx_start L v (g_tracker s)\<rparr>)"
    using register gc_invD [OF inv] gc_invD(3,4,5) [OF inv, of r] started_readers [OF laws(1) gc_invD(1) [OF inv]]
    by (intro gc_inv_reader [OF inv]) (auto simp: on_tx_start_def split: if_splits)
  then show ?thesis using register by simp
next
  case (unregister r t v)
  have "gc_inv L (s\<lparr>g_readers := (g_readers s)(r := RReading t v), g_tracker := on_tx_completed L v (g_tracker s)\<rparr>)"
    using unregister gc_invD [OF inv] gc_invD(3,4,5) [OF inv, of r] completed_readers [OF laws(1) gc_invD(1) [OF inv]]
    by (intro gc_inv_reader [OF inv]) (auto simp: on_tx_completed_def split: if_splits)
  then show ?thesis using unregister by simp
next
  case (unpin r t v)
  then show ?thesis using gc_inv_unpin [OF laws(1) inv] by simp
next
  case (died d a)
  have "collector_ok s' p = collector_ok s p" for p using died by (cases p) auto
  then show ?thesis
    using graveyard_register [OF laws(2) gc_invD(2) [OF inv]] inv died
    unfolding gc_inv_def by (simp add: register_died_page_def)
next
  case (committed g c)
  have "collector_ok s' p = collector_ok s p" for p using committed by (cases p) auto
  then show ?thesis using inv committed unfolding gc_inv_def by simp
next
  case (scan g c)
  then show ?thesis using gc_inv_scan [OF laws(1) inv] by simp
next
  case (pop_none g b bt)
  have "collector_ok s' p = collector_ok s p" for p using pop_none by (cases p) auto
  moreover have "bt = dead_blocks (g_tracker s)"
    using graveyard_pop_None [OF laws(2) gc_invD(2) [OF inv] pop_none(3)] by simp
  ultimately show ?thesis using inv pop_none unfolding gc_inv_def by simp
next
  case (pop_some g b bt a d n)
  then show ?thesis using gc_inv_pop [OF laws(2) inv] by simp
qed

lemma gc_reach_inv:
  assumes "gc_reach L gc_init s" and "skip_laws (live_lib L)" "skip_laws (dead_lib L)"
  shows "gc_inv L s"
  using assms(1)
proof (induction gc_init s rule: gc_reach.induct)
  case start
  show ?case
    by (simp add: gc_inv_def gc_init_def tracker_new_def transaction_trace_new_def block_trace_new_def
        trace_ok_def graveyard_ok_def)
next
  case (step s' s'')
  then show ?case using gc_step_inv [OF assms(2,3)] by blast
qed

section \<open>Properties\<close>



text \<open>
  C25: the graveyard loses nothing: registering two pages at one version keeps both, and a pop
  hands out a block with the least death version, exactly when that version is reclaimable,
  and removes just that one.
\<close>

theorem graveyard_exact:
  assumes "skip_laws (dead_lib L)" and "graveyard_ok bt" and "bt_seq bt \<noteq> U64_MAX"
  shows "dead_of (bt_register_died_page L d a bt) = add_mset (d, a) (dead_of bt)
    \<and> (case pop_min_if L P bt of
        (bt', Some b) \<Rightarrow> \<exists>e. P e \<and> (e, b) \<in># dead_of bt \<and> (\<forall>x \<in># dead_of bt. e \<le> fst x)
          \<and> dead_of bt' = dead_of bt - {#(e, b)#}
      | (bt', None) \<Rightarrow> bt' = bt \<and> (\<forall>x \<in># dead_of bt. \<exists>y \<in># dead_of bt. fst y \<le> fst x \<and> \<not> P (fst y)))"
proof -
  obtain bt' r where pop: "pop_min_if L P bt = (bt', r)" by fastforce
  have asc: "ascending (bt_index bt)" using assms(2) by (simp add: graveyard_ok_def)
  have low: "\<exists>y \<in># dead_of bt. fst y \<le> fst x \<and> \<not> P (fst y)"
    if f: "sl_front (bt_index bt) = Some ((e, n), b)" "\<not> P e" and x: "x \<in># dead_of bt" for e n b x
  proof -
    have "((e, n), b) \<in> set (bt_index bt)" "\<forall>z \<in> set (bt_index bt). (e, n) \<le> fst z"
      using sl_front_least [OF asc f(1)] by auto
    moreover have "e \<le> fst (fst z)" if "(e, n) \<le> fst z" for z :: "dead_page_key \<times> addr"
      using that by (cases z) (auto simp: less_eq_prod_def)
    ultimately show ?thesis using x f(2) by (intro bexI [of _ "(e, b)"]) force+
  qed
  have "case (bt', r) of
        (bt', Some b) \<Rightarrow> \<exists>e. P e \<and> (e, b) \<in># dead_of bt \<and> (\<forall>x \<in># dead_of bt. e \<le> fst x)
          \<and> dead_of bt' = dead_of bt - {#(e, b)#}
      | (bt', None) \<Rightarrow> bt' = bt \<and> (\<forall>x \<in># dead_of bt. \<exists>y \<in># dead_of bt. fst y \<le> fst x \<and> \<not> P (fst y))"
  proof (cases r)
    case None
    then have "bt' = bt \<and> (bt_index bt = [] \<or> (\<exists>e n b. sl_front (bt_index bt) = Some ((e, n), b) \<and> \<not> P e))"
      using graveyard_pop_None [OF assms(1,2)] pop by blast
    then have "\<forall>x \<in># dead_of bt. \<exists>y \<in># dead_of bt. fst y \<le> fst x \<and> \<not> P (fst y)"
      using low by (elim conjE disjE) (simp, blast)
    then show ?thesis using None \<open>bt' = bt \<and> _\<close> by simp
  next
    case (Some b)
    then show ?thesis using graveyard_pop_Some [OF assms(1,2)] pop by fastforce
  qed
  then show ?thesis using graveyard_register [OF assms, of d a] pop by simp
qed

text \<open>A library for the witnesses, and a run that frees a block under it.\<close>

definition ref_lib :: gc_lib where
  "ref_lib = \<lparr>dead_lib = ref_ops, live_lib = ref_ops\<rparr>"

lemma ref_lib_laws: "skip_laws (live_lib ref_lib)" "skip_laws (dead_lib ref_lib)"
  by (simp_all add: ref_lib_def ref_ops_laws)

lemmas gc_eval = gc_init_def tracker_new_def transaction_trace_new_def block_trace_new_def ref_lib_def
  ref_ops_def register_died_page_def bt_register_died_page_def reclaim_bound_def tt_peek_min_def
  pop_min_if_def pin_reader_def tt_pin_def START_VERSION_def sl_front_def

lemma gc_demo_run:
  "\<exists>s t. gc_reach ref_lib gc_init s \<and> g_readers s 0 = RReading t 1 \<and> (0, 7) \<in> g_freed s"
proof -
  let ?s1 = "gc_init\<lparr>g_tracker := register_died_page ref_lib 0 7 (g_tracker gc_init)\<rparr>"
  let ?s2 = "set_collector ?s1 0 (GCommitted 1)"
  let ?s3 = "set_collector ?s2 0 (GBound (reclaim_bound 1 (g_tracker ?s2)))"
  let ?s4 = "set_collector ?s3 0 GIdle\<lparr>g_tracker := (g_tracker ?s3)\<lparr>dead_blocks := \<lparr>bt_index = [], bt_seq = 1\<rparr>\<rparr>,
      g_freed := insert (0, 7) (g_freed ?s3)\<rparr>"
  let ?s5 = "set_reader ?s4 0 (RBound 1)"
  let ?s6 = "set_reader ?s5 0 (RPinned (1, 0))\<lparr>g_tracker := fst (pin_reader ref_lib 1 (g_tracker ?s5))\<rparr>"
  let ?s7 = "set_reader ?s6 0 (RDrawing (1, 0) (g_min ?s6))"
  let ?s8 = "set_reader ?s7 0 (RReading (1, 0) 1)"
  have "gc_step ref_lib gc_init ?s1" by (rule gc_step.died) (simp add: gc_eval)
  moreover have "gc_step ref_lib ?s1 ?s2" by (rule gc_step.committed) (simp_all add: gc_eval)
  moreover have "gc_step ref_lib ?s2 ?s3" by (rule gc_step.scan) simp
  moreover have "gc_step ref_lib ?s3 ?s4"
    by (rule gc_step.pop_some [where b = 1 and n = 0]) (simp_all add: gc_eval)
  moreover have "gc_step ref_lib ?s4 ?s5" by (rule gc_step.lower) (simp_all add: gc_eval)
  moreover have "gc_step ref_lib ?s5 ?s6" by (rule gc_step.pin [where l = 1]) (simp_all add: gc_eval Let_def)
  moreover have "gc_step ref_lib ?s6 ?s7" by (rule gc_step.draw) simp
  moreover have "gc_step ref_lib ?s7 ?s8"
    by (rule gc_step.drawn [where f = 1]) (simp_all add: gc_eval)
  ultimately have "gc_reach ref_lib gc_init ?s8" by (meson gc_reach.intros)
  moreover have "g_readers ?s8 0 = RReading (1, 0) 1 \<and> (0, 7) \<in> g_freed ?s8" by simp
  ultimately show ?thesis by blast
qed



theorem graveyard_exact_witness:
  "dead_of (bt_register_died_page ref_lib 4 9 block_trace_new) = {#(4, 9)#}"
proof -
  have "graveyard_ok block_trace_new" "bt_seq block_trace_new \<noteq> U64_MAX" "dead_of block_trace_new = {#}"
    by (simp_all add: graveyard_ok_def block_trace_new_def)
  then show ?thesis using graveyard_exact [OF ref_lib_laws(2), of block_trace_new 4 9 "\<lambda>_. True"] by simp
qed

end
