(* ===== verification/Frugal_Root.thy ===== *)
theory Frugal_Root
  imports Version_Info
begin

text \<open>
  \<^verbatim>\<open>mv_root/frugal_root.rs\<close>: the default index over the roots, a singly linked list of root
  versions (newest first) with one skip pointer per node. Nodes are immutable once they are
  published (an \<open>ArcSwap\<close> of \<open>Arc\<close>s), so a node is a value; the head is the list. The coin tosses
  (\<open>rand::random_bool\<close>) are a parameter: the sequence of their outcomes, read from a position.
\<close>

type_synonym tower_level = u64

definition FLAT_LEVEL :: tower_level where
  "FLAT_LEVEL = 0"

definition SENTINEL_LEVEL :: tower_level where
  "SENTINEL_LEVEL = U64_MAX"

datatype 'r frugal_node =
  FrugalNode (fn_next: "'r frugal_node option") (fn_ridgy: "'r frugal_node option")
    (fn_payload: 'r) (fn_version: version) (fn_level: tower_level)

text \<open>\<open>while rand::random_bool(p) { lvl += 1 }\<close>: the level and the next position.\<close>

partial_function (option) pick_level :: "(nat \<Rightarrow> bool) \<Rightarrow> nat \<Rightarrow> tower_level \<Rightarrow> (tower_level \<times> nat) option" where
  [code]: "pick_level coin pos lvl =
     (if coin pos then pick_level coin (Suc pos) (lvl + 1) else Some (lvl, Suc pos))"

definition frugal_new :: "'r \<Rightarrow> version \<Rightarrow> 'r frugal_node" where
  "frugal_new payload ins_version = FrugalNode None None payload ins_version SENTINEL_LEVEL"

definition frugal_current_root :: "'r frugal_node \<Rightarrow> 'r \<times> version" where
  "frugal_current_root head = (fn_payload head, fn_version head)"

text \<open>\<open>iter\<close>: the nodes along \<open>next\<close>.\<close>

fun frugal_iter :: "'r frugal_node \<Rightarrow> 'r frugal_node list" where
  "frugal_iter (FrugalNode None r p v l) = [FrugalNode None r p v l]"
| "frugal_iter (FrugalNode (Some n) r p v l) = FrugalNode (Some n) r p v l # frugal_iter n"

definition frugal_len :: "'r frugal_node \<Rightarrow> usize" where
  "frugal_len head = length (frugal_iter head)"

definition append_next :: "'r \<Rightarrow> version \<Rightarrow> 'r frugal_node \<Rightarrow> 'r frugal_node" where
  "append_next payload ins_version head =
     FrugalNode (Some head) (Some head) payload ins_version FLAT_LEVEL"

text \<open>The walk along the skip pointers; \<open>None\<close> is the \<open>unreachable!\<close>.\<close>

fun tower_target :: "'r frugal_node \<Rightarrow> tower_level \<Rightarrow> 'r frugal_node option" where
  "tower_target (FrugalNode n r p v l) new_tower_level =
     (if l < new_tower_level then
        (case r of Some k \<Rightarrow> tower_target k new_tower_level | None \<Rightarrow> None)
      else Some (FrugalNode n r p v l))"

definition append_tower :: "(nat \<Rightarrow> bool) \<Rightarrow> nat \<Rightarrow> 'r \<Rightarrow> version \<Rightarrow> 'r frugal_node \<Rightarrow> ('r frugal_node \<times> nat) option" where
  "append_tower coin pos payload ins_version head = do {
     (lvl, pos') \<leftarrow> pick_level coin pos 1;
     k \<leftarrow> tower_target head lvl;
     Some (FrugalNode (Some head) (Some k) payload ins_version lvl, pos')
   }"

definition frugal_append :: "(nat \<Rightarrow> bool) \<Rightarrow> nat \<Rightarrow> 'r \<Rightarrow> version \<Rightarrow> 'r frugal_node \<Rightarrow> ('r frugal_node \<times> nat) option" where
  "frugal_append coin pos payload ins_version head =
     (if coin pos then append_tower coin (Suc pos) payload ins_version head
      else Some (append_next payload ins_version head, Suc pos))"

definition frugal_push :: "(nat \<Rightarrow> bool) \<Rightarrow> nat \<Rightarrow> 'r \<Rightarrow> version \<Rightarrow> 'r frugal_node \<Rightarrow> ('r frugal_node \<times> nat) option" where
  "frugal_push coin pos payload ins_version head = frugal_append coin pos payload ins_version head"

text \<open>
  \<open>find_from\<close>: take the skip pointer while it stays above the version looked up, the next
  pointer otherwise. The outer \<open>None\<close> is \<open>next.unwrap()\<close> of a node without a next one.
\<close>

fun find_from :: "'r frugal_node \<Rightarrow> version \<Rightarrow> 'r frugal_node option option" where
  "find_from (FrugalNode n r p v l) look_up_version =
     (if l < SENTINEL_LEVEL \<and> v > look_up_version then
        (case r of
           Some k \<Rightarrow>
             if fn_version k > look_up_version then find_from k look_up_version
             else (case n of Some m \<Rightarrow> find_from m look_up_version | None \<Rightarrow> None)
         | None \<Rightarrow> (case n of Some m \<Rightarrow> find_from m look_up_version | None \<Rightarrow> None))
      else Some (if v \<le> look_up_version then Some (FrugalNode n r p v l) else None))"

definition frugal_find :: "'r frugal_node \<Rightarrow> version \<Rightarrow> 'r frugal_node option option" where
  "frugal_find head look_up_version = find_from head look_up_version"

section \<open>Well-formed lists\<close>

text \<open>
  The last node is a sentinel; every other node is below the sentinel level, is not older than
  its next node, and its skip pointer leads to a node of the list behind it.
\<close>

fun frugal_ok :: "'r frugal_node \<Rightarrow> bool" where
  "frugal_ok (FrugalNode None r p v l) \<longleftrightarrow> l = SENTINEL_LEVEL"
| "frugal_ok (FrugalNode (Some n) r p v l) \<longleftrightarrow> frugal_ok n \<and> fn_version n \<le> v \<and> l < SENTINEL_LEVEL
     \<and> (\<exists>k. r = Some k \<and> k \<in> set (frugal_iter n))"

lemma frugal_iter_self: "n \<in> set (frugal_iter n)"
  by (cases n rule: frugal_iter.cases) simp_all

lemma frugal_iter_ok: "frugal_ok n \<Longrightarrow> k \<in> set (frugal_iter n) \<Longrightarrow> frugal_ok k"
  by (induction n rule: frugal_iter.induct) auto

lemma frugal_iter_hd: "hd (frugal_iter n) = n"
  by (cases n rule: frugal_iter.cases) simp_all

lemma frugal_iter_ne [simp]: "frugal_iter n \<noteq> []"
  by (cases n rule: frugal_iter.cases) simp_all

lemma frugal_iter_le: "frugal_ok n \<Longrightarrow> k \<in> set (frugal_iter n) \<Longrightarrow> fn_version k \<le> fn_version n"
  by (induction n rule: frugal_iter.induct) (auto intro: order_trans)

lemma frugal_iter_suffix:
  assumes "frugal_ok n" and "k \<in> set (frugal_iter n)"
  shows "\<exists>pre. frugal_iter n = pre @ frugal_iter k \<and> (\<forall>m \<in> set pre. fn_version k \<le> fn_version m)"
  using assms
proof (induction n rule: frugal_iter.induct)
  case (1 r p v l)
  then show ?case by auto
next
  case (2 n r p v l)
  show ?case
  proof (cases "k = FrugalNode (Some n) r p v l")
    case True
    then show ?thesis by auto
  next
    case False
    then have k: "k \<in> set (frugal_iter n)" using "2.prems" by simp
    then obtain pre where pre: "frugal_iter n = pre @ frugal_iter k"
      "\<forall>m \<in> set pre. fn_version k \<le> fn_version m"
      using "2.IH" "2.prems" by auto
    moreover have "fn_version k \<le> v"
      using frugal_iter_le [OF _ k] "2.prems" by (auto intro: order_trans)
    ultimately show ?thesis
      by (intro exI [of _ "FrugalNode (Some n) r p v l # pre"]) auto
  qed
qed

lemma frugal_size: "k \<in> set (frugal_iter n) \<Longrightarrow> size k \<le> size n"
  by (induction n rule: frugal_iter.induct) auto

lemma find_append_None: "List.find P xs = None \<Longrightarrow> List.find P (xs @ ys) = List.find P ys"
  by (induction xs) (auto split: if_splits)

text \<open>Skipping loses nothing: the walk finds the newest version not above the one looked up.\<close>

lemma find_from_correct:
  "frugal_ok n \<Longrightarrow> find_from n v = Some (List.find (\<lambda>m. fn_version m \<le> v) (frugal_iter n))"
proof (induction "size n" arbitrary: n rule: less_induct)
  case less
  show ?case
  proof (cases n rule: frugal_iter.cases)
    case (1 r p u l)
    then show ?thesis using less.prems by simp
  next
    case (2 m r p u l)
    then obtain k where k: "r = Some k" "k \<in> set (frugal_iter m)" "frugal_ok m" "l < SENTINEL_LEVEL"
      using less.prems by auto
    have sz: "size m < size n" "size k < size n" using 2 frugal_size [OF k(2)] by auto
    show ?thesis
    proof (cases "u \<le> v")
      case True
      then show ?thesis using 2 by auto
    next
      case False
      then have u: "v < u" by simp
      have rec_m: "find_from m v = Some (List.find (\<lambda>m. fn_version m \<le> v) (frugal_iter m))"
        using less.hyps [OF sz(1) k(3)] .
      show ?thesis
      proof (cases "v < fn_version k")
        case True
        obtain pre where pre: "frugal_iter m = pre @ frugal_iter k" "\<forall>x \<in> set pre. fn_version k \<le> fn_version x"
          using frugal_iter_suffix [OF k(3,2)] by blast
        have "List.find (\<lambda>m. fn_version m \<le> v) pre = None"
          using pre(2) True by (auto simp: find_None_iff not_le intro: order_less_le_trans)
        then have "List.find (\<lambda>m. fn_version m \<le> v) (frugal_iter m)
            = List.find (\<lambda>m. fn_version m \<le> v) (frugal_iter k)"
          using pre(1) by (simp add: find_append_None)
        then show ?thesis
          using less.hyps [OF sz(2) frugal_iter_ok [OF k(3,2)]] True 2 k u by auto
      next
        case f: False
        then show ?thesis using rec_m 2 k u by auto
      qed
    qed
  qed
qed

section \<open>Pushing a root\<close>

text \<open>The toss sequence at \<open>pos\<close> shows \<open>n\<close> heads and then tails.\<close>

definition heads :: "(nat \<Rightarrow> bool) \<Rightarrow> nat \<Rightarrow> nat \<Rightarrow> bool" where
  "heads coin pos n \<longleftrightarrow> (\<forall>i < n. coin (pos + i)) \<and> \<not> coin (pos + n)"

lemma pick_level_heads:
  "heads coin pos n \<Longrightarrow> pick_level coin pos lvl = Some (lvl + word_of_nat n, pos + n + 1)"
proof (induction n arbitrary: pos lvl)
  case 0
  then show ?case by (simp add: heads_def pick_level.simps)
next
  case (Suc n)
  have "coin pos" using Suc.prems by (auto simp: heads_def)
  moreover have "coin (Suc pos + i)" if "i < n" for i
    using Suc.prems that unfolding heads_def by (metis Suc_less_eq add_Suc_shift)
  then have "heads coin (Suc pos) n" using Suc.prems by (simp add: heads_def)
  ultimately show ?case
    using Suc.IH [of "Suc pos" "lvl + 1"] by (simp add: pick_level.simps [of coin pos] algebra_simps)
qed

lemma tower_target_total:
  "frugal_ok n \<Longrightarrow> \<exists>k. tower_target n lvl = Some k \<and> k \<in> set (frugal_iter n)"
proof (induction "size n" arbitrary: n rule: less_induct)
  case less
  show ?case
  proof (cases n rule: frugal_iter.cases)
    case (1 r p v l)
    have "lvl \<le> SENTINEL_LEVEL"
      using unsigned_less [of lvl, where 'a = nat] by (simp add: SENTINEL_LEVEL_def word_le_nat_alt)
    then show ?thesis using 1 less.prems by auto
  next
    case (2 m r p v l)
    then obtain k where k: "r = Some k" "k \<in> set (frugal_iter m)" "frugal_ok m"
      using less.prems by auto
    have sz: "size k < size n" using 2 frugal_size [OF k(2)] by simp
    obtain k' where k': "tower_target k lvl = Some k'" "k' \<in> set (frugal_iter k)"
      using less.hyps [OF sz frugal_iter_ok [OF k(3,2)]] by blast
    obtain pre where "frugal_iter m = pre @ frugal_iter k" using frugal_iter_suffix [OF k(3,2)] by blast
    then have "k' \<in> set (frugal_iter m)" using k'(2) by simp
    then show ?thesis using 2 k k' by auto
  qed
qed

text \<open>
  The toss at \<open>pos\<close> is tails, or a run of fewer than \<open>2^64 - 2\<close> heads follows: then the level of the
  new tower stays below the sentinel's.
\<close>

definition fair :: "(nat \<Rightarrow> bool) \<Rightarrow> nat \<Rightarrow> bool" where
  "fair coin pos \<longleftrightarrow> \<not> coin pos \<or> (\<exists>n < 2 ^ 64 - 2. heads coin (Suc pos) n)"

lemma level_below_sentinel: "n < 2 ^ 64 - 2 \<Longrightarrow> 1 + word_of_nat n < SENTINEL_LEVEL"
  by (simp add: SENTINEL_LEVEL_def word_less_nat_alt unat_word_ariths unsigned_of_nat take_bit_nat_eq_self)

lemma frugal_push_ok:
  assumes "frugal_ok head" and "fn_version head \<le> v" and "fair coin pos"
  shows "\<exists>head' pos'. frugal_push coin pos p v head = Some (head', pos') \<and> frugal_ok head'
    \<and> frugal_iter head' = head' # frugal_iter head \<and> fn_payload head' = p \<and> fn_version head' = v"
proof (cases "coin pos")
  case False
  moreover have "(0 :: u64) < SENTINEL_LEVEL" by (simp add: SENTINEL_LEVEL_def)
  ultimately show ?thesis
    using assms(1,2) frugal_iter_self [of head]
    by (auto simp: frugal_push_def frugal_append_def append_next_def FLAT_LEVEL_def)
next
  case True
  then obtain n where n: "n < 2 ^ 64 - 2" "heads coin (Suc pos) n" using assms(3) by (auto simp: fair_def)
  obtain k where "tower_target head (1 + word_of_nat n) = Some k" "k \<in> set (frugal_iter head)"
    using tower_target_total [OF assms(1)] by blast
  then show ?thesis
    using True assms(1,2) level_below_sentinel [OF n(1)]
    by (auto simp: frugal_push_def frugal_append_def append_tower_def pick_level_heads [OF n(2)])
qed

end
