(* ===== verification/Root_Index.thy ===== *)
theory Root_Index
  imports Frugal_Root Skip_List
begin

text \<open>
  \<^verbatim>\<open>mv_root\<close>: the index over all roots the tree ever had, in its four variants
  (\<^verbatim>\<open>index_root.rs\<close>, \<^verbatim>\<open>frugal_root.rs\<close>, \<^verbatim>\<open>sk_root.rs\<close>, \<^verbatim>\<open>tree_root.rs\<close>,
  \<^verbatim>\<open>vanilla_root.rs\<close>). The skip list and the B+-tree are library code: parameters over the list
  of their entries in key order. What the tree relies on is the locale \<open>root_star\<close>, which the
  index implements.
\<close>

type_synonym height = u16
type_synonym value_root = "addr \<times> height"

definition INIT_TREE_HEIGHT :: height where
  "INIT_TREE_HEIGHT = 1"

record root =
  root_block :: addr
  root_version :: version
  root_height :: height

abbreviation root_new :: "addr \<Rightarrow> version \<Rightarrow> height \<Rightarrow> root" where
  "root_new b v h \<equiv> \<lparr>root_block = b, root_version = v, root_height = h\<rparr>"

definition value_root_initial :: "addr \<Rightarrow> value_root" where
  "value_root_initial block = (block, INIT_TREE_HEIGHT)"

definition value_root_from :: "addr \<Rightarrow> height \<Rightarrow> value_root" where
  "value_root_from block h = (block, h)"

datatype root_index_type = TFrugalList | TSkipList | TBTree | TLinkedList

datatype root_index =
    FrugalList "value_root frugal_node"
  | BTree "(version \<times> value_root) list"
  | SkipList "(version \<times> value_root) list"
  | LinkedList "root list"

text \<open>The library: the B+-tree's dispatch of \<open>Insert\<close>, \<open>PeekMax\<close>, \<open>Pred\<close> and its height.\<close>

record root_lib =
  coin :: "nat \<Rightarrow> bool"
  sk_lib :: "(version, value_root) skip_ops"
  bt_insert :: "version \<Rightarrow> value_root \<Rightarrow> (version \<times> value_root) list \<Rightarrow> (version \<times> value_root) list \<times> bool"
  bt_peek_max :: "(version \<times> value_root) list \<Rightarrow> (version \<times> value_root) option"
  bt_pred :: "version \<Rightarrow> (version \<times> value_root) list \<Rightarrow> (version \<times> value_root) option"
  bt_height :: "(version \<times> value_root) list \<Rightarrow> height"

definition root_of_entry :: "version \<times> value_root \<Rightarrow> root" where
  "root_of_entry e = root_new (fst (snd e)) (fst e) (snd (snd e))"

section \<open>The skip list\<close>

definition sk_height :: "(version \<times> value_root) list \<Rightarrow> height option" where
  "sk_height xs = map_option (\<lambda>e. snd (snd e)) (sl_back xs)"

definition sk_current_root :: "(version \<times> value_root) list \<Rightarrow> root option" where
  "sk_current_root xs = map_option root_of_entry (sl_back xs)"

definition sk_root_for :: "(version \<times> value_root) list \<Rightarrow> version \<Rightarrow> root option" where
  "sk_root_for xs si = map_option root_of_entry (sl_back (filter (\<lambda>e. fst e \<le> si) xs))"

definition sk_append_root :: "root_lib \<Rightarrow> root \<Rightarrow> (version \<times> value_root) list \<Rightarrow> (version \<times> value_root) list \<times> bool" where
  "sk_append_root L r xs =
     (sl_insert (sk_lib L) (root_version r) (root_block r, root_height r) xs, True)"

section \<open>The tree of roots\<close>

definition rt_current_root :: "root_lib \<Rightarrow> (version \<times> value_root) list \<Rightarrow> root option" where
  "rt_current_root L xs = map_option root_of_entry (bt_peek_max L xs)"

definition rt_root_for :: "root_lib \<Rightarrow> (version \<times> value_root) list \<Rightarrow> version \<Rightarrow> root option" where
  "rt_root_for L xs si = map_option root_of_entry (bt_pred L si xs)"

definition rt_append_root :: "root_lib \<Rightarrow> root \<Rightarrow> (version \<times> value_root) list \<Rightarrow> (version \<times> value_root) list \<times> bool" where
  "rt_append_root L r xs = bt_insert L (root_version r) (root_block r, root_height r) xs"

section \<open>The index\<close>

fun count_roots :: "root_lib \<Rightarrow> root_index \<Rightarrow> usize" where
  "count_roots L (FrugalList n) = frugal_len n"
| "count_roots L (BTree xs) = 2 ^ unat (bt_height L xs) - 1"
| "count_roots L (SkipList xs) = length xs"
| "count_roots L (LinkedList rs) = length rs"

fun index_type :: "root_index \<Rightarrow> root_index_type" where
  "index_type (FrugalList n) = TFrugalList"
| "index_type (BTree xs) = TBTree"
| "index_type (SkipList xs) = TSkipList"
| "index_type (LinkedList rs) = TLinkedList"

text \<open>\<open>RootIndex::new\<close>, given the block of the first (empty) leaf.\<close>

fun root_index_new :: "root_lib \<Rightarrow> version \<Rightarrow> root_index_type \<Rightarrow> addr \<Rightarrow> root_index" where
  "root_index_new L v TBTree leaf =
     BTree (fst (rt_append_root L (root_new leaf v (snd (value_root_initial leaf))) []))"
| "root_index_new L v TSkipList leaf = SkipList (sl_insert (sk_lib L) v (value_root_initial leaf) [])"
| "root_index_new L v TLinkedList leaf = LinkedList [root_new leaf v (snd (value_root_initial leaf))]"
| "root_index_new L v TFrugalList leaf = FrugalList (frugal_new (value_root_initial leaf) v)"

fun ri_height :: "root_lib \<Rightarrow> root_index \<Rightarrow> height option" where
  "ri_height L (BTree xs) = Some (bt_height L xs)"
| "ri_height L (SkipList xs) = sk_height xs"
| "ri_height L (LinkedList rs) = (if rs = [] then None else Some (root_height (last rs)))"
| "ri_height L (FrugalList n) = Some (snd (fst (frugal_current_root n)))"

fun current_root :: "root_lib \<Rightarrow> root_index \<Rightarrow> root option" where
  "current_root L (BTree xs) = rt_current_root L xs"
| "current_root L (SkipList xs) = sk_current_root xs"
| "current_root L (LinkedList rs) = (if rs = [] then None else Some (last rs))"
| "current_root L (FrugalList n) =
     (let (inner, v) = frugal_current_root n in Some (root_new (fst inner) v (snd inner)))"

text \<open>\<open>RootIndexGuard::block\<close> and \<open>version\<close>.\<close>

definition guard_block :: "root_lib \<Rightarrow> root_index \<Rightarrow> addr option" where
  "guard_block L ri = map_option root_block (current_root L ri)"

definition guard_version :: "root_lib \<Rightarrow> root_index \<Rightarrow> version option" where
  "guard_version L ri = map_option root_version (current_root L ri)"

definition frugal_root_of :: "value_root frugal_node \<Rightarrow> root" where
  "frugal_root_of n = root_new (fst (fn_payload n)) (fn_version n) (snd (fn_payload n))"

fun root_for :: "root_lib \<Rightarrow> root_index \<Rightarrow> version \<Rightarrow> root option" where
  "root_for L (BTree xs) si = rt_root_for L xs si"
| "root_for L (SkipList xs) si = sk_root_for xs si"
| "root_for L (LinkedList rs) si =
     (case rfind (\<lambda>r. root_version r \<le> si) rs of
        Some r \<Rightarrow> Some r
      | None \<Rightarrow> (case rs of [] \<Rightarrow> None | r # _ \<Rightarrow> Some r))"
| "root_for L (FrugalList n) si = do {
     found \<leftarrow> frugal_find n si;
     node \<leftarrow> found;
     Some (frugal_root_of node)
   }"

text \<open>The index, the position in the toss sequence and the result.\<close>

fun append_root :: "root_lib \<Rightarrow> nat \<Rightarrow> root_index \<Rightarrow> root \<Rightarrow> (root_index \<times> nat \<times> bool) option" where
  "append_root L pos (BTree xs) r =
     (let (xs', ok) = rt_append_root L r xs in Some (BTree xs', pos, ok))"
| "append_root L pos (SkipList xs) r =
     (let (xs', ok) = sk_append_root L r xs in Some (SkipList xs', pos, ok))"
| "append_root L pos (LinkedList rs) r = Some (LinkedList (rs @ [r]), pos, True)"
| "append_root L pos (FrugalList n) r = do {
     (n', pos') \<leftarrow> frugal_push (coin L) pos (value_root_from (root_block r) (root_height r)) (root_version r) n;
     Some (FrugalList n', pos', True)
   }"

section \<open>The contract\<close>

text \<open>
  What the tree relies on: the index is the list of all roots, oldest first; the current root
  is the last one; a lookup finds the last root that is not younger than the snapshot; an
  append adds one root at the end, provided its version may follow the last one.
\<close>

locale root_star =
  fixes ok :: "'s \<Rightarrow> bool"
    and roots :: "'s \<Rightarrow> root list"
    and follows :: "'s \<Rightarrow> version \<Rightarrow> bool"
    and current :: "'s \<Rightarrow> root option"
    and lookup :: "'s \<Rightarrow> version \<Rightarrow> root option"
    and append :: "'s \<Rightarrow> root \<Rightarrow> 's option"
  assumes roots_ne: "ok s \<Longrightarrow> roots s \<noteq> []"
    and current_eq: "ok s \<Longrightarrow> current s = Some (last (roots s))"
    and lookup_eq: "ok s \<Longrightarrow> r \<in> set (roots s) \<Longrightarrow> root_version r \<le> v \<Longrightarrow>
      lookup s v = rfind (\<lambda>r. root_version r \<le> v) (roots s)"
    and append_eq: "ok s \<Longrightarrow> follows s (root_version r) \<Longrightarrow>
      \<exists>s'. append s r = Some s' \<and> ok s' \<and> roots s' = roots s @ [r]"
begin

lemma append_lookup:
  assumes "ok s" and "follows s (root_version r)" and "append s r = Some s'"
  shows "ok s'" and "current s' = Some r"
    and "root_version r \<le> v \<Longrightarrow> lookup s' v = Some r"
    and "v < root_version r \<Longrightarrow> q \<in> set (roots s) \<Longrightarrow> root_version q \<le> v \<Longrightarrow> lookup s' v = lookup s v"
proof -
  have s': "ok s'" "roots s' = roots s @ [r]" using append_eq [OF assms(1,2)] assms(3) by auto
  show "ok s'" by fact
  show "current s' = Some r" using current_eq [OF s'(1)] s'(2) by simp
  show "lookup s' v = Some r" if "root_version r \<le> v"
    using lookup_eq [OF s'(1), of r v] s'(2) that by simp
  show "lookup s' v = lookup s v" if "v < root_version r" "q \<in> set (roots s)" "root_version q \<le> v"
    using lookup_eq [OF s'(1), of q v] lookup_eq [OF assms(1), of q v] s'(2) that by auto
qed

end

section \<open>The index implements the contract\<close>

definition btree_laws :: "root_lib \<Rightarrow> bool" where
  "btree_laws L \<longleftrightarrow>
     (\<forall>k v xs. ascending xs \<longrightarrow> k \<notin> fst ` set xs \<longrightarrow>
        snd (bt_insert L k v xs) \<and> ascending (fst (bt_insert L k v xs))
        \<and> set (fst (bt_insert L k v xs)) = insert (k, v) (set xs))
     \<and> (\<forall>xs. ascending xs \<longrightarrow> bt_peek_max L xs = sl_back xs)
     \<and> (\<forall>v xs. ascending xs \<longrightarrow> bt_pred L v xs = sl_back (filter (\<lambda>e. fst e \<le> v) xs))"

fun roots_of :: "root_index \<Rightarrow> root list" where
  "roots_of (FrugalList n) = rev (map frugal_root_of (frugal_iter n))"
| "roots_of (BTree xs) = map root_of_entry xs"
| "roots_of (SkipList xs) = map root_of_entry xs"
| "roots_of (LinkedList rs) = rs"

fun ri_ok :: "root_lib \<Rightarrow> root_index \<Rightarrow> bool" where
  "ri_ok L (FrugalList n) \<longleftrightarrow> frugal_ok n \<and> (\<forall>pos. fair (coin L) pos)"
| "ri_ok L (BTree xs) \<longleftrightarrow> xs \<noteq> [] \<and> ascending xs \<and> btree_laws L"
| "ri_ok L (SkipList xs) \<longleftrightarrow> xs \<noteq> [] \<and> ascending xs \<and> skip_laws (sk_lib L)"
| "ri_ok L (LinkedList rs) \<longleftrightarrow> rs \<noteq> []"

fun ri_follows :: "root_index \<Rightarrow> version \<Rightarrow> bool" where
  "ri_follows (FrugalList n) v \<longleftrightarrow> fn_version n \<le> v"
| "ri_follows (BTree xs) v \<longleftrightarrow> fst (last xs) < v"
| "ri_follows (SkipList xs) v \<longleftrightarrow> fst (last xs) < v"
| "ri_follows (LinkedList rs) v \<longleftrightarrow> True"

lemma root_of_entry_simps [simp]:
  "root_version (root_of_entry e) = fst e" "root_block (root_of_entry e) = fst (snd e)"
  "root_height (root_of_entry e) = snd (snd e)"
  by (simp_all add: root_of_entry_def)

lemma root_of_entry_root: "root_of_entry (root_version r, root_block r, root_height r) = r"
  by (simp add: root_of_entry_def)

lemma frugal_root_of_simps [simp]: "root_version (frugal_root_of n) = fn_version n"
  by (simp add: frugal_root_of_def)

lemma rfind_map: "rfind P (map f xs) = map_option f (rfind (\<lambda>x. P (f x)) xs)"
  by (induction xs rule: rev_induct) auto

lemma find_map_option: "List.find P (map f xs) = map_option f (List.find (\<lambda>x. P (f x)) xs)"
  by (induction xs) auto

lemma rfind_rev: "rfind P (rev xs) = List.find P xs"
  by (simp add: rfind_def)

lemma rfind_last_filter: "rfind P xs = sl_back (filter P xs)"
  by (induction xs rule: rev_induct) (auto simp: sl_back_def)

lemma ascending_append_last:
  assumes "ascending xs" and "xs \<noteq> []" and "fst (last xs) < k"
  shows "ascending (xs @ [(k, v)])" and "k \<notin> fst ` set xs"
proof -
  have le: "fst e \<le> fst (last xs)" if "e \<in> set xs" for e
    using sl_back_greatest [OF assms(1), of "last xs"] that assms(2) by (auto simp: sl_back_def)
  then show "ascending (xs @ [(k, v)])"
    using assms by (auto simp: ascending_append intro: order_le_less_trans)
  show "k \<notin> fst ` set xs" using le assms(3) by force
qed

lemma sl_insert_last:
  assumes "skip_laws L" and "ascending xs" and "xs \<noteq> []" and "fst (last xs) < k"
  shows "sl_insert L k v xs = xs @ [(k, v)]"
proof (rule ascending_set_eq)
  have "{e \<in> set xs. fst e \<noteq> k} = set xs" using ascending_append_last(2) [OF assms(2-4)] by force
  then show "set (sl_insert L k v xs) = set (xs @ [(k, v)])"
    using skip_lawsD(2) [OF assms(1,2), of k v] by auto
qed (use skip_lawsD(1) [OF assms(1,2)] ascending_append_last [OF assms(2-4)] in auto)

lemma bt_insert_last:
  assumes "btree_laws L" and "ascending xs" and "xs \<noteq> []" and "fst (last xs) < k"
  shows "bt_insert L k v xs = (xs @ [(k, v)], True)"
proof -
  note new = ascending_append_last [OF assms(2-4)]
  have law: "snd (bt_insert L k v xs)" "ascending (fst (bt_insert L k v xs))"
    "set (fst (bt_insert L k v xs)) = insert (k, v) (set xs)"
    using assms(1,2) new(2) unfolding btree_laws_def by blast+
  then have "fst (bt_insert L k v xs) = xs @ [(k, v)]"
    by (intro ascending_set_eq) (auto simp: new(1))
  then show ?thesis using law(1) by (simp add: prod_eq_iff)
qed

lemma last_rev_iter: "last (rev (map f (frugal_iter n))) = f n"
  by (simp add: last_rev hd_map frugal_iter_hd)

lemma ri_lookup:
  assumes "ri_ok L ri" and "r \<in> set (roots_of ri)" and "root_version r \<le> v"
  shows "root_for L ri v = rfind (\<lambda>r. root_version r \<le> v) (roots_of ri)"
proof (cases ri)
  case (FrugalList n)
  have "\<exists>m. List.find (\<lambda>m. fn_version m \<le> v) (frugal_iter n) = Some m"
    using assms(2,3) FrugalList by (force simp: find_None_iff simp flip: not_None_eq)
  then show ?thesis
    using FrugalList assms(1) find_from_correct [of n v]
    by (auto simp: frugal_find_def rfind_rev find_map_option)
next
  case (LinkedList rs)
  then have "rfind (\<lambda>r. root_version r \<le> v) rs \<noteq> None"
    using assms(2,3) by (auto simp: rfind_None_iff)
  then show ?thesis using LinkedList by auto
qed (use assms in \<open>auto simp: sk_root_for_def rt_root_for_def btree_laws_def rfind_map rfind_last_filter\<close>)

lemma ri_append:
  assumes "ri_ok L ri" and "ri_follows ri (root_version r)"
  shows "\<exists>ri' pos'. append_root L pos ri r = Some (ri', pos', True) \<and> ri_ok L ri'
    \<and> roots_of ri' = roots_of ri @ [r]"
proof (cases ri)
  case (FrugalList n)
  then obtain n' pos' where "frugal_push (coin L) pos (root_block r, root_height r) (root_version r) n = Some (n', pos')"
    "frugal_ok n'" "frugal_iter n' = n' # frugal_iter n" "fn_payload n' = (root_block r, root_height r)"
    "fn_version n' = root_version r"
    using frugal_push_ok [of n "root_version r" "coin L" pos "(root_block r, root_height r)"] assms by auto
  then show ?thesis
    using FrugalList assms(1) by (auto simp: value_root_from_def frugal_root_of_def)
next
  case (BTree xs)
  then show ?thesis
    using assms bt_insert_last [of L xs "root_version r"] ascending_append_last [of xs "root_version r"]
    by (auto simp: rt_append_root_def root_of_entry_root)
next
  case (SkipList xs)
  then show ?thesis
    using assms sl_insert_last [of "sk_lib L" xs "root_version r"] ascending_append_last [of xs "root_version r"]
    by (auto simp: sk_append_root_def root_of_entry_root)
qed simp

lemma ri_current: "ri_ok L ri \<Longrightarrow> current_root L ri = Some (last (roots_of ri))"
  by (cases ri) (auto simp: frugal_current_root_def last_rev_iter frugal_root_of_def rt_current_root_def
      sk_current_root_def btree_laws_def sl_back_def last_map simp flip: rev_map)

interpretation ri: root_star
  "\<lambda>(L, pos, ri). ri_ok L ri" "\<lambda>(L, pos, ri). roots_of ri" "\<lambda>(L, pos, ri). ri_follows ri"
  "\<lambda>(L, pos, ri). current_root L ri" "\<lambda>(L, pos, ri). root_for L ri"
  "\<lambda>(L, pos, ri) r. map_option (\<lambda>(ri', pos', _). (L, pos', ri')) (append_root L pos ri r)"
proof (unfold_locales, goal_cases)
  case (1 s)
  obtain L pos ri where s: "s = (L, pos, ri)" by (metis prod_cases3)
  then show ?case using 1 by (cases ri) auto
next
  case (2 s)
  then show ?case by (auto simp: ri_current)
next
  case (3 s r v)
  then show ?case using ri_lookup by auto
next
  case (4 s r)
  obtain L pos ri where s: "s = (L, pos, ri)" by (metis prod_cases3)
  then show ?case using 4 ri_append [of L ri r pos] by auto
qed

section \<open>Properties\<close>


text \<open>
  C20: the skip pointers of the frugal list do not change what is found: from a well-formed list,
  the lookup never fails to follow a pointer and returns the newest node that is not newer than
  the version looked up, as a linear walk would; and a push keeps the list well-formed, adding
  one node in front, whatever the coin tosses (as long as they end).
\<close>

theorem frugal_list_lookup:
  assumes "frugal_ok head" and "fn_version head \<le> v" and "fair toss pos"
  shows "frugal_find head u = Some (List.find (\<lambda>n. fn_version n \<le> u) (frugal_iter head))
    \<and> (\<exists>head' pos'. frugal_push toss pos p v head = Some (head', pos') \<and> frugal_ok head'
        \<and> frugal_len head' = Suc (frugal_len head) \<and> frugal_current_root head' = (p, v)
        \<and> frugal_find head' u =
            (if v \<le> u then Some (Some head') else frugal_find head u))"
proof -
  obtain head' pos' where h: "frugal_push toss pos p v head = Some (head', pos')" "frugal_ok head'"
    "frugal_iter head' = head' # frugal_iter head" "fn_payload head' = p" "fn_version head' = v"
    using frugal_push_ok [OF assms] by blast
  then show ?thesis
    using find_from_correct [OF assms(1), of u] find_from_correct [OF h(2), of u]
    by (simp add: frugal_find_def frugal_len_def frugal_current_root_def)
qed

text \<open>Tails for ever, and the reference skip list.\<close>

definition ref_root_lib :: root_lib where
  "ref_root_lib = \<lparr>coin = (\<lambda>_. False), sk_lib = ref_ops, bt_insert = (\<lambda>k v xs. (ref_insert k v xs, True)),
     bt_peek_max = sl_back, bt_pred = (\<lambda>v xs. sl_back (filter (\<lambda>e. fst e \<le> v) xs)), bt_height = (\<lambda>_. 1)\<rparr>"

lemma ref_root_lib_ok: "\<forall>pos. fair (coin ref_root_lib) pos" "skip_laws (sk_lib ref_root_lib)"
  by (simp_all add: ref_root_lib_def fair_def ref_ops_laws)


theorem frugal_list_lookup_witness:
  "\<exists>head' pos'. frugal_push (\<lambda>_. False) 0 CHR ''b'' 7 (frugal_new CHR ''a'' 3) = Some (head', pos')
    \<and> frugal_find head' 5 = Some (Some (frugal_new CHR ''a'' 3))"
proof -
  have h: "frugal_ok (frugal_new CHR ''a'' 3)" "fn_version (frugal_new CHR ''a'' 3) \<le> 7" "fair (\<lambda>_. False) 0"
    by (simp_all add: frugal_new_def fair_def)
  have "frugal_find (frugal_new CHR ''a'' 3) 5 = Some (Some (frugal_new CHR ''a'' 3))"
    by (simp add: frugal_find_def frugal_new_def)
  then show ?thesis using frugal_list_lookup [OF h, of 5 "CHR ''b''"] by auto
qed

end
