(* ===== verification/Mvbt_State.thy ===== *)
theory Mvbt_State
  imports Node Garbage Root_Index
begin

text \<open>
  The tree: \<^verbatim>\<open>mv_tree/mvbt.rs\<close> (the structure and its constructors), \<^verbatim>\<open>mv_block/block_handle.rs\<close>
  (the block allocator), \<^verbatim>\<open>mv_sync/version_handle.rs\<close> (the clock as the tree uses it), the
  reader registration of \<^verbatim>\<open>mv_gc/query_tracer.rs\<close> and \<^verbatim>\<open>mv_utils/retry_stats.rs\<close>.

  The state is explicit: the heap of latched blocks, the index over the roots with its latch,
  the tracker, the clock, and the thread that runs. An operation returns \<open>None\<close> where the code
  would panic or leave an array. \<open>L\<close> is the library code that the program calls.
\<close>

section \<open>The library\<close>

text \<open>
  \<open>itertools\<close>: \<open>sorted_by_key\<close>, \<open>merge_by\<close>, \<open>unique_by\<close> at the types the program uses them;
  \<open>rand\<close>: the outcome of \<open>random_range\<close> at a position of the generator, for a half-open and for
  an inclusive range.
\<close>

type_synonym 'k candidate = "nat \<times> addr \<times> 'k interval"

record ('k, 'p) lib =
  l_gc :: gc_lib
  l_root :: root_lib
  sorted_records :: "(('k, 'p) record_point \<Rightarrow> 'k) \<Rightarrow> ('k, 'p) record_point list \<Rightarrow> ('k, 'p) record_point list"
  sorted_entries :: "('k entry \<Rightarrow> 'k) \<Rightarrow> 'k entry list \<Rightarrow> 'k entry list"
  sorted_candidates :: "('k candidate \<Rightarrow> 'k) \<Rightarrow> 'k candidate list \<Rightarrow> 'k candidate list"
  merge_records :: "(('k, 'p) record_point \<Rightarrow> ('k, 'p) record_point \<Rightarrow> bool) \<Rightarrow> ('k, 'p) record_point list
    \<Rightarrow> ('k, 'p) record_point list \<Rightarrow> ('k, 'p) record_point list"
  merge_entries :: "('k entry \<Rightarrow> 'k entry \<Rightarrow> bool) \<Rightarrow> 'k entry list \<Rightarrow> 'k entry list \<Rightarrow> 'k entry list"
  unique_entries :: "((nat \<times> version) \<times> 'k interval \<Rightarrow> 'k) \<Rightarrow> ((nat \<times> version) \<times> 'k interval) list
    \<Rightarrow> ((nat \<times> version) \<times> 'k interval) list"
  random_range :: "nat \<Rightarrow> nat \<Rightarrow> nat"
  random_range_u64 :: "nat \<Rightarrow> u64 \<Rightarrow> u64 \<Rightarrow> u64"

text \<open>The documented behaviour: a stable sort by key; a merge that asks which element is first.\<close>

fun merge_by :: "('a \<Rightarrow> 'a \<Rightarrow> bool) \<Rightarrow> 'a list \<Rightarrow> 'a list \<Rightarrow> 'a list" where
  "merge_by is_first [] ys = ys"
| "merge_by is_first xs [] = xs"
| "merge_by is_first (x # xs) (y # ys) =
     (if is_first x y then x # merge_by is_first xs (y # ys) else y # merge_by is_first (x # xs) ys)"

fun unique_by :: "('a \<Rightarrow> 'b) \<Rightarrow> 'a list \<Rightarrow> 'a list" where
  "unique_by f [] = []"
| "unique_by f (x # xs) = x # filter (\<lambda>y. f y \<noteq> f x) (unique_by f xs)"

definition lib_laws :: "('k::linorder, 'p) lib \<Rightarrow> bool" where
  "lib_laws L \<longleftrightarrow>
     skip_laws (dead_lib (l_gc L)) \<and> skip_laws (live_lib (l_gc L)) \<and> skip_laws (sk_lib (l_root L))
     \<and> sorted_records L = sort_key \<and> sorted_entries L = sort_key \<and> sorted_candidates L = sort_key
     \<and> merge_records L = merge_by \<and> merge_entries L = merge_by
     \<and> unique_entries L = unique_by
     \<and> (\<forall>i n. 0 < n \<longrightarrow> random_range L i n < n)
     \<and> (\<forall>i a b. a \<le> b \<longrightarrow> a \<le> random_range_u64 L i a b \<and> random_range_u64 L i a b \<le> b)"

section \<open>The state\<close>

record ('k, 'p) mvbt =
  sizes :: page_sizes
  inc_key :: "'k \<Rightarrow> 'k"
  dec_key :: "'k \<Rightarrow> 'k"
  min_key :: 'k
  max_key :: 'k
  heap :: "('k, 'p) blocks"
  next_addr :: addr
  root :: root_index
  root_latch :: latch_version
  db_tracker :: "tracker option"
  update_in_place :: bool
  reuse_count :: u64
  alloc_count :: u64
  clk :: clock_mem
  thr :: thread_state
  rng_pos :: nat
  retry_local :: "u64 list"

definition node_at :: "('k, 'p) mvbt \<Rightarrow> addr \<Rightarrow> ('k, 'p) node option" where
  "node_at t a = unsafe_borrow (heap t) a"

definition put_node :: "('k, 'p) mvbt \<Rightarrow> addr \<Rightarrow> ('k, 'p) node \<Rightarrow> ('k, 'p) mvbt option" where
  "put_node t a n = do {
     h \<leftarrow> unsafe_borrow_mut (heap t) a n;
     Some (t\<lparr>heap := h\<rparr>)
   }"

definition leaf_at :: "('k, 'p) mvbt \<Rightarrow> addr \<Rightarrow> ('k, 'p) leaf_page option" where
  "leaf_at t a = do { n \<leftarrow> node_at t a; as_leaf_page n }"

definition internal_at :: "('k, 'p) mvbt \<Rightarrow> addr \<Rightarrow> 'k internal_page option" where
  "internal_at t a = do { n \<leftarrow> node_at t a; as_internal_page n }"

abbreviation put_leaf :: "('k, 'p) mvbt \<Rightarrow> addr \<Rightarrow> ('k, 'p) leaf_page \<Rightarrow> ('k, 'p) mvbt option" where
  "put_leaf t a p \<equiv> put_node t a (NLeaf p)"

abbreviation put_internal :: "('k, 'p) mvbt \<Rightarrow> addr \<Rightarrow> 'k internal_page \<Rightarrow> ('k, 'p) mvbt option" where
  "put_internal t a p \<equiv> put_node t a (NInternal p)"

section \<open>Latches of blocks and of the root index\<close>

definition block_borrow_read :: "('k, 'p) mvbt \<Rightarrow> addr \<Rightarrow> smart_guard option" where
  "block_borrow_read t a = borrow_read (heap t) a"

definition block_upgrade :: "('k, 'p) mvbt \<Rightarrow> smart_guard \<Rightarrow> (smart_guard \<times> bool \<times> ('k, 'p) mvbt) option" where
  "block_upgrade t g = do {
     (h, g', ok) \<leftarrow> upgrade_write_lock False (heap t) g;
     Some (g', ok, t\<lparr>heap := h\<rparr>)
   }"

definition block_drop :: "('k, 'p) mvbt \<Rightarrow> smart_guard \<Rightarrow> ('k, 'p) mvbt option" where
  "block_drop t g = do {
     h \<leftarrow> guard_drop (heap t) g;
     Some (t\<lparr>heap := h\<rparr>)
   }"

text \<open>The root index is in a cell of its own: a heap of one cell at address 0.\<close>

abbreviation root_cell :: "('k, 'p) mvbt \<Rightarrow> root_index cells" where
  "root_cell t \<equiv> [0 \<mapsto> \<lparr>cell = root t, cell_version = root_latch t\<rparr>]"

definition root_borrow_read :: "('k, 'p) mvbt \<Rightarrow> smart_guard option" where
  "root_borrow_read t = borrow_read (root_cell t) 0"

definition root_upgrade :: "('k, 'p) mvbt \<Rightarrow> smart_guard \<Rightarrow> (smart_guard \<times> bool \<times> ('k, 'p) mvbt) option" where
  "root_upgrade t g = do {
     (h, g', ok) \<leftarrow> upgrade_write_lock False (root_cell t) g;
     c \<leftarrow> h 0;
     Some (g', ok, t\<lparr>root_latch := cell_version c\<rparr>)
   }"

definition root_drop :: "('k, 'p) mvbt \<Rightarrow> smart_guard \<Rightarrow> ('k, 'p) mvbt option" where
  "root_drop t g = do {
     h \<leftarrow> guard_drop (root_cell t) g;
     c \<leftarrow> h 0;
     Some (t\<lparr>root_latch := cell_version c\<rparr>)
   }"

section \<open>The clock\<close>

definition current_version :: "('k, 'p) mvbt \<Rightarrow> version" where
  "current_version t = clock_current_version (clk t)"

definition tree_version_for_reader :: "('k, 'p) mvbt \<Rightarrow> version \<times> ('k, 'p) mvbt" where
  "tree_version_for_reader t =
     (let (m, th, v) = current_version_for_reader (clk t) (thr t) in (v, t\<lparr>clk := m, thr := th\<rparr>))"

definition start_tx_commit :: "('k, 'p) mvbt \<Rightarrow> version \<times> ('k, 'p) mvbt" where
  "start_tx_commit t =
     (let (m, th, v) = start_commit (clk t) (thr t) in (v, t\<lparr>clk := m, thr := th\<rparr>))"

definition end_tx_commit :: "version \<Rightarrow> ('k, 'p) mvbt \<Rightarrow> ('k, 'p) mvbt" where
  "end_tx_commit v t = t\<lparr>clk := end_commit (clk t) (thr t) v\<rparr>"

section \<open>The tracker\<close>

definition on_acquire_reader_snapshot :: "('k, 'p) lib \<Rightarrow> snapshot \<Rightarrow> ('k, 'p) mvbt \<Rightarrow> ('k, 'p) mvbt" where
  "on_acquire_reader_snapshot L snapshot t = t\<lparr>db_tracker := map_option (on_tx_start (l_gc L) snapshot) (db_tracker t)\<rparr>"

definition on_release_reader_snapshot :: "('k, 'p) lib \<Rightarrow> snapshot \<Rightarrow> ('k, 'p) mvbt \<Rightarrow> ('k, 'p) mvbt" where
  "on_release_reader_snapshot L snapshot t = t\<lparr>db_tracker := map_option (on_tx_completed (l_gc L) snapshot) (db_tracker t)\<rparr>"

text \<open>\<open>pinned_reader_snapshot\<close> and the drop of its \<open>ReaderPin\<close>.\<close>

definition pinned_reader_snapshot ::
    "('k, 'p) lib \<Rightarrow> ('k, 'p) mvbt \<Rightarrow> snapshot \<times> ticket option \<times> ('k, 'p) mvbt" where
  "pinned_reader_snapshot L t =
     (case db_tracker t of
        None \<Rightarrow> (let (v, t') = tree_version_for_reader t in (v, None, t'))
      | Some tr \<Rightarrow>
          (let (m, lower_bound) = committed_snapshot (clk t) (current_version t);
               (tr', ticket) = pin_reader (l_gc L) lower_bound tr;
               (v, t') = tree_version_for_reader (t\<lparr>clk := m, db_tracker := Some tr'\<rparr>)
           in (v, Some ticket, t')))"

definition reader_pin_drop :: "('k, 'p) lib \<Rightarrow> ticket option \<Rightarrow> ('k, 'p) mvbt \<Rightarrow> ('k, 'p) mvbt" where
  "reader_pin_drop L pin t =
     (case pin of
        None \<Rightarrow> t
      | Some ticket \<Rightarrow> t\<lparr>db_tracker := map_option (unpin_reader (l_gc L) ticket) (db_tracker t)\<rparr>)"

definition register_dead :: "('k, 'p) lib \<Rightarrow> version \<Rightarrow> addr \<Rightarrow> ('k, 'p) mvbt \<Rightarrow> ('k, 'p) mvbt" where
  "register_dead L dead_v dead_p t = t\<lparr>db_tracker := map_option (register_died_page (l_gc L) dead_v dead_p) (db_tracker t)\<rparr>"

definition register_dead_col :: "('k, 'p) lib \<Rightarrow> (version \<times> addr) list \<Rightarrow> ('k, 'p) mvbt \<Rightarrow> ('k, 'p) mvbt" where
  "register_dead_col L dead t = t\<lparr>db_tracker := map_option (register_died_page_col (l_gc L) dead) (db_tracker t)\<rparr>"

section \<open>Blocks\<close>

text \<open>\<open>Block { .. }.into_cell()\<close> at the next address.\<close>

definition fresh_block :: "bool \<Rightarrow> ('k, 'p) mvbt \<Rightarrow> addr \<times> ('k, 'p) mvbt" where
  "fresh_block leaf t =
     (let a = next_addr t;
          n = (if leaf then new_leaf (NUM_RECORDS (sizes t)) else new_internal (FAN_OUT (sizes t)))
      in (a, t\<lparr>alloc_count := alloc_count t + 1, next_addr := Suc a, heap := (heap t)(a \<mapsto> opt_cell_new n)\<rparr>))"

definition reuse_block :: "bool \<Rightarrow> addr \<Rightarrow> ('k, 'p) mvbt \<Rightarrow> (addr \<times> ('k, 'p) mvbt) option" where
  "reuse_block leaf a t = do {
     n \<leftarrow> node_at t a;
     n1 \<leftarrow> node_on_reuse n;
     let n2 = (if leaf then mark_leaf (NUM_RECORDS (sizes t)) n1 else mark_internal (FAN_OUT (sizes t)) n1);
     t' \<leftarrow> put_node (t\<lparr>reuse_count := reuse_count t + 1\<rparr>) a n2;
     Some (a, t')
   }"

definition alloc_block :: "('k, 'p) lib \<Rightarrow> bool \<Rightarrow> ('k, 'p) mvbt \<Rightarrow> (addr \<times> ('k, 'p) mvbt) option" where
  "alloc_block L leaf t =
     (case db_tracker t of
        None \<Rightarrow> Some (fresh_block leaf t)
      | Some tr \<Rightarrow>
          (let (m, tr', block) = free_block (l_gc L) (clk t) tr;
               t1 = t\<lparr>clk := m, db_tracker := Some tr'\<rparr>
           in case block of
                Some a \<Rightarrow> reuse_block leaf a t1
              | None \<Rightarrow> Some (fresh_block leaf t1)))"

definition new_empty_leaf :: "('k, 'p) lib \<Rightarrow> ('k, 'p) mvbt \<Rightarrow> (addr \<times> ('k, 'p) mvbt) option" where
  "new_empty_leaf L t = alloc_block L True t"

definition new_empty_index_block :: "('k, 'p) lib \<Rightarrow> ('k, 'p) mvbt \<Rightarrow> (addr \<times> ('k, 'p) mvbt) option" where
  "new_empty_index_block L t = alloc_block L False t"

section \<open>Construction\<close>

definition inc_key_u64 :: "u64 \<Rightarrow> u64" where
  "inc_key_u64 k = (if k = U64_MAX then U64_MAX else k + 1)"

definition dec_key_u64 :: "u64 \<Rightarrow> u64" where
  "dec_key_u64 k = (if k = 0 then 0 else k - 1)"

text \<open>\<open>make\<close>: the allocator is new, so the first leaf is a fresh block; the clock's statics and the
  thread are those of the process.\<close>

definition mvbt_make ::
    "('k, 'p) lib \<Rightarrow> page_sizes \<Rightarrow> root_index_type \<Rightarrow> ('k \<Rightarrow> 'k) \<Rightarrow> ('k \<Rightarrow> 'k) \<Rightarrow> 'k \<Rightarrow> 'k
       \<Rightarrow> clock_mem \<Rightarrow> thread_state \<Rightarrow> ('k, 'p) mvbt" where
  "mvbt_make L C variant inc dec mn mx m th =
     (let (leaf, t) = fresh_block True \<lparr>sizes = C, inc_key = inc, dec_key = dec, min_key = mn, max_key = mx,
            heap = Map.empty, next_addr = 0, root = LinkedList [], root_latch = CELL_START_VERSION,
            db_tracker = None, update_in_place = False, reuse_count = 0, alloc_count = 0,
            clk = m\<lparr>global_clock := START_VERSION\<rparr>, thr = th, rng_pos = 0, retry_local = replicate 5 0\<rparr>
      in t\<lparr>root := root_index_new (l_root L) START_VERSION variant leaf\<rparr>)"

definition make_standard ::
    "(u64, 'p) lib \<Rightarrow> page_sizes \<Rightarrow> root_index_type \<Rightarrow> clock_mem \<Rightarrow> thread_state \<Rightarrow> (u64, 'p) mvbt" where
  "make_standard L C variant m th = mvbt_make L C variant inc_key_u64 dec_key_u64 0 U64_MAX m th"

definition enable_gc :: "bool \<Rightarrow> ('k, 'p) mvbt \<Rightarrow> ('k, 'p) mvbt" where
  "enable_gc in_place t = t\<lparr>db_tracker := Some tracker_new, update_in_place := in_place\<rparr>"

definition disable_gc :: "('k, 'p) mvbt \<Rightarrow> ('k, 'p) mvbt" where
  "disable_gc t = t\<lparr>db_tracker := None\<rparr>"

section \<open>Retry statistics\<close>

definition retry_group :: "u32 \<Rightarrow> usize" where
  "retry_group retries =
     (if retries = 0 then 0 else if retries \<le> 5 then 1 else if retries \<le> 9 then 2
      else if retries \<le> 19 then 3 else 4)"

definition retry_record :: "u32 \<Rightarrow> ('k, 'p) mvbt \<Rightarrow> ('k, 'p) mvbt" where
  "retry_record retries t =
     (let i = retry_group retries in t\<lparr>retry_local := (retry_local t)[i := retry_local t ! i + 1]\<rparr>)"

definition retry_flush :: "u64 list \<Rightarrow> u64 list \<Rightarrow> u64 list \<times> u64 list" where
  "retry_flush glob loc = (map2 (+) glob loc, replicate (length loc) 0)"

definition retry_take :: "u64 list \<Rightarrow> u64 list \<times> u64 list" where
  "retry_take glob = (replicate (length glob) 0, glob)"

section \<open>A concrete library and tree\<close>

text \<open>An instance of the library that satisfies its laws, and the tree it makes: for evaluation.\<close>

definition ref_tree_lib :: "(u64, u64) lib" where
  "ref_tree_lib = \<lparr>l_gc = ref_lib, l_root = ref_root_lib, sorted_records = sort_key, sorted_entries = sort_key,
     sorted_candidates = sort_key, merge_records = merge_by, merge_entries = merge_by, unique_entries = unique_by,
     random_range = (\<lambda>i n. i mod n), random_range_u64 = (\<lambda>i a b. a)\<rparr>"

lemma ref_tree_lib_laws: "lib_laws ref_tree_lib"
  by (simp add: lib_laws_def ref_tree_lib_def ref_lib_laws ref_root_lib_def ref_ops_laws)

definition ref_tree :: "nat \<Rightarrow> nat \<Rightarrow> (u64, u64) mvbt" where
  "ref_tree f n = make_standard ref_tree_lib \<lparr>FAN_OUT = f, NUM_RECORDS = n\<rparr> TFrugalList clock_new
     \<lparr>t_id = 0, reads_in_row = 0\<rparr>"

lemma ref_tree_simps [simp]:
  "sizes (ref_tree f n) = \<lparr>FAN_OUT = f, NUM_RECORDS = n\<rparr>" "db_tracker (ref_tree f n) = None"
  "update_in_place (ref_tree f n) = False" "current_version (ref_tree f n) = 1"
  "node_at (ref_tree f n) 0 = Some (NLeaf (leaf_new n))" "next_addr (ref_tree f n) = 1"
  "heap (ref_tree f n) = [0 \<mapsto> opt_cell_new (NLeaf (leaf_new n))]"
  by (simp_all add: ref_tree_def make_standard_def mvbt_make_def fresh_block_def current_version_def
      clock_current_version_def START_VERSION_def node_at_def unsafe_borrow_def new_leaf_def opt_cell_new_def Let_def)

end
