(* ===== verification/Smo.thy ===== *)
theory Smo
  imports Mvbt_State
begin

text \<open>
  \<^verbatim>\<open>mv_tree/smo.rs\<close>: the structure modifications. A full node is copied (its live part into one
  fresh node, or sorted and cut into two), an underfull node is merged with a neighbour or the two
  are redistributed; the parent gets entries for the new nodes and marks the old ones obsolete.
  Old nodes are never changed: readers of older snapshots still use them.
\<close>

datatype 'k block_split =
    ByKey "'k interval" addr "'k interval" addr
  | ByVersion addr

datatype 'k merge_result =
    Merged usize "'k interval" addr smart_guard
  | KeySplit usize "'k block_split" smart_guard
  | MergeError

abbreviation live_records :: "('k, 'p) record_point list \<Rightarrow> ('k, 'p) record_point list" where
  "live_records rs \<equiv> filter live rs"

abbreviation active_entries :: "'k entry list \<Rightarrow> 'k entry list" where
  "active_entries es \<equiv> filter e_active es"

text \<open>\<open>keys.iter().zip(versions).zip(pointers)\<close>\<close>

definition zip_entries :: "'k interval list \<times> version list \<times> addr list \<Rightarrow> 'k entry list" where
  "zip_entries = (\<lambda>(ks, vs, cs). zip ks (zip vs cs))"

definition records_at :: "('k, 'p) mvbt \<Rightarrow> addr \<Rightarrow> ('k, 'p) record_point list option" where
  "records_at t a = do { n \<leftarrow> node_at t a; node_as_records n }"

definition entries_at :: "('k, 'p) mvbt \<Rightarrow> addr \<Rightarrow> 'k entry list option" where
  "entries_at t a = do { n \<leftarrow> node_at t a; kvp \<leftarrow> node_keys_versions_pointers n; Some (zip_entries kvp) }"

definition push_records :: "('k, 'p) mvbt \<Rightarrow> addr \<Rightarrow> ('k, 'p) record_point list \<Rightarrow> ('k, 'p) mvbt option" where
  "push_records t a rs = do {
     p \<leftarrow> leaf_at t a;
     p' \<leftarrow> leaf_bulk_push p rs;
     put_leaf t a p'
   }"

definition push_entries :: "('k, 'p) mvbt \<Rightarrow> addr \<Rightarrow> 'k entry list \<Rightarrow> ('k, 'p) mvbt option" where
  "push_entries t a es = do {
     p \<leftarrow> internal_at t a;
     p' \<leftarrow> internal_bulk_push p es;
     put_internal t a p'
   }"

section \<open>Splitting a node\<close>

definition key_split_leaf ::
    "('k::linorder, 'p) lib \<Rightarrow> ('k, 'p) mvbt \<Rightarrow> addr \<Rightarrow> 'k interval \<Rightarrow> ('k block_split \<times> ('k, 'p) mvbt) option" where
  "key_split_leaf L t block fence = do {
     (left, t) \<leftarrow> new_empty_leaf L t;
     (right, t) \<leftarrow> new_empty_leaf L t;
     rs \<leftarrow> records_at t block;
     let sorted_block = sorted_records L r_key (live_records rs);
     let middle = length sorted_block div 2;
     let (first, second) = (take middle sorted_block, drop middle sorted_block);
     s0 \<leftarrow> array_read (map Some second) 0;
     let fence_left = interval_new (lower fence) (dec_key t (r_key s0));
     t \<leftarrow> push_records t left (sort_key r_insert first);
     let fence_right = interval_new (r_key s0) (upper fence);
     t \<leftarrow> push_records t right (sort_key r_insert second);
     Some (ByKey fence_left left fence_right right, t)
   }"

definition key_split_internal ::
    "('k::linorder, 'p) lib \<Rightarrow> ('k, 'p) mvbt \<Rightarrow> addr \<Rightarrow> 'k interval \<Rightarrow> ('k block_split \<times> ('k, 'p) mvbt) option" where
  "key_split_internal L t block fence = do {
     (left, t) \<leftarrow> new_empty_index_block L t;
     (right, t) \<leftarrow> new_empty_index_block L t;
     es \<leftarrow> entries_at t block;
     let filtered = sorted_entries L (\<lambda>e. lower (e_fence e)) (active_entries es);
     let middle = length filtered div 2;
     let (first, second) = (take middle filtered, drop middle filtered);
     s0 \<leftarrow> array_read (map Some second) 0;
     let fence_left = interval_new (lower fence) (dec_key t (lower (e_fence s0)));
     t \<leftarrow> push_entries t left (sort_key e_version first);
     let fence_right = interval_new (lower (e_fence s0)) (upper fence);
     t \<leftarrow> push_entries t right (sort_key e_version second);
     Some (ByKey fence_left left fence_right right, t)
   }"

definition version_split_leaf ::
    "('k, 'p) lib \<Rightarrow> ('k, 'p) mvbt \<Rightarrow> addr \<Rightarrow> ('k block_split \<times> ('k, 'p) mvbt) option" where
  "version_split_leaf L t block = do {
     (fresh, t) \<leftarrow> new_empty_leaf L t;
     rs \<leftarrow> records_at t block;
     t \<leftarrow> push_records t fresh (live_records rs);
     Some (ByVersion fresh, t)
   }"

definition version_split_internal ::
    "('k, 'p) lib \<Rightarrow> ('k, 'p) mvbt \<Rightarrow> addr \<Rightarrow> ('k block_split \<times> ('k, 'p) mvbt) option" where
  "version_split_internal L t block = do {
     (fresh, t) \<leftarrow> new_empty_index_block L t;
     es \<leftarrow> entries_at t block;
     t \<leftarrow> push_entries t fresh (active_entries es);
     Some (ByVersion fresh, t)
   }"

definition split ::
    "('k::linorder, 'p) lib \<Rightarrow> ('k, 'p) mvbt \<Rightarrow> addr \<Rightarrow> 'k interval \<Rightarrow> ('k block_split \<times> ('k, 'p) mvbt) option" where
  "split L t block fence = do {
     n \<leftarrow> node_at t block;
     let (active_block, _) = active_dead_count n;
     if unat active_block \<ge> filling_80_percent (sizes t) n
     then (if is_leaf n then key_split_leaf L t block fence else key_split_internal L t block fence)
     else (if is_leaf n then version_split_leaf L t block else version_split_internal L t block)
   }"

section \<open>Merging two nodes\<close>

text \<open>
  The active siblings of the node at \<open>simba_index\<close>, by lower bound; the one that follows it in key
  order, or the last one.
\<close>

definition merge_candidates ::
    "('k::linorder, 'p) lib \<Rightarrow> 'k entry list \<Rightarrow> usize \<Rightarrow> 'k candidate list" where
  "merge_candidates L es simba_index =
     sorted_candidates L (\<lambda>(_, _, fence). lower fence)
       (map (\<lambda>(i, e). (i, e_child e, e_fence e))
         (filter (\<lambda>(i, e). e_active e) (filter (\<lambda>(i, e). i \<noteq> simba_index) (enumerate 0 es))))"

definition compute_candidate ::
    "('k::linorder, 'p) lib \<Rightarrow> 'k entry list \<Rightarrow> usize \<Rightarrow> 'k interval \<Rightarrow> 'k candidate option" where
  "compute_candidate L es simba_index simba_fence =
     (let cands = merge_candidates L es simba_index in
      case binary_search_by_key (\<lambda>(_, _, f). lower f) (lower simba_fence) cands of
        Inr i \<Rightarrow> Some (cands ! i)
      | Inl i \<Rightarrow>
          if i < length cands then Some (cands ! i)
          else if cands \<noteq> [] then Some (last cands)
          else None)"

definition merge_leaves ::
    "('k, 'p) lib \<Rightarrow> ('k, 'p) mvbt \<Rightarrow> addr \<Rightarrow> addr \<Rightarrow> (addr \<times> ('k, 'p) mvbt) option" where
  "merge_leaves L t simba candidate = do {
     (combined, t) \<leftarrow> new_empty_leaf L t;
     s \<leftarrow> records_at t simba;
     c \<leftarrow> records_at t candidate;
     t \<leftarrow> push_records t combined
       (merge_records L (\<lambda>f s. r_insert f \<le> r_insert s) (live_records s) (live_records c));
     Some (combined, t)
   }"

definition merge_internals ::
    "('k, 'p) lib \<Rightarrow> ('k, 'p) mvbt \<Rightarrow> addr \<Rightarrow> addr \<Rightarrow> (addr \<times> ('k, 'p) mvbt) option" where
  "merge_internals L t simba candidate = do {
     (combined, t) \<leftarrow> new_empty_index_block L t;
     s \<leftarrow> entries_at t simba;
     c \<leftarrow> entries_at t candidate;
     t \<leftarrow> push_entries t combined
       (merge_entries L (\<lambda>f s. e_version f \<le> e_version s) (active_entries s) (active_entries c));
     Some (combined, t)
   }"

definition redistribute_leaves ::
    "('k::linorder, 'p) lib \<Rightarrow> ('k, 'p) mvbt \<Rightarrow> addr \<Rightarrow> 'k interval \<Rightarrow> addr \<Rightarrow> 'k interval
       \<Rightarrow> ('k block_split \<times> ('k, 'p) mvbt) option" where
  "redistribute_leaves L t simba simba_fence candidate candidate_fence = do {
     c \<leftarrow> records_at t candidate;
     s \<leftarrow> records_at t simba;
     let joined = merge_records L (\<lambda>f s. r_key f \<le> r_key s)
       (sorted_records L r_key (live_records c)) (sorted_records L r_key (live_records s));
     let middle = length joined div 2;
     let (first, second) = (take middle joined, drop middle joined);
     s0 \<leftarrow> array_read (map Some second) 0;
     let left_interval = interval_new (min (lower candidate_fence) (lower simba_fence)) (dec_key t (r_key s0));
     let right_interval = interval_new (r_key s0) (max (upper candidate_fence) (upper simba_fence));
     (block0, t) \<leftarrow> new_empty_leaf L t;
     (block1, t) \<leftarrow> new_empty_leaf L t;
     t \<leftarrow> push_records t block0 (sort_key r_insert first);
     t \<leftarrow> push_records t block1 (sort_key r_insert second);
     Some (ByKey left_interval block0 right_interval block1, t)
   }"

definition redistribute_internals ::
    "('k::linorder, 'p) lib \<Rightarrow> ('k, 'p) mvbt \<Rightarrow> addr \<Rightarrow> 'k interval \<Rightarrow> addr \<Rightarrow> 'k interval
       \<Rightarrow> ('k block_split \<times> ('k, 'p) mvbt) option" where
  "redistribute_internals L t simba simba_fence candidate candidate_fence = do {
     c \<leftarrow> entries_at t candidate;
     s \<leftarrow> entries_at t simba;
     let joined = merge_entries L (\<lambda>f s. lower (e_fence f) < lower (e_fence s))
       (sorted_entries L (\<lambda>e. lower (e_fence e)) (active_entries c))
       (sorted_entries L (\<lambda>e. lower (e_fence e)) (active_entries s));
     let middle = length joined div 2;
     let (first, second) = (take middle joined, drop middle joined);
     s0 \<leftarrow> array_read (map Some second) 0;
     let left_fence = interval_new (min (lower candidate_fence) (lower simba_fence)) (dec_key t (lower (e_fence s0)));
     let right_fence = interval_new (lower (e_fence s0)) (max (upper candidate_fence) (upper simba_fence));
     (block0, t) \<leftarrow> new_empty_index_block L t;
     (block1, t) \<leftarrow> new_empty_index_block L t;
     t \<leftarrow> push_entries t block0 (sort_key e_version first);
     t \<leftarrow> push_entries t block1 (sort_key e_version second);
     Some (ByKey left_fence block0 right_fence block1, t)
   }"

text \<open>
  \<open>merge\<close>: the candidate is latched for the result's lifetime. The counts decide between one
  merged node and two nodes with the keys redistributed.
\<close>

definition merge ::
    "('k::linorder, 'p) lib \<Rightarrow> ('k, 'p) mvbt \<Rightarrow> addr \<Rightarrow> addr \<Rightarrow> usize \<Rightarrow> ('k merge_result \<times> ('k, 'p) mvbt) option" where
  "merge L t mufasa simba simba_index = do {
     page \<leftarrow> internal_at t mufasa;
     sn \<leftarrow> node_at t simba;
     simba_fence \<leftarrow> get_key page simba_index;
     let (simba_active, _) = active_dead_count sn;
     kvp \<leftarrow> keys_versions_pointers page;
     case compute_candidate L (zip_entries kvp) simba_index simba_fence of
       None \<Rightarrow> Some (MergeError, t)
     | Some (candidate_index, candidate, candidate_fence) \<Rightarrow> do {
         g \<leftarrow> block_borrow_read t candidate;
         (g, ok, t) \<leftarrow> block_upgrade t g;
         if \<not> ok then Some (MergeError, t)
         else do {
           cn \<leftarrow> node_at t candidate;
           let (candidate_active, _) = active_dead_count cn;
           if unat candidate_active + unat simba_active \<le> (4 * max_units (sizes t) sn) div 5 then do {
             (combined, t) \<leftarrow> (if is_leaf sn then merge_leaves L t simba candidate
                              else merge_internals L t simba candidate);
             Some (Merged candidate_index candidate_fence combined g, t)
           } else do {
             (bs, t) \<leftarrow> (if is_leaf sn then redistribute_leaves L t simba simba_fence candidate candidate_fence
                        else redistribute_internals L t simba simba_fence candidate candidate_fence);
             Some (KeySplit candidate_index bs g, t)
           }
         }
       }
   }"

section \<open>Repairing a child\<close>

text \<open>The entries of the new nodes, the commit, the marks: what the parent's page goes through.\<close>

definition on_overflow_node ::
    "('k::linorder, 'p) lib \<Rightarrow> ('k, 'p) mvbt \<Rightarrow> smart_guard \<Rightarrow> smart_guard \<Rightarrow> usize
       \<Rightarrow> (smart_guard \<times> ('k, 'p) mvbt) option" where
  "on_overflow_node L t mufasa simba child_index = do {
     page \<leftarrow> internal_at t (guard_addr mufasa);
     fence \<leftarrow> get_key page child_index;
     let current_len = sum_len page;
     (bs, t) \<leftarrow> split L t (guard_addr simba) fence;
     page \<leftarrow> internal_at t (guard_addr mufasa);
     let (version, t) = start_tx_commit t;
     page \<leftarrow> (case bs of
         ByKey left_fence left right_fence right \<Rightarrow> do {
           page \<leftarrow> internal_push_uncommitted page left_fence version left current_len;
           page \<leftarrow> internal_push_uncommitted page right_fence version right (current_len + 1);
           mark_version_obsolete (internal_commit_delta page 1 1) child_index
         }
       | ByVersion fresh \<Rightarrow> do {
           page \<leftarrow> internal_push_uncommitted page fence version fresh current_len;
           mark_version_obsolete (internal_commit_delta page 0 1) child_index
         });
     t \<leftarrow> put_internal t (guard_addr mufasa) page;
     let t = end_tx_commit version t;
     child \<leftarrow> get_pointer page child_index;
     let t = register_dead L version child t;
     t \<leftarrow> block_drop t simba;
     Some (mufasa, t)
   }"

text \<open>
  \<open>Inl ()\<close> is \<open>Err(())\<close>: then every guard is dropped, the parent's too.
\<close>

definition on_underflow_node ::
    "('k::linorder, 'p) lib \<Rightarrow> ('k, 'p) mvbt \<Rightarrow> smart_guard \<Rightarrow> smart_guard \<Rightarrow> usize
       \<Rightarrow> ((unit + smart_guard) \<times> ('k, 'p) mvbt) option" where
  "on_underflow_node L t mufasa simba index_simba = do {
     (res, t) \<leftarrow> merge L t (guard_addr mufasa) (guard_addr simba) index_simba;
     case res of
       Merged index_sibling fence_sibling merged_block candidate_guard \<Rightarrow> do {
         page \<leftarrow> internal_at t (guard_addr mufasa);
         let mufasa_len = sum_len page;
         simba_fence \<leftarrow> get_key page index_simba;
         let merged_fence = interval_merge simba_fence fence_sibling;
         let (version, t) = start_tx_commit t;
         page \<leftarrow> internal_push_uncommitted page merged_fence version merged_block mufasa_len;
         let page = internal_commit_delta page (-1) 2;
         page \<leftarrow> mark_version_obsolete page index_sibling;
         page \<leftarrow> mark_version_obsolete page index_simba;
         t \<leftarrow> put_internal t (guard_addr mufasa) page;
         p0 \<leftarrow> get_pointer page index_simba;
         p1 \<leftarrow> get_pointer page index_sibling;
         let t = register_dead_col L [(version, p0), (version, p1)] t;
         let t = end_tx_commit version t;
         t \<leftarrow> block_drop t candidate_guard;
         t \<leftarrow> block_drop t simba;
         Some (Inr mufasa, t)
       }
     | KeySplit index_sibling (ByKey left_interval left right_interval right) candidate_guard \<Rightarrow> do {
         page \<leftarrow> internal_at t (guard_addr mufasa);
         let mufasa_len = sum_len page;
         let (version, t) = start_tx_commit t;
         page \<leftarrow> internal_push_uncommitted page left_interval version left mufasa_len;
         page \<leftarrow> internal_push_uncommitted page right_interval version right (mufasa_len + 1);
         let page = internal_commit_delta page 0 2;
         page \<leftarrow> mark_version_obsolete page index_sibling;
         page \<leftarrow> mark_version_obsolete page index_simba;
         t \<leftarrow> put_internal t (guard_addr mufasa) page;
         p0 \<leftarrow> get_pointer page index_simba;
         p1 \<leftarrow> get_pointer page index_sibling;
         let t = register_dead_col L [(version, p0), (version, p1)] t;
         let t = end_tx_commit version t;
         t \<leftarrow> block_drop t candidate_guard;
         t \<leftarrow> block_drop t simba;
         Some (Inr mufasa, t)
       }
     | KeySplit index_sibling (ByVersion fresh) candidate_guard \<Rightarrow> do {
         t \<leftarrow> block_drop t candidate_guard;
         t \<leftarrow> block_drop t simba;
         t \<leftarrow> block_drop t mufasa;
         Some (Inl (), t)
       }
     | MergeError \<Rightarrow> do {
         t \<leftarrow> block_drop t simba;
         t \<leftarrow> block_drop t mufasa;
         Some (Inl (), t)
       }
   }"

section \<open>Repairing the root\<close>

text \<open>The master guard is dropped at the end, the old root's guard by \<open>inner_cell\<close>.\<close>

definition tree_append_root :: "('k, 'p) lib \<Rightarrow> ('k, 'p) mvbt \<Rightarrow> root \<Rightarrow> ('k, 'p) mvbt option" where
  "tree_append_root L t r = do {
     (ri, pos, _) \<leftarrow> append_root (l_root L) (rng_pos t) (root t) r;
     Some (t\<lparr>root := ri, rng_pos := pos\<rparr>)
   }"

definition split_root ::
    "('k::linorder, 'p) lib \<Rightarrow> ('k, 'p) mvbt \<Rightarrow> smart_guard \<Rightarrow> smart_guard \<Rightarrow> height
       \<Rightarrow> (smart_guard \<times> ('k, 'p) mvbt) option" where
  "split_root L t master_guard root_guard h = do {
     (bs, t) \<leftarrow> split L t (guard_addr root_guard) (interval_new (min_key t) (max_key t));
     (block, version, h', t) \<leftarrow> (case bs of
         ByKey left_fence left right_fence right \<Rightarrow> do {
           (new_root_block, t) \<leftarrow> new_empty_index_block L t;
           page \<leftarrow> internal_at t new_root_block;
           let (version, t) = start_tx_commit t;
           page \<leftarrow> internal_push_uncommitted page left_fence version left 0;
           page \<leftarrow> internal_push_uncommitted page right_fence version right 1;
           t \<leftarrow> put_internal t new_root_block (internal_commit_delta page 2 0);
           Some (new_root_block, version, h + 1, t)
         }
       | ByVersion new_root_block \<Rightarrow>
           (let (version, t) = start_tx_commit t in Some (new_root_block, version, h, t)));
     new_root_latch \<leftarrow> block_borrow_read t block;
     t \<leftarrow> tree_append_root L t (root_new block version h');
     let t = end_tx_commit version t;
     let t = register_dead L version (inner_cell root_guard) t;
     t \<leftarrow> block_drop t root_guard;
     t \<leftarrow> root_drop t master_guard;
     Some (new_root_latch, t)
   }"

definition merge_root ::
    "('k::linorder, 'p) lib \<Rightarrow> ('k, 'p) mvbt \<Rightarrow> smart_guard \<Rightarrow> smart_guard \<Rightarrow> height
       \<Rightarrow> ((unit + smart_guard) \<times> ('k, 'p) mvbt) option" where
  "merge_root L t master_guard root_guard h = do {
     page \<leftarrow> internal_at t (guard_addr root_guard);
     child \<leftarrow> last_child page;
     child_guard \<leftarrow> block_borrow_read t child;
     (child_guard, ok, t) \<leftarrow> block_upgrade t child_guard;
     if \<not> ok then do {
       t \<leftarrow> block_drop t root_guard;
       t \<leftarrow> root_drop t master_guard;
       Some (Inl (), t)
     } else do {
       (g, t) \<leftarrow> split_root L t master_guard child_guard (h - 1);
       t \<leftarrow> block_drop t root_guard;
       Some (Inr g, t)
     }
   }"

end
