(* ===== verification/Write_Traversal.thy ===== *)
theory Write_Traversal
  imports Smo
begin

text \<open>
  \<^verbatim>\<open>mv_query/olc_query.rs\<close> and \<^verbatim>\<open>mv_query/rand_query.rs\<close>: the descent of a writer from the current
  root to a latched leaf. On its way down it repairs every node that is too full or too empty
  before it enters it. A failed latch or a node in transition restarts the descent. The loops
  are \<open>partial_function (option)\<close>: not returning is \<open>None\<close>. \<open>Inl n\<close> is \<open>Err(n)\<close>.
\<close>

type_synonym attempts = u32

section \<open>The root\<close>

definition retrieve_root_write_internal_olc ::
    "('k::linorder, 'p) lib \<Rightarrow> ('k, 'p) mvbt \<Rightarrow> ((unit + smart_guard) \<times> ('k, 'p) mvbt) option" where
  "retrieve_root_write_internal_olc L t = do {
     master_guard \<leftarrow> root_borrow_read t;
     root_block \<leftarrow> guard_block (l_root L) (root t);
     root_guard \<leftarrow> block_borrow_read t root_block;
     n \<leftarrow> node_at t root_block;
     case unsafe_degree_root (sizes t) n of
       Overflow \<Rightarrow> do {
         (master_guard, ok, t) \<leftarrow> root_upgrade t master_guard;
         if ok then do {
           h \<leftarrow> ri_height (l_root L) (root t);
           (g, t) \<leftarrow> split_root L t master_guard root_guard h;
           Some (Inr g, t)
         } else Some (Inl (), t)
       }
     | ActiveUnderflow \<Rightarrow> do {
         (master_guard, ok, t) \<leftarrow> root_upgrade t master_guard;
         if ok then do {
           h \<leftarrow> ri_height (l_root L) (root t);
           merge_root L t master_guard root_guard h
         } else Some (Inl (), t)
       }
     | DegreeOk \<Rightarrow> Some (Inr root_guard, t)
   }"

partial_function (option) retrieve_root_write_olc ::
    "('k::linorder, 'p) lib \<Rightarrow> ('k, 'p) mvbt \<Rightarrow> attempts \<Rightarrow> ((smart_guard \<times> attempts) \<times> ('k, 'p) mvbt) option" where
  [code]: "retrieve_root_write_olc L t attempts =
     Option.bind (retrieve_root_write_internal_olc L t) (\<lambda>(res, t).
       case res of
         Inr g \<Rightarrow> Some ((g, attempts), t)
       | Inl _ \<Rightarrow> retrieve_root_write_olc L t (attempts + 1))"

section \<open>One step of the descent\<close>

text \<open>
  At a leaf the descent ends: with the latched leaf or with another attempt. At an internal page
  it continues with a guard, the repaired page's or the child's.
\<close>

datatype descent = Done "attempts + smart_guard" | Continue smart_guard

text \<open>The entry for \<open>key\<close>: the last one that is active and contains the key.\<close>

definition write_index :: "'k::linorder interval list \<Rightarrow> version list \<Rightarrow> 'k \<Rightarrow> nat option" where
  "write_index ks vs key = rfind_index (\<lambda>(range, v). is_active v \<and> contains range key) (zip ks vs)"

text \<open>\<open>return Err(attempts + 1)\<close> drops the guard.\<close>

definition retry :: "('k, 'p) mvbt \<Rightarrow> smart_guard \<Rightarrow> attempts \<Rightarrow> (descent \<times> ('k, 'p) mvbt) option" where
  "retry t g attempts = do {
     t \<leftarrow> block_drop t g;
     Some (Done (Inl (attempts + 1)), t)
   }"

definition repair_child ::
    "('k::linorder, 'p) lib \<Rightarrow> ('k, 'p) mvbt \<Rightarrow> smart_guard \<Rightarrow> smart_guard \<Rightarrow> usize \<Rightarrow> attempts
       \<Rightarrow> block_unsafe_degree \<Rightarrow> (descent \<times> ('k, 'p) mvbt) option" where
  "repair_child L t cur nxt index attempts degree = do {
     (cur, ok, t) \<leftarrow> block_upgrade t cur;
     if \<not> ok then retry t cur attempts
     else do {
       (nxt, ok, t) \<leftarrow> block_upgrade t nxt;
       if \<not> ok then retry t cur attempts
       else if degree = Overflow then do {
         (g, t) \<leftarrow> on_overflow_node L t cur nxt index;
         Some (Continue g, t)
       } else do {
         (res, t) \<leftarrow> on_underflow_node L t cur nxt index;
         Some (case res of Inr g \<Rightarrow> (Continue g, t) | Inl _ \<Rightarrow> (Done (Inl (attempts + 1)), t))
       }
     }
   }"

definition descend_step ::
    "('k::linorder, 'p) lib \<Rightarrow> ('k, 'p) mvbt \<Rightarrow> 'k \<Rightarrow> smart_guard \<Rightarrow> attempts \<Rightarrow> (descent \<times> ('k, 'p) mvbt) option" where
  "descend_step L t key cur attempts = do {
     n \<leftarrow> node_at t (guard_addr cur);
     case n of
       NInternal page \<Rightarrow> do {
         (ks, vs) \<leftarrow> keys_versions page;
         case write_index ks vs key of
           None \<Rightarrow> retry t cur attempts
         | Some index \<Rightarrow> do {
             child \<leftarrow> get_pointer page index;
             nxt \<leftarrow> block_borrow_read t child;
             live \<leftarrow> is_still_live (heap t) cur;
             if \<not> live then retry t cur attempts
             else do {
               cn \<leftarrow> node_at t child;
               case unsafe_degree (sizes t) cn of
                 DegreeOk \<Rightarrow> do {
                   t \<leftarrow> block_drop t cur;
                   Some (Continue nxt, t)
                 }
               | degree \<Rightarrow> repair_child L t cur nxt index attempts degree
             }
           }
       }
     | NLeaf page \<Rightarrow> do {
         (cur, ok, t) \<leftarrow> block_upgrade t cur;
         if ok then Some (Done (Inr cur), t) else retry t cur attempts
       }
   }"

section \<open>The descent\<close>

partial_function (option) descend ::
    "('k::linorder, 'p) lib \<Rightarrow> ('k, 'p) mvbt \<Rightarrow> 'k \<Rightarrow> smart_guard \<Rightarrow> attempts
       \<Rightarrow> ((attempts + smart_guard) \<times> ('k, 'p) mvbt) option" where
  [code]: "descend L t key cur attempts =
     Option.bind (descend_step L t key cur attempts) (\<lambda>(d, t).
       case d of
         Done res \<Rightarrow> Some (res, t)
       | Continue g \<Rightarrow> descend L t key g attempts)"

definition traversal_write_internal_olc ::
    "('k::linorder, 'p) lib \<Rightarrow> ('k, 'p) mvbt \<Rightarrow> 'k \<Rightarrow> attempts \<Rightarrow> ((attempts + smart_guard) \<times> ('k, 'p) mvbt) option" where
  "traversal_write_internal_olc L t key attempts = do {
     ((curr_guard, attempts), t) \<leftarrow> retrieve_root_write_olc L t attempts;
     descend L t key curr_guard attempts
   }"

partial_function (option) traversal_write_from ::
    "('k::linorder, 'p) lib \<Rightarrow> ('k, 'p) mvbt \<Rightarrow> 'k \<Rightarrow> attempts \<Rightarrow> (smart_guard \<times> ('k, 'p) mvbt) option" where
  [code]: "traversal_write_from L t key attempt =
     Option.bind (traversal_write_internal_olc L t key attempt) (\<lambda>(res, t).
       case res of
         Inr g \<Rightarrow> Some (g, retry_record attempt t)
       | Inl n_attempt \<Rightarrow> traversal_write_from L t key n_attempt)"

definition traversal_write_olc ::
    "('k::linorder, 'p) lib \<Rightarrow> ('k, 'p) mvbt \<Rightarrow> 'k \<Rightarrow> (smart_guard \<times> ('k, 'p) mvbt) option" where
  "traversal_write_olc L t key = traversal_write_from L t key 0"

section \<open>The random descent\<close>

definition RAND_ATTEMPTS_MAX :: attempts where
  "RAND_ATTEMPTS_MAX = 10"

text \<open>\<open>rand::random_range(0..n)\<close> panics on an empty range.\<close>

definition draw_range :: "('k, 'p) lib \<Rightarrow> nat \<Rightarrow> ('k, 'p) mvbt \<Rightarrow> (nat \<times> ('k, 'p) mvbt) option" where
  "draw_range L n t =
     (if n = 0 then None
      else Some (random_range L (rng_pos t) n, t\<lparr>rng_pos := Suc (rng_pos t)\<rparr>))"

text \<open>
  The loop that turns the number of an active entry into its position; it leaves a number that
  is too large as it counted it down.
\<close>

fun nth_active :: "version list \<Rightarrow> nat \<Rightarrow> nat \<Rightarrow> nat" where
  "nth_active [] k i = i"
| "nth_active (v # vs) k i =
     (if is_active v then (if i = 0 then k else nth_active vs (Suc k) (i - 1)) else nth_active vs (Suc k) i)"

text \<open>After a repair the node must not be overfull itself: otherwise start again.\<close>

definition continue_or_restart ::
    "('k, 'p) mvbt \<Rightarrow> 'k interval \<Rightarrow> smart_guard \<Rightarrow> attempts
       \<Rightarrow> ((attempts + smart_guard) option \<times> 'k interval \<times> smart_guard \<times> ('k, 'p) mvbt) option" where
  "continue_or_restart t fence g attempts = do {
     n \<leftarrow> node_at t (guard_addr g);
     if unsafe_degree (sizes t) n = Overflow then do {
       t \<leftarrow> block_drop t g;
       Some (Some (Inl (attempts + 1)), fence, g, t)
     } else Some (None, fence, g, t)
   }"

definition rand_step ::
    "('k::linorder, 'p) lib \<Rightarrow> ('k, 'p) mvbt \<Rightarrow> 'k interval \<Rightarrow> smart_guard \<Rightarrow> attempts
       \<Rightarrow> ((attempts + smart_guard) option \<times> 'k interval \<times> smart_guard \<times> ('k, 'p) mvbt) option" where
  "rand_step L t curr_fence cur attempts = do {
     n \<leftarrow> node_at t (guard_addr cur);
     let (a, d) = active_dead_count n;
     (index, t) \<leftarrow> (if a = 0 then Some (0, t) else draw_range L (unat a) t);
     case n of
       NInternal page \<Rightarrow> do {
         vs \<leftarrow> internal_versions page;
         let index = nth_active vs 0 index;
         v \<leftarrow> get_version page index;
         if index < unat d + unat a \<and> \<not> is_obsolete v then do {
           fence \<leftarrow> get_key page index;
           child \<leftarrow> get_pointer page index;
           nxt \<leftarrow> block_borrow_read t child;
           cn \<leftarrow> node_at t child;
           case unsafe_degree (sizes t) cn of
             DegreeOk \<Rightarrow> do {
               t \<leftarrow> block_drop t cur;
               Some (None, fence, nxt, t)
             }
           | Overflow \<Rightarrow> do {
               (cur, ok, t) \<leftarrow> block_upgrade t cur;
               if ok then do {
                 (g, t) \<leftarrow> on_overflow_node L t cur nxt index;
                 continue_or_restart t fence g attempts
               } else Some (Some (Inl (attempts + 1)), fence, cur, t)
             }
           | ActiveUnderflow \<Rightarrow> do {
               (cur, ok, t) \<leftarrow> block_upgrade t cur;
               if ok then do {
                 (res, t) \<leftarrow> on_underflow_node L t cur nxt index;
                 case res of
                   Inr g \<Rightarrow> continue_or_restart t fence g attempts
                 | Inl _ \<Rightarrow> Some (Some (Inl (attempts + 1)), fence, cur, t)
               } else Some (Some (Inl (attempts + 1)), fence, cur, t)
             }
         } else None
       }
     | NLeaf page \<Rightarrow> do {
         (cur, ok, t) \<leftarrow> block_upgrade t cur;
         Some (Some (if ok then Inr cur else Inl (attempts + 1)), curr_fence, cur, t)
       }
   }"

partial_function (option) rand_descend ::
    "('k::linorder, 'p) lib \<Rightarrow> ('k, 'p) mvbt \<Rightarrow> 'k interval \<Rightarrow> smart_guard \<Rightarrow> attempts
       \<Rightarrow> ((attempts + 'k interval \<times> smart_guard) \<times> ('k, 'p) mvbt) option" where
  [code]: "rand_descend L t fence cur attempts =
     Option.bind (rand_step L t fence cur attempts) (\<lambda>(res, fence, g, t).
       case res of
         None \<Rightarrow> rand_descend L t fence g attempts
       | Some (Inl n) \<Rightarrow> Some (Inl n, t)
       | Some (Inr g) \<Rightarrow> Some (Inr (fence, g), t))"

definition traversal_write_internal_rand ::
    "('k::linorder, 'p) lib \<Rightarrow> ('k, 'p) mvbt \<Rightarrow> attempts \<Rightarrow> ((attempts + 'k interval \<times> smart_guard) \<times> ('k, 'p) mvbt) option" where
  "traversal_write_internal_rand L t attempts = do {
     ((curr_guard, attempts), t) \<leftarrow> retrieve_root_write_olc L t attempts;
     rand_descend L t (interval_new (min_key t) (max_key t)) curr_guard attempts
   }"

partial_function (option) traversal_write_rand_from ::
    "('k::linorder, 'p) lib \<Rightarrow> ('k, 'p) mvbt \<Rightarrow> attempts \<Rightarrow> (('k interval \<times> smart_guard) \<times> ('k, 'p) mvbt) option" where
  [code]: "traversal_write_rand_from L t attempt =
     Option.bind (traversal_write_internal_rand L t attempt) (\<lambda>(res, t).
       case res of
         Inr r \<Rightarrow> Some (r, t)
       | Inl n_attempt \<Rightarrow> traversal_write_rand_from L t n_attempt)"

definition traversal_write_rand_query ::
    "('k::linorder, 'p) lib \<Rightarrow> ('k, 'p) mvbt \<Rightarrow> (('k interval \<times> smart_guard) \<times> ('k, 'p) mvbt) option" where
  "traversal_write_rand_query L t = traversal_write_rand_from L t 0"

end
