(* ===== verification/Read_Query.thy ===== *)
theory Read_Query
  imports Mvbt_State
begin

text \<open>
  \<^verbatim>\<open>mv_query/query.rs\<close>: the reads at a version. The root of the version is looked up in the index
  over the roots; the descent follows, at every internal page, the newest entry that is not newer
  than the version and whose fence contains the key. Readers take no latches. The loops are
  \<open>partial_function (option)\<close>: not returning is \<open>None\<close>.
\<close>

section \<open>Roots\<close>

text \<open>
  \<open>retrieve_root_number_for\<close>: the (one-based) number of the root for a version and the number
  of roots. On the linked list \<open>or(Some(1))\<close> ends the search at its first step.
\<close>

definition retrieve_root_number_for :: "('k, 'p) mvbt \<Rightarrow> version \<Rightarrow> (nat \<times> nat) option" where
  "retrieve_root_number_for t lookup_version =
     (case root t of
        FrugalList fg \<Rightarrow> do {
          pos \<leftarrow> rfind_index (\<lambda>r. fn_version r \<le> lookup_version) (frugal_iter fg);
          Some (pos + 1, length (frugal_iter fg))
        }
      | LinkedList ll \<Rightarrow>
          if ll = [] then None
          else Some (if root_version (last ll) \<le> lookup_version then length ll else 1, length ll)
      | _ \<Rightarrow> Some (0, 0))"

definition retrieve_root_for :: "('k, 'p) lib \<Rightarrow> ('k, 'p) mvbt \<Rightarrow> version \<Rightarrow> addr option" where
  "retrieve_root_for L t lookup_version = map_option root_block (root_for (l_root L) (root t) lookup_version)"

section \<open>Point reads\<close>

text \<open>The entry that a reader follows: the last one that matches the version and contains the key.\<close>

definition read_index :: "'k::linorder interval list \<Rightarrow> version list \<Rightarrow> 'k \<Rightarrow> version \<Rightarrow> nat option" where
  "read_index ks vs key lookup_version =
     rfind_index (\<lambda>(v, range). matched v lookup_version \<and> contains range key) (zip vs ks)"

definition read_child :: "'k::linorder internal_page \<Rightarrow> 'k \<Rightarrow> version \<Rightarrow> addr option" where
  "read_child page key lookup_version = do {
     (ks, vs) \<leftarrow> keys_versions page;
     pos \<leftarrow> read_index ks vs key lookup_version;
     get_pointer page pos
   }"

partial_function (option) traverse_read_key ::
    "('k::linorder, 'p) mvbt \<Rightarrow> smart_guard \<Rightarrow> 'k \<Rightarrow> version \<Rightarrow> smart_guard option" where
  [code]: "traverse_read_key t cur key lookup_version =
     Option.bind (node_at t (guard_addr cur)) (\<lambda>n.
       case n of
         NInternal page \<Rightarrow>
           Option.bind (read_child page key lookup_version) (\<lambda>c.
           Option.bind (block_borrow_read t c) (\<lambda>g. traverse_read_key t g key lookup_version))
       | NLeaf page \<Rightarrow> Some cur)"

text \<open>\<open>rev().skip_while(newer than the version).find(..)\<close> on the records of a leaf.\<close>

definition leaf_point_read ::
    "('k, 'p) record_point list \<Rightarrow> 'k \<Rightarrow> version \<Rightarrow> ('k, 'p) record_point option" where
  "leaf_point_read rs key lookup_version =
     List.find (\<lambda>r. r_key r = key \<and> matches (r_version r) lookup_version)
       (dropWhile (\<lambda>r. r_insert r > lookup_version) (rev rs))"

definition key_point_read_from_root ::
    "('k::linorder, 'p) mvbt \<Rightarrow> addr \<Rightarrow> 'k \<Rightarrow> version \<Rightarrow> ('k, 'p) record_point_result list option" where
  "key_point_read_from_root t rt key lookup_version = do {
     cur \<leftarrow> block_borrow_read t rt;
     g \<leftarrow> traverse_read_key t cur key lookup_version;
     n \<leftarrow> node_at t (guard_addr g);
     rs \<leftarrow> node_as_records n;
     Some (case leaf_point_read rs key lookup_version of
             None \<Rightarrow> []
           | Some r \<Rightarrow> [record_point_result_from r])
   }"

section \<open>Range reads\<close>

definition search_pos :: "nat + nat \<Rightarrow> nat" where
  "search_pos r = (case r of Inr i \<Rightarrow> i | Inl i \<Rightarrow> i)"

text \<open>The positions of the entries of a page that the range read visits, newest first.\<close>

definition range_children ::
    "('k::linorder, 'p) lib \<Rightarrow> 'k interval list \<Rightarrow> version list \<Rightarrow> 'k interval \<Rightarrow> version \<Rightarrow> nat list" where
  "range_children L ks vs lookup_range lookup_version =
     (let start_pos_si = length vs - search_pos (binary_search_by_key into_cmp lookup_version vs);
          hits = filter (\<lambda>((_, v), range). matched v lookup_version \<and> overlap lookup_range range)
            (drop start_pos_si (rev (zip (enumerate 0 vs) ks)))
      in map (\<lambda>((pos, _), _). pos)
           (unique_entries L (\<lambda>(_, range). upper range) (unique_entries L (\<lambda>(_, range). lower range) hits)))"

definition expand_range ::
    "('k::linorder, 'p) lib \<Rightarrow> 'k internal_page \<Rightarrow> 'k interval \<Rightarrow> version \<Rightarrow> addr list option" where
  "expand_range L page lookup_range lookup_version = do {
     (ks, vs) \<leftarrow> keys_versions page;
     those (map (get_pointer page) (range_children L ks vs lookup_range lookup_version))
   }"

partial_function (option) traverse_read_key_range ::
    "('k::linorder, 'p) lib \<Rightarrow> ('k, 'p) mvbt \<Rightarrow> addr list \<Rightarrow> addr list \<Rightarrow> 'k interval \<Rightarrow> version \<Rightarrow> addr list option" where
  [code]: "traverse_read_key_range L t blocks leafs lookup_range lookup_version =
     (case blocks of
        [] \<Rightarrow> Some leafs
      | cur # blocks \<Rightarrow>
          Option.bind (node_at t cur) (\<lambda>n.
            case n of
              NInternal page \<Rightarrow>
                Option.bind (expand_range L page lookup_range lookup_version) (\<lambda>cs.
                  traverse_read_key_range L t (blocks @ cs) leafs lookup_range lookup_version)
            | NLeaf page \<Rightarrow>
                traverse_read_key_range L t blocks (leafs @ [cur]) lookup_range lookup_version))"

definition leaf_range_read ::
    "('k::linorder, 'p) record_point list \<Rightarrow> 'k interval \<Rightarrow> version \<Rightarrow> ('k, 'p) record_point list" where
  "leaf_range_read rs lookup_range lookup_version =
     (let start_pos_si = length rs - search_pos (binary_search_by_key r_insert lookup_version rs)
      in filter (\<lambda>r. matches (r_version r) lookup_version \<and> contains lookup_range (r_key r))
           (drop start_pos_si (rev rs)))"

fun read_leaves ::
    "('k::linorder, 'p) mvbt \<Rightarrow> addr list \<Rightarrow> 'k interval \<Rightarrow> version \<Rightarrow> ('k, 'p) record_point_result list option" where
  "read_leaves t [] lookup_range lookup_version = Some []"
| "read_leaves t (leaf # leaves) lookup_range lookup_version = do {
     n \<leftarrow> node_at t leaf;
     rs \<leftarrow> node_as_records n;
     rest \<leftarrow> read_leaves t leaves lookup_range lookup_version;
     Some (map record_point_result_from (leaf_range_read rs lookup_range lookup_version) @ rest)
   }"

definition key_range_read_from_root ::
    "('k::linorder, 'p) lib \<Rightarrow> ('k, 'p) mvbt \<Rightarrow> addr \<Rightarrow> 'k interval \<Rightarrow> version
       \<Rightarrow> ('k, 'p) record_point_result list option" where
  "key_range_read_from_root L t rt lookup_range lookup_version = do {
     blocks \<leftarrow> traverse_read_key_range L t [rt] [] lookup_range lookup_version;
     read_leaves t blocks lookup_range lookup_version
   }"

end
