(* ===== verification/Range_Iter.thy ===== *)
theory Range_Iter
  imports Read_Query
begin

text \<open>
  \<^verbatim>\<open>mv_query/iter_query.rs\<close>: the lazy range query. The iterator keeps a stack of pages with their
  fences; it descends towards the lower bound of what is left of the range, yields the records of
  the leaf it reaches, and continues behind the upper bound of that leaf's fence. Its snapshot is
  registered while it runs.
\<close>

record ('k, 'p) range_query_iter =
  it_snapshot :: snapshot
  it_range :: "'k interval"
  path :: "('k interval \<times> addr) list"
  buff :: "('k, 'p) record_point_result list"
  is_completed :: bool

text \<open>\<open>snapshot_current\<close> reads the clock, which may move the thread's bookkeeping.\<close>

definition iter_new ::
    "('k, 'p) lib \<Rightarrow> version \<Rightarrow> 'k interval \<Rightarrow> ('k, 'p) mvbt \<Rightarrow> (('k, 'p) range_query_iter \<times> ('k, 'p) mvbt) option" where
  "iter_new L version rng t = do {
     let t = on_acquire_reader_snapshot L version t;
     let (_, t) = tree_version_for_reader t;
     rt \<leftarrow> retrieve_root_for L t version;
     Some (\<lparr>it_snapshot = version, it_range = rng,
             path = [(interval_new (min_key t) (max_key t), rt)], buff = [], is_completed = False\<rparr>, t)
   }"

definition iter_drop :: "('k, 'p) lib \<Rightarrow> ('k, 'p) range_query_iter \<Rightarrow> ('k, 'p) mvbt \<Rightarrow> ('k, 'p) mvbt" where
  "iter_drop L it t = (if is_completed it then t else on_release_reader_snapshot L (it_snapshot it) t)"

fun pop_front :: "('k, 'p) range_query_iter \<Rightarrow> ('k, 'p) record_point_result option \<times> ('k, 'p) range_query_iter" where
  "pop_front it = (case buff it of [] \<Rightarrow> (None, it) | r # rs \<Rightarrow> (Some r, it\<lparr>buff := rs\<rparr>))"

text \<open>The records of a leaf that the iterator buffers.\<close>

definition leaf_matches ::
    "('k::linorder, 'p) record_point list \<Rightarrow> 'k interval \<Rightarrow> version \<Rightarrow> ('k, 'p) record_point_result list" where
  "leaf_matches rs rng si =
     map record_point_result_from
       (filter (\<lambda>r. matches (r_version r) si \<and> contains rng (r_key r)) rs)"

text \<open>
  One iteration of the loop of \<open>next\<close>: \<open>Inl\<close> continues, \<open>Inr\<close> returns. The top of the path is the
  first element of the list.
\<close>

definition iter_step ::
    "('k::linorder, 'p) lib \<Rightarrow> ('k, 'p) mvbt \<Rightarrow> ('k, 'p) range_query_iter
       \<Rightarrow> (('k, 'p) range_query_iter + ('k, 'p) record_point_result option \<times> ('k, 'p) range_query_iter \<times> ('k, 'p) mvbt) option" where
  "iter_step L t it =
     (case path it of
        [] \<Rightarrow> Some (Inr (None, it\<lparr>is_completed := True\<rparr>, on_release_reader_snapshot L (it_snapshot it) t))
      | (curr_fence, curr_block) # rest \<Rightarrow>
          if lower (it_range it) > upper (it_range it)
          then Some (Inr (None, it\<lparr>is_completed := True\<rparr>, on_release_reader_snapshot L (it_snapshot it) t))
          else do {
            n \<leftarrow> node_at t curr_block;
            let si = it_snapshot it;
            let next_lower = inc_key t (upper curr_fence);
            case n of
              NInternal page \<Rightarrow> do {
                (ks, vs) \<leftarrow> keys_versions page;
                case read_index ks vs (lower (it_range it)) si of
                  Some pos \<Rightarrow> do {
                    c \<leftarrow> get_pointer page pos;
                    Some (Inl (it\<lparr>path := (ks ! pos, c) # path it\<rparr>))
                  }
                | None \<Rightarrow> Some (Inl (it\<lparr>path := rest, it_range := (it_range it)\<lparr>lower := next_lower\<rparr>\<rparr>))
              }
            | NLeaf page \<Rightarrow> do {
                rs \<leftarrow> as_records page;
                let it' = it\<lparr>buff := buff it @ leaf_matches rs (it_range it) si, path := rest,
                             it_range := (it_range it)\<lparr>lower := next_lower\<rparr>\<rparr>;
                if buff it' \<noteq> [] \<or> next_lower = max_key t
                then Some (Inr (let (r, it') = pop_front it' in (r, it', t)))
                else Some (Inl it')
              }
          })"

partial_function (option) iter_loop ::
    "('k::linorder, 'p) lib \<Rightarrow> ('k, 'p) mvbt \<Rightarrow> ('k, 'p) range_query_iter
       \<Rightarrow> (('k, 'p) record_point_result option \<times> ('k, 'p) range_query_iter \<times> ('k, 'p) mvbt) option" where
  [code]: "iter_loop L t it =
     Option.bind (iter_step L t it) (\<lambda>res.
       case res of Inl it' \<Rightarrow> iter_loop L t it' | Inr r \<Rightarrow> Some r)"

definition iter_next ::
    "('k::linorder, 'p) lib \<Rightarrow> ('k, 'p) range_query_iter \<Rightarrow> ('k, 'p) mvbt
       \<Rightarrow> (('k, 'p) record_point_result option \<times> ('k, 'p) range_query_iter \<times> ('k, 'p) mvbt) option" where
  "iter_next L it t =
     (if buff it \<noteq> [] then Some (let (r, it') = pop_front it in (r, it', t))
      else if is_completed it then Some (None, it, t)
      else iter_loop L t it)"

text \<open>\<open>iter.collect()\<close>: call \<open>next\<close> until it returns \<open>None\<close>, then drop the iterator.\<close>

partial_function (option) iter_collect ::
    "('k::linorder, 'p) lib \<Rightarrow> ('k, 'p) range_query_iter \<Rightarrow> ('k, 'p) mvbt \<Rightarrow> ('k, 'p) record_point_result list
       \<Rightarrow> (('k, 'p) record_point_result list \<times> ('k, 'p) mvbt) option" where
  [code]: "iter_collect L it t acc =
     Option.bind (iter_next L it t) (\<lambda>(r, it', t').
       case r of
         None \<Rightarrow> Some (acc, iter_drop L it' t')
       | Some x \<Rightarrow> iter_collect L it' t' (acc @ [x]))"

end
