(* ===== verification/Crud.thy ===== *)
theory Crud
  imports Write_Traversal Range_Iter
begin

text \<open>
  \<^verbatim>\<open>mv_crud_model\<close> and \<^verbatim>\<open>mv_query/dispatch.rs\<close>: the operations of the tree and their dispatch.
  A writer descends to the latched leaf of its key, changes the leaf between \<open>start_tx_commit\<close> and
  \<open>end_tx_commit\<close>, and drops the latch when it returns. The random writers exist for \<open>u64\<close> keys;
  \<open>dflt\<close> is \<open>Payload::default()\<close>.
\<close>

datatype ('k, 'p) crud_operation =
    Empty
  | Insert 'k 'p
  | Update 'k 'p
  | Delete 'k
  | Point 'k version
  | PointSi 'k
  | Range "'k interval" version
  | RangeSi "'k interval"
  | RangeIter "'k interval" version
  | RangeIterSi "'k interval"
  | UpdateRand
  | DeleteRand
  | InsertRand

fun crud_is_read :: "('k, 'p) crud_operation \<Rightarrow> version option" where
  "crud_is_read (Point k v) = Some v"
| "crud_is_read (RangeIter r v) = Some v"
| "crud_is_read (Range r v) = Some v"
| "crud_is_read op = None"

definition crud_is_write :: "('k, 'p) crud_operation \<Rightarrow> bool" where
  "crud_is_write op \<longleftrightarrow> crud_is_read op = None"

datatype inner_reason = KeyAlreadyDeleted | KeyDoesNotExist | KeyAlreadyExists

datatype ('k, 'p) crud_result =
    MatchedRecords "('k, 'p) record_point_result list"
  | MatchedRecordIter "('k, 'p) range_query_iter"
  | Inserted version
  | Updated version
  | Deleted version
  | InsertedRand 'k version
  | UpdatedRand 'k version
  | DeletedRand 'k version
  | ZeroAffected inner_reason
  | Error

definition crud_is_err :: "('k, 'p) crud_result \<Rightarrow> bool" where
  "crud_is_err r \<longleftrightarrow> (case r of Error \<Rightarrow> True | _ \<Rightarrow> False)"

definition crud_is_ok :: "('k, 'p) crud_result \<Rightarrow> bool" where
  "crud_is_ok r \<longleftrightarrow> \<not> crud_is_err r"

section \<open>Writes to a leaf\<close>

text \<open>Push a record with the version behind the committed ones and publish it.\<close>

definition publish_record ::
    "('k, 'p) leaf_page \<Rightarrow> 'k \<Rightarrow> version \<Rightarrow> 'p \<Rightarrow> usize \<Rightarrow> ('k, 'p) leaf_page option" where
  "publish_record p key version payload current_len = do {
     p \<leftarrow> leaf_push_uncommitted p (record_point_new key (version_info_new version) payload) current_len;
     Some (leaf_commit_delta p 1 0)
   }"

text \<open>The end of every writing branch: the leaf is in the heap, the guard is dropped.\<close>

definition finish :: "smart_guard \<Rightarrow> 'r \<Rightarrow> ('k, 'p) mvbt \<Rightarrow> ('r \<times> ('k, 'p) mvbt) option" where
  "finish g res t = do {
     t \<leftarrow> block_drop t g;
     Some (res, t)
   }"

definition insert_at_leaf ::
    "('k, 'p) mvbt \<Rightarrow> smart_guard \<Rightarrow> 'k \<Rightarrow> 'p \<Rightarrow> (('k, 'p) crud_result \<times> ('k, 'p) mvbt) option" where
  "insert_at_leaf t g key payload = do {
     p \<leftarrow> leaf_at t (guard_addr g);
     rs \<leftarrow> as_records p;
     if (case rfind (\<lambda>r. r_key r = key) rs of None \<Rightarrow> False | Some r \<Rightarrow> live r)
     then finish g (ZeroAffected KeyAlreadyExists) t
     else do {
       let current_len = leaf_len p;
       let (version, t) = start_tx_commit t;
       p \<leftarrow> publish_record p key version payload current_len;
       t \<leftarrow> put_leaf t (guard_addr g) p;
       finish g (Inserted version) (end_tx_commit version t)
     }
   }"

text \<open>The record that an update in place may overwrite: the newest of the key, if no registered
  reader can see it.\<close>

definition in_place_target :: "('k, 'p) mvbt \<Rightarrow> ('k, 'p) record_point list \<Rightarrow> 'k \<Rightarrow> nat option" where
  "in_place_target t rs key =
     (case db_tracker t of
        Some tr \<Rightarrow>
          if update_in_place t then
            (case newest_live_si tr of
               Some newest_si \<Rightarrow>
                 (case rfind_index (\<lambda>r. r_key r = key) rs of
                    Some i \<Rightarrow> if r_insert (rs ! i) > newest_si then Some i else None
                  | None \<Rightarrow> None)
             | None \<Rightarrow> rfind_index (\<lambda>r. r_key r = key) rs)
          else None
      | None \<Rightarrow> None)"

definition set_record :: "('k, 'p) leaf_page \<Rightarrow> nat \<Rightarrow> ('k, 'p) record_point \<Rightarrow> ('k, 'p) leaf_page" where
  "set_record p i r = p\<lparr>record_data := (record_data p)[i := Some r]\<rparr>"

definition overwrite_record :: "('k, 'p) leaf_page \<Rightarrow> nat \<Rightarrow> ('k, 'p) record_point \<Rightarrow> 'p \<Rightarrow> ('k, 'p) leaf_page" where
  "overwrite_record p i r payload =
     (let r' = r\<lparr>r_payload := payload\<rparr> in
      if is_deleted (r_version r')
      then leaf_commit_delta (set_record p i (r'\<lparr>r_version := undelete (r_version r')\<rparr>)) 1 (-1)
      else set_record p i r')"

text \<open>Two soft commits: the new record becomes visible, then its predecessor's lifetime ends.\<close>

definition update_at_leaf ::
    "('k, 'p) mvbt \<Rightarrow> smart_guard \<Rightarrow> 'k \<Rightarrow> 'p \<Rightarrow> (('k, 'p) crud_result \<times> ('k, 'p) mvbt) option" where
  "update_at_leaf t g key payload = do {
     p \<leftarrow> leaf_at t (guard_addr g);
     let current_len = leaf_len p;
     rs \<leftarrow> as_records p;
     case in_place_target t rs key of
       Some i \<Rightarrow> do {
         t \<leftarrow> put_leaf t (guard_addr g) (overwrite_record p i (rs ! i) payload);
         finish g (Updated (current_version t)) t
       }
     | None \<Rightarrow>
         (case rfind (\<lambda>r. r_key r = key) rs of
            None \<Rightarrow> finish g (ZeroAffected KeyDoesNotExist) t
          | Some r \<Rightarrow>
              if is_deleted (r_version r) then finish g (ZeroAffected KeyAlreadyDeleted) t
              else do {
                let (version, t) = start_tx_commit t;
                p \<leftarrow> publish_record p key version payload current_len;
                (p, res) \<leftarrow> leaf_delete_after_update p key version;
                (case res of
                   Inr (Some _) \<Rightarrow> do {
                     t \<leftarrow> put_leaf t (guard_addr g) (leaf_commit_delta p (-1) 1);
                     finish g (Updated version) (end_tx_commit version t)
                   }
                 | _ \<Rightarrow> None)
              })
   }"

text \<open>\<open>Delete\<close> takes its version before it knows whether there is a record to delete.\<close>

definition delete_at_leaf ::
    "(version \<Rightarrow> ('k, 'p) crud_result) \<Rightarrow> ('k, 'p) mvbt \<Rightarrow> smart_guard \<Rightarrow> 'k \<Rightarrow> (('k, 'p) crud_result \<times> ('k, 'p) mvbt) option" where
  "delete_at_leaf deleted t g key = do {
     p \<leftarrow> leaf_at t (guard_addr g);
     let (version, t) = start_tx_commit t;
     (p, res) \<leftarrow> leaf_delete p key version;
     case res of
       Inr (Some _) \<Rightarrow> do {
         t \<leftarrow> put_leaf t (guard_addr g) (leaf_commit_delta p (-1) 1);
         finish g (deleted version) (end_tx_commit version t)
       }
     | Inr None \<Rightarrow> finish g (ZeroAffected KeyDoesNotExist) t
     | Inl _ \<Rightarrow> finish g (ZeroAffected KeyAlreadyDeleted) t
   }"

section \<open>The operations on a key\<close>

definition crud_insert ::
    "('k::linorder, 'p) lib \<Rightarrow> 'k \<Rightarrow> 'p \<Rightarrow> ('k, 'p) mvbt \<Rightarrow> (('k, 'p) crud_result \<times> ('k, 'p) mvbt) option" where
  "crud_insert L key payload t = do {
     (g, t) \<leftarrow> traversal_write_olc L t key;
     insert_at_leaf t g key payload
   }"

definition crud_update ::
    "('k::linorder, 'p) lib \<Rightarrow> 'k \<Rightarrow> 'p \<Rightarrow> ('k, 'p) mvbt \<Rightarrow> (('k, 'p) crud_result \<times> ('k, 'p) mvbt) option" where
  "crud_update L key payload t = do {
     (g, t) \<leftarrow> traversal_write_olc L t key;
     update_at_leaf t g key payload
   }"

definition crud_delete ::
    "('k::linorder, 'p) lib \<Rightarrow> 'k \<Rightarrow> ('k, 'p) mvbt \<Rightarrow> (('k, 'p) crud_result \<times> ('k, 'p) mvbt) option" where
  "crud_delete L key t = do {
     (g, t) \<leftarrow> traversal_write_olc L t key;
     delete_at_leaf Deleted t g key
   }"

definition crud_point ::
    "('k::linorder, 'p) lib \<Rightarrow> 'k \<Rightarrow> version \<Rightarrow> ('k, 'p) mvbt \<Rightarrow> (('k, 'p) crud_result \<times> ('k, 'p) mvbt) option" where
  "crud_point L key version t = do {
     let t = on_acquire_reader_snapshot L version t;
     rt \<leftarrow> retrieve_root_for L t version;
     res \<leftarrow> key_point_read_from_root t rt key version;
     Some (MatchedRecords res, on_release_reader_snapshot L version t)
   }"

definition crud_range_iter ::
    "('k::linorder, 'p) lib \<Rightarrow> 'k interval \<Rightarrow> version \<Rightarrow> ('k, 'p) mvbt \<Rightarrow> (('k, 'p) crud_result \<times> ('k, 'p) mvbt) option" where
  "crud_range_iter L rng version t = do {
     (it, t) \<leftarrow> iter_new L version rng t;
     Some (MatchedRecordIter it, t)
   }"

definition RANGE_DISPATCH_LAZY :: bool where
  "RANGE_DISPATCH_LAZY = True"

definition crud_range ::
    "('k::linorder, 'p) lib \<Rightarrow> 'k interval \<Rightarrow> version \<Rightarrow> ('k, 'p) mvbt \<Rightarrow> (('k, 'p) crud_result \<times> ('k, 'p) mvbt) option" where
  "crud_range L rng version t =
     (if RANGE_DISPATCH_LAZY then do {
        (it, t) \<leftarrow> iter_new L version rng t;
        (rs, t) \<leftarrow> iter_collect L it t [];
        Some (MatchedRecords rs, t)
      } else do {
        let t = on_acquire_reader_snapshot L version t;
        rt \<leftarrow> retrieve_root_for L t version;
        res \<leftarrow> key_range_read_from_root L t rt rng version;
        Some (MatchedRecords res, on_release_reader_snapshot L version t)
      })"

section \<open>The random writers\<close>

text \<open>The key of the \<open>find_i\<close>-th live record, or \<open>Key::default()\<close>.\<close>

fun nth_live_key :: "(u64, 'p) record_point list \<Rightarrow> nat \<Rightarrow> u64" where
  "nth_live_key [] find_i = 0"
| "nth_live_key (r # rs) find_i =
     (if live r then (if find_i = 0 then r_key r else nth_live_key rs (find_i - 1)) else nth_live_key rs find_i)"

definition draw_live_key ::
    "(u64, 'p) lib \<Rightarrow> (u64, 'p) leaf_page \<Rightarrow> (u64, 'p) mvbt \<Rightarrow> (u64 \<times> (u64, 'p) mvbt) option" where
  "draw_live_key L p t = do {
     (find_i, t) \<leftarrow> draw_range L (unat (fst (leaf_active_dead_count p))) t;
     rs \<leftarrow> as_records p;
     Some (nth_live_key rs find_i, t)
   }"

text \<open>The update in place of \<open>UpdateRand\<close> moves one unit from dead to active on every record.\<close>

definition overwrite_record_rand :: "('k, 'p) leaf_page \<Rightarrow> nat \<Rightarrow> ('k, 'p) record_point \<Rightarrow> 'p \<Rightarrow> ('k, 'p) leaf_page" where
  "overwrite_record_rand p i r payload =
     leaf_commit_delta (set_record p i (r\<lparr>r_version := undelete (r_version r), r_payload := payload\<rparr>)) 1 (-1)"

definition crud_update_rand ::
    "(u64, 'p) lib \<Rightarrow> 'p \<Rightarrow> (u64, 'p) mvbt \<Rightarrow> ((u64, 'p) crud_result \<times> (u64, 'p) mvbt) option" where
  "crud_update_rand L dflt t = do {
     ((_, g), t) \<leftarrow> traversal_write_rand_query L t;
     p \<leftarrow> leaf_at t (guard_addr g);
     let current_len = leaf_len p;
     (key, t) \<leftarrow> draw_live_key L p t;
     rs \<leftarrow> as_records p;
     case in_place_target t rs key of
       Some i \<Rightarrow> do {
         t \<leftarrow> put_leaf t (guard_addr g) (overwrite_record_rand p i (rs ! i) dflt);
         let (v, t) = tree_version_for_reader t;
         finish g (UpdatedRand key v) t
       }
     | None \<Rightarrow> do {
         let (version, t) = start_tx_commit t;
         p \<leftarrow> publish_record p key version dflt current_len;
         (p, res) \<leftarrow> leaf_delete_after_update p key version;
         case res of
           Inr (Some _) \<Rightarrow> do {
             t \<leftarrow> put_leaf t (guard_addr g) (leaf_commit_delta p (-1) 1);
             finish g (UpdatedRand key version) (end_tx_commit version t)
           }
         | Inr None \<Rightarrow> do {
             p \<leftarrow> leaf_undo_uncommitted p current_len;
             t \<leftarrow> put_leaf t (guard_addr g) p;
             finish g (ZeroAffected KeyDoesNotExist) t
           }
         | Inl _ \<Rightarrow> do {
             p \<leftarrow> leaf_undo_uncommitted p current_len;
             t \<leftarrow> put_leaf t (guard_addr g) p;
             finish g (ZeroAffected KeyAlreadyDeleted) t
           }
       }
   }"

definition crud_delete_rand ::
    "(u64, 'p) lib \<Rightarrow> (u64, 'p) mvbt \<Rightarrow> ((u64, 'p) crud_result \<times> (u64, 'p) mvbt) option" where
  "crud_delete_rand L t = do {
     ((_, g), t) \<leftarrow> traversal_write_rand_query L t;
     p \<leftarrow> leaf_at t (guard_addr g);
     (key, t) \<leftarrow> draw_live_key L p t;
     delete_at_leaf (DeletedRand key) t g key
   }"

text \<open>\<open>rand::random_range(min..=max)\<close> panics on an empty range.\<close>

definition draw_u64 :: "('k, 'p) lib \<Rightarrow> u64 \<Rightarrow> u64 \<Rightarrow> ('k, 'p) mvbt \<Rightarrow> (u64 \<times> ('k, 'p) mvbt) option" where
  "draw_u64 L mn mx t =
     (if mx < mn then None
      else Some (random_range_u64 L (rng_pos t) mn mx, t\<lparr>rng_pos := Suc (rng_pos t)\<rparr>))"

function generate_key ::
    "(u64, 'p) lib \<Rightarrow> (u64, 'p) record_point list \<Rightarrow> u64 \<Rightarrow> u64 \<Rightarrow> attempts \<Rightarrow> (u64, 'p) mvbt
       \<Rightarrow> (u64 option \<times> (u64, 'p) mvbt) option" where
  "generate_key L rs mn mx rand_attempts t = do {
     (gen_key, t) \<leftarrow> draw_u64 L mn mx t;
     case rfind (\<lambda>r. r_key r = gen_key) rs of
       None \<Rightarrow> Some (Some gen_key, t)
     | Some r \<Rightarrow>
         if is_deleted (r_version r) then Some (Some gen_key, t)
         else if rand_attempts \<ge> RAND_ATTEMPTS_MAX then Some (None, t)
         else generate_key L rs mn mx (rand_attempts + 1) t
   }"
  by pat_completeness auto
termination
proof (relation "measure (\<lambda>(L, rs, mn, mx, rand_attempts, t). 10 - unat rand_attempts)", goal_cases)
  case 1
  then show ?case by simp
next
  case (2 L rs mn mx n t a key t' r)
  have "unat n < 10" using 2(5) by (simp add: RAND_ATTEMPTS_MAX_def word_le_nat_alt)
  moreover have "unat (n + 1) = unat n + 1" using calculation by (simp add: unat_word_ariths)
  ultimately show ?case by simp
qed

text \<open>
  \<open>InsertRand\<close>: if no key could be generated the operation starts again, with the leaf still
  latched until the second one has returned.
\<close>

definition insert_rand_at_leaf ::
    "(u64, 'p) mvbt \<Rightarrow> smart_guard \<Rightarrow> (u64, 'p) leaf_page \<Rightarrow> u64 \<Rightarrow> 'p \<Rightarrow> ((u64, 'p) crud_result \<times> (u64, 'p) mvbt) option" where
  "insert_rand_at_leaf t g p key dflt = do {
     let current_len = leaf_len p;
     let (version, t) = start_tx_commit t;
     p \<leftarrow> publish_record p key version dflt current_len;
     t \<leftarrow> put_leaf t (guard_addr g) p;
     finish g (InsertedRand key version) (end_tx_commit version t)
   }"

definition insert_rand_attempt ::
    "(u64, 'p) lib \<Rightarrow> 'p \<Rightarrow> (u64, 'p) mvbt
       \<Rightarrow> (smart_guard \<times> (u64, 'p) crud_result option \<times> (u64, 'p) mvbt) option" where
  "insert_rand_attempt L dflt t = do {
     ((fence, g), t) \<leftarrow> traversal_write_rand_query L t;
     p \<leftarrow> leaf_at t (guard_addr g);
     rs \<leftarrow> as_records p;
     (key, t) \<leftarrow> generate_key L rs (lower fence) (upper fence) 0 t;
     case key of
       None \<Rightarrow> Some (g, None, t)
     | Some key \<Rightarrow> do {
         (res, t) \<leftarrow> insert_rand_at_leaf t g p key dflt;
         Some (g, Some res, t)
       }
   }"

partial_function (option) crud_insert_rand ::
    "(u64, 'p) lib \<Rightarrow> 'p \<Rightarrow> (u64, 'p) mvbt \<Rightarrow> ((u64, 'p) crud_result \<times> (u64, 'p) mvbt) option" where
  [code]: "crud_insert_rand L dflt t =
     Option.bind (insert_rand_attempt L dflt t) (\<lambda>(g, done, t).
       case done of
         Some res \<Rightarrow> Some (res, t)
       | None \<Rightarrow>
           Option.bind (crud_insert_rand L dflt t) (\<lambda>(res, t). finish g res t))"

section \<open>The dispatch\<close>

fun dispatch_crud ::
    "(u64, 'p) lib \<Rightarrow> 'p \<Rightarrow> (u64, 'p) crud_operation \<Rightarrow> (u64, 'p) mvbt \<Rightarrow> ((u64, 'p) crud_result \<times> (u64, 'p) mvbt) option" where
  "dispatch_crud L dflt (Insert key payload) t = crud_insert L key payload t"
| "dispatch_crud L dflt (Update key payload) t = crud_update L key payload t"
| "dispatch_crud L dflt (Delete key) t = crud_delete L key t"
| "dispatch_crud L dflt (Range rng version) t = crud_range L rng version t"
| "dispatch_crud L dflt (Point key version) t = crud_point L key version t"
| "dispatch_crud L dflt (RangeIter rng version) t = crud_range_iter L rng version t"
| "dispatch_crud L dflt UpdateRand t = crud_update_rand L dflt t"
| "dispatch_crud L dflt DeleteRand t = crud_delete_rand L t"
| "dispatch_crud L dflt InsertRand t = crud_insert_rand L dflt t"
| "dispatch_crud L dflt _ t = Some (Error, t)"

end
