(* ===== verification/Leaf_History.thy ===== *)
theory Leaf_History
  imports Crud
begin

text \<open>
  What a leaf means: its history, the map from keys to payloads at every version. The abstract
  operations act on histories; the writes of \<^verbatim>\<open>mv_query/dispatch.rs\<close> to a latched leaf refine them.
  The locale \<open>versioned_store\<close> is the contract of a store whose writes change the present and the
  future and never the past; that a snapshot is a prefix of the log is proved from it once.
\<close>

type_synonym ('k, 'p) history = "version \<Rightarrow> 'k \<rightharpoonup> 'p"

definition leaf_history :: "('k, 'p) record_point list \<Rightarrow> ('k, 'p) history" where
  "leaf_history rs v k = map_option r_payload (leaf_point_read rs k v)"

definition spec_write :: "version \<Rightarrow> 'k \<Rightarrow> 'p option \<Rightarrow> ('k, 'p) history \<Rightarrow> ('k, 'p) history" where
  "spec_write w k x H = (\<lambda>v. if w \<le> v then (H v)(k := x) else H v)"

section \<open>Stores with a past\<close>

text \<open>A log entry: the version of a write, its key, and the new payload or its removal.\<close>

type_synonym ('k, 'p) log_entry = "version \<times> 'k \<times> 'p option"

definition apply_log :: "('k, 'p) log_entry list \<Rightarrow> ('k \<rightharpoonup> 'p) \<Rightarrow> 'k \<rightharpoonup> 'p" where
  "apply_log log m = fold (\<lambda>(w, k, x) m. m(k := x)) log m"

fun log_between :: "version \<Rightarrow> ('k, 'p) log_entry list \<Rightarrow> version \<Rightarrow> bool" where
  "log_between now [] limit \<longleftrightarrow> now \<le> limit"
| "log_between now (e # log) limit \<longleftrightarrow> now \<le> fst e \<and> fst e < limit \<and> log_between (fst e + 1) log limit"

locale versioned_store =
  fixes hist :: "'s \<Rightarrow> version \<Rightarrow> 'k \<rightharpoonup> 'p"
    and wr :: "version \<Rightarrow> 'k \<Rightarrow> 'p option \<Rightarrow> 's \<Rightarrow> 's"
    and good :: "version \<Rightarrow> 's \<Rightarrow> bool"
  assumes hist_write: "good now s \<Longrightarrow> now \<le> w \<Longrightarrow> w < VERSION_LIMIT \<Longrightarrow>
      hist (wr w k x s) = spec_write w k x (hist s)"
    and good_write: "good now s \<Longrightarrow> now \<le> w \<Longrightarrow> w < VERSION_LIMIT \<Longrightarrow> good (w + 1) (wr w k x s)"
begin

lemma replay_spec:
  assumes "good now s" and "log_between now log limit" and "limit \<le> VERSION_LIMIT"
  shows "hist (fold (\<lambda>(w, k, x). wr w k x) log s) v = apply_log (filter (\<lambda>e. fst e \<le> v) log) (hist s v)"
  using assms
proof (induction log arbitrary: now s)
  case Nil
  then show ?case by (simp add: apply_log_def)
next
  case (Cons e log)
  obtain w k x where e: "e = (w, k, x)" by (cases e)
  have w: "now \<le> w" "w < VERSION_LIMIT" and rest: "log_between (w + 1) log limit"
    using Cons.prems(2,3) e by (auto intro: less_le_trans)
  have "hist (fold (\<lambda>(w, k, x). wr w k x) log (wr w k x s)) v =
      apply_log (filter (\<lambda>e. fst e \<le> v) log) (hist (wr w k x s) v)"
    using good_write [OF Cons.prems(1) w] rest Cons.prems(3) by (rule Cons.IH)
  then show ?case
    using hist_write [OF Cons.prems(1) w, of k x] e by (simp add: apply_log_def spec_write_def)
qed

lemma past_stable:
  "good now s \<Longrightarrow> now \<le> w \<Longrightarrow> w < VERSION_LIMIT \<Longrightarrow> v < w \<Longrightarrow> hist (wr w k x s) v = hist s v"
  by (auto simp: hist_write spec_write_def)

lemma present_seen:
  "good now s \<Longrightarrow> now \<le> w \<Longrightarrow> w < VERSION_LIMIT \<Longrightarrow> w \<le> v \<Longrightarrow> hist (wr w k x s) v = (hist s v)(k := x)"
  by (simp add: hist_write spec_write_def)

end

section \<open>Reads of a leaf\<close>

text \<open>Skipping the records that are newer than the version changes nothing: they do not match.\<close>

lemma find_dropWhile:
  "(\<And>x. Q x \<Longrightarrow> \<not> P x) \<Longrightarrow> List.find P (dropWhile Q xs) = List.find P xs"
  by (induction xs) auto

lemma leaf_point_read_eq:
  "leaf_point_read rs k v = rfind (\<lambda>r. r_key r = k \<and> matches (r_version r) v) rs"
  unfolding leaf_point_read_def rfind_def
  by (rule find_dropWhile) (auto simp: matches_def)

lemma leaf_history_eq:
  "leaf_history rs v k = map_option r_payload (rfind (\<lambda>r. r_key r = k \<and> matches (r_version r) v) rs)"
  by (simp add: leaf_history_def leaf_point_read_eq)

lemma leaf_history_Nil [simp]: "leaf_history [] v = Map.empty"
  by (rule ext) (simp add: leaf_history_eq)

lemma leaf_history_snoc:
  "leaf_history (rs @ [r]) v =
     (if matches (r_version r) v then (leaf_history rs v)(r_key r \<mapsto> r_payload r) else leaf_history rs v)"
  by (rule ext) (simp add: leaf_history_eq)

lemma leaf_history_None_iff:
  "leaf_history rs v k = None \<longleftrightarrow> (\<forall>r \<in> set rs. r_key r = k \<longrightarrow> \<not> matches (r_version r) v)"
  by (auto simp: leaf_history_eq rfind_None_iff)

lemma leaf_history_update:
  assumes "length rs' = length rs"
    and "\<And>i. i < length rs \<Longrightarrow> r_payload (rs' ! i) = r_payload (rs ! i) \<and>
      (r_key (rs' ! i) = k \<and> matches (r_version (rs' ! i)) v \<longleftrightarrow> r_key (rs ! i) = k \<and> matches (r_version (rs ! i)) v)"
  shows "leaf_history rs' v k = leaf_history rs v k"
proof -
  let ?P = "\<lambda>r. r_key r = k \<and> matches (r_version r) v"
  have eq: "rfind_index ?P rs' = rfind_index ?P rs"
    using assms by (intro rfind_index_cong) auto
  show ?thesis
  proof (cases "rfind_index ?P rs")
    case None
    then show ?thesis using eq by (simp add: leaf_history_eq rfind_eq_index)
  next
    case (Some i)
    then have "i < length rs" by (rule rfind_index_SomeD)
    then show ?thesis using eq Some assms(2) by (simp add: leaf_history_eq rfind_eq_index)
  qed
qed

section \<open>Well-formed leaves\<close>

text \<open>
  Lifespans are proper and lie before \<open>now\<close>; the records are in the order of their insertion, and
  a record of a key ends no later than the next one of the key begins.
\<close>

definition ends_by :: "version \<Rightarrow> ('k, 'p) record_point \<Rightarrow> bool" where
  "ends_by w r \<longleftrightarrow> (case deletion_version (r_version r) of Some d \<Rightarrow> d \<le> w | None \<Rightarrow> False)"

definition record_ok :: "version \<Rightarrow> ('k, 'p) record_point \<Rightarrow> bool" where
  "record_ok now r \<longleftrightarrow> r_insert r < now
     \<and> (case deletion_version (r_version r) of Some d \<Rightarrow> r_insert r < d \<and> d < now | None \<Rightarrow> True)"

definition followed_by :: "('k, 'p) record_point \<Rightarrow> ('k, 'p) record_point \<Rightarrow> bool" where
  "followed_by r q \<longleftrightarrow> r_insert r \<le> r_insert q \<and> (r_key r = r_key q \<longrightarrow> ends_by (r_insert q) r)"

definition leaf_ok :: "version \<Rightarrow> ('k, 'p) record_point list \<Rightarrow> bool" where
  "leaf_ok now rs \<longleftrightarrow> sorted_wrt followed_by rs \<and> (\<forall>r \<in> set rs. record_ok now r)"

lemma live_iff: "live r \<longleftrightarrow> deletion_version (r_version r) = None"
  by (simp add: is_deleted_def deletion_version_def)

lemma ends_by_not_live: "ends_by w r \<Longrightarrow> \<not> live r"
  by (auto simp: ends_by_def live_iff split: option.splits)

lemma ends_by_not_matches: "ends_by w r \<Longrightarrow> w \<le> v \<Longrightarrow> \<not> matches (r_version r) v"
  by (auto simp: ends_by_def matches_def deletion_version_def split: option.splits)

lemma record_ok_dead_ends_by: "record_ok now r \<Longrightarrow> \<not> live r \<Longrightarrow> now \<le> w \<Longrightarrow> ends_by w r"
  by (auto simp: record_ok_def ends_by_def live_iff)

lemma record_ok_mono: "record_ok now r \<Longrightarrow> now \<le> now' \<Longrightarrow> record_ok now' r"
  by (auto simp: record_ok_def split: option.splits)

lemma record_ok_matches_now: "record_ok now r \<Longrightarrow> now \<le> v \<Longrightarrow> matches (r_version r) v \<longleftrightarrow> live r"
  using record_ok_dead_ends_by [of now r v] ends_by_not_matches [of v r v]
  by (auto simp: record_ok_def matches_live)

lemma leaf_ok_mono: "leaf_ok now rs \<Longrightarrow> now \<le> now' \<Longrightarrow> leaf_ok now' rs"
  by (auto simp: leaf_ok_def intro: record_ok_mono)

lemma leaf_ok_Nil [simp]: "leaf_ok now []"
  by (simp add: leaf_ok_def)

lemma leaf_ok_key_order:
  assumes "leaf_ok now rs" and "i < j" and "j < length rs" and "r_key (rs ! i) = r_key (rs ! j)"
  shows "\<not> live (rs ! i)"
proof -
  have "followed_by (rs ! i) (rs ! j)"
    using assms(1-3) by (simp add: leaf_ok_def sorted_wrt_nth_less)
  then show ?thesis using assms(4) by (auto simp: followed_by_def dest: ends_by_not_live)
qed

text \<open>Of the records of a key only the last can be live.\<close>

lemma leaf_ok_live_last:
  assumes "leaf_ok now rs" and "rfind_index (\<lambda>r. r_key r = k) rs = Some i"
    and "j < length rs" and "r_key (rs ! j) = k" and "live (rs ! j)"
  shows "j = i"
proof -
  note i = rfind_index_SomeD [OF assms(2)]
  have "\<not> i < j" using i(3) [of j] assms(3,4) by blast
  moreover have "\<not> j < i" using leaf_ok_key_order [OF assms(1), of j i] i(1,2) assms(4,5) by auto
  ultimately show ?thesis by simp
qed

definition live_index :: "('k, 'p) record_point list \<Rightarrow> 'k \<Rightarrow> nat option" where
  "live_index rs k =
     (case rfind_index (\<lambda>r. r_key r = k) rs of
        Some i \<Rightarrow> if live (rs ! i) then Some i else None
      | None \<Rightarrow> None)"

lemma live_index_SomeD:
  "live_index rs k = Some i \<Longrightarrow> i < length rs \<and> r_key (rs ! i) = k \<and> live (rs ! i)
     \<and> rfind_index (\<lambda>r. r_key r = k) rs = Some i"
  by (auto simp: live_index_def dest: rfind_index_SomeD split: option.splits if_splits)

lemma live_index_NoneD:
  assumes "leaf_ok now rs" and "live_index rs k = None" and "r \<in> set rs" and "r_key r = k"
  shows "\<not> live r"
proof (cases "rfind_index (\<lambda>r. r_key r = k) rs")
  case None
  then show ?thesis using assms(3,4) by (auto simp: rfind_index_None_iff)
next
  case (Some i)
  moreover obtain j where "j < length rs" "rs ! j = r" using assms(3) by (auto simp: in_set_conv_nth)
  ultimately show ?thesis
    using leaf_ok_live_last [OF assms(1) Some, of j] assms(2,4) by (auto simp: live_index_def split: if_splits)
qed

text \<open>Whether a key is there now: what the writers ask.\<close>

lemma leaf_history_now:
  assumes "leaf_ok now rs" and "now \<le> v"
  shows "leaf_history rs v k = map_option (\<lambda>i. r_payload (rs ! i)) (live_index rs k)"
proof -
  have m: "matches (r_version r) v \<longleftrightarrow> live r" if "r \<in> set rs" for r
    using assms that record_ok_matches_now by (auto simp: leaf_ok_def)
  show ?thesis
  proof (cases "live_index rs k")
    case None
    then show ?thesis
      using live_index_NoneD [OF assms(1) None] m by (auto simp: leaf_history_None_iff)
  next
    case (Some i)
    note i = live_index_SomeD [OF Some]
    have "rfind_index (\<lambda>r. r_key r = k \<and> matches (r_version r) v) rs = Some i"
      using i m rfind_index_SomeD(3) [of "\<lambda>r. r_key r = k" rs i] by (intro rfind_index_eqI) auto
    then show ?thesis using Some by (simp add: leaf_history_eq rfind_eq_index)
  qed
qed

section \<open>Writes to a leaf\<close>

text \<open>What a successful write at version \<open>w\<close> does to the records.\<close>

definition end_live :: "version \<Rightarrow> 'k \<Rightarrow> ('k, 'p) record_point list \<Rightarrow> ('k, 'p) record_point list" where
  "end_live w k rs = (case live_index rs k of Some i \<Rightarrow> rs[i := kill w (rs ! i)] | None \<Rightarrow> rs)"

abbreviation new_record :: "version \<Rightarrow> 'k \<Rightarrow> 'p \<Rightarrow> ('k, 'p) record_point" where
  "new_record w k x \<equiv> record_point_new k (version_info_new w) x"

definition leaf_write :: "version \<Rightarrow> 'k \<Rightarrow> 'p option \<Rightarrow> ('k, 'p) record_point list \<Rightarrow> ('k, 'p) record_point list" where
  "leaf_write w k x rs =
     (case x of Some p \<Rightarrow> end_live w k rs @ [new_record w k p] | None \<Rightarrow> end_live w k rs)"

lemma new_record_simps [simp]:
  "r_key (new_record w k x) = k" "r_payload (new_record w k x) = x" "live (new_record w k x)"
  "r_version (new_record w k x) = version_info_new w"
  by (simp_all add: record_point_new_def)

lemma matches_kill:
  "live r \<Longrightarrow> w < VERSION_LIMIT \<Longrightarrow> matches (r_version (kill w r)) v \<longleftrightarrow> matches (r_version r) v \<and> v < w"
  by (auto simp: kill_def matches_delete matches_live)

lemma deletion_kill: "live r \<Longrightarrow> w < VERSION_LIMIT \<Longrightarrow> deletion_version (r_version (kill w r)) = Some w"
  by (simp add: kill_def vi_delete_def deletion_version_def)

lemma end_live_history:
  assumes ok: "leaf_ok now rs" and w: "now \<le> w" "w < VERSION_LIMIT"
  shows "leaf_history (end_live w k rs) = spec_write w k None (leaf_history rs)"
proof (intro ext)
  fix v k'
  show "leaf_history (end_live w k rs) v k' = spec_write w k None (leaf_history rs) v k'"
  proof (cases "live_index rs k")
    case None
    then show ?thesis
      using leaf_history_now [OF ok, of v k] w(1) by (auto simp: end_live_def spec_write_def)
  next
    case (Some i)
    note i = live_index_SomeD [OF Some]
    define rs' where "rs' = rs[i := kill w (rs ! i)]"
    have eq: "end_live w k rs = rs'" by (simp add: end_live_def Some rs'_def)
    show ?thesis
    proof (cases "w \<le> v \<and> k' = k")
      case True
      have "\<not> matches (r_version r) v" if r: "r \<in> set rs'" "r_key r = k" for r
      proof -
        obtain j where j: "j < length rs" "r = rs' ! j" using r(1) by (auto simp: in_set_conv_nth rs'_def)
        show ?thesis
        proof (cases "j = i")
          case True
          then show ?thesis using j i w(2) \<open>w \<le> v \<and> k' = k\<close> by (auto simp: rs'_def matches_kill)
        next
          case False
          then have "r = rs ! j" using j by (simp add: rs'_def)
          then have "\<not> live r" using leaf_ok_live_last [OF ok, of k i j] i j(1) r(2) False by auto
          moreover have "record_ok now r" using ok j(1) \<open>r = rs ! j\<close> by (simp add: leaf_ok_def)
          ultimately show ?thesis using True w(1) by (auto simp: record_ok_matches_now)
        qed
      qed
      then show ?thesis using True by (simp add: eq spec_write_def leaf_history_None_iff)
    next
      case False
      have "leaf_history rs' v k' = leaf_history rs v k'"
        using False i w(2) by (intro leaf_history_update) (auto simp: rs'_def nth_list_update matches_kill)
      then show ?thesis using False by (auto simp: eq spec_write_def)
    qed
  qed
qed

lemma end_live_ok:
  assumes ok: "leaf_ok now rs" and w: "now \<le> w" "w < VERSION_LIMIT"
  shows "leaf_ok (w + 1) (end_live w k rs)"
proof (cases "live_index rs k")
  case None
  then show ?thesis
    using leaf_ok_mono [OF ok, of "w + 1"] w version_step [OF w(2)] by (simp add: end_live_def)
next
  case (Some i)
  note i = live_index_SomeD [OF Some]
  define rs' where "rs' = rs[i := kill w (rs ! i)]"
  have "followed_by (rs' ! a) (rs' ! b)" if "a < b" "b < length rs" for a b
  proof -
    have f: "followed_by (rs ! a) (rs ! b)" using ok that by (simp add: leaf_ok_def sorted_wrt_nth_less)
    show ?thesis
    proof (cases "a = i")
      case True
      then have "r_key (rs ! b) \<noteq> k"
        using rfind_index_SomeD(3) [of "\<lambda>r. r_key r = k" rs i b] i that by blast
      then show ?thesis using True f that i by (auto simp: rs'_def followed_by_def)
    next
      case False
      then show ?thesis using f that by (cases "b = i") (auto simp: rs'_def followed_by_def)
    qed
  qed
  then have "sorted_wrt followed_by rs'" by (simp add: sorted_wrt_iff_nth_less rs'_def)
  moreover have "record_ok (w + 1) r" if "r \<in> set rs'" for r
  proof -
    have "record_ok (w + 1) q" if "q \<in> set rs" for q
      using ok that w version_step [OF w(2)] by (auto simp: leaf_ok_def intro: record_ok_mono)
    moreover have "record_ok (w + 1) (kill w (rs ! i))"
    proof -
      have "record_ok now (rs ! i)" using ok i by (simp add: leaf_ok_def)
      then have "r_insert (rs ! i) < w" using w(1) by (auto simp: record_ok_def)
      then show ?thesis
        using i w(2) version_step [OF w(2)] by (auto simp: record_ok_def deletion_kill)
    qed
    ultimately show ?thesis using that set_update_subset_insert [of rs i "kill w (rs ! i)"] by (auto simp: rs'_def)
  qed
  ultimately show ?thesis by (simp add: leaf_ok_def end_live_def Some rs'_def)
qed

lemma end_live_no_live:
  assumes ok: "leaf_ok now rs" and "r \<in> set (end_live w k rs)" and "r_key r = k"
  shows "\<not> live r"
proof (cases "live_index rs k")
  case None
  then show ?thesis using live_index_NoneD [OF ok None] assms(2,3) by (simp add: end_live_def)
next
  case (Some i)
  note i = live_index_SomeD [OF Some]
  obtain j where j: "j < length rs" "r = rs[i := kill w (rs ! i)] ! j"
    using assms(2) by (auto simp: in_set_conv_nth end_live_def Some)
  then show ?thesis
    using leaf_ok_live_last [OF ok, of k i j] i assms(3) by (cases "j = i") auto
qed

lemma leaf_write_history:
  assumes "leaf_ok now rs" and "now \<le> w" and "w < VERSION_LIMIT"
  shows "leaf_history (leaf_write w k x rs) = spec_write w k x (leaf_history rs)"
proof (cases x)
  case None
  then show ?thesis using end_live_history [OF assms] by (simp add: leaf_write_def)
next
  case (Some p)
  have "leaf_history (end_live w k rs @ [new_record w k p]) v = spec_write w k x (leaf_history rs) v" for v
    using Some by (simp add: leaf_history_snoc end_live_history [OF assms] matches_live spec_write_def)
  then show ?thesis using Some by (auto simp: leaf_write_def)
qed

lemma leaf_write_ok:
  assumes "leaf_ok now rs" and "now \<le> w" and "w < VERSION_LIMIT"
  shows "leaf_ok (w + 1) (leaf_write w k x rs)"
proof (cases x)
  case None
  then show ?thesis using end_live_ok [OF assms] by (simp add: leaf_write_def)
next
  case (Some p)
  let ?rs = "end_live w k rs"
  have ok: "leaf_ok (w + 1) ?rs" by (rule end_live_ok [OF assms])
  have "followed_by r (new_record w k p)" if r: "r \<in> set ?rs" for r
  proof -
    have "record_ok (w + 1) r" using ok r by (simp add: leaf_ok_def)
    moreover have "\<not> live r" if "r_key r = k" using end_live_no_live [OF assms(1) r that] .
    ultimately show ?thesis
      using assms(3)
      by (auto simp: followed_by_def record_ok_def ends_by_def live_iff version_le_step split: option.splits)
  qed
  moreover have "record_ok (w + 1) (new_record w k p)"
    using version_step [OF assms(3)] live_iff [of "new_record w k p"] by (simp add: record_ok_def)
  ultimately show ?thesis
    using ok Some by (auto simp: leaf_write_def leaf_ok_def sorted_wrt_append)
qed

interpretation lh: versioned_store leaf_history leaf_write leaf_ok
  by unfold_locales (auto intro: leaf_write_history leaf_write_ok)

section \<open>The latched leaf in the tree\<close>

definition leaf_in :: "('k, 'p) mvbt \<Rightarrow> addr \<Rightarrow> ('k, 'p) record_point list \<Rightarrow> bool" where
  "leaf_in t a rs \<longleftrightarrow> (\<exists>p. leaf_at t a = Some p \<and> leaf_view p rs \<and> leaf_cap p = NUM_RECORDS (sizes t))"

lemma leaf_at_node: "leaf_at t a = Some p \<longleftrightarrow> node_at t a = Some (NLeaf p)"
  by (cases "node_at t a") (auto simp: leaf_at_def elim!: as_leaf_page.elims)

lemma node_at_cong: "heap t' = heap t \<Longrightarrow> node_at t' = node_at t"
  by (rule ext) (simp add: node_at_def)

lemma leaf_in_cong:
  "node_at t' a = node_at t a \<Longrightarrow> sizes t' = sizes t \<Longrightarrow> leaf_in t' a rs = leaf_in t a rs"
  by (simp add: leaf_in_def leaf_at_node)

lemma put_node_ok:
  assumes "node_at t a = Some n"
  shows "\<exists>t'. put_node t a m = Some t' \<and> node_at t' = (node_at t)(a \<mapsto> m) \<and> sizes t' = sizes t"
  using assms
  by (auto simp: node_at_def put_node_def unsafe_borrow_def unsafe_borrow_mut_def fun_eq_iff)

lemma block_drop_ok:
  assumes "node_at t (guard_addr g) \<noteq> None"
  shows "\<exists>t'. block_drop t g = Some t' \<and> node_at t' = node_at t \<and> sizes t' = sizes t"
  using assms
  by (cases g) (auto simp: node_at_def block_drop_def unsafe_borrow_def fun_eq_iff)

lemma finish_ok:
  assumes "node_at t (guard_addr g) \<noteq> None"
  shows "\<exists>t'. finish g res t = Some (res, t') \<and> node_at t' = node_at t \<and> sizes t' = sizes t"
  using block_drop_ok [OF assms] by (auto simp: finish_def)

lemma start_tx_commit_frame:
  "start_tx_commit t = (w, t') \<Longrightarrow> node_at t' = node_at t"
  "start_tx_commit t = (w, t') \<Longrightarrow> sizes t' = sizes t"
  by (auto simp: start_tx_commit_def node_at_def split: prod.splits)

lemma end_tx_commit_frame [simp]: "node_at (end_tx_commit w t) = node_at t" "sizes (end_tx_commit w t) = sizes t"
  by (auto simp: end_tx_commit_def node_at_def)

text \<open>Store a page in the latched leaf, end the commit, drop the guard.\<close>

lemma store_and_finish:
  assumes "node_at t (guard_addr g) = Some n"
  shows "\<exists>t1 t2. put_leaf t (guard_addr g) p = Some t1 \<and> finish g res (end_tx_commit w t1) = Some (res, t2)
    \<and> node_at t2 = (node_at t)(guard_addr g \<mapsto> NLeaf p) \<and> sizes t2 = sizes t"
proof -
  obtain t1 where t1: "put_leaf t (guard_addr g) p = Some t1" "node_at t1 = (node_at t)(guard_addr g \<mapsto> NLeaf p)"
    "sizes t1 = sizes t"
    using put_node_ok [OF assms] by blast
  moreover obtain t2 where "finish g res (end_tx_commit w t1) = Some (res, t2)" "node_at t2 = node_at t1"
    "sizes t2 = sizes t1"
    using finish_ok [of "end_tx_commit w t1" g res] t1(2) by auto
  ultimately show ?thesis by auto
qed

lemma leaf_in_store:
  assumes "node_at t' = (node_at t)(a \<mapsto> NLeaf p)" and "sizes t' = sizes t" and "leaf_view p rs"
    and "leaf_cap p = NUM_RECORDS (sizes t)"
  shows "leaf_in t' a rs"
  using assms by (simp add: leaf_in_def leaf_at_node)

lemma publish_record_ok:
  assumes "leaf_view p rs" and "length rs < leaf_cap p"
  shows "\<exists>p'. publish_record p k w x (leaf_len p) = Some p' \<and> leaf_view p' (rs @ [new_record w k x])
    \<and> leaf_cap p' = leaf_cap p"
  using leaf_view_insert [OF assms, of "new_record w k x"] leaf_view_length [OF assms(1)]
  by (auto simp: publish_record_def)

section \<open>The abstract operations\<close>

definition missing_reason :: "('k, 'p) history \<Rightarrow> 'k \<Rightarrow> inner_reason" where
  "missing_reason H k = (if \<exists>v. H v k \<noteq> None then KeyAlreadyDeleted else KeyDoesNotExist)"

definition spec_insert :: "version \<Rightarrow> 'k \<Rightarrow> 'p \<Rightarrow> ('k, 'p) history \<Rightarrow> ('k, 'p) crud_result \<times> ('k, 'p) history" where
  "spec_insert w k x H =
     (if H w k \<noteq> None then (ZeroAffected KeyAlreadyExists, H)
      else (Inserted w, spec_write w k (Some x) H))"

definition spec_update :: "version \<Rightarrow> 'k \<Rightarrow> 'p \<Rightarrow> ('k, 'p) history \<Rightarrow> ('k, 'p) crud_result \<times> ('k, 'p) history" where
  "spec_update w k x H =
     (if H w k \<noteq> None then (Updated w, spec_write w k (Some x) H)
      else (ZeroAffected (missing_reason H k), H))"

definition spec_delete :: "version \<Rightarrow> 'k \<Rightarrow> ('k, 'p) history \<Rightarrow> ('k, 'p) crud_result \<times> ('k, 'p) history" where
  "spec_delete w k H =
     (if H w k \<noteq> None then (Deleted w, spec_write w k None H)
      else (ZeroAffected (missing_reason H k), H))"

text \<open>The leaf \<open>a\<close> of \<open>t\<close> holds the history \<open>H\<close>, all of it before \<open>now\<close>.\<close>

definition leaf_holds :: "version \<Rightarrow> ('k, 'p) mvbt \<Rightarrow> addr \<Rightarrow> ('k, 'p) history \<Rightarrow> bool" where
  "leaf_holds now t a H \<longleftrightarrow> (\<exists>rs. leaf_in t a rs \<and> leaf_ok now rs \<and> H = leaf_history rs)"

lemma history_present_iff:
  assumes "leaf_ok now rs" and "now \<le> v"
  shows "leaf_history rs v k \<noteq> None \<longleftrightarrow> live_index rs k \<noteq> None"
  using leaf_history_now [OF assms, of k] by (cases "live_index rs k") auto

lemma record_ok_matches_insert: "record_ok now r \<Longrightarrow> matches (r_version r) (r_insert r)"
  by (auto simp: record_ok_def matches_def deletion_version_def split: option.splits)

lemma missing_reason_eq:
  assumes "leaf_ok now rs"
  shows "missing_reason (leaf_history rs) k =
    (if rfind_index (\<lambda>r. r_key r = k) rs = None then KeyDoesNotExist else KeyAlreadyDeleted)"
proof (cases "rfind_index (\<lambda>r. r_key r = k) rs")
  case None
  then have "leaf_history rs v k = None" for v
    by (auto simp: rfind_index_None_iff leaf_history_None_iff)
  then show ?thesis using None by (simp add: missing_reason_def)
next
  case (Some i)
  note i = rfind_index_SomeD [OF Some]
  have "record_ok now (rs ! i)" using assms i(1) by (simp add: leaf_ok_def)
  then have "leaf_history rs (r_insert (rs ! i)) k \<noteq> None"
    using i nth_mem record_ok_matches_insert unfolding leaf_history_None_iff by blast
  then show ?thesis using Some by (auto simp: missing_reason_def)
qed

lemma leaf_write_in:
  assumes "node_at t' = (node_at t)(a \<mapsto> NLeaf p)" and "sizes t' = sizes t" and "leaf_view p (leaf_write w k x rs)"
    and "leaf_cap p = NUM_RECORDS (sizes t)" and "leaf_ok now rs" and "now \<le> w" and "w < VERSION_LIMIT"
  shows "leaf_holds (w + 1) t' a (spec_write w k x (leaf_history rs))"
  unfolding leaf_holds_def
  using leaf_in_store [OF assms(1-4)] leaf_write_ok [OF assms(5-7)] leaf_write_history [OF assms(5-7)] by metis

lemma leaf_holds_frame:
  "leaf_holds now t a H \<Longrightarrow> node_at t' a = node_at t a \<Longrightarrow> sizes t' = sizes t \<Longrightarrow> now \<le> now' \<Longrightarrow> leaf_holds now' t' a H"
  unfolding leaf_holds_def using leaf_in_cong leaf_ok_mono by blast

definition leaf_room :: "('k, 'p) mvbt \<Rightarrow> addr \<Rightarrow> bool" where
  "leaf_room t a \<longleftrightarrow> (case leaf_at t a of Some p \<Rightarrow> leaf_len p < NUM_RECORDS (sizes t) | None \<Rightarrow> False)"

text \<open>
  The outcome of a write to the latched leaf \<open>a\<close> of \<open>t\<close>: the result and the history that the
  abstract operation gives, and no other node has changed.
\<close>

definition leaf_outcome ::
    "('k, 'p) mvbt \<Rightarrow> addr \<Rightarrow> version \<Rightarrow> ('k, 'p) crud_result \<times> ('k, 'p) history
       \<Rightarrow> (('k, 'p) crud_result \<times> ('k, 'p) mvbt) option \<Rightarrow> bool" where
  "leaf_outcome t a w spec out \<longleftrightarrow>
     (\<exists>t'. out = Some (fst spec, t') \<and> leaf_holds (w + 1) t' a (snd spec) \<and> sizes t' = sizes t
        \<and> (\<forall>b. b \<noteq> a \<longrightarrow> node_at t' b = node_at t b))"

lemma leaf_outcome_unchanged:
  assumes "leaf_holds now t a H" and "now \<le> w" and "w < VERSION_LIMIT"
    and "finish g res t1 = out" and "guard_addr g = a" and "node_at t1 = node_at t" and "sizes t1 = sizes t"
  shows "leaf_outcome t a w (res, H) out"
proof -
  have "node_at t1 (guard_addr g) \<noteq> None"
    using assms(1,5,6) by (auto simp: leaf_holds_def leaf_in_def leaf_at_node)
  from finish_ok [OF this, of res] obtain t' where "finish g res t1 = Some (res, t')" "node_at t' = node_at t1" "sizes t' = sizes t1"
    by blast
  then have "out = Some (res, t')" "node_at t' = node_at t" "sizes t' = sizes t"
    using assms(4,6,7) by simp_all
  moreover have "now \<le> w + 1" using assms(2) version_step [OF assms(3)] by simp
  ultimately show ?thesis
    using leaf_holds_frame [OF assms(1), of t' "w + 1"] by (auto simp: leaf_outcome_def)
qed

lemma leaf_outcome_written:
  assumes "leaf_ok now rs" and "now \<le> w" and "w < VERSION_LIMIT"
    and "node_at t (guard_addr g) = Some n" and "leaf_view p (leaf_write w k x rs)" and "leaf_cap p = NUM_RECORDS (sizes t)"
    and "node_at t1 = node_at t" and "sizes t1 = sizes t"
  shows "leaf_outcome t (guard_addr g) w (res, spec_write w k x (leaf_history rs))
    (Option.bind (put_leaf t1 (guard_addr g) p) (\<lambda>t. finish g res (end_tx_commit w t)))"
proof -
  obtain t2 t3 where t3: "put_leaf t1 (guard_addr g) p = Some t2" "finish g res (end_tx_commit w t2) = Some (res, t3)"
    "node_at t3 = (node_at t1)(guard_addr g \<mapsto> NLeaf p)" "sizes t3 = sizes t1"
    using store_and_finish [of t1 g n p res w] assms(4,7) by auto
  then have "leaf_holds (w + 1) t3 (guard_addr g) (spec_write w k x (leaf_history rs))"
    using assms by (intro leaf_write_in [where t = t and p = p]) simp_all
  then show ?thesis using t3 assms(7,8) by (auto simp: leaf_outcome_def)
qed

lemma start_tx_commit_version: "start_tx_commit t = (w, t') \<Longrightarrow> w = current_version t"
  by (auto simp: start_tx_commit_def start_commit_def current_version_def clock_current_version_def)

lemma insert_refines:
  assumes "leaf_holds now t (guard_addr g) H" and "leaf_room t (guard_addr g)"
    and "w = current_version t" and "now \<le> w" and "w < VERSION_LIMIT"
  shows "leaf_outcome t (guard_addr g) w (spec_insert w k x H) (insert_at_leaf t g k x)"
proof -
  obtain rs p where rs: "leaf_ok now rs" "H = leaf_history rs" "node_at t (guard_addr g) = Some (NLeaf p)"
    "leaf_view p rs" "leaf_cap p = NUM_RECORDS (sizes t)"
    using assms(1) by (auto simp: leaf_holds_def leaf_in_def leaf_at_node)
  have room: "length rs < leaf_cap p"
    using assms(2) rs leaf_view_length [OF rs(4)] by (simp add: leaf_room_def leaf_at_node [THEN iffD2])
  have find: "(case rfind (\<lambda>r. r_key r = k) rs of None \<Rightarrow> False | Some r \<Rightarrow> live r) \<longleftrightarrow> live_index rs k \<noteq> None"
    by (auto simp: rfind_eq_index live_index_def split: option.splits)
  have p: "leaf_at t (guard_addr g) = Some p" "as_records p = Some rs"
    using rs by (simp_all add: leaf_at_node leaf_view_as_records)
  show ?thesis
  proof (cases "live_index rs k")
    case None
    obtain t1 where t1: "start_tx_commit t = (w, t1)"
      using start_tx_commit_version assms(3) by (metis surj_pair)
    obtain p' where p': "publish_record p k w x (leaf_len p) = Some p'" "leaf_view p' (rs @ [new_record w k x])"
      "leaf_cap p' = leaf_cap p"
      using publish_record_ok [OF rs(4) room] by blast
    have "leaf_write w k (Some x) rs = rs @ [new_record w k x]"
      using None by (simp add: leaf_write_def end_live_def)
    then show ?thesis
      using leaf_outcome_written [OF rs(1) assms(4,5) rs(3), of p' k "Some x" t1 "Inserted w"] t1 p p' None rs
        start_tx_commit_frame [OF t1] find history_present_iff [OF rs(1) assms(4), of k]
      by (simp add: insert_at_leaf_def spec_insert_def)
  next
    case (Some i)
    then show ?thesis
      using leaf_outcome_unchanged [OF assms(1,4,5), of g "ZeroAffected KeyAlreadyExists" t] p rs
        find history_present_iff [OF rs(1) assms(4), of k]
      by (simp add: insert_at_leaf_def spec_insert_def)
  qed
qed

lemma leaf_holdsE:
  assumes "leaf_holds now t a H"
  obtains rs p where "leaf_ok now rs" "H = leaf_history rs" "node_at t a = Some (NLeaf p)" "leaf_at t a = Some p"
    "leaf_view p rs" "leaf_cap p = NUM_RECORDS (sizes t)" "as_records p = Some rs" "leaf_len p = length rs"
  using assms
  by (auto simp: leaf_holds_def leaf_in_def leaf_at_node leaf_view_as_records leaf_view_length)

lemma leaf_delete_live:
  assumes "leaf_view p rs" and "live_index rs k = Some i"
  shows "\<exists>p' info. leaf_delete p k w = Some (p', Inr (Some info))
    \<and> leaf_view (leaf_commit_delta p' (-1) 1) (end_live w k rs) \<and> leaf_cap (leaf_commit_delta p' (-1) 1) = leaf_cap p"
proof -
  note i = live_index_SomeD [OF assms(2)]
  show ?thesis
    using i leaf_view_kill [OF assms(1), of i w] leaf_delete_at_live [of rs i p w]
    by (simp add: leaf_delete_def leaf_view_as_records [OF assms(1)] end_live_def assms(2) lp.commit_cap)
qed

lemma leaf_delete_missing:
  assumes "leaf_view p rs" and "live_index rs k = None"
  shows "leaf_delete p k w =
    Some (p, if rfind_index (\<lambda>r. r_key r = k) rs = None then Inr None else Inl ())"
  using assms leaf_delete_at_dead [of rs _ p w]
  by (auto simp: leaf_delete_def leaf_view_as_records live_index_def leaf_delete_at_def split: option.splits if_splits)

lemma leaf_replace:
  assumes "leaf_view p (rs @ [new_record w k x])" and "live_index rs k = Some i"
  shows "\<exists>p' info. leaf_delete_after_update p k w = Some (p', Inr (Some info))
    \<and> leaf_view (leaf_commit_delta p' (-1) 1) (leaf_write w k (Some x) rs)
    \<and> leaf_cap (leaf_commit_delta p' (-1) 1) = leaf_cap p"
proof -
  note i = live_index_SomeD [OF assms(2)]
  let ?rs = "rs @ [new_record w k x]"
  have "?rs[i := kill w (?rs ! i)] = leaf_write w k (Some x) rs"
    using i by (simp add: leaf_write_def end_live_def assms(2) nth_append list_update_append1)
  moreover have "live (?rs ! i)" "?rs ! i = rs ! i" using i by (simp_all add: nth_append)
  ultimately show ?thesis
    using i leaf_view_kill [OF assms(1), of i w] leaf_delete_at_live [of ?rs i p w]
    by (simp add: leaf_delete_after_update_def leaf_view_as_records [OF assms(1)] lp.commit_cap)
qed

lemma delete_refines:
  assumes "leaf_holds now t (guard_addr g) H"
    and "w = current_version t" and "now \<le> w" and "w < VERSION_LIMIT"
  shows "leaf_outcome t (guard_addr g) w (spec_delete w k H) (delete_at_leaf Deleted t g k)"
proof -
  obtain rs p where rs: "leaf_ok now rs" "H = leaf_history rs" "node_at t (guard_addr g) = Some (NLeaf p)"
    "leaf_at t (guard_addr g) = Some p" "leaf_view p rs" "leaf_cap p = NUM_RECORDS (sizes t)"
    using assms(1) by (rule leaf_holdsE)
  obtain t1 where t1: "start_tx_commit t = (w, t1)"
    using start_tx_commit_version assms(2) by (metis surj_pair)
  note fr = start_tx_commit_frame [OF t1]
  note here = history_present_iff [OF rs(1) assms(3), of k]
  show ?thesis
  proof (cases "live_index rs k")
    case None
    then show ?thesis
      using leaf_outcome_unchanged [OF assms(1,3,4), of g "ZeroAffected (missing_reason H k)" t1] fr t1 rs here
      by (cases "rfind_index (\<lambda>r. r_key r = k) rs")
        (simp_all add: delete_at_leaf_def spec_delete_def leaf_delete_missing missing_reason_eq [OF rs(1)])
  next
    case (Some i)
    obtain p' info where p': "leaf_delete p k w = Some (p', Inr (Some info))"
      "leaf_view (leaf_commit_delta p' (-1) 1) (end_live w k rs)" "leaf_cap (leaf_commit_delta p' (-1) 1) = leaf_cap p"
      using leaf_delete_live [OF rs(5) Some] by blast
    then show ?thesis
      using leaf_outcome_written [OF rs(1) assms(3,4) rs(3), of "leaf_commit_delta p' (-1) 1" k None t1 "Deleted w"]
        fr t1 rs here Some
      by (simp add: delete_at_leaf_def spec_delete_def leaf_write_def)
  qed
qed

lemma update_refines:
  assumes "leaf_holds now t (guard_addr g) H" and "leaf_room t (guard_addr g)" and "\<not> update_in_place t"
    and "w = current_version t" and "now \<le> w" and "w < VERSION_LIMIT"
  shows "leaf_outcome t (guard_addr g) w (spec_update w k x H) (update_at_leaf t g k x)"
proof -
  obtain rs p where rs: "leaf_ok now rs" "H = leaf_history rs" "node_at t (guard_addr g) = Some (NLeaf p)"
    "leaf_at t (guard_addr g) = Some p" "leaf_view p rs" "leaf_cap p = NUM_RECORDS (sizes t)" "as_records p = Some rs"
    "leaf_len p = length rs"
    using assms(1) by (rule leaf_holdsE)
  have room: "length rs < leaf_cap p" using assms(2) rs by (simp add: leaf_room_def)
  have ip: "in_place_target t rs k = None" using assms(3) by (simp add: in_place_target_def split: option.split)
  note here = history_present_iff [OF rs(1) assms(5), of k]
  show ?thesis
  proof (cases "live_index rs k")
    case None
    have "update_at_leaf t g k x = finish g (ZeroAffected (missing_reason H k)) t"
      using None rs ip
      by (auto simp: update_at_leaf_def missing_reason_eq rfind_eq_index live_index_def split: option.splits if_splits)
    then show ?thesis
      using leaf_outcome_unchanged [OF assms(1,5,6), of g "ZeroAffected (missing_reason H k)" t] None rs here
      by (simp add: spec_update_def)
  next
    case (Some i)
    obtain t1 where t1: "start_tx_commit t = (w, t1)"
      using start_tx_commit_version assms(4) by (metis surj_pair)
    obtain p1 where p1: "publish_record p k w x (leaf_len p) = Some p1" "leaf_view p1 (rs @ [new_record w k x])"
      "leaf_cap p1 = leaf_cap p"
      using publish_record_ok [OF rs(5) room] by blast
    obtain p2 info where p2: "leaf_delete_after_update p1 k w = Some (p2, Inr (Some info))"
      "leaf_view (leaf_commit_delta p2 (-1) 1) (leaf_write w k (Some x) rs)" "leaf_cap (leaf_commit_delta p2 (-1) 1) = leaf_cap p1"
      using leaf_replace [OF p1(2) Some] by blast
    have "rfind (\<lambda>r. r_key r = k) rs = Some (rs ! i)" "live (rs ! i)"
      using live_index_SomeD [OF Some] by (simp_all add: rfind_eq_index)
    then show ?thesis
      using leaf_outcome_written [OF rs(1) assms(5,6) rs(3), of "leaf_commit_delta p2 (-1) 1" k "Some x" t1 "Updated w"]
        start_tx_commit_frame [OF t1] t1 rs here Some ip p1 p2
      by (simp add: update_at_leaf_def spec_update_def)
  qed
qed

section \<open>Updates in place\<close>

lemma leaf_view_revive:
  assumes "leaf_view p rs" and "i < length rs" and "\<not> live (rs ! i)" and "live r"
  shows "leaf_view (leaf_commit_delta (set_record p i r) 1 (-1)) (rs[i := r])"
proof -
  let ?dead = "\<lambda>r. \<not> live r" and ?q = "set_record p i r"
  have cnt: "len_counts (l_len ?q) = (length (filter live rs), length (filter ?dead rs))"
    and cap: "leaf_cap ?q < 65536"
    using assms(1) by (simp_all add: leaf_view_def set_record_def)
  have d: "length (filter ?dead (rs[i := r])) = length (filter ?dead rs) - 1" "0 < length (filter ?dead rs)"
    using length_filter_update [of i rs ?dead r] assms(2-4) by simp_all
  have s: "length (filter live rs) + length (filter ?dead rs) = length rs"
    "length (filter live (rs[i := r])) + length (filter ?dead (rs[i := r])) = length rs"
    using sum_length_filter_compl [of live rs] sum_length_filter_compl [of live "rs[i := r]"] by simp_all
  have le: "length rs \<le> leaf_cap ?q" using leaf_view_cap [OF assms(1)] by (simp add: set_record_def)
  obtain n where n: "length (filter ?dead rs) = Suc n" using d(2) by (metis Suc_pred)
  have "len_counts (l_len (leaf_commit_delta ?q 1 (-1))) = (Suc (length (filter live rs)), n)"
    using lp.commit_count [OF cnt [unfolded n], of 1 "-1"] n s(1) le cap by (auto simp: nat_add_distrib)
  then have cnt': "len_counts (l_len (leaf_commit_delta ?q 1 (-1))) =
      (length (filter live (rs[i := r])), length (filter ?dead (rs[i := r])))"
    using n s d(1) by simp
  have "raw_slice (record_data ?q) (length rs) = Some (rs[i := r])"
    using assms(1,2) leaf_view_length [OF assms(1)]
    by (simp add: leaf_view_def as_records_def set_record_def raw_slice_write_inside)
  moreover have "leaf_len (leaf_commit_delta ?q 1 (-1)) = length rs"
    using cnt' s(2) by (simp add: leaf_len_def from_len_sum_counts)
  ultimately have "as_records (leaf_commit_delta ?q 1 (-1)) = Some (rs[i := r])"
    by (simp add: as_records_def leaf_commit_delta_def Let_def)
  then show ?thesis using cnt' cap by (simp add: leaf_view_def lp.commit_cap)
qed

lemma length_filter_same:
  "i < length xs \<Longrightarrow> P y = P (xs ! i) \<Longrightarrow> length (filter P (xs[i := y])) = length (filter P xs)"
  by (induction xs arbitrary: i) (auto simp: nth_Cons split: nat.splits)

lemma leaf_view_set_live:
  assumes "leaf_view p rs" and "i < length rs" and "live (rs ! i)" and "live r"
  shows "leaf_view (set_record p i r) (rs[i := r])"
proof -
  have "raw_slice (record_data p) (length rs) = Some rs" "leaf_len (set_record p i r) = length rs"
    using assms(1) leaf_view_length [OF assms(1)] by (auto simp: leaf_view_def as_records_def leaf_len_def set_record_def)
  then have "as_records (set_record p i r) = Some (rs[i := r])"
    using assms(2) by (simp add: as_records_def set_record_def raw_slice_write_inside)
  then show ?thesis
    using assms by (simp add: leaf_view_def set_record_def length_filter_same)
qed

abbreviation revived :: "('k, 'p) record_point \<Rightarrow> 'p \<Rightarrow> ('k, 'p) record_point" where
  "revived r x \<equiv> r\<lparr>r_payload := x, r_version := undelete (r_version r)\<rparr>"

lemma undelete_simps [simp]: "\<not> is_deleted (undelete i)" "insert_version (undelete i) = insert_version i"
  by (simp_all add: undelete_def is_deleted_def)

lemma undelete_live: "delete_version i = deleted_new_null \<Longrightarrow> undelete i = i"
  by (simp add: undelete_def)

lemma overwrite_record_view:
  assumes "leaf_view p rs" and "i < length rs"
  shows "\<exists>r. leaf_view (overwrite_record p i (rs ! i) x) (rs[i := r]) \<and> live r \<and> r_key r = r_key (rs ! i)
    \<and> r_insert r = r_insert (rs ! i) \<and> r_payload r = x \<and> leaf_cap (overwrite_record p i (rs ! i) x) = leaf_cap p"
proof (cases "live (rs ! i)")
  case True
  let ?r = "(rs ! i)\<lparr>r_payload := x\<rparr>"
  have "leaf_view (set_record p i ?r) (rs[i := ?r])"
    using assms True by (intro leaf_view_set_live) auto
  then show ?thesis using True by (intro exI [of _ ?r]) (auto simp: overwrite_record_def set_record_def)
next
  case False
  let ?r = "revived (rs ! i) x"
  have "leaf_view (leaf_commit_delta (set_record p i ?r) 1 (-1)) (rs[i := ?r])"
    using assms False by (intro leaf_view_revive) auto
  moreover have "overwrite_record p i (rs ! i) x = leaf_commit_delta (set_record p i ?r) 1 (-1)"
    using False by (simp add: overwrite_record_def)
  ultimately show ?thesis by (intro exI [of _ ?r]) (auto simp: lp.commit_cap set_record_def)
qed

text \<open>Replacing the last record of a key by a live one is a write at the record's own version.\<close>

lemma replace_last_history:
  assumes "rfind_index (\<lambda>r. r_key r = k) rs = Some i" and "live r" and "r_key r = k"
    and "r_insert r = r_insert (rs ! i)"
  shows "leaf_history (rs[i := r]) = spec_write (r_insert r) k (Some (r_payload r)) (leaf_history rs)"
proof (intro ext)
  fix v k'
  note i = rfind_index_SomeD [OF assms(1)]
  show "leaf_history (rs[i := r]) v k' = spec_write (r_insert r) k (Some (r_payload r)) (leaf_history rs) v k'"
  proof (cases "k' = k \<and> r_insert r \<le> v")
    case True
    have "rfind_index (\<lambda>r. r_key r = k' \<and> matches (r_version r) v) (rs[i := r]) = Some i"
      using True i assms(2,3) by (intro rfind_index_eqI) (auto simp: matches_live)
    then show ?thesis using True i(1) by (simp add: leaf_history_eq rfind_eq_index spec_write_def)
  next
    case False
    let ?P = "\<lambda>r. r_key r = k' \<and> matches (r_version r) v"
    have np: "\<not> ?P r" "\<not> ?P (rs ! i)"
      using False i(2) assms(2-4) by (auto simp: matches_def)
    have "?P (rs[i := r] ! j) = ?P (rs ! j)" if "j < length rs" for j
      using np that by (cases "j = i") auto
    then have "rfind_index ?P (rs[i := r]) = rfind_index ?P rs"
      by (intro rfind_index_cong) simp_all
    moreover have "rfind_index ?P rs \<noteq> Some i" using np(2) rfind_index_SomeD(2) [of ?P rs i] by blast
    ultimately show ?thesis
      using False by (cases "rfind_index ?P rs") (auto simp: leaf_history_eq rfind_eq_index spec_write_def)
  qed
qed

lemma replace_last_ok:
  assumes ok: "leaf_ok now rs" and k: "rfind_index (\<lambda>r. r_key r = k) rs = Some i"
    and "live r" and "r_key r = k" and "r_insert r = r_insert (rs ! i)"
  shows "leaf_ok now (rs[i := r])"
proof -
  note i = rfind_index_SomeD [OF k]
  have "followed_by (rs[i := r] ! a) (rs[i := r] ! b)" if "a < b" "b < length rs" for a b
  proof -
    have f: "followed_by (rs ! a) (rs ! b)" using ok that by (simp add: leaf_ok_def sorted_wrt_nth_less)
    consider "a = i" | "b = i" | "a \<noteq> i" "b \<noteq> i" by blast
    then show ?thesis
    proof cases
      case 1
      then have "r_key (rs ! b) \<noteq> k" using i(3) [of b] that by blast
      then show ?thesis using 1 f that assms(4,5) by (auto simp: followed_by_def)
    next
      case 2
      then show ?thesis using f that i assms(4,5) by (auto simp: followed_by_def)
    next
      case 3
      then show ?thesis using f by simp
    qed
  qed
  moreover have "record_ok now (rs ! i)" using ok i(1) by (simp add: leaf_ok_def)
  then have "record_ok now r" using assms(3,5) by (simp add: record_ok_def live_iff)
  ultimately show ?thesis
    using ok set_update_subset_insert [of rs i r] by (auto simp: leaf_ok_def sorted_wrt_iff_nth_less)
qed

section \<open>Properties\<close>


lemma ref_leaf_holds: "n < 65536 \<Longrightarrow> leaf_holds 1 (ref_tree f n) 0 (\<lambda>v. Map.empty)"
  unfolding leaf_holds_def leaf_in_def
  by (rule exI [of _ "[]"]) (simp add: leaf_at_node leaf_view_new leaf_new_def [symmetric], simp add: leaf_new_def fun_eq_iff)


text \<open>
  C13: a snapshot of a leaf is a prefix of its log. After any sequence of writes in version order to
  an empty leaf, what a point read at version \<open>v\<close> finds is the state after exactly those writes
  whose version is at most \<open>v\<close>; later writes are invisible, and nothing is lost.
\<close>

theorem leaf_snapshot_is_log_prefix:
  assumes "log_between now log limit" and "limit \<le> VERSION_LIMIT"
  shows "map_option r_payload (leaf_point_read (fold (\<lambda>(w, k, x). leaf_write w k x) log []) k v) =
    apply_log (filter (\<lambda>e. fst e \<le> v) log) Map.empty k"
proof -
  have "leaf_history (fold (\<lambda>(w, k, x). leaf_write w k x) log []) v = apply_log (filter (\<lambda>e. fst e \<le> v) log) Map.empty"
    using lh.replay_spec [OF leaf_ok_Nil assms, of v] by simp
  then show ?thesis by (metis leaf_history_def)
qed

theorem leaf_snapshot_is_log_prefix_witness:
  "map_option r_payload (leaf_point_read (fold (\<lambda>(w, k, x). leaf_write w k x)
      [(1, 5, Some CHR ''a''), (2, 6, Some CHR ''b''), (3, 5, Some CHR ''c''), (4, 6, None)] []) (5 :: nat) 2) = Some CHR ''a''"
  using leaf_snapshot_is_log_prefix [of 1 "[(1, 5, Some CHR ''a''), (2, 6, Some CHR ''b''), (3, 5, Some CHR ''c''), (4, 6, None)]" 9 "5 :: nat" 2]
  by (simp add: apply_log_def)

text \<open>
  C14: an update in place happens only where no registered reader can see it. It rewrites the newest
  record of the key from that record's own version on, so the history changes from that version
  on; every snapshot up to the newest registered one keeps its view, and the leaf stays
  well-formed with right counts, also when the record was deleted and comes back to life.
\<close>

theorem update_in_place_spec:
  assumes "leaf_in t (guard_addr g) rs" and "leaf_ok now rs" and "in_place_target t rs k = Some i"
    and "db_tracker t = Some tr"
  shows "\<exists>t'. update_at_leaf t g k x = Some (Updated (current_version t), t')
    \<and> leaf_holds now t' (guard_addr g) (spec_write (r_insert (rs ! i)) k (Some x) (leaf_history rs))
    \<and> (\<forall>b. b \<noteq> guard_addr g \<longrightarrow> node_at t' b = node_at t b)
    \<and> (\<forall>si v. newest_live_si tr = Some si \<longrightarrow> v \<le> si \<longrightarrow>
        spec_write (r_insert (rs ! i)) k (Some x) (leaf_history rs) v = leaf_history rs v)"
proof -
  obtain p where p: "leaf_at t (guard_addr g) = Some p" "node_at t (guard_addr g) = Some (NLeaf p)" "leaf_view p rs"
    "leaf_cap p = NUM_RECORDS (sizes t)" "as_records p = Some rs"
    using assms(1) by (auto simp: leaf_in_def leaf_at_node leaf_view_as_records)
  have i: "rfind_index (\<lambda>r. r_key r = k) rs = Some i"
    and si: "newest_live_si tr = Some si \<Longrightarrow> si < r_insert (rs ! i)" for si
    using assms(3,4) by (auto simp: in_place_target_def split: option.splits if_splits)
  let ?p = "overwrite_record p i (rs ! i) x"
  obtain r where r: "leaf_view ?p (rs[i := r])" "live r" "r_key r = k" "r_insert r = r_insert (rs ! i)" "r_payload r = x"
    "leaf_cap ?p = leaf_cap p"
    using overwrite_record_view [OF p(3), of i x] rfind_index_SomeD(1,2) [OF i] by auto
  obtain t1 where t1: "put_leaf t (guard_addr g) ?p = Some t1" "node_at t1 = (node_at t)(guard_addr g \<mapsto> NLeaf ?p)"
    "sizes t1 = sizes t" "clk t1 = clk t"
    using p(2) by (auto simp: node_at_def put_node_def unsafe_borrow_def unsafe_borrow_mut_def fun_eq_iff)
  have "update_at_leaf t g k x = finish g (Updated (current_version t1)) t1"
    using p assms(3) t1(1) by (simp add: update_at_leaf_def)
  moreover have "node_at t1 (guard_addr g) \<noteq> None" using t1(2) by simp
  ultimately obtain t2 where t2: "update_at_leaf t g k x = Some (Updated (current_version t1), t2)"
    "node_at t2 = node_at t1" "sizes t2 = sizes t1"
    using finish_ok [of t1 g] by metis
  have "leaf_in t2 (guard_addr g) (rs[i := r])"
    using t1 t2 r p(4) by (intro leaf_in_store [where t = t and p = ?p]) simp_all
  then have "leaf_holds now t2 (guard_addr g) (spec_write (r_insert (rs ! i)) k (Some x) (leaf_history rs))"
    using replace_last_ok [OF assms(2) i r(2-4)] replace_last_history [OF i r(2-4)] r(4,5)
    unfolding leaf_holds_def by metis
  moreover have "current_version t1 = current_version t" using t1(4) by (simp add: current_version_def)
  then have "update_at_leaf t g k x = Some (Updated (current_version t), t2)"
    using t2(1) by simp
  moreover have "node_at t2 b = node_at t b" if "b \<noteq> guard_addr g" for b
    using that t1(2) t2(2) by simp
  moreover have "\<not> r_insert (rs ! i) \<le> v" if "newest_live_si tr = Some s" "v \<le> s" for s v
    using si [OF that(1)] that(2) by simp
  ultimately show ?thesis by (auto simp: spec_write_def)
qed

definition in_place_tree :: "(u64, u64) mvbt" where
  "in_place_tree = (ref_tree 8 2)\<lparr>db_tracker := Some (on_tx_start ref_lib 2 tracker_new), update_in_place := True,
     heap := [0 \<mapsto> opt_cell_new (NLeaf \<lparr>l_len = from_active_dead 1 0, record_data = [Some (new_record 3 5 50), None]\<rparr>)]\<rparr>"

theorem update_in_place_spec_witness:
  "\<exists>t'. update_at_leaf in_place_tree (Writer 0 WRITE_FLAG_VERSION) 5 60 = Some (Updated (current_version in_place_tree), t')
    \<and> leaf_holds 4 t' 0 (spec_write 3 5 (Some 60) (leaf_history [new_record 3 5 50]))
    \<and> spec_write 3 (5 :: u64) (Some (60 :: u64)) (leaf_history [new_record 3 5 50]) 2 = leaf_history [new_record 3 5 50] 2"
proof -
  have cnt: "len_counts (from_active_dead 1 0) = (1, 0)" by (simp add: len_counts_def)
  have "leaf_in in_place_tree (guard_addr (Writer 0 WRITE_FLAG_VERSION)) [new_record 3 5 50]"
    by (simp add: leaf_in_def leaf_at_node in_place_tree_def node_at_def unsafe_borrow_def opt_cell_new_def
        leaf_view_def as_records_def leaf_len_def from_len_sum_counts cnt raw_slice_def)
  moreover have "leaf_ok 4 [new_record 3 (5 :: u64) (50 :: u64)]"
    by (simp add: leaf_ok_def record_ok_def deletion_version_def version_info_new_def record_point_new_def)
  moreover have si: "newest_live_si (on_tx_start ref_lib 2 tracker_new) = Some 2"
    by (simp add: newest_live_si_def on_tx_start_def tt_on_tx_start_def tt_peek_max_def gc_eval sl_back_def)
  then have "in_place_target in_place_tree [new_record 3 5 50] 5 = Some 0"
    by (simp add: in_place_target_def in_place_tree_def)
  moreover have "db_tracker in_place_tree = Some (on_tx_start ref_lib 2 tracker_new)"
    by (simp add: in_place_tree_def)
  ultimately show ?thesis
    using update_in_place_spec [of in_place_tree "Writer 0 WRITE_FLAG_VERSION" "[new_record 3 5 50]" 4 5 0
        "on_tx_start ref_lib 2 tracker_new" 60] si
    by auto
qed


end
