(* ===== verification/Allocation.thy ===== *)
theory Allocation
  imports Leaf_History
begin

text \<open>
  The contract of the block allocator of \<^verbatim>\<open>mv_block/block_handle.rs\<close>: it hands out an empty page of
  the kind asked for in a block that is not in use, freshly allocated or taken from the graveyard,
  and touches nothing else. The locale \<open>block_allocator\<close> states it; the allocator of the tree
  implements it, with and without garbage collection.
\<close>

section \<open>Well-formed pages\<close>

definition index_cap_ok :: "nat \<Rightarrow> 'k internal_page \<Rightarrow> bool" where
  "index_cap_ok f p \<longleftrightarrow> length (key_interval_region p) = f \<and> length (version_region p) = f
     \<and> length (pointer_region p) = f"

fun page_ok :: "page_sizes \<Rightarrow> ('k, 'p) node \<Rightarrow> bool" where
  "page_ok C (NLeaf p) \<longleftrightarrow> (\<exists>rs. leaf_view p rs) \<and> leaf_cap p = NUM_RECORDS C"
| "page_ok C (NInternal p) \<longleftrightarrow> (\<exists>es. index_view p es) \<and> index_cap_ok (FAN_OUT C) p"

fun empty_page :: "page_sizes \<Rightarrow> bool \<Rightarrow> ('k, 'p) node \<Rightarrow> bool" where
  "empty_page C leaf (NLeaf p) \<longleftrightarrow> leaf \<and> leaf_view p [] \<and> leaf_cap p = NUM_RECORDS C"
| "empty_page C leaf (NInternal p) \<longleftrightarrow> \<not> leaf \<and> index_view p [] \<and> index_cap_ok (FAN_OUT C) p"

lemma empty_page_ok: "empty_page C leaf n \<Longrightarrow> page_ok C n"
  by (cases n) auto

lemma index_cap_ok_cap [simp]: "index_cap_ok f p \<Longrightarrow> internal_cap p = f"
  by (simp add: index_cap_ok_def internal_cap_def)

definition sizes_ok :: "page_sizes \<Rightarrow> bool" where
  "sizes_ok C \<longleftrightarrow> NUM_RECORDS C < 65536 \<and> FAN_OUT C < 65536"

section \<open>Reused pages\<close>

lemma leaf_on_reuse_ok:
  assumes "leaf_view p rs"
  shows "\<exists>p'. leaf_on_reuse p = Some p' \<and> leaf_view p' [] \<and> leaf_cap p' = leaf_cap p \<and> l_len p' = 0"
proof -
  have "raw_slice (record_data p) (leaf_len p) = Some rs" "leaf_len p \<le> leaf_cap p" "leaf_cap p < 65536"
    using assms leaf_view_cap [OF assms] leaf_view_length [OF assms] by (simp_all add: leaf_view_def as_records_def)
  then show ?thesis
    by (simp add: leaf_on_reuse_def Let_def leaf_view_def as_records_def leaf_len_def [of "_\<lparr>l_len := 0, record_data := _\<rparr>"]
        from_len_sum_counts)
qed

lemma internal_on_reuse_ok:
  assumes "index_view p es" and "index_cap_ok f p"
  shows "\<exists>p'. internal_on_reuse p = Some p' \<and> index_view p' [] \<and> index_cap_ok f p' \<and> i_len p' = 0"
proof -
  have le: "sum_len p \<le> f" and c: "f < 65536"
    using index_view_length [OF assms(1)] index_view_cap [OF assms(1)] assms by (simp_all add: index_view_def)
  moreover have "raw_slice (pointer_region p) (sum_len p) = Some (map e_child es)"
    using assms(1) by (simp add: index_view_def internal_entries_iff)
  ultimately show ?thesis
    using assms(2)
    by (simp add: internal_on_reuse_def Let_def index_view_def internal_entries_iff index_cap_ok_def internal_cap_def
        sum_len_def [of "_\<lparr>i_len := 0, pointer_region := _\<rparr>"] from_len_sum_counts)
qed

lemma mark_leaf_ok:
  assumes "sizes_ok C"
    and "empty_page C l n" and "\<And>p. n = NInternal p \<Longrightarrow> i_len p = 0"
  shows "empty_page C True (mark_leaf (NUM_RECORDS C) n)"
  using assms leaf_view_new [of "NUM_RECORDS C"]
  by (cases n) (auto simp: sizes_ok_def leaf_new_def)

lemma mark_internal_ok:
  assumes "sizes_ok C"
    and "empty_page C l n" and "\<And>p. n = NLeaf p \<Longrightarrow> l_len p = 0"
  shows "empty_page C False (mark_internal (FAN_OUT C) n)"
  using assms index_view_new [of "FAN_OUT C"]
  by (cases n) (auto simp: sizes_ok_def internal_new_def index_cap_ok_def)

text \<open>Emptying a page and giving it its new kind.\<close>

lemma reuse_page_ok:
  fixes n :: "('k, 'p) node"
  assumes "sizes_ok C" and "page_ok C n"
  shows "\<exists>n'. node_on_reuse n = Some n'
    \<and> empty_page C leaf (if leaf then mark_leaf (NUM_RECORDS C) n' else mark_internal (FAN_OUT C) n')"
proof (cases n)
  case (NLeaf p)
  then obtain p' where "leaf_on_reuse p = Some p'" "leaf_view p' []" "leaf_cap p' = NUM_RECORDS C" "l_len p' = 0"
    using assms(2) leaf_on_reuse_ok by fastforce
  then show ?thesis
    using NLeaf mark_internal_ok [OF assms(1), of True "NLeaf p'"] by simp
next
  case (NInternal p)
  then obtain p' where "internal_on_reuse p = Some p'" "index_view p' []" "index_cap_ok (FAN_OUT C) p'" "i_len p' = 0"
    using assms(2) internal_on_reuse_ok by fastforce
  then show ?thesis
    using NInternal mark_leaf_ok [OF assms(1), of False "NInternal p' :: ('k, 'p) node"] by simp
qed

section \<open>The contract\<close>

locale block_allocator =
  fixes alloc :: "bool \<Rightarrow> 's \<Rightarrow> (addr \<times> 's) option"
    and content :: "'s \<Rightarrow> addr \<Rightarrow> ('k, 'p) node option"
    and in_use :: "'s \<Rightarrow> addr set"
    and good :: "'s \<Rightarrow> bool"
    and dims :: "'s \<Rightarrow> page_sizes"
  assumes alloc_ok: "good s \<Longrightarrow> \<exists>a s' n. alloc leaf s = Some (a, s') \<and> good s' \<and> dims s' = dims s
      \<and> a \<notin> in_use s \<and> in_use s' = insert a (in_use s)
      \<and> content s' = (content s)(a \<mapsto> n) \<and> empty_page (dims s) leaf n"
    and in_use_content: "good s \<Longrightarrow> a \<in> in_use s \<Longrightarrow> content s a \<noteq> None"
begin

lemma alloc_two:
  assumes "good s"
  shows "\<exists>a b s1 s2 m n. alloc l s = Some (a, s1) \<and> alloc l' s1 = Some (b, s2) \<and> good s2 \<and> dims s2 = dims s
    \<and> a \<noteq> b \<and> a \<notin> in_use s \<and> b \<notin> in_use s \<and> in_use s2 = {a, b} \<union> in_use s
    \<and> content s2 = (content s)(a \<mapsto> m, b \<mapsto> n) \<and> empty_page (dims s) l m \<and> empty_page (dims s) l' n"
proof -
  obtain a s1 m where 1: "alloc l s = Some (a, s1)" "good s1" "dims s1 = dims s" "a \<notin> in_use s"
    "in_use s1 = insert a (in_use s)" "content s1 = (content s)(a \<mapsto> m)" "empty_page (dims s) l m"
    using alloc_ok [OF assms] by blast
  obtain b s2 n where 2: "alloc l' s1 = Some (b, s2)" "good s2" "dims s2 = dims s1" "b \<notin> in_use s1"
    "in_use s2 = insert b (in_use s1)" "content s2 = (content s1)(b \<mapsto> n)" "empty_page (dims s1) l' n"
    using alloc_ok [OF 1(2)] by blast
  show ?thesis using 1 2 by auto
qed

lemma alloc_keeps: "good s \<Longrightarrow> alloc l s = Some (a, s') \<Longrightarrow> b \<in> in_use s \<Longrightarrow> content s' b = content s b"
  using alloc_ok [of s l] by auto

end

section \<open>The allocator of the tree\<close>

definition dead_addrs :: "('k, 'p) mvbt \<Rightarrow> addr list" where
  "dead_addrs t = (case db_tracker t of None \<Rightarrow> [] | Some tr \<Rightarrow> map snd (bt_index (dead_blocks tr)))"

definition used_blocks :: "('k, 'p) mvbt \<Rightarrow> addr set" where
  "used_blocks t = {a. node_at t a \<noteq> None} - set (dead_addrs t)"

definition graves_ok :: "('k, 'p) mvbt \<Rightarrow> bool" where
  "graves_ok t \<longleftrightarrow> (case db_tracker t of None \<Rightarrow> True | Some tr \<Rightarrow> graveyard_ok (dead_blocks tr))
     \<and> distinct (dead_addrs t) \<and> (\<forall>a \<in> set (dead_addrs t). node_at t a \<noteq> None)"

definition heap_ok :: "('k, 'p) lib \<Rightarrow> ('k, 'p) mvbt \<Rightarrow> bool" where
  "heap_ok L t \<longleftrightarrow> skip_laws (dead_lib (l_gc L)) \<and> sizes_ok (sizes t)
     \<and> (\<forall>a. next_addr t \<le> a \<longrightarrow> node_at t a = None)
     \<and> (\<forall>a n. node_at t a = Some n \<longrightarrow> page_ok (sizes t) n)
     \<and> graves_ok t"

lemma heap_okD:
  assumes "heap_ok L t"
  shows "skip_laws (dead_lib (l_gc L))" and "sizes_ok (sizes t)" and "next_addr t \<le> a \<Longrightarrow> node_at t a = None"
    and "node_at t a = Some n \<Longrightarrow> page_ok (sizes t) n" and "graves_ok t"
  using assms by (auto simp: heap_ok_def)

lemma fresh_page_empty:
  "sizes_ok C \<Longrightarrow> empty_page C leaf (if leaf then new_leaf (NUM_RECORDS C) else new_internal (FAN_OUT C))"
  by (auto simp: new_leaf_def new_internal_def sizes_ok_def leaf_view_new index_view_new index_cap_ok_def)
    (simp_all add: leaf_new_def internal_new_def)

lemma fresh_block_ok:
  assumes "heap_ok L t" and "fresh_block leaf t = (a, t')"
  shows "heap_ok L t' \<and> sizes t' = sizes t \<and> db_tracker t' = db_tracker t \<and> a \<notin> used_blocks t
    \<and> used_blocks t' = insert a (used_blocks t)
    \<and> (\<exists>n. node_at t' = (node_at t)(a \<mapsto> n) \<and> empty_page (sizes t) leaf n)"
proof -
  define n :: "('a, 'b) node" where "n = (if leaf then new_leaf (NUM_RECORDS (sizes t)) else new_internal (FAN_OUT (sizes t)))"
  have a: "a = next_addr t" and at: "node_at t' = (node_at t)(a \<mapsto> n)"
    and f: "sizes t' = sizes t" "db_tracker t' = db_tracker t" "next_addr t' = Suc a"
    using assms(2) by (auto simp: fresh_block_def Let_def node_at_def unsafe_borrow_def opt_cell_new_def n_def fun_eq_iff)
  have none: "node_at t a = None" using heap_okD(3) [OF assms(1)] a by simp
  have e: "empty_page (sizes t) leaf n"
    unfolding n_def by (rule fresh_page_empty [OF heap_okD(2) [OF assms(1)]])
  have dead: "dead_addrs t' = dead_addrs t" by (simp add: dead_addrs_def f)
  have notdead: "a \<notin> set (dead_addrs t)"
    using none heap_okD(5) [OF assms(1)] by (auto simp: graves_ok_def)
  have "graves_ok t'" using heap_okD(5) [OF assms(1)] f dead at by (simp add: graves_ok_def)
  moreover have "page_ok (sizes t) m" if "node_at t' b = Some m" for b m
    using that at heap_okD(4) [OF assms(1)] empty_page_ok [OF e] by (auto split: if_splits)
  ultimately have "heap_ok L t'"
    using assms(1) at f a by (auto simp: heap_ok_def)
  moreover have "used_blocks t' = insert a (used_blocks t)"
    using at dead notdead by (auto simp: used_blocks_def)
  ultimately show ?thesis using at e f none by (auto simp: used_blocks_def)
qed

text \<open>What the collector leaves of the graveyard.\<close>

lemma free_block_graves:
  assumes "skip_laws (dead_lib L)" and "graveyard_ok (dead_blocks tr)" and "free_block L m tr = (m', tr', block)"
    and "distinct (map snd (bt_index (dead_blocks tr)))"
  shows "graveyard_ok (dead_blocks tr') \<and> distinct (map snd (bt_index (dead_blocks tr')))
    \<and> (case block of
        None \<Rightarrow> set (map snd (bt_index (dead_blocks tr'))) = set (map snd (bt_index (dead_blocks tr)))
      | Some a \<Rightarrow> a \<in> set (map snd (bt_index (dead_blocks tr)))
          \<and> set (map snd (bt_index (dead_blocks tr'))) = set (map snd (bt_index (dead_blocks tr))) - {a})"
proof -
  let ?addrs = "\<lambda>bt. mset (map snd (bt_index bt))"
  obtain P bt where pop: "pop_min_if L P (dead_blocks tr) = (bt, block)" and tr': "dead_blocks tr' = bt"
    using assms(3) by (auto simp: free_block_def Let_def split: prod.splits)
  have addrs: "?addrs bt = image_mset snd (dead_of bt)" for bt
    by (simp add: multiset.map_comp comp_def)
  show ?thesis
  proof (cases block)
    case None
    then show ?thesis
      using graveyard_pop_None [OF assms(1,2) pop [unfolded None]] assms(2,4) tr' by simp
  next
    case (Some a)
    obtain d where d: "(d, a) \<in># dead_of (dead_blocks tr)" "graveyard_ok bt"
      "dead_of bt = dead_of (dead_blocks tr) - {#(d, a)#}"
      using graveyard_pop_Some [OF assms(1,2) pop [unfolded Some]] by blast
    have eq: "?addrs bt = ?addrs (dead_blocks tr) - {#a#}"
      using d(1,3) by (simp only: addrs image_mset_Diff [of "{#(d, a)#}"] mset_subset_eq_single) simp
    have mem: "a \<in> set (map snd (bt_index (dead_blocks tr)))" using d(1) by force
    have "?addrs bt = mset (remove1 a (map snd (bt_index (dead_blocks tr))))" using eq by simp
    moreover have "distinct (remove1 a (map snd (bt_index (dead_blocks tr))))" using assms(4) by (rule distinct_remove1)
    ultimately have "distinct (map snd (bt_index bt))" "set (map snd (bt_index bt)) = set (map snd (bt_index (dead_blocks tr))) - {a}"
      using assms(4) by (metis mset_eq_imp_distinct_iff, metis mset_eq_setD set_remove1_eq)
    then show ?thesis using Some d(2) tr' mem by simp
  qed
qed


lemma node_at_frame [simp]:
  "node_at (t\<lparr>clk := m\<rparr>) = node_at t" "node_at (t\<lparr>clk := m, db_tracker := tr\<rparr>) = node_at t"
  "node_at (t\<lparr>db_tracker := tr\<rparr>) = node_at t" "node_at (t\<lparr>reuse_count := c\<rparr>) = node_at t"
  "node_at (t\<lparr>root := r\<rparr>) = node_at t" "node_at (t\<lparr>root_latch := l\<rparr>) = node_at t"
  "node_at (t\<lparr>clk := m, thr := th\<rparr>) = node_at t" "node_at (t\<lparr>rng_pos := i\<rparr>) = node_at t"
  "node_at (t\<lparr>retry_local := rl\<rparr>) = node_at t"
  by (auto simp: node_at_def fun_eq_iff)

text \<open>What a collection changes besides the graveyard is the clock.\<close>

lemma free_block_heap_ok:
  assumes "heap_ok L t" and tr: "db_tracker t = Some tr" and fb: "free_block (l_gc L) (clk t) tr = (m', tr', block)"
  defines "t1 \<equiv> t\<lparr>clk := m', db_tracker := Some tr'\<rparr>"
  shows "heap_ok L t1 \<and> (case block of None \<Rightarrow> used_blocks t1 = used_blocks t
    | Some a \<Rightarrow> a \<notin> used_blocks t \<and> used_blocks t1 = insert a (used_blocks t) \<and> a \<notin> set (dead_addrs t1)
        \<and> node_at t a \<noteq> None)"
proof -
  have g: "graves_ok t" by (rule heap_okD(5) [OF assms(1)])
  have dt: "dead_addrs t = map snd (bt_index (dead_blocks tr))" "dead_addrs t1 = map snd (bt_index (dead_blocks tr'))"
    using tr by (simp_all add: dead_addrs_def t1_def)
  have gy: "graveyard_ok (dead_blocks tr)" "distinct (map snd (bt_index (dead_blocks tr)))"
    using g tr by (simp_all add: graves_ok_def dead_addrs_def)
  note fg = free_block_graves [OF heap_okD(1) [OF assms(1)] gy(1) fb gy(2), folded dt]
  have at: "node_at t1 = node_at t" "sizes t1 = sizes t" "next_addr t1 = next_addr t" by (simp_all add: t1_def)
  have sub: "set (dead_addrs t1) \<subseteq> set (dead_addrs t)"
    using fg by (auto split: option.splits)
  have "graves_ok t1"
    using g fg sub at by (auto simp: graves_ok_def t1_def)
  then have "heap_ok L t1" using assms(1) at by (simp add: heap_ok_def)
  moreover have "\<forall>a\<in>set (dead_addrs t). node_at t a \<noteq> None" using g by (simp add: graves_ok_def)
  ultimately show ?thesis
    using fg at by (cases block) (auto simp: used_blocks_def)
qed

lemma put_node_SomeE:
  assumes "put_node t a n = Some t'"
  obtains h where "t' = t\<lparr>heap := h\<rparr>" "node_at t a \<noteq> None" "node_at t' = (node_at t)(a \<mapsto> n)"
  using assms that by (cases "heap t a") (auto simp: put_node_def unsafe_borrow_mut_def node_at_def unsafe_borrow_def fun_eq_iff)

lemma put_node_heap_ok:
  assumes "heap_ok L t" and "put_node t a n = Some t'" and "page_ok (sizes t) n"
  shows "heap_ok L t'"
proof -
  obtain h where t': "t' = t\<lparr>heap := h\<rparr>" and m: "node_at t a \<noteq> None" and at: "node_at t' = (node_at t)(a \<mapsto> n)"
    using assms(2) by (rule put_node_SomeE)
  then have f: "sizes t' = sizes t" "db_tracker t' = db_tracker t" "next_addr t' = next_addr t" by simp_all
  have dead: "dead_addrs t' = dead_addrs t" by (simp add: dead_addrs_def f)
  have "graves_ok t'" using heap_okD(5) [OF assms(1)] f dead at by (simp add: graves_ok_def)
  moreover have "a < next_addr t" using heap_okD(3) [OF assms(1), of a] m by (meson linorder_not_le)
  ultimately show ?thesis using assms(1,3) at f by (auto simp: heap_ok_def)
qed

lemma put_node_used_blocks:
  "put_node t a n = Some t' \<Longrightarrow> used_blocks t' = used_blocks t"
  by (auto elim!: put_node_SomeE simp: used_blocks_def dead_addrs_def split: if_splits)

lemma alloc_block_ok:
  assumes "heap_ok L t"
  shows "\<exists>a t' n. alloc_block L leaf t = Some (a, t') \<and> heap_ok L t' \<and> sizes t' = sizes t
    \<and> a \<notin> used_blocks t \<and> used_blocks t' = insert a (used_blocks t)
    \<and> node_at t' = (node_at t)(a \<mapsto> n) \<and> empty_page (sizes t) leaf n"
proof (cases "db_tracker t")
  case None
  then show ?thesis
    using fresh_block_ok [OF assms] by (cases "fresh_block leaf t") (auto simp: alloc_block_def)
next
  case (Some tr)
  obtain m tr' block where fb: "free_block (l_gc L) (clk t) tr = (m, tr', block)" by (metis prod_cases3)
  define t1 where "t1 = t\<lparr>clk := m, db_tracker := Some tr'\<rparr>"
  note ok = free_block_heap_ok [OF assms Some fb, folded t1_def]
  have f: "node_at t1 = node_at t" "sizes t1 = sizes t" "reuse_count t1 = reuse_count t" by (simp_all add: t1_def)
  show ?thesis
  proof (cases block)
    case None
    then show ?thesis
      using Some fb ok fresh_block_ok [of L t1] f
      by (cases "fresh_block leaf t1") (fastforce simp: alloc_block_def t1_def)
  next
    case a: (Some a)
    obtain n where n: "node_at t1 a = Some n" using a ok f by auto
    obtain n1 where n1: "node_on_reuse n = Some n1"
      "empty_page (sizes t1) leaf (if leaf then mark_leaf (NUM_RECORDS (sizes t1)) n1 else mark_internal (FAN_OUT (sizes t1)) n1)"
      using reuse_page_ok ok heap_okD(2,4) n by meson
    let ?t = "t1\<lparr>reuse_count := reuse_count t1 + 1\<rparr>"
    let ?n = "if leaf then mark_leaf (NUM_RECORDS (sizes t1)) n1 else mark_internal (FAN_OUT (sizes t1)) n1"
    obtain t' where put: "put_node ?t a ?n = Some t'" "node_at t' = (node_at t1)(a \<mapsto> ?n)" "sizes t' = sizes t1"
      using put_node_ok [of ?t a n ?n] n by auto
    have "heap_ok L ?t" using ok by (auto simp: heap_ok_def graves_ok_def dead_addrs_def)
    then have "heap_ok L t'"
      using put_node_heap_ok [OF _ put(1)] empty_page_ok [OF n1(2)] by simp
    moreover have "used_blocks t' = used_blocks t1"
      using put_node_used_blocks [OF put(1)] by (simp add: used_blocks_def dead_addrs_def)
    moreover have "alloc_block L leaf t = Some (a, t')"
      using Some fb a n n1(1) put(1) f by (cases leaf) (simp_all add: alloc_block_def reuse_block_def t1_def [symmetric] Let_def)
    ultimately show ?thesis using ok a f put n1(2) by auto
  qed
qed

interpretation ba: block_allocator "alloc_block L" node_at used_blocks "heap_ok L" sizes
  by unfold_locales (rule alloc_block_ok, auto simp: used_blocks_def)

section \<open>Properties\<close>


lemma ref_tree_heap_ok:
  assumes "f < 65536" and "n < 65536"
  shows "heap_ok ref_tree_lib (ref_tree f n)"
proof -
  have "node_at (ref_tree f n) a = (if a = 0 then Some (NLeaf (leaf_new n)) else None)" for a
    by (simp add: node_at_def unsafe_borrow_def opt_cell_new_def)
  moreover have "leaf_view (leaf_new n) []" "leaf_cap (leaf_new n) = n"
    using leaf_view_new [OF assms(2)] by (simp_all add: leaf_new_def)
  ultimately show ?thesis
    using assms ref_tree_lib_laws
    by (auto simp: heap_ok_def sizes_ok_def graves_ok_def dead_addrs_def lib_laws_def split: if_splits)
qed


end
