(* ===== verification/Sequential.thy ===== *)
theory Sequential
  imports Allocation
begin

text \<open>
  One thread at work: every latch is free except those the thread holds itself, so its latches are
  granted and nothing it has read changes. \<open>quiet L n W t\<close>: the heap is well-formed, the blocks in
  \<open>W\<close> are write-latched and the others free, and no latch has been released more than \<open>n\<close> times.
  Every primitive of the writers returns in a quiet state and says what it changes.
\<close>

section \<open>What the primitives leave alone\<close>

definition outer where
  "outer t = ((sizes t, inc_key t, dec_key t, min_key t, max_key t), (db_tracker t, update_in_place t),
     (root t, root_latch t), current_version t)"

lemma outer_eqD:
  assumes "outer t' = outer t"
  shows "sizes t' = sizes t" "inc_key t' = inc_key t" "dec_key t' = dec_key t" "min_key t' = min_key t"
    "max_key t' = max_key t" "db_tracker t' = db_tracker t" "update_in_place t' = update_in_place t"
    "root t' = root t" "root_latch t' = root_latch t" "current_version t' = current_version t"
  using assms by (simp_all add: outer_def)

lemma outer_heap [simp]: "outer (t\<lparr>heap := h\<rparr>) = outer t"
  by (simp add: outer_def current_version_def)

text \<open>The part that commits and the roots do not change either.\<close>

definition static where
  "static t = ((sizes t, inc_key t, dec_key t, min_key t, max_key t), (db_tracker t, update_in_place t))"

lemma static_eqD:
  assumes "static t' = static t"
  shows "sizes t' = sizes t" "inc_key t' = inc_key t" "dec_key t' = dec_key t" "min_key t' = min_key t"
    "max_key t' = max_key t" "db_tracker t' = db_tracker t" "update_in_place t' = update_in_place t"
  using assms by (simp_all add: static_def)

lemma outer_static: "outer t' = outer t \<Longrightarrow> static t' = static t"
  by (simp add: outer_def static_def)

section \<open>Latches\<close>

definition latched :: "nat \<Rightarrow> addr set \<Rightarrow> ('k, 'p) mvbt \<Rightarrow> bool" where
  "latched n W t \<longleftrightarrow> W \<subseteq> dom (heap t)
     \<and> (\<forall>a c. heap t a = Some c \<longrightarrow>
          (\<exists>w. unat w \<le> n \<and> cell_version c = (if a \<in> W then WRITE_FLAG_VERSION OR w else w)))"

fun holds :: "('k, 'p) mvbt \<Rightarrow> addr set \<Rightarrow> smart_guard \<Rightarrow> bool" where
  "holds t W (Reader a v) \<longleftrightarrow> a \<notin> W \<and> map_option cell_version (heap t a) = Some v"
| "holds t W (Writer a v) \<longleftrightarrow> a \<in> W \<and> map_option cell_version (heap t a) = Some v"

definition quiet :: "('k, 'p) lib \<Rightarrow> nat \<Rightarrow> addr set \<Rightarrow> ('k, 'p) mvbt \<Rightarrow> bool" where
  "quiet L n W t \<longleftrightarrow> heap_ok L t \<and> db_tracker t = None \<and> latched n W t"

lemma quietD:
  assumes "quiet L n W t"
  shows "heap_ok L t" "db_tracker t = None" "latched n W t"
  using assms by (simp_all add: quiet_def)

lemma holds_node: "holds t W g \<Longrightarrow> node_at t (guard_addr g) \<noteq> None"
  by (cases g) (auto simp: node_at_def unsafe_borrow_def)

lemma small_count:
  assumes "unat w \<le> n" and "n < 2 ^ 62"
  shows "w < COUNT_LIMIT"
  using assms by (simp add: word_less_nat_alt)

text \<open>The heap matters only through its nodes and its latch words.\<close>

lemma heap_ok_cong:
  assumes "heap_ok L t" and "node_at t' = node_at t" and "next_addr t' = next_addr t" and "outer t' = outer t"
  shows "heap_ok L t'"
proof -
  note o = outer_eqD [OF assms(4)]
  have "dead_addrs t' = dead_addrs t" by (simp add: dead_addrs_def o)
  then show ?thesis using assms(1-3) o by (simp add: heap_ok_def graves_ok_def)
qed

lemma node_at_heap_eq: "node_at t' = node_at t \<longleftrightarrow> (\<forall>a. map_option cell (heap t' a) = map_option cell (heap t a))"
  by (simp add: fun_eq_iff node_at_def unsafe_borrow_def)

lemma quiet_borrow:
  assumes "quiet L n W t" and "n < 2 ^ 62" and "node_at t a \<noteq> None" and "a \<notin> W"
  shows "\<exists>v. block_borrow_read t a = Some (Reader a v) \<and> holds t W (Reader a v)"
proof -
  obtain c where c: "heap t a = Some c" using assms(3) by (auto simp: node_at_def unsafe_borrow_def)
  obtain w where "unat w \<le> n" "cell_version c = w"
    using quietD(3) [OF assms(1)] c assms(4) unfolding latched_def by force
  then show ?thesis
    using c assms(4) mask_count(1) [OF small_count [OF _ assms(2)], of w]
    by (simp add: block_borrow_read_def borrow_read_def)
qed

lemma holds_live: "holds t W g \<Longrightarrow> is_still_live (heap t) g = Some True"
  by (cases g) auto

lemma quiet_upgrade:
  assumes "quiet L n W t" and "n < 2 ^ 62" and "holds t W g"
  shows "\<exists>g' t'. block_upgrade t g = Some (g', True, t') \<and> guard_addr g' = guard_addr g
    \<and> quiet L n (insert (guard_addr g) W) t' \<and> holds t' (insert (guard_addr g) W) g'
    \<and> node_at t' = node_at t \<and> outer t' = outer t
    \<and> (\<forall>q. guard_addr q \<noteq> guard_addr g \<longrightarrow> holds t W q \<longrightarrow> holds t' (insert (guard_addr g) W) q)"
proof (cases g)
  case (Writer a v)
  then show ?thesis using assms by (auto simp: block_upgrade_def insert_absorb)
next
  case (Reader a v)
  obtain c where c: "heap t a = Some c" "cell_version c = v" "a \<notin> W" using assms(3) Reader by auto
  obtain w where w: "unat w \<le> n" "v = w"
    using quietD(3) [OF assms(1)] c unfolding latched_def by force
  let ?c = "c\<lparr>cell_version := WRITE_FLAG_VERSION OR v\<rparr>"
  let ?t = "t\<lparr>heap := (heap t)(a \<mapsto> ?c)\<rparr>"
  have up: "block_upgrade t g = Some (Writer a (WRITE_FLAG_VERSION OR v), True, ?t)"
    using c w Reader mask_count(1) [OF small_count [OF w(1) assms(2)]]
    by (simp add: block_upgrade_def write_lock_def)
  have at: "node_at ?t = node_at t" using c by (auto simp: node_at_heap_eq)
  have "latched n (insert a W) ?t"
    using quietD(3) [OF assms(1)] c w unfolding latched_def by auto
  then have "quiet L n (insert a W) ?t"
    using quietD [OF assms(1)] heap_ok_cong [OF _ at] by (simp add: quiet_def)
  moreover have "holds ?t (insert a W) q" if "guard_addr q \<noteq> a" "holds t W q" for q
    using that by (cases q) auto
  ultimately show ?thesis using up at Reader c by auto
qed

lemma quiet_drop:
  assumes "quiet L n W t" and "Suc n < 2 ^ 62" and "holds t W g"
  shows "\<exists>t'. block_drop t g = Some t' \<and> quiet L (Suc n) (W - {guard_addr g}) t'
    \<and> node_at t' = node_at t \<and> outer t' = outer t
    \<and> (\<forall>q. guard_addr q \<noteq> guard_addr g \<longrightarrow> holds t W q \<longrightarrow> holds t' (W - {guard_addr g}) q)"
proof (cases g)
  case (Reader a v)
  have "latched (Suc n) W t" using quietD(3) [OF assms(1)] unfolding latched_def by (meson le_SucI)
  moreover have "W - {a} = W" using assms(3) Reader by simp
  ultimately show ?thesis using Reader quietD [OF assms(1)] by (auto simp: block_drop_def quiet_def)
next
  case (Writer a v)
  obtain c where c: "heap t a = Some c" "cell_version c = v" "a \<in> W" using assms(3) Writer by auto
  obtain w where w: "unat w \<le> n" "v = WRITE_FLAG_VERSION OR w"
    using quietD(3) [OF assms(1)] c unfolding latched_def by force
  note w1 = count_step [OF w(1) assms(2)]
  have rel: "(v + 1) XOR WRITE_FLAG_VERSION = w + 1"
    using w w1 small_count [OF w(1)] assms(2) by (simp add: release_word)
  let ?t = "t\<lparr>heap := (heap t)(a \<mapsto> c\<lparr>cell_version := w + 1\<rparr>)\<rparr>"
  have dr: "block_drop t g = Some ?t" using Writer c rel by (simp add: block_drop_def)
  have at: "node_at ?t = node_at t" using c by (auto simp: node_at_heap_eq)
  have "latched (Suc n) (W - {a}) ?t"
    unfolding latched_def
  proof (intro conjI allI impI)
    show "W - {a} \<subseteq> dom (heap ?t)" using quietD(3) [OF assms(1)] by (auto simp: latched_def)
    fix b d assume b: "heap ?t b = Some d"
    show "\<exists>u. unat u \<le> Suc n \<and> cell_version d = (if b \<in> W - {a} then WRITE_FLAG_VERSION OR u else u)"
    proof (cases "b = a")
      case True
      then show ?thesis using b w w1 by (intro exI [of _ "w + 1"]) auto
    next
      case False
      then have "heap t b = Some d" using b by simp
      then obtain u where "unat u \<le> n" "cell_version d = (if b \<in> W then WRITE_FLAG_VERSION OR u else u)"
        using quietD(3) [OF assms(1)] unfolding latched_def by blast
      then show ?thesis using False by (intro exI [of _ u]) auto
    qed
  qed
  then have "quiet L (Suc n) (W - {a}) ?t"
    using quietD [OF assms(1)] heap_ok_cong [OF _ at] by (simp add: quiet_def)
  moreover have "holds ?t (W - {a}) q" if "guard_addr q \<noteq> a" "holds t W q" for q
    using that by (cases q) auto
  ultimately show ?thesis using dr at Writer by auto
qed

lemma quiet_mono: "quiet L n W t \<Longrightarrow> n \<le> m \<Longrightarrow> quiet L m W t"
  unfolding quiet_def latched_def by (meson le_trans)

section \<open>Pages\<close>

lemma quiet_put:
  assumes "quiet L n W t" and "node_at t a \<noteq> None" and "page_ok (sizes t) nd"
  shows "\<exists>t'. put_node t a nd = Some t' \<and> quiet L n W t' \<and> node_at t' = (node_at t)(a \<mapsto> nd) \<and> outer t' = outer t
    \<and> (\<forall>q. holds t W q \<longrightarrow> holds t' W q)"
proof -
  obtain c where c: "heap t a = Some c" using assms(2) by (auto simp: node_at_def unsafe_borrow_def)
  let ?t = "t\<lparr>heap := (heap t)(a \<mapsto> c\<lparr>cell := nd\<rparr>)\<rparr>"
  have p: "put_node t a nd = Some ?t" using c by (simp add: put_node_def unsafe_borrow_mut_def)
  have at: "node_at ?t = (node_at t)(a \<mapsto> nd)" by (auto simp: fun_eq_iff node_at_def unsafe_borrow_def)
  have "latched n W ?t" using quietD(3) [OF assms(1)] c unfolding latched_def by auto
  then have "quiet L n W ?t"
    using quietD [OF assms(1)] put_node_heap_ok [OF _ p assms(3)] by (simp add: quiet_def)
  moreover have "holds ?t W q" if "holds t W q" for q
    using that c by (cases q) auto
  ultimately show ?thesis using p at by auto
qed

lemma quiet_alloc:
  assumes "quiet L n W t"
  shows "\<exists>a t' nd. alloc_block L leaf t = Some (a, t') \<and> quiet L n W t' \<and> node_at t a = None
    \<and> node_at t' = (node_at t)(a \<mapsto> nd) \<and> empty_page (sizes t) leaf nd \<and> outer t' = outer t
    \<and> (\<forall>q. holds t W q \<longrightarrow> holds t' W q)"
proof -
  obtain a t' where ft: "fresh_block leaf t = (a, t')" by (cases "fresh_block leaf t")
  have al: "alloc_block L leaf t = Some (a, t')" using ft quietD(2) [OF assms] by (simp add: alloc_block_def)
  note ok = fresh_block_ok [OF quietD(1) [OF assms] ft]
  have a: "a = next_addr t" and o: "outer t' = outer t"
    and h: "\<exists>nd. heap t' = (heap t)(a \<mapsto> opt_cell_new nd)"
    using ft by (auto simp: fresh_block_def Let_def outer_def current_version_def)
  have none: "node_at t a = None" using heap_okD(3) [OF quietD(1) [OF assms]] a by simp
  then have hn: "heap t a = None" by (simp add: node_at_def unsafe_borrow_def)
  have aW: "a \<notin> W" using quietD(3) [OF assms] hn by (auto simp: latched_def)
  have "\<exists>w. unat w \<le> n \<and> cell_version c = (if b \<in> W then WRITE_FLAG_VERSION OR w else w)" if "heap t' b = Some c" for b c
  proof (cases "b = a")
    case True
    then show ?thesis using that h aW by (auto simp: opt_cell_new_def CELL_START_VERSION_def)
  next
    case False
    then have "heap t b = Some c" using that h by auto
    then show ?thesis using quietD(3) [OF assms] unfolding latched_def by blast
  qed
  then have "latched n W t'" using quietD(3) [OF assms] h unfolding latched_def by auto
  then have "quiet L n W t'" using ok quietD(2) [OF assms] by (simp add: quiet_def)
  moreover have "holds t' W q" if "holds t W q" for q
    using that h hn by (cases q) auto
  ultimately show ?thesis using al ok none o by auto
qed

lemma quiet_cong:
  assumes "quiet L n W t" and "heap t' = heap t" and "next_addr t' = next_addr t" and "static t' = static t"
  shows "quiet L n W t'"
proof -
  note s = static_eqD [OF assms(4)]
  have "node_at t' = node_at t" by (simp add: node_at_heap_eq assms(2))
  moreover have "dead_addrs t' = dead_addrs t" by (simp add: dead_addrs_def s)
  ultimately show ?thesis
    using assms(1-3) s by (simp add: quiet_def heap_ok_def graves_ok_def latched_def)
qed

lemma holds_cong: "heap t' = heap t \<Longrightarrow> holds t' W g = holds t W g"
  by (cases g) auto

lemma quiet_start_tx_commit:
  assumes "quiet L n W t"
  shows "\<exists>t'. start_tx_commit t = (current_version t, t') \<and> quiet L n W t' \<and> node_at t' = node_at t
    \<and> static t' = static t \<and> root t' = root t \<and> root_latch t' = root_latch t
    \<and> current_version t' = current_version t + 1 \<and> (\<forall>q. holds t W q \<longrightarrow> holds t' W q)"
proof -
  obtain t' where t': "start_tx_commit t = (current_version t, t')"
    by (metis start_tx_commit_version surj_pair)
  then have "heap t' = heap t" "next_addr t' = next_addr t" "static t' = static t" "root t' = root t"
    "root_latch t' = root_latch t" "current_version t' = current_version t + 1"
    by (auto simp: start_tx_commit_def start_commit_def static_def current_version_def clock_current_version_def)
  then show ?thesis
    using t' quiet_cong [OF assms] holds_cong [of t' t] by (auto simp: node_at_heap_eq)
qed

lemma quiet_end_tx_commit:
  assumes "quiet L n W t"
  shows "quiet L n W (end_tx_commit w t)" and "outer (end_tx_commit w t) = outer t"
    and "holds (end_tx_commit w t) W g = holds t W g"
proof -
  show "quiet L n W (end_tx_commit w t)"
    by (rule quiet_cong [OF assms]) (simp_all add: end_tx_commit_def static_def)
  show "outer (end_tx_commit w t) = outer t"
    by (simp add: end_tx_commit_def outer_def current_version_def end_commit_def thread_local_commit_def
        clock_current_version_def)
  show "holds (end_tx_commit w t) W g = holds t W g"
    by (rule holds_cong) (simp add: end_tx_commit_def)
qed

lemma register_dead_None [simp]:
  "db_tracker t = None \<Longrightarrow> register_dead L v a t = t" "db_tracker t = None \<Longrightarrow> register_dead_col L vs t = t"
  by (simp_all add: register_dead_def register_dead_col_def)

end
