(* ===== verification/Snapshot.thy ===== *)
theory Snapshot
  imports Sequential
begin

text \<open>
  Reads as steps from node to node, and states that keep the past: \<open>keeps c t t'\<close> says that every
  node of \<open>t\<close> answers in \<open>t'\<close> as before to every reader of a version below \<open>c\<close>. What a version sees
  from a block on, \<open>view\<close>, is then the same in both.
\<close>

section \<open>Reads step by step\<close>

definition point_result :: "'k \<Rightarrow> 'p option \<Rightarrow> ('k, 'p) record_point_result list" where
  "point_result k x = (case x of None \<Rightarrow> [] | Some p \<Rightarrow> [\<lparr>res_key = k, res_payload = p\<rparr>])"

text \<open>
  What a node tells a reader of a version: the records of the version, if it is a leaf, or the
  entry for the key, if there is one.
\<close>

definition leaf_records :: "('k, 'p) record_point list \<Rightarrow> version \<Rightarrow> ('k, 'p) record_point_result list" where
  "leaf_records rs v = map record_point_result_from (filter (\<lambda>r. matches (r_version r) v) rs)"

definition read_entry :: "'k::linorder internal_page \<Rightarrow> 'k \<Rightarrow> version \<Rightarrow> ('k interval \<times> addr) option option" where
  "read_entry page key v = do {
     (ks, vs) \<leftarrow> keys_versions page;
     case read_index ks vs key v of
       None \<Rightarrow> Some None
     | Some pos \<Rightarrow> map_option (\<lambda>c. Some (ks ! pos, c)) (get_pointer page pos)
   }"

fun node_answer ::
    "('k::linorder, 'p) node \<Rightarrow> 'k \<Rightarrow> version \<Rightarrow> (('k, 'p) record_point_result list + ('k interval \<times> addr) option) option" where
  "node_answer (NLeaf p) k v = map_option (\<lambda>rs. Inl (leaf_records rs v)) (as_records p)"
| "node_answer (NInternal p) k v = map_option Inr (read_entry p k v)"

lemma read_child_entry:
  "read_child p k v = Option.bind (read_entry p k v) (map_option snd)"
  by (auto simp: read_child_def read_entry_def option.map_comp comp_def split: Option.bind_splits option.splits)

definition record_of :: "('k, 'p) record_point_result list \<Rightarrow> 'k \<Rightarrow> 'p option" where
  "record_of xs k = map_option res_payload (rfind (\<lambda>x. res_key x = k) xs)"

lemma leaf_history_records: "leaf_history rs v k = record_of (leaf_records rs v) k"
  by (simp add: leaf_history_eq record_of_def leaf_records_def rfind_map rfind_filter option.map_comp comp_def
      record_point_result_from_def)

lemma leaf_point_read_key: "leaf_point_read rs k v = Some r \<Longrightarrow> r_key r = k"
  by (auto simp: leaf_point_read_eq dest: rfind_SomeD)

lemma point_result_eq:
  "(case leaf_point_read rs k v of None \<Rightarrow> [] | Some r \<Rightarrow> [record_point_result_from r])
     = point_result k (leaf_history rs v k)"
  by (auto simp: point_result_def leaf_history_def record_point_result_from_def
      dest: leaf_point_read_key split: option.splits)

lemma block_borrow_read_addr: "block_borrow_read t a = Some g \<Longrightarrow> guard_addr g = a"
  by (auto simp: block_borrow_read_def borrow_read_def)

lemma block_borrow_read_None: "block_borrow_read t a = None \<longleftrightarrow> node_at t a = None"
  by (simp add: block_borrow_read_def borrow_read_def node_at_def unsafe_borrow_def)

text \<open>A guard matters to a reader only through its block.\<close>

lemma read_from_unfold:
  "key_point_read_from_root t a k v =
     Option.bind (node_at t a) (\<lambda>n. Option.bind (node_answer n k v) (\<lambda>ans.
       case ans of
         Inl xs \<Rightarrow> Some (point_result k (record_of xs k))
       | Inr None \<Rightarrow> None
       | Inr (Some (f, c)) \<Rightarrow> key_point_read_from_root t c k v))"
proof (cases "block_borrow_read t a")
  case None
  then show ?thesis by (simp add: key_point_read_from_root_def block_borrow_read_None [THEN iffD1])
next
  case (Some g)
  note ga = block_borrow_read_addr [OF Some]
  obtain n where n: "node_at t a = Some n" using Some block_borrow_read_None [of t a] by auto
  show ?thesis
  proof (cases n)
    case (NLeaf p)
    then show ?thesis
      using Some n ga by (cases "as_records p")
        (simp_all add: key_point_read_from_root_def traverse_read_key.simps [of t g] point_result_eq leaf_history_records)
  next
    case (NInternal p)
    have "key_point_read_from_root t a k v = Option.bind (read_child p k v) (\<lambda>c. key_point_read_from_root t c k v)"
      using Some n ga NInternal by (cases "read_child p k v")
        (simp_all add: key_point_read_from_root_def traverse_read_key.simps [of t g] Option.bind_assoc)
    then show ?thesis
      using NInternal n by (auto simp: read_child_entry split: option.splits Option.bind_splits)
  qed
qed

section \<open>Keeping the past\<close>

definition keeps :: "version \<Rightarrow> ('k::linorder, 'p) mvbt \<Rightarrow> ('k, 'p) mvbt \<Rightarrow> bool" where
  "keeps c t t' \<longleftrightarrow> (\<forall>a n. node_at t a = Some n \<longrightarrow>
     (\<exists>n'. node_at t' a = Some n' \<and> (\<forall>v < c. \<forall>k. node_answer n' k v = node_answer n k v)))"

lemma keepsD:
  assumes "keeps c t t'" and "node_at t a = Some n"
  obtains n' where "node_at t' a = Some n'" "\<And>v k. v < c \<Longrightarrow> node_answer n' k v = node_answer n k v"
  using assms unfolding keeps_def by blast

lemma keeps_refl [simp]: "node_at t' = node_at t \<Longrightarrow> keeps c t t'"
  by (auto simp: keeps_def)

lemma keeps_trans:
  assumes "keeps c t t1" and "keeps c' t1 t2" and "c \<le> c'"
  shows "keeps c t t2"
  unfolding keeps_def
proof (intro allI impI)
  fix a n assume "node_at t a = Some n"
  then obtain n1 where n1: "node_at t1 a = Some n1" "\<And>v k. v < c \<Longrightarrow> node_answer n1 k v = node_answer n k v"
    using keepsD [OF assms(1)] by metis
  then obtain n2 where n2: "node_at t2 a = Some n2" "\<And>v k. v < c' \<Longrightarrow> node_answer n2 k v = node_answer n1 k v"
    using keepsD [OF assms(2)] by metis
  show "\<exists>n'. node_at t2 a = Some n' \<and> (\<forall>v<c. \<forall>k. node_answer n' k v = node_answer n k v)"
    using n1(2) n2 assms(3) by (metis less_le_trans)
qed

lemma keeps_fresh: "node_at t a = None \<Longrightarrow> node_at t' = (node_at t)(a \<mapsto> n) \<Longrightarrow> keeps c t t'"
  by (auto simp: keeps_def)

lemma keeps_put:
  "node_at t a = Some n \<Longrightarrow> node_at t' = (node_at t)(a \<mapsto> n') \<Longrightarrow>
    (\<And>v k. v < c \<Longrightarrow> node_answer n' k v = node_answer n k v) \<Longrightarrow> keeps c t t'"
  by (auto simp: keeps_def)

text \<open>New entries with younger versions and obsolete marks are invisible to older readers.\<close>

lemma read_entry_keeps:
  assumes "index_view p es" and "index_view p' (es' @ new)" and "length es' = length es"
    and "\<And>i. i < length es \<Longrightarrow> e_fence (es' ! i) = e_fence (es ! i) \<and> e_child (es' ! i) = e_child (es ! i)
      \<and> into_cmp (e_version (es' ! i)) = into_cmp (e_version (es ! i))"
    and "\<And>e. e \<in> set new \<Longrightarrow> c \<le> into_cmp (e_version e)" and "v < c"
  shows "read_entry p' k v = read_entry p k v"
proof -
  let ?P = "\<lambda>(x, rng). matched x v \<and> contains rng k"
  let ?z = "\<lambda>es. zip (map e_version es) (map e_fence es)"
  have z: "?z es = map (\<lambda>e. (e_version e, e_fence e)) es" for es :: "'a entry list"
    by (simp add: zip_map_map zip_same_conv_map)
  have "rfind_index ?P (?z new) = None"
    using assms(5,6) by (force simp: rfind_index_None_iff z matched_def into_cmp_def [symmetric])
  then have "rfind_index ?P (?z (es' @ new)) = rfind_index ?P (?z es')"
    by (simp add: rfind_index_append)
  also have "\<dots> = rfind_index ?P (?z es)"
    using assms(3,4) by (intro rfind_index_cong) (auto simp: matched_def into_cmp_def [symmetric])
  finally have eq: "rfind_index ?P (?z (es' @ new)) = rfind_index ?P (?z es)" .
  show ?thesis
  proof (cases "rfind_index ?P (?z es)")
    case None
    then show ?thesis
      using eq assms(1,2) by (simp add: read_entry_def read_index_def index_view_slices)
  next
    case (Some i)
    then have i: "i < length es" using rfind_index_SomeD(1) [OF Some] by simp
    then have "e_child ((es' @ new) ! i) = e_child (es ! i)" "e_fence ((es' @ new) ! i) = e_fence (es ! i)"
      using assms(3,4) by (simp_all add: nth_append)
    then show ?thesis
      using eq Some i assms(1-3)
      by (simp add: read_entry_def read_index_def index_view_slices index_view_get nth_append)
  qed
qed

section \<open>What a version sees\<close>

text \<open>The records of a map in an interval, each once.\<close>

definition found :: "('k, 'p) record_point_result list \<Rightarrow> ('k \<Rightarrow> bool) \<Rightarrow> ('k \<rightharpoonup> 'p) \<Rightarrow> bool" where
  "found xs K M \<longleftrightarrow> distinct (map res_key xs)
     \<and> (\<forall>k x. \<lparr>res_key = k, res_payload = x\<rparr> \<in> set xs \<longleftrightarrow> K k \<and> M k = Some x)"

lemma found_record_of:
  assumes "found xs K M" and "K k"
  shows "record_of xs k = M k"
proof (cases "rfind (\<lambda>x. res_key x = k) xs")
  case None
  then have "\<lparr>res_key = k, res_payload = x\<rparr> \<notin> set xs" for x by (auto simp: rfind_None_iff)
  then have "M k = None" using assms by (cases "M k") (auto simp: found_def)
  then show ?thesis using None by (simp add: record_of_def)
next
  case (Some x)
  then have "x \<in> set xs" "res_key x = k" by (auto dest: rfind_SomeD)
  moreover have "x = \<lparr>res_key = res_key x, res_payload = res_payload x\<rparr>" by simp
  ultimately have "\<lparr>res_key = k, res_payload = res_payload x\<rparr> \<in> set xs" by metis
  then show ?thesis using assms(1) Some by (simp add: found_def record_of_def)
qed

text \<open>
  \<open>view h t v a F M\<close>: a reader of the version \<open>v\<close> that comes to the block \<open>a\<close> with the fence \<open>F\<close>
  finds a tree of height \<open>h\<close> with the map \<open>M\<close> on \<open>F\<close>. The blocks are shared with other versions.
\<close>

fun view :: "nat \<Rightarrow> ('k::linorder, 'p) mvbt \<Rightarrow> version \<Rightarrow> addr \<Rightarrow> 'k interval \<Rightarrow> ('k \<rightharpoonup> 'p) \<Rightarrow> bool" where
  "view 0 t v a F M \<longleftrightarrow>
     (\<exists>n xs. node_at t a = Some n \<and> (\<forall>k. node_answer n k v = Some (Inl xs)) \<and> found xs (contains F) M)"
| "view (Suc h) t v a F M \<longleftrightarrow>
     (\<exists>n kids. node_at t a = Some n \<and> finite kids
        \<and> (\<forall>k. contains F k \<longrightarrow> (\<exists>e \<in> kids. contains (fst e) k \<and> node_answer n k v = Some (Inr (Some e))))
        \<and> (\<forall>k. \<not> contains F k \<longrightarrow> node_answer n k v = Some (Inr None))
        \<and> (\<forall>e \<in> kids. upper (fst e) \<le> upper F \<and> view h t v (snd e) (fst e) M))"

lemma view_read:
  "view h t v a F M \<Longrightarrow> contains F k \<Longrightarrow> key_point_read_from_root t a k v = Some (point_result k (M k))"
proof (induction h arbitrary: a F)
  case 0
  then show ?case using found_record_of by (fastforce simp: read_from_unfold [of t a])
next
  case (Suc h)
  then obtain n e where e: "node_at t a = Some n" "contains (fst e) k" "node_answer n k v = Some (Inr (Some e))"
    "view h t v (snd e) (fst e) M" by force
  then show ?case using Suc.IH [OF e(4,2)] by (simp add: read_from_unfold [of t a] split_beta)
qed

lemma view_keeps:
  assumes "keeps c t t'" and "v < c"
  shows "view h t v a F M \<Longrightarrow> view h t' v a F M"
proof (induction h arbitrary: a F)
  case 0
  then obtain n xs where n: "node_at t a = Some n" "\<forall>k. node_answer n k v = Some (Inl xs)" "found xs (contains F) M" by auto
  obtain n' where "node_at t' a = Some n'" "\<And>k. node_answer n' k v = node_answer n k v"
    using keepsD [OF assms(1) n(1)] assms(2) by metis
  then show ?case using n by auto
next
  case (Suc h)
  then obtain n kids where n: "node_at t a = Some n" and k: "finite kids"
    "\<forall>k. contains F k \<longrightarrow> (\<exists>e \<in> kids. contains (fst e) k \<and> node_answer n k v = Some (Inr (Some e)))"
    "\<forall>k. \<not> contains F k \<longrightarrow> node_answer n k v = Some (Inr None)"
    "\<forall>e \<in> kids. upper (fst e) \<le> upper F \<and> view h t v (snd e) (fst e) M" by auto
  obtain n' where n': "node_at t' a = Some n'" "\<And>k. node_answer n' k v = node_answer n k v"
    using keepsD [OF assms(1) n] assms(2) by metis
  have "\<forall>e \<in> kids. upper (fst e) \<le> upper F \<and> view h t' v (snd e) (fst e) M" using k(4) Suc.IH by blast
  then show ?case unfolding view.simps using n' k(1-3) by metis
qed

end
