(* ===== verification/Tree_Rep.thy ===== *)
theory Tree_Rep
  imports Snapshot
begin

text \<open>
  The current tree. \<open>rep h now t a F S M\<close>: the block \<open>a\<close> is the root of a current subtree of height
  \<open>h\<close> for the keys of the fence \<open>F\<close>; its blocks are \<open>S\<close>, no block is in it twice; everything in it
  is older than \<open>now\<close>; and on the keys of \<open>F\<close> its live records are the map \<open>M\<close>. The dead entries
  and records of its pages belong to the past and are not followed.
\<close>

declare split_paired_All [simp del] split_paired_Ex [simp del]

section \<open>The present of a leaf\<close>

definition leaf_now :: "('k, 'p) record_point list \<Rightarrow> 'k \<rightharpoonup> 'p" where
  "leaf_now rs k = map_option r_payload (rfind (\<lambda>r. r_key r = k \<and> live r) rs)"

definition up_to_date :: "version \<Rightarrow> version \<Rightarrow> bool" where
  "up_to_date now v \<longleftrightarrow> (\<forall>x < now. x \<le> v)"

lemma up_to_dateI: "now \<le> v \<Longrightarrow> up_to_date now v" "w < VERSION_LIMIT \<Longrightarrow> w \<le> v \<Longrightarrow> up_to_date (w + 1) v"
  by (auto simp: up_to_date_def version_le_step)

lemma record_ok_now: "record_ok now r \<Longrightarrow> up_to_date now v \<Longrightarrow> matches (r_version r) v \<longleftrightarrow> live r"
  by (auto simp: record_ok_def up_to_date_def matches_def live_iff deletion_version_def is_deleted_def
      split: option.splits)

lemma leaf_history_present:
  assumes "leaf_ok now rs" and "up_to_date now v"
  shows "leaf_history rs v k = leaf_now rs k"
  unfolding leaf_history_eq leaf_now_def
  using assms by (intro arg_cong [where f = "map_option r_payload"] rfind_cong)
    (auto simp: leaf_ok_def record_ok_now)

text \<open>A leaf has one live record of a key at most, so the order of its live records is irrelevant.\<close>

lemma leaf_ok_live_unique:
  assumes "leaf_ok now rs" and "r \<in> set rs" and "q \<in> set rs" and "live r" and "live q" and "r_key r = r_key q"
  shows "r = q"
proof -
  obtain i j where ij: "i < length rs" "j < length rs" "rs ! i = r" "rs ! j = q"
    using assms(2,3) by (auto simp: in_set_conv_nth)
  have "\<not> i < j" using leaf_ok_key_order [OF assms(1), of i j] ij assms(4,6) by metis
  moreover have "\<not> j < i" using leaf_ok_key_order [OF assms(1), of j i] ij assms(5,6) by metis
  ultimately show ?thesis using ij by (metis linorder_neqE_nat)
qed

lemma leaf_now_Some_iff:
  assumes "leaf_ok now rs"
  shows "leaf_now rs k = Some x \<longleftrightarrow> (\<exists>r \<in> set rs. r_key r = k \<and> live r \<and> r_payload r = x)"
proof
  assume "leaf_now rs k = Some x"
  then show "\<exists>r \<in> set rs. r_key r = k \<and> live r \<and> r_payload r = x"
    by (auto simp: leaf_now_def dest: rfind_SomeD)
next
  assume "\<exists>r \<in> set rs. r_key r = k \<and> live r \<and> r_payload r = x"
  then obtain r where r: "r \<in> set rs" "r_key r = k" "live r" "r_payload r = x" by blast
  then have "rfind (\<lambda>r. r_key r = k \<and> live r) rs = Some r"
    using leaf_ok_live_unique [OF assms] by (intro rfind_unique) auto
  then show "leaf_now rs k = Some x" using r by (simp add: leaf_now_def)
qed

lemma leaf_now_eqI:
  assumes "leaf_ok now rs" and "leaf_ok now rs'"
    and "\<And>r. r_key r = k \<Longrightarrow> live r \<Longrightarrow> r \<in> set rs' \<longleftrightarrow> r \<in> set rs"
  shows "leaf_now rs' k = leaf_now rs k"
proof -
  have "leaf_now rs' k = Some x \<longleftrightarrow> leaf_now rs k = Some x" for x
    unfolding leaf_now_Some_iff [OF assms(1)] leaf_now_Some_iff [OF assms(2)] using assms(3) by metis
  then show ?thesis by (metis option.exhaust)
qed

section \<open>The entries of a current page\<close>

abbreviation nonempty :: "'k::linorder interval \<Rightarrow> bool" where
  "nonempty i \<equiv> lower i \<le> upper i"

text \<open>
  Nothing behind an active entry overlaps it; the active entries have exactly the keys of the
  fence; the last entry is active; no entry has other keys.
\<close>

definition shadow_free :: "'k::linorder entry list \<Rightarrow> bool" where
  "shadow_free es \<longleftrightarrow> sorted_wrt (\<lambda>e f. e_active e \<longrightarrow> \<not> overlap (e_fence e) (e_fence f)) es"

definition tiles :: "'k::linorder interval \<Rightarrow> 'k interval set \<Rightarrow> bool" where
  "tiles F Fs \<longleftrightarrow> (\<forall>k. contains F k \<longleftrightarrow> (\<exists>f \<in> Fs. contains f k))"

definition index_ok :: "version \<Rightarrow> 'k::linorder interval \<Rightarrow> 'k entry list \<Rightarrow> bool" where
  "index_ok now F es \<longleftrightarrow> (\<forall>e \<in> set es. into_cmp (e_version e) < now \<and> nonempty (e_fence e))
     \<and> shadow_free es \<and> tiles F (e_fence ` set (active_entries es)) \<and> (es \<noteq> [] \<longrightarrow> e_active (last es))
     \<and> (\<forall>e \<in> set es. \<forall>k. contains (e_fence e) k \<longrightarrow> contains F k)"

lemma index_okD:
  assumes "index_ok now F es"
  shows "e \<in> set es \<Longrightarrow> into_cmp (e_version e) < now" and "e \<in> set es \<Longrightarrow> nonempty (e_fence e)"
    and "shadow_free es" and "tiles F (e_fence ` set (active_entries es))" and "es \<noteq> [] \<Longrightarrow> e_active (last es)"
    and "e \<in> set es \<Longrightarrow> contains (e_fence e) k \<Longrightarrow> contains F k"
  using assms by (auto simp: index_ok_def)

lemma index_ok_mono: "index_ok now F es \<Longrightarrow> now \<le> now' \<Longrightarrow> index_ok now' F es"
  by (auto simp: index_ok_def)

lemma shadow_free_nth:
  "shadow_free es \<Longrightarrow> i < j \<Longrightarrow> j < length es \<Longrightarrow> e_active (es ! i) \<Longrightarrow> \<not> overlap (e_fence (es ! i)) (e_fence (es ! j))"
  using sorted_wrt_nth_less by (fastforce simp: shadow_free_def)

lemma nonempty_overlap: "nonempty a \<Longrightarrow> overlap a a"
  by (simp add: overlap_def is_disjoint_def)

text \<open>Both the readers of the present and the writers find the one active entry of a key.\<close>

lemma active_disjoint:
  assumes "shadow_free es" and "e \<in> set es" and "f \<in> set es" and "e_active e" and "e_active f" and "e \<noteq> f"
  shows "\<not> overlap (e_fence e) (e_fence f)"
proof -
  obtain i j where ij: "i < length es" "j < length es" "es ! i = e" "es ! j = f"
    using assms(2,3) by (auto simp: in_set_conv_nth)
  then show ?thesis
    using shadow_free_nth [OF assms(1), of i j] shadow_free_nth [OF assms(1), of j i] assms(4-6) overlap_sym
    by (cases i j rule: linorder_cases) auto
qed

lemma active_unique:
  assumes "shadow_free es" and "e \<in> set es" and "f \<in> set es" and "e_active e" and "e_active f"
    and "contains (e_fence e) k" and "contains (e_fence f) k"
  shows "e = f"
  using active_disjoint [OF assms(1-5)] not_overlap_contains assms(6,7) by blast

lemma active_index:
  assumes "index_ok now F es" and "contains F k"
  obtains i where "i < length es" "e_active (es ! i)" "contains (e_fence (es ! i)) k"
    "\<And>j. i < j \<Longrightarrow> j < length es \<Longrightarrow> \<not> contains (e_fence (es ! j)) k"
proof -
  obtain e where e: "e \<in> set es" "e_active e" "contains (e_fence e) k"
    using index_okD(4) [OF assms(1)] assms(2) unfolding tiles_def by force
  then obtain i where i: "i < length es" "es ! i = e" by (auto simp: in_set_conv_nth)
  have "\<not> contains (e_fence (es ! j)) k" if "i < j" "j < length es" for j
    using shadow_free_nth [OF index_okD(3) [OF assms(1)] that] i e not_overlap_contains by metis
  then show thesis using that [of i] i e by auto
qed

lemma zip_map_fst_snd: "zip (map f es) (map g es) = map (\<lambda>e. (f e, g e)) es"
  by (simp add: zip_map_map zip_same_conv_map)

lemma write_index_active:
  assumes "index_ok now F es" and "contains F k"
  obtains i where "write_index (map e_fence es) (map e_version es) k = Some i" "i < length es"
    "e_active (es ! i)" "contains (e_fence (es ! i)) k"
proof -
  obtain i where i: "i < length es" "e_active (es ! i)" "contains (e_fence (es ! i)) k"
    "\<And>j. i < j \<Longrightarrow> j < length es \<Longrightarrow> \<not> contains (e_fence (es ! j)) k"
    using active_index [OF assms] by metis
  then have "write_index (map e_fence es) (map e_version es) k = Some i"
    unfolding write_index_def zip_map_fst_snd by (intro rfind_index_eqI) auto
  then show thesis using that i by blast
qed

lemma read_index_active:
  assumes "index_ok now F es" and "contains F k" and "up_to_date now v"
  obtains i where "read_index (map e_fence es) (map e_version es) k v = Some i" "i < length es"
    "e_active (es ! i)" "contains (e_fence (es ! i)) k"
proof -
  obtain i where i: "i < length es" "e_active (es ! i)" "contains (e_fence (es ! i)) k"
    "\<And>j. i < j \<Longrightarrow> j < length es \<Longrightarrow> \<not> contains (e_fence (es ! j)) k"
    using active_index [OF assms(1,2)] by metis
  have "matched (e_version (es ! i)) v"
    using index_okD(1) [OF assms(1), of "es ! i"] i(1) assms(3)
    by (simp add: matched_def into_cmp_def [symmetric] up_to_date_def)
  then have "read_index (map e_fence es) (map e_version es) k v = Some i"
    unfolding read_index_def zip_map_fst_snd using i by (intro rfind_index_eqI) auto
  then show thesis using that i by blast
qed

section \<open>The tree\<close>

definition index_in :: "('k, 'p) mvbt \<Rightarrow> addr \<Rightarrow> 'k entry list \<Rightarrow> bool" where
  "index_in t a es \<longleftrightarrow> (\<exists>p. node_at t a = Some (NInternal p) \<and> index_view p es \<and> index_cap_ok (FAN_OUT (sizes t)) p)"

definition fill_min :: "('k, 'p) mvbt \<Rightarrow> addr \<Rightarrow> bool" where
  "fill_min t a \<longleftrightarrow> (\<exists>n. node_at t a = Some n \<and> filling_20_percent (sizes t) n \<le> unat (fst (active_dead_count n)))"

fun rep :: "nat \<Rightarrow> version \<Rightarrow> ('k::linorder, 'p) mvbt \<Rightarrow> addr \<Rightarrow> 'k interval \<Rightarrow> addr set \<Rightarrow> ('k \<rightharpoonup> 'p) \<Rightarrow> bool" where
  "rep 0 now t a F S M \<longleftrightarrow> S = {a}
     \<and> (\<exists>rs. leaf_in t a rs \<and> leaf_ok now rs \<and> (\<forall>r \<in> set rs. contains F (r_key r))
          \<and> (\<forall>k. contains F k \<longrightarrow> M k = leaf_now rs k))"
| "rep (Suc h) now t a F S M \<longleftrightarrow>
     (\<exists>es Sf. index_in t a es \<and> index_ok now F es \<and> length (active_entries es) < FAN_OUT (sizes t)
        \<and> S = insert a (\<Union>e \<in> set (active_entries es). Sf e)
        \<and> (\<forall>e \<in> set (active_entries es). a \<notin> Sf e \<and> fill_min t (e_child e)
             \<and> rep h now t (e_child e) (e_fence e) (Sf e) M)
        \<and> (\<forall>e \<in> set (active_entries es). \<forall>f \<in> set (active_entries es). e \<noteq> f \<longrightarrow> Sf e \<inter> Sf f = {}))"

lemma index_in_cong:
  "node_at t' a = node_at t a \<Longrightarrow> sizes t' = sizes t \<Longrightarrow> index_in t' a es = index_in t a es"
  by (simp add: index_in_def)

lemma fill_min_cong:
  "node_at t' a = node_at t a \<Longrightarrow> sizes t' = sizes t \<Longrightarrow> fill_min t' a = fill_min t a"
  by (simp add: fill_min_def)

lemma rep_top: "rep h now t a F S M \<Longrightarrow> a \<in> S"
  by (cases h) auto

lemma rep_blocks: "rep h now t a F S M \<Longrightarrow> b \<in> S \<Longrightarrow> node_at t b \<noteq> None"
proof (induction h arbitrary: a F S)
  case 0
  then show ?case by (auto simp: leaf_in_def leaf_at_node)
next
  case (Suc h)
  then show ?case by (fastforce simp: index_in_def)
qed

lemma rep_frame:
  assumes "rep h now t a F S M" and "\<And>b. b \<in> S \<Longrightarrow> node_at t' b = node_at t b" and "sizes t' = sizes t"
    and "now \<le> now'" and "\<And>k. contains F k \<Longrightarrow> M' k = M k"
  shows "rep h now' t' a F S M'"
  using assms(1,2,5)
proof (induction h arbitrary: a F S)
  case 0
  then show ?case
    using leaf_in_cong [of t' a t] assms(3) leaf_ok_mono [OF _ assms(4)] by auto
next
  case (Suc h)
  obtain es Sf where r: "index_in t a es" "index_ok now F es" "length (active_entries es) < FAN_OUT (sizes t)"
    "S = insert a (\<Union>e \<in> set (active_entries es). Sf e)"
    and c: "\<And>e. e \<in> set (active_entries es) \<Longrightarrow> a \<notin> Sf e \<and> fill_min t (e_child e)
       \<and> rep h now t (e_child e) (e_fence e) (Sf e) M"
    and d: "\<forall>e \<in> set (active_entries es). \<forall>f \<in> set (active_entries es). e \<noteq> f \<longrightarrow> Sf e \<inter> Sf f = {}"
    using Suc.prems(1) by auto
  have "rep h now' t' (e_child e) (e_fence e) (Sf e) M' \<and> fill_min t' (e_child e)"
    if e: "e \<in> set (active_entries es)" for e
  proof -
    have sub: "Sf e \<subseteq> S" using r(4) e by auto
    have "contains F k" if "contains (e_fence e) k" for k
      using index_okD(4) [OF r(2)] e that unfolding tiles_def by blast
    then have "rep h now' t' (e_child e) (e_fence e) (Sf e) M'"
      using Suc.IH [of "e_child e" "e_fence e" "Sf e"] c [OF e] sub Suc.prems(2,3) by blast
    moreover have "node_at t' (e_child e) = node_at t (e_child e)"
      using Suc.prems(2) rep_top c [OF e] sub by blast
    ultimately show ?thesis using c [OF e] assms(3) fill_min_cong by blast
  qed
  moreover have "index_in t' a es" using r(1) Suc.prems(2) r(4) assms(3) index_in_cong by blast
  ultimately show ?case
    using r c d index_ok_mono [OF r(2) assms(4)] assms(3)
    by (simp add: r(4)) (intro exI [of _ es] exI [of _ Sf], auto)
qed

lemma node_read_leaf:
  "leaf_in t a rs \<Longrightarrow> \<exists>p. node_at t a = Some (NLeaf p) \<and> as_records p = Some rs"
  by (auto simp: leaf_in_def leaf_at_node leaf_view_as_records)

text \<open>A reader of the present sees the map.\<close>

lemma leaf_records_found:
  assumes "leaf_ok now rs" and "up_to_date now v" and "\<And>r. r \<in> set rs \<Longrightarrow> contains F (r_key r)"
  shows "found (leaf_records rs v) (contains F) (leaf_now rs)"
proof -
  have eq: "filter (\<lambda>r. matches (r_version r) v) rs = filter live rs"
    using assms(1,2) by (intro filter_cong) (auto simp: leaf_ok_def record_ok_now)
  have ord: "sorted_wrt (\<lambda>r q. \<not> (live r \<and> live q \<and> r_key r = r_key q)) rs"
    unfolding sorted_wrt_iff_nth_less using leaf_ok_key_order [OF assms(1)] by metis
  have "sorted_wrt (\<lambda>r q. r_key r \<noteq> r_key q) (filter live rs)"
    by (rule sorted_wrt_mono_rel [OF _ sorted_wrt_filter [OF ord, of live]]) auto
  then have "distinct (map r_key (filter live rs))" by (induction rs) auto
  then have d: "distinct (map res_key (leaf_records rs v))"
    by (simp add: leaf_records_def eq record_point_result_from_def comp_def)
  have "\<lparr>res_key = k, res_payload = x\<rparr> \<in> set (leaf_records rs v) \<longleftrightarrow> (\<exists>r \<in> set rs. r_key r = k \<and> live r \<and> r_payload r = x)" for k x
    unfolding leaf_records_def eq by (auto simp: record_point_result_from_def)
  then show ?thesis
    unfolding found_def leaf_now_Some_iff [OF assms(1)] using d assms(3) by auto
qed

lemma read_entry_outside:
  assumes "index_ok now F es" and "index_view p es" and "\<not> contains F k"
  shows "read_entry p k v = Some None"
proof -
  have "read_index (map e_fence es) (map e_version es) k v = None"
    unfolding read_index_def zip_map_fst_snd using index_okD(6) [OF assms(1), of _ k] assms(3)
    by (auto simp: rfind_index_None_iff)
  then show ?thesis by (simp add: read_entry_def index_view_slices [OF assms(2)])
qed

lemma read_entry_active:
  assumes "index_ok now F es" and "index_view p es" and "contains F k" and "up_to_date now v"
  obtains e where "e \<in> set (active_entries es)" "contains (e_fence e) k" "read_entry p k v = Some (Some (e_fence e, e_child e))"
proof -
  obtain i where i: "read_index (map e_fence es) (map e_version es) k v = Some i" "i < length es"
    "e_active (es ! i)" "contains (e_fence (es ! i)) k"
    using read_index_active [OF assms(1,3,4)] by metis
  then have "read_entry p k v = Some (Some (e_fence (es ! i), e_child (es ! i)))"
    by (simp add: read_entry_def index_view_slices [OF assms(2)] index_view_get [OF assms(2)])
  then show thesis using that [of "es ! i"] i by simp
qed

lemma rep_view:
  assumes "up_to_date now v"
  shows "rep h now t a F S M \<Longrightarrow> view h t v a F M"
proof (induction h arbitrary: a F S)
  case 0
  then obtain rs where rs: "leaf_in t a rs" "leaf_ok now rs" "\<forall>r \<in> set rs. contains F (r_key r)"
    "\<forall>k. contains F k \<longrightarrow> M k = leaf_now rs k" by auto
  have "found (leaf_records rs v) (contains F) M"
    using leaf_records_found [OF rs(2) assms, of F] rs(3,4) unfolding found_def by auto
  then show ?case using node_read_leaf [OF rs(1)] by auto
next
  case (Suc h)
  obtain es Sf p where r: "node_at t a = Some (NInternal p)" "index_view p es" "index_ok now F es"
    and c: "\<forall>e \<in> set (active_entries es). rep h now t (e_child e) (e_fence e) (Sf e) M"
    using Suc.prems(1) by (auto simp: index_in_def)
  let ?kids = "(\<lambda>e. (e_fence e, e_child e)) ` set (active_entries es)"
  have "\<exists>e \<in> ?kids. contains (fst e) k \<and> node_answer (NInternal p) k v = Some (Inr (Some e))" if "contains F k" for k
    using read_entry_active [OF r(3,2) that assms] by (auto simp del: set_filter)
  moreover have "node_answer (NInternal p) k v = Some (Inr None)" if "\<not> contains F k" for k
    using read_entry_outside [OF r(3,2) that] by simp
  moreover have "upper (fst e) \<le> upper F \<and> view h t v (snd e) (fst e) M" if e: "e \<in> ?kids" for e
  proof -
    obtain x where x: "x \<in> set (active_entries es)" "e = (e_fence x, e_child x)" using e by blast
    have "contains (e_fence x) (upper (e_fence x))" using index_okD(2) [OF r(3), of x] x(1) by (simp add: contains_def)
    then have "upper (e_fence x) \<le> upper F" using index_okD(6) [OF r(3), of x] x(1) by (auto simp: contains_def)
    then show ?thesis using Suc.IH c x by auto
  qed
  ultimately show ?case unfolding view.simps using r(1) by (intro exI [of _ "NInternal p"] exI [of _ ?kids]) blast
qed

section \<open>A subtree in its tree\<close>

text \<open>
  \<open>focus H r F0 S now t M h a F Sa\<close>: the subtree at \<open>a\<close> is part of the tree at \<open>r\<close>; if it is
  replaced by another one for the same fence, and nothing else changes, the tree is one again.
\<close>

definition focus ::
    "nat \<Rightarrow> addr \<Rightarrow> 'k::linorder interval \<Rightarrow> addr set \<Rightarrow> version \<Rightarrow> ('k, 'p) mvbt \<Rightarrow> ('k \<rightharpoonup> 'p)
       \<Rightarrow> nat \<Rightarrow> addr \<Rightarrow> 'k interval \<Rightarrow> addr set \<Rightarrow> bool" where
  "focus H r F0 S now t M h a F Sa \<longleftrightarrow> rep h now t a F Sa M \<and> Sa \<subseteq> S \<and> r \<in> S \<and> (a \<noteq> r \<longrightarrow> fill_min t a \<and> r \<notin> Sa)
     \<and> (\<forall>t' now' M' Sa'. now \<le> now' \<longrightarrow> sizes t' = sizes t \<longrightarrow> (\<forall>b \<in> S - Sa. node_at t' b = node_at t b)
          \<longrightarrow> Sa' \<inter> (S - Sa) = {} \<longrightarrow> (\<forall>k. \<not> contains F k \<longrightarrow> M' k = M k) \<longrightarrow> rep h now' t' a F Sa' M'
          \<longrightarrow> (a \<noteq> r \<longrightarrow> fill_min t' a) \<longrightarrow> rep H now' t' r F0 (S - Sa \<union> Sa') M')"

lemma focus_root:
  assumes "rep H now t r F0 S M"
  shows "focus H r F0 S now t M H r F0 S"
  using assms rep_top [OF assms] by (simp add: focus_def)

lemma focus_rep: "focus H r F0 S now t M h a F Sa \<Longrightarrow> rep h now t a F Sa M"
  by (simp add: focus_def)

lemma focusD:
  assumes "focus H r F0 S now t M h a F Sa" and "now \<le> now'" and "sizes t' = sizes t"
    and "\<And>b. b \<in> S - Sa \<Longrightarrow> node_at t' b = node_at t b" and "Sa' \<inter> (S - Sa) = {}"
    and "\<And>k. \<not> contains F k \<Longrightarrow> M' k = M k" and "rep h now' t' a F Sa' M'" and "a \<noteq> r \<Longrightarrow> fill_min t' a"
  shows "rep H now' t' r F0 (S - Sa \<union> Sa') M'"
proof -
  have "\<forall>t' now' M' Sa'. now \<le> now' \<longrightarrow> sizes t' = sizes t \<longrightarrow> (\<forall>b \<in> S - Sa. node_at t' b = node_at t b)
          \<longrightarrow> Sa' \<inter> (S - Sa) = {} \<longrightarrow> (\<forall>k. \<not> contains F k \<longrightarrow> M' k = M k) \<longrightarrow> rep h now' t' a F Sa' M'
          \<longrightarrow> (a \<noteq> r \<longrightarrow> fill_min t' a) \<longrightarrow> rep H now' t' r F0 (S - Sa \<union> Sa') M'"
    using assms(1) by (simp add: focus_def)
  then show ?thesis using assms(2-8) by blast
qed

lemma focus_update:
  assumes f: "focus H r F0 S now t M h a F Sa" and n: "now \<le> now'" and s: "sizes t' = sizes t"
    and b: "\<And>b. b \<in> S - Sa \<Longrightarrow> node_at t' b = node_at t b" and d: "Sa' \<inter> (S - Sa) = {}"
    and M: "\<And>k. \<not> contains F k \<Longrightarrow> M' k = M k" and r: "rep h now' t' a F Sa' M'" and l: "a \<noteq> r \<Longrightarrow> fill_min t' a"
  shows "focus H r F0 (S - Sa \<union> Sa') now' t' M' h a F Sa'"
  unfolding focus_def
proof (intro conjI allI impI, goal_cases)
  case 3
  show ?case using f rep_top [OF r] by (auto simp: focus_def)
next
  case 5
  then show ?case using f d by (auto simp: focus_def)
next
  case (6 t'' now'' M'' Sa'')
  have eq: "S - Sa \<union> Sa' - Sa' = S - Sa" using d by blast
  have "rep H now'' t'' r F0 (S - Sa \<union> Sa'') M''"
    using 6 eq n s M b by (intro focusD [OF f]) auto
  then show ?case using eq by simp
qed (use r l in auto)

lemma focus_child:
  assumes f: "focus H r F0 S now t M (Suc h) a F Sa"
  obtains es Sf where "index_in t a es" "index_ok now F es" "length (active_entries es) < FAN_OUT (sizes t)"
    "Sa = insert a (\<Union>e \<in> set (active_entries es). Sf e)"
    "\<And>e. e \<in> set (active_entries es) \<Longrightarrow> a \<notin> Sf e \<and> fill_min t (e_child e) \<and> e_child e \<noteq> r
       \<and> focus H r F0 S now t M h (e_child e) (e_fence e) (Sf e)"
    "\<And>e f. e \<in> set (active_entries es) \<Longrightarrow> f \<in> set (active_entries es) \<Longrightarrow> e \<noteq> f \<Longrightarrow> Sf e \<inter> Sf f = {}"
proof -
  obtain es Sf where r: "index_in t a es" "index_ok now F es" "length (active_entries es) < FAN_OUT (sizes t)"
    "Sa = insert a (\<Union>e \<in> set (active_entries es). Sf e)"
    and c: "\<forall>e \<in> set (active_entries es). a \<notin> Sf e \<and> fill_min t (e_child e) \<and> rep h now t (e_child e) (e_fence e) (Sf e) M"
    and dj: "\<forall>e \<in> set (active_entries es). \<forall>f \<in> set (active_entries es). e \<noteq> f \<longrightarrow> Sf e \<inter> Sf f = {}"
    using focus_rep [OF f] by auto
  have SaS: "Sa \<subseteq> S" "r \<in> S" "a \<noteq> r \<longrightarrow> fill_min t a \<and> r \<notin> Sa" using f by (simp_all add: focus_def)
  have "focus H r F0 S now t M h (e_child e) (e_fence e) (Sf e)" "e_child e \<noteq> r" if e: "e \<in> set (active_entries es)" for e
  proof -
    have rep: "rep h now t (e_child e) (e_fence e) (Sf e) M" and ae: "a \<notin> Sf e" and mn: "fill_min t (e_child e)"
      using c e by blast+
    have sub: "Sf e \<subseteq> Sa" using r(4) e by blast
    have rn: "r \<notin> Sf e" using SaS sub ae by (cases "a = r") auto
    then show ne: "e_child e \<noteq> r" using rep_top [OF rep] by blast
    have fence: "contains F k" if "contains (e_fence e) k" for k
      using index_okD(4) [OF r(2)] e that unfolding tiles_def by blast
    show "focus H r F0 S now t M h (e_child e) (e_fence e) (Sf e)"
      unfolding focus_def
    proof (intro conjI allI impI, goal_cases)
      case (6 t' now' M' Sc)
      have at: "node_at t' b = node_at t b" if "b \<in> S" "b \<notin> Sf e" for b using 6(3) that by blast
      have ata: "node_at t' a = node_at t a" using at [of a] SaS r(4) ae by blast
      define Sg where "Sg = Sf(e := Sc)"
      have sib: "rep h now' t' (e_child f) (e_fence f) (Sf f) M' \<and> fill_min t' (e_child f)"
        if f: "f \<in> set (active_entries es)" "f \<noteq> e" for f
      proof -
        have rf: "rep h now t (e_child f) (e_fence f) (Sf f) M" "fill_min t (e_child f)" using c f by blast+
        have nf: "node_at t' b = node_at t b" if "b \<in> Sf f" for b
          using at [of b] dj e f that SaS(1) r(4) by blast
        have "\<not> contains (e_fence e) k" if "contains (e_fence f) k" for k
          using active_disjoint [OF index_okD(3) [OF r(2)], of f e] not_overlap_contains e f that by fastforce
        then have "rep h now' t' (e_child f) (e_fence f) (Sf f) M'"
          using rep_frame [OF rf(1) nf 6(2,1)] 6(5) by blast
        then show ?thesis using fill_min_cong [OF nf 6(2)] rf rep_top [OF rf(1)] by blast
      qed
      have Sc: "Sc \<inter> (S - Sf e) = {}" by (rule 6(4))
      have all: "a \<notin> Sg f \<and> fill_min t' (e_child f) \<and> rep h now' t' (e_child f) (e_fence f) (Sg f) M'"
        if f: "f \<in> set (active_entries es)" for f
      proof (cases "f = e")
        case True
        then show ?thesis using 6(6,7) ne Sc SaS r(4) ae by (auto simp: Sg_def)
      next
        case False
        then show ?thesis using sib [OF f] c f by (simp add: Sg_def)
      qed
      have dj': "Sg f \<inter> Sg g = {}" if fg: "f \<in> set (active_entries es)" "g \<in> set (active_entries es)" "f \<noteq> g" for f g
      proof -
        have sf: "Sf x \<subseteq> S - Sf e" if "x \<in> set (active_entries es)" "x \<noteq> e" for x
          using dj e that SaS(1) r(4) by blast
        show ?thesis
          using sf [OF fg(1)] sf [OF fg(2)] Sc dj fg by (cases "f = e"; cases "g = e") (auto simp: Sg_def)
      qed
      have set': "insert a (\<Union>f \<in> set (active_entries es). Sg f) = Sa - Sf e \<union> Sc"
        using r(4) e ae dj unfolding Sg_def by (auto split: if_splits; blast)
      have "rep (Suc h) now' t' a F (Sa - Sf e \<union> Sc) M'"
        unfolding set' [symmetric] rep.simps
      proof (intro exI [of _ es] exI [of _ Sg] conjI ballI impI)
        show "index_in t' a es" using index_in_cong [OF ata 6(2)] r(1) by simp
        show "length (active_entries es) < FAN_OUT (sizes t')" using r(3) 6(2) by simp
      qed (use all dj' index_ok_mono [OF r(2) 6(1)] in blast)+
      moreover have "fill_min t' a" if "a \<noteq> r" using that SaS(3) fill_min_cong [OF ata 6(2)] by blast
      ultimately have "rep H now' t' r F0 (S - Sa \<union> (Sa - Sf e \<union> Sc)) M'"
        using 6(1,2,5) at sub Sc fence SaS(1) by (intro focusD [OF f]) blast+
      moreover have "S - Sa \<union> (Sa - Sf e \<union> Sc) = S - Sf e \<union> Sc" using SaS(1) sub by blast
      ultimately show ?case by simp
    qed (use rep sub SaS mn rn in auto)
  qed
  then show thesis using that [OF r] c dj by blast
qed

end
