(* ===== verification/Node_Parts.thy ===== *)
theory Node_Parts
  imports Tree_Rep
begin

text \<open>
  What a structure modification moves: the live records of a leaf, the active entries of an
  internal page. A part is a set of them for a fence, in any order; parts can be permuted, joined,
  and cut at a key. Splits, merges and redistributions are compositions of these.
\<close>

lemma distinct_map_sorted_wrt: "sorted_wrt (\<lambda>x y. f x \<noteq> f y) xs \<Longrightarrow> distinct (map f xs)"
  by (induction xs) auto

section \<open>Records\<close>

definition agrees :: "'k::linorder interval \<Rightarrow> ('k, 'p) record_point list \<Rightarrow> ('k \<rightharpoonup> 'p) \<Rightarrow> bool" where
  "agrees F rs M \<longleftrightarrow> (\<forall>k x. contains F k \<longrightarrow> (M k = Some x \<longleftrightarrow> (\<exists>r \<in> set rs. r_key r = k \<and> r_payload r = x)))"

definition leaf_part :: "version \<Rightarrow> 'k::linorder interval \<Rightarrow> ('k, 'p) record_point list \<Rightarrow> ('k \<rightharpoonup> 'p) \<Rightarrow> bool" where
  "leaf_part now F rs M \<longleftrightarrow> distinct (map r_key rs) \<and> agrees F rs M
     \<and> (\<forall>r \<in> set rs. live r \<and> record_ok now r \<and> contains F (r_key r))"

lemma leaf_part_permuted:
  assumes "leaf_part now F rs M" and "mset rs' = mset rs"
  shows "leaf_part now F rs' M"
proof -
  have "set rs' = set rs" using assms(2) by (rule mset_eq_setD)
  moreover have "distinct (map r_key rs')"
    using assms by (metis leaf_part_def mset_eq_imp_distinct_iff mset_map)
  ultimately show ?thesis using assms(1) by (simp add: leaf_part_def agrees_def)
qed

lemma leaf_part_join:
  assumes "leaf_part now F1 rs1 M" and "leaf_part now F2 rs2 M" and "\<not> overlap F1 F2" and "tiles F {F1, F2}"
  shows "leaf_part now F (rs1 @ rs2) M"
proof -
  have key: "contains F k \<longleftrightarrow> contains F1 k \<or> contains F2 k" for k using assms(4) by (simp add: tiles_def)
  have in1: "contains F1 (r_key r)" if "r \<in> set rs1" for r using assms(1) that by (simp add: leaf_part_def)
  have in2: "contains F2 (r_key r)" if "r \<in> set rs2" for r using assms(2) that by (simp add: leaf_part_def)
  have dj: "\<not> (contains F1 k \<and> contains F2 k)" for k using not_overlap_contains [OF assms(3)] by blast
  have "agrees F (rs1 @ rs2) M"
    unfolding agrees_def
  proof (intro allI impI)
    fix k x assume "contains F k"
    then consider "contains F1 k" "\<not> contains F2 k" | "contains F2 k" "\<not> contains F1 k" using key dj by blast
    then show "M k = Some x \<longleftrightarrow> (\<exists>r \<in> set (rs1 @ rs2). r_key r = k \<and> r_payload r = x)"
      using assms(1,2) in1 in2 by cases (auto simp: leaf_part_def agrees_def)
  qed
  moreover have "distinct (map r_key (rs1 @ rs2))"
    using assms(1,2) in1 in2 dj by (fastforce simp: leaf_part_def)
  ultimately show ?thesis using assms(1,2) key by (auto simp: leaf_part_def)
qed

lemma tiles_pair: "tiles F {f, g} \<longleftrightarrow> (\<forall>k. contains F k \<longleftrightarrow> contains f k \<or> contains g k)"
  by (simp add: tiles_def)

definition pred_law :: "('k::linorder \<Rightarrow> 'k) \<Rightarrow> bool" where
  "pred_law dec \<longleftrightarrow> (\<forall>y k x. y < k \<longrightarrow> (x \<le> dec k \<longleftrightarrow> x < k))"

lemma pred_lawD: "pred_law dec \<Longrightarrow> y < k \<Longrightarrow> x \<le> dec k \<longleftrightarrow> x < k"
  unfolding pred_law_def by blast

text \<open>The two fences of a cut.\<close>

lemma cut_fences:
  fixes F :: "'k::linorder interval"
  assumes "pred_law dec" and "contains F y" and "contains F s" and "y < s"
  shows "tiles F {interval_new (lower F) (dec s), interval_new s (upper F)}"
    and "\<not> overlap (interval_new (lower F) (dec s)) (interval_new s (upper F))"
    and "nonempty (interval_new (lower F) (dec s))" and "nonempty (interval_new s (upper F))"
    and "contains (interval_new (lower F) (dec s)) k \<longleftrightarrow> contains F k \<and> k < s"
    and "contains (interval_new s (upper F)) k \<longleftrightarrow> contains F k \<and> s \<le> k"
proof -
  note dec = pred_lawD [OF assms(1,4)]
  show l: "contains (interval_new (lower F) (dec s)) k \<longleftrightarrow> contains F k \<and> k < s" for k
    using assms(3) by (auto simp: contains_def dec)
  show r: "contains (interval_new s (upper F)) k \<longleftrightarrow> contains F k \<and> s \<le> k" for k
    using assms(3) by (auto simp: contains_def)
  show "tiles F {interval_new (lower F) (dec s), interval_new s (upper F)}"
    unfolding tiles_pair l r by auto
  show "\<not> overlap (interval_new (lower F) (dec s)) (interval_new s (upper F))"
    using dec [of "dec s"] by (simp add: overlap_def is_disjoint_def)
  have "lower F \<le> y" "y < s" "s \<le> upper F" using assms(2-4) by (auto simp: contains_def)
  then show "nonempty (interval_new (lower F) (dec s))" "nonempty (interval_new s (upper F))"
    by (auto simp: dec)
qed

lemma sorted_cut:
  assumes "sorted (map f xs)" and "distinct (map f xs)" and "m < length xs"
  shows "x \<in> set (take m xs) \<Longrightarrow> f x < f (xs ! m)" and "x \<in> set (drop m xs) \<Longrightarrow> f (xs ! m) \<le> f x"
proof -
  assume "x \<in> set (take m xs)"
  then obtain i where i: "i < m" "x = xs ! i" unfolding in_set_conv_nth by auto
  then have "f (xs ! i) \<le> f (xs ! m)" using assms by (simp add: sorted_iff_nth_mono)
  moreover have "f (xs ! i) \<noteq> f (xs ! m)" using i assms(2,3) by (auto simp: distinct_conv_nth)
  ultimately show "f x < f (xs ! m)" using i by simp
next
  assume "x \<in> set (drop m xs)"
  moreover have "sorted (map f (drop m xs))" using assms(1) by (simp add: drop_map [symmetric] sorted_wrt_drop)
  moreover have "drop m xs = xs ! m # drop (Suc m) xs" using assms(3) by (simp add: Cons_nth_drop_Suc)
  ultimately show "f (xs ! m) \<le> f x" by auto
qed

lemma leaf_part_cut:
  assumes p: "leaf_part now F rs M" and s: "sorted (map r_key rs)" and m: "0 < m" "m < length rs"
    and dec: "pred_law dec"
  shows "leaf_part now (interval_new (lower F) (dec (r_key (rs ! m)))) (take m rs) M"
    and "leaf_part now (interval_new (r_key (rs ! m)) (upper F)) (drop m rs) M"
    and "contains F (r_key (rs ! 0))" and "contains F (r_key (rs ! m))" and "r_key (rs ! 0) < r_key (rs ! m)"
proof -
  have d: "distinct (map r_key rs)" and ag: "agrees F rs M"
    and ok: "\<And>r. r \<in> set rs \<Longrightarrow> live r \<and> record_ok now r \<and> contains F (r_key r)"
    using p by (simp_all add: leaf_part_def)
  have ne: "0 < length rs" using m by linarith
  note cut = sorted_cut [OF s d m(2)]
  have "rs ! 0 \<in> set (take m rs)"
    using m by (cases rs; cases m) simp_all
  then show lt: "r_key (rs ! 0) < r_key (rs ! m)" by (rule cut(1))
  show in0: "contains F (r_key (rs ! 0))" using ok nth_mem [OF ne] by blast
  show inm: "contains F (r_key (rs ! m))" using ok nth_mem [OF m(2)] by blast
  note fences = cut_fences(5,6) [OF dec in0 inm lt]
  have tk: "r \<in> set (take m rs) \<longleftrightarrow> r \<in> set rs \<and> r_key r < r_key (rs ! m)"
    and dp: "r \<in> set (drop m rs) \<longleftrightarrow> r \<in> set rs \<and> r_key (rs ! m) \<le> r_key r" for r
  proof -
    have "set rs = set (take m rs) \<union> set (drop m rs)" by (metis append_take_drop_id set_append)
    then show "r \<in> set (take m rs) \<longleftrightarrow> r \<in> set rs \<and> r_key r < r_key (rs ! m)"
      "r \<in> set (drop m rs) \<longleftrightarrow> r \<in> set rs \<and> r_key (rs ! m) \<le> r_key r"
      using cut [of r] by (auto simp: not_less [symmetric])
  qed
  have "agrees (interval_new (lower F) (dec (r_key (rs ! m)))) (take m rs) M"
    unfolding agrees_def fences Bex_def tk using ag by (auto simp: agrees_def)
  then show "leaf_part now (interval_new (lower F) (dec (r_key (rs ! m)))) (take m rs) M"
    unfolding leaf_part_def fences Ball_def tk using ok d by (auto simp: take_map [symmetric] distinct_take)
  have "agrees (interval_new (r_key (rs ! m)) (upper F)) (drop m rs) M"
    unfolding agrees_def fences Bex_def dp using ag by (auto simp: agrees_def)
  then show "leaf_part now (interval_new (r_key (rs ! m)) (upper F)) (drop m rs) M"
    unfolding leaf_part_def fences Ball_def dp using ok d by (auto simp: drop_map [symmetric] distinct_drop)
qed

text \<open>From a leaf to its part and back.\<close>

lemma leaf_part_of_rep:
  assumes "rep 0 now t a F S M"
  obtains rs where "leaf_in t a rs" "leaf_part now F (live_records rs) M" "leaf_ok now rs"
proof -
  obtain rs where rs: "leaf_in t a rs" "leaf_ok now rs" "\<And>r. r \<in> set rs \<Longrightarrow> contains F (r_key r)"
    "\<And>k. contains F k \<Longrightarrow> M k = leaf_now rs k"
    using assms by auto
  have "sorted_wrt (\<lambda>r q. r_key r \<noteq> r_key q) (live_records rs)"
    using rs(2) by (intro sorted_wrt_mono_rel [OF _ sorted_wrt_filter, of _ _ followed_by])
      (auto simp: leaf_ok_def followed_by_def dest: ends_by_not_live)
  then have "distinct (map r_key (live_records rs))" by (rule distinct_map_sorted_wrt)
  then have "leaf_part now F (live_records rs) M"
    using rs leaf_now_Some_iff [OF rs(2)] by (auto simp: leaf_part_def agrees_def leaf_ok_def)
  then show thesis using that rs by blast
qed

lemma leaf_part_ok:
  assumes "leaf_part now F rs M" and "sorted (map r_insert rs)"
  shows "leaf_ok now rs"
proof -
  have "followed_by (rs ! i) (rs ! j)" if "i < j" "j < length rs" for i j
    using assms that by (auto simp: followed_by_def leaf_part_def distinct_conv_nth sorted_iff_nth_mono)
  then show ?thesis using assms(1) by (simp add: leaf_ok_def leaf_part_def sorted_wrt_iff_nth_less)
qed

lemma rep_of_leaf_part:
  assumes "leaf_part now F rs M" and "sorted (map r_insert rs)" and "leaf_in t a rs"
  shows "rep 0 now t a F {a} M"
proof -
  note ok = leaf_part_ok [OF assms(1,2)]
  have "M k = leaf_now rs k" if "contains F k" for k
  proof -
    have "M k = Some x \<longleftrightarrow> leaf_now rs k = Some x" for x
      unfolding leaf_now_Some_iff [OF ok] using assms(1) that by (auto simp: leaf_part_def agrees_def)
    then show ?thesis by (metis option.exhaust)
  qed
  then show ?thesis using assms(1,3) ok by (auto simp: leaf_part_def)
qed

section \<open>Entries\<close>

abbreviation e_lower :: "'k entry \<Rightarrow> 'k" where
  "e_lower e \<equiv> lower (e_fence e)"

definition entry_rep ::
    "nat \<Rightarrow> version \<Rightarrow> ('k::linorder, 'p) mvbt \<Rightarrow> ('k \<rightharpoonup> 'p) \<Rightarrow> 'k entry \<Rightarrow> addr set \<Rightarrow> bool" where
  "entry_rep h now t M e S \<longleftrightarrow> e_active e \<and> into_cmp (e_version e) < now \<and> nonempty (e_fence e)
     \<and> fill_min t (e_child e) \<and> rep h now t (e_child e) (e_fence e) S M"

definition index_part ::
    "nat \<Rightarrow> version \<Rightarrow> ('k::linorder, 'p) mvbt \<Rightarrow> 'k interval \<Rightarrow> 'k entry list \<Rightarrow> ('k entry \<Rightarrow> addr set)
       \<Rightarrow> ('k \<rightharpoonup> 'p) \<Rightarrow> bool" where
  "index_part h now t F es Sf M \<longleftrightarrow> distinct es \<and> (\<forall>e \<in> set es. entry_rep h now t M e (Sf e))
     \<and> (\<forall>e \<in> set es. \<forall>f \<in> set es. e \<noteq> f \<longrightarrow> \<not> overlap (e_fence e) (e_fence f) \<and> Sf e \<inter> Sf f = {})
     \<and> tiles F (e_fence ` set es)"

lemma index_partD:
  assumes "index_part h now t F es Sf M"
  shows "distinct es" and "e \<in> set es \<Longrightarrow> entry_rep h now t M e (Sf e)"
    and "e \<in> set es \<Longrightarrow> f \<in> set es \<Longrightarrow> e \<noteq> f \<Longrightarrow> \<not> overlap (e_fence e) (e_fence f)"
    and "e \<in> set es \<Longrightarrow> f \<in> set es \<Longrightarrow> e \<noteq> f \<Longrightarrow> Sf e \<inter> Sf f = {}"
    and "contains F k \<longleftrightarrow> (\<exists>e \<in> set es. contains (e_fence e) k)"
  using assms unfolding index_part_def tiles_def by blast+

lemma entry_repD:
  assumes "entry_rep h now t M e S"
  shows "e_active e" "into_cmp (e_version e) < now" "nonempty (e_fence e)" "fill_min t (e_child e)"
    "rep h now t (e_child e) (e_fence e) S M"
  using assms by (simp_all add: entry_rep_def)

lemma entry_rep_frame:
  assumes "entry_rep h now t M e S" and "\<And>b. b \<in> S \<Longrightarrow> node_at t' b = node_at t b" and "sizes t' = sizes t"
    and "now \<le> now'"
  shows "entry_rep h now' t' M e S"
proof -
  note e = entry_repD [OF assms(1)]
  have "node_at t' (e_child e) = node_at t (e_child e)" using assms(2) rep_top [OF e(5)] by blast
  then show ?thesis
    using e rep_frame [OF e(5) assms(2-4)] fill_min_cong [of t' "e_child e" t] assms(3,4)
    by (auto simp: entry_rep_def)
qed

lemma index_part_frame:
  assumes "index_part h now t F es Sf M" and "\<And>e b. e \<in> set es \<Longrightarrow> b \<in> Sf e \<Longrightarrow> node_at t' b = node_at t b"
    and "sizes t' = sizes t" and "now \<le> now'"
  shows "index_part h now' t' F es Sf M"
proof -
  have "entry_rep h now' t' M e (Sf e)" if "e \<in> set es" for e
    by (rule entry_rep_frame [OF index_partD(2) [OF assms(1) that] assms(2) [OF that] assms(3,4)])
  then show ?thesis using assms(1) unfolding index_part_def by blast
qed

lemma index_part_permuted:
  assumes "index_part h now t F es Sf M" and "mset es' = mset es"
  shows "index_part h now t F es' Sf M"
  using assms mset_eq_setD [OF assms(2)] mset_eq_imp_distinct_iff [OF assms(2)] unfolding index_part_def by simp

lemma index_part_lower_distinct:
  assumes "index_part h now t F es Sf M"
  shows "distinct (map e_lower es)"
proof -
  have "e = f" if ef: "e \<in> set es" "f \<in> set es" "e_lower e = e_lower f" for e f
  proof -
    have "nonempty (e_fence e)" "nonempty (e_fence f)"
      using entry_repD(3) index_partD(2) [OF assms] ef(1,2) by blast+
    then have "overlap (e_fence e) (e_fence f)" using ef(3) by (simp add: overlap_def is_disjoint_def not_less)
    then show ?thesis using index_partD(3) [OF assms ef(1,2)] by blast
  qed
  then show ?thesis using index_partD(1) [OF assms] by (auto simp: distinct_map inj_on_def)
qed

text \<open>Fences that do not overlap lie in the order of their lower bounds.\<close>

lemma fence_order:
  "\<not> overlap f g \<Longrightarrow> nonempty f \<Longrightarrow> nonempty g \<Longrightarrow> lower f \<le> lower g \<Longrightarrow> upper f < lower g"
  by (auto simp: overlap_def is_disjoint_def)

lemma index_part_cut:
  assumes p: "index_part h now t F es Sf M" and s: "sorted (map e_lower es)" and m: "0 < m" "m < length es"
    and dec: "pred_law dec"
  shows "index_part h now t (interval_new (lower F) (dec (e_lower (es ! m)))) (take m es) Sf M"
    and "index_part h now t (interval_new (e_lower (es ! m)) (upper F)) (drop m es) Sf M"
    and "contains F (e_lower (es ! 0))" and "contains F (e_lower (es ! m))" and "e_lower (es ! 0) < e_lower (es ! m)"
proof -
  have ne: "0 < length es" using m by linarith
  note cut = sorted_cut [OF s index_part_lower_distinct [OF p] m(2)]
  have "es ! 0 \<in> set (take m es)" using m by (cases es; cases m) simp_all
  then show lt: "e_lower (es ! 0) < e_lower (es ! m)" by (rule cut(1))
  have inF: "contains F (e_lower e)" if "e \<in> set es" for e
    using index_partD(5) [OF p] entry_repD(3) [OF index_partD(2) [OF p that]] that by (auto simp: contains_def)
  show in0: "contains F (e_lower (es ! 0))" by (rule inF [OF nth_mem [OF ne]])
  show inm: "contains F (e_lower (es ! m))" by (rule inF [OF nth_mem [OF m(2)]])
  note fences = cut_fences(5,6) [OF dec in0 inm lt]
  have split: "set es = set (take m es) \<union> set (drop m es)" by (metis append_take_drop_id set_append)
  have low: "upper (e_fence e) < e_lower (es ! m)" if e: "e \<in> set (take m es)" for e
  proof -
    have mem: "e \<in> set es" "es ! m \<in> set es" using e split nth_mem [OF m(2)] by blast+
    moreover have "e \<noteq> es ! m" using cut(1) [OF e] by auto
    ultimately show ?thesis
      using cut(1) [OF e] index_partD(3) [OF p mem] entry_repD(3) [OF index_partD(2) [OF p]]
      by (intro fence_order) auto
  qed
  have tk: "contains F k \<and> k < e_lower (es ! m) \<longleftrightarrow> (\<exists>e \<in> set (take m es). contains (e_fence e) k)" for k
    unfolding index_partD(5) [OF p] split
    using low cut(2) by (fastforce simp: contains_def)
  have dp: "contains F k \<and> e_lower (es ! m) \<le> k \<longleftrightarrow> (\<exists>e \<in> set (drop m es). contains (e_fence e) k)" for k
    unfolding index_partD(5) [OF p] split
    using low cut(2) by (fastforce simp: contains_def)
  show "index_part h now t (interval_new (lower F) (dec (e_lower (es ! m)))) (take m es) Sf M"
    using p split unfolding index_part_def tiles_def fences tk by (auto simp: distinct_take)
  show "index_part h now t (interval_new (e_lower (es ! m)) (upper F)) (drop m es) Sf M"
    using p split unfolding index_part_def tiles_def fences dp by (auto simp: distinct_drop)
qed

lemma index_part_join:
  assumes p: "index_part h now t F1 es1 Sf1 M" and q: "index_part h now t F2 es2 Sf2 M"
    and "\<not> overlap F1 F2" and F: "tiles F {F1, F2}"
    and dj: "\<And>e f. e \<in> set es1 \<Longrightarrow> f \<in> set es2 \<Longrightarrow> Sf1 e \<inter> Sf2 f = {}"
  defines "Sf \<equiv> \<lambda>e. if e \<in> set es1 then Sf1 e else Sf2 e"
  shows "index_part h now t F (es1 @ es2) Sf M"
    and "(\<Union>e \<in> set (es1 @ es2). Sf e) = (\<Union>e \<in> set es1. Sf1 e) \<union> (\<Union>e \<in> set es2. Sf2 e)"
proof -
  have apart: "\<not> overlap (e_fence e) (e_fence f)" if e: "e \<in> set es1" and f: "f \<in> set es2" for e f
  proof
    assume o: "overlap (e_fence e) (e_fence f)"
    have "nonempty (e_fence e)" "nonempty (e_fence f)"
      using entry_repD(3) index_partD(2) [OF p e] index_partD(2) [OF q f] by blast+
    then have "contains (e_fence e) (max (e_lower e) (e_lower f)) \<and> contains (e_fence f) (max (e_lower e) (e_lower f))"
      using o by (auto simp: overlap_def is_disjoint_def contains_def not_less)
    then show False
      using not_overlap_contains [OF assms(3)] index_partD(5) [OF p] index_partD(5) [OF q] e f by blast
  qed
  have new: "f \<notin> set es1" if "f \<in> set es2" for f
    using apart [OF _ that] nonempty_overlap entry_repD(3) index_partD(2) [OF q that] by blast
  then have Sf2: "Sf f = Sf2 f" if "f \<in> set es2" for f using that by (auto simp: Sf_def)
  have Sf1: "Sf e = Sf1 e" if "e \<in> set es1" for e using that by (simp add: Sf_def)
  show "(\<Union>e \<in> set (es1 @ es2). Sf e) = (\<Union>e \<in> set es1. Sf1 e) \<union> (\<Union>e \<in> set es2. Sf2 e)"
    using Sf1 Sf2 by auto
  have "entry_rep h now t M e (Sf e)" if "e \<in> set (es1 @ es2)" for e
    using that index_partD(2) [OF p] index_partD(2) [OF q] Sf1 Sf2 by (metis Un_iff set_append)
  moreover have "\<not> overlap (e_fence e) (e_fence f) \<and> Sf e \<inter> Sf f = {}"
    if ef: "e \<in> set (es1 @ es2)" "f \<in> set (es1 @ es2)" "e \<noteq> f" for e f
  proof -
    consider "e \<in> set es1" "f \<in> set es1" | "e \<in> set es2" "f \<in> set es2"
      | "e \<in> set es1" "f \<in> set es2" | "e \<in> set es2" "f \<in> set es1"
      using ef by auto
    then show ?thesis
    proof cases
      case 4
      then show ?thesis using apart [of f e] dj [of f e] Sf1 Sf2 overlap_sym by blast
    qed (use apart dj Sf1 Sf2 ef(3) index_partD(3,4) [OF p] index_partD(3,4) [OF q] in simp_all)
  qed
  moreover have "tiles F (e_fence ` set (es1 @ es2))"
    using F index_partD(5) [OF p] index_partD(5) [OF q] unfolding tiles_pair tiles_def by auto
  moreover have "distinct (es1 @ es2)" using index_partD(1) [OF p] index_partD(1) [OF q] new by auto
  ultimately show "index_part h now t F (es1 @ es2) Sf M" unfolding index_part_def by blast
qed

text \<open>From a page to its part and back.\<close>

lemma active_entries_distinct:
  assumes "index_ok now F es"
  shows "distinct (active_entries es)"
proof -
  have "sorted_wrt (\<lambda>e f. e_active e \<longrightarrow> \<not> overlap (e_fence e) (e_fence f)) (active_entries es)"
    using index_okD(3) [OF assms] unfolding shadow_free_def by (rule sorted_wrt_filter)
  then have "sorted_wrt (\<lambda>e f. e \<noteq> f) (active_entries es)"
    by (rule sorted_wrt_mono_rel [rotated]) (use index_okD(2) [OF assms] nonempty_overlap in fastforce)
  then have "distinct (map id (active_entries es))" by (intro distinct_map_sorted_wrt) simp
  then show ?thesis by simp
qed

lemma index_part_of_rep:
  assumes "rep (Suc h) now t a F S M"
  obtains es Sf where "index_in t a es" "index_ok now F es" "length (active_entries es) < FAN_OUT (sizes t)"
    "index_part h now t F (active_entries es) Sf M" "S = insert a (\<Union>e \<in> set (active_entries es). Sf e)"
    "\<And>e. e \<in> set (active_entries es) \<Longrightarrow> a \<notin> Sf e"
proof -
  obtain es Sf where r: "index_in t a es" "index_ok now F es" "length (active_entries es) < FAN_OUT (sizes t)"
    "S = insert a (\<Union>e \<in> set (active_entries es). Sf e)"
    and c: "\<forall>e \<in> set (active_entries es). a \<notin> Sf e \<and> fill_min t (e_child e) \<and> rep h now t (e_child e) (e_fence e) (Sf e) M"
    and d: "\<forall>e \<in> set (active_entries es). \<forall>f \<in> set (active_entries es). e \<noteq> f \<longrightarrow> Sf e \<inter> Sf f = {}"
    using assms by auto
  have "index_part h now t F (active_entries es) Sf M"
    unfolding index_part_def entry_rep_def
    using active_entries_distinct [OF r(2)] c d index_okD [OF r(2)] active_disjoint [OF index_okD(3) [OF r(2)]] by auto
  then show thesis using that r c by blast
qed

lemma index_part_ok:
  assumes "index_part h now t F es Sf M"
  shows "index_ok now F es" and "active_entries es = es"
proof -
  show act: "active_entries es = es"
    using entry_repD(1) [OF index_partD(2) [OF assms]] by (simp add: filter_id_conv)
  have "sorted_wrt (\<lambda>e f. e \<noteq> f) es" using index_partD(1) [OF assms] by (induction es) auto
  then have "shadow_free es"
    unfolding shadow_free_def by (rule sorted_wrt_mono_rel [rotated]) (use index_partD(3) [OF assms] in blast)
  moreover have "tiles F (e_fence ` set es)" using assms by (simp add: index_part_def)
  moreover from this have "contains F k" if "e \<in> set es" "contains (e_fence e) k" for e k
    using that unfolding tiles_def by blast
  ultimately show "index_ok now F es"
    using entry_repD [OF index_partD(2) [OF assms]] act last_in_set [of es] by (auto simp: index_ok_def)
qed

lemma rep_of_index_part:
  assumes "index_part h now t F es Sf M" and "index_in t a es" and "length es < FAN_OUT (sizes t)"
    and "\<And>e. e \<in> set es \<Longrightarrow> a \<notin> Sf e"
  shows "rep (Suc h) now t a F (insert a (\<Union>e \<in> set es. Sf e)) M"
  unfolding rep.simps
proof (intro exI [of _ es] exI [of _ Sf] conjI ballI impI)
  note ok = index_part_ok [OF assms(1)]
  show "index_ok now F es" by (rule ok(1))
  show "index_in t a es" by (rule assms(2))
  show "length (active_entries es) < FAN_OUT (sizes t)" using assms(3) ok(2) by simp
  show "insert a (\<Union>e \<in> set es. Sf e) = insert a (\<Union>e \<in> set (active_entries es). Sf e)" using ok(2) by simp
  show "a \<notin> Sf e" "fill_min t (e_child e)" "rep h now t (e_child e) (e_fence e) (Sf e) M"
    if "e \<in> set (active_entries es)" for e
    using that assms(4) entry_repD(4,5) [OF index_partD(2) [OF assms(1)]] by auto
  show "Sf e \<inter> Sf f = {}" if "e \<in> set (active_entries es)" "f \<in> set (active_entries es)" "e \<noteq> f" for e f
    using that index_partD(4) [OF assms(1)] by simp
qed

end
