(* ===== verification/Index_Replace.thy ===== *)
theory Index_Replace
  imports Node_Parts
begin

text \<open>
  What a repair does to the parent: it appends entries for the new nodes at the version of the
  repair and marks the entries of the old ones obsolete. The pages of \<^verbatim>\<open>internal_page.rs\<close> do it by
  uncommitted pushes, one commit of the counts and the marks; the entries afterwards are \<open>replaced\<close>.
\<close>

section \<open>The entries\<close>

definition mark_entry :: "'k entry \<Rightarrow> 'k entry" where
  "mark_entry e = (e_fence e, e_version e OR OBSOLETE_VERSION_MARK, e_child e)"

primrec mark_at :: "nat list \<Rightarrow> 'k entry list \<Rightarrow> 'k entry list" where
  "mark_at [] es = es"
| "mark_at (i # is) es = mark_at is (es[i := mark_entry (es ! i)])"

definition new_entry :: "version \<Rightarrow> 'k interval \<times> addr \<Rightarrow> 'k entry" where
  "new_entry w n = (fst n, w, snd n)"

definition replaced :: "version \<Rightarrow> nat list \<Rightarrow> ('k interval \<times> addr) list \<Rightarrow> 'k entry list \<Rightarrow> 'k entry list" where
  "replaced w is news es = mark_at is es @ map (new_entry w) news"

lemma mark_entry_simps [simp]:
  "e_fence (mark_entry e) = e_fence e" "e_child (mark_entry e) = e_child e" "\<not> e_active (mark_entry e)"
  "into_cmp (e_version (mark_entry e)) = into_cmp (e_version e)"
  "e_version (mark_entry e) = e_version e OR OBSOLETE_VERSION_MARK"
  by (simp_all add: mark_entry_def)

lemma new_entry_simps [simp]:
  "e_fence (new_entry w n) = fst n" "e_version (new_entry w n) = w" "e_child (new_entry w n) = snd n"
  by (simp_all add: new_entry_def)

lemma length_mark_at [simp]: "length (mark_at is es) = length es"
  by (induction "is" arbitrary: es) auto

lemma mark_at_nth:
  "distinct is \<Longrightarrow> set is \<subseteq> {..<length es} \<Longrightarrow> k < length es \<Longrightarrow>
     mark_at is es ! k = (if k \<in> set is then mark_entry (es ! k) else es ! k)"
proof (induction "is" arbitrary: es)
  case Nil
  then show ?case by simp
next
  case (Cons i "is")
  then show ?case by (cases "k = i") auto
qed

lemma mark_at_append:
  "set is \<subseteq> {..<length es} \<Longrightarrow> mark_at is (es @ fs) = mark_at is es @ fs"
  by (induction "is" arbitrary: es) (auto simp: nth_append list_update_append1)

lemma mark_at_mem:
  assumes "distinct is" and "set is \<subseteq> {..<length es}"
  shows "e \<in> set (mark_at is es) \<longleftrightarrow> (\<exists>i \<in> set is. e = mark_entry (es ! i)) \<or> (\<exists>i < length es. i \<notin> set is \<and> e = es ! i)"
proof -
  have "e \<in> set (mark_at is es) \<longleftrightarrow> (\<exists>k < length es. e = mark_at is es ! k)"
    by (auto simp: in_set_conv_nth)
  also have "\<dots> \<longleftrightarrow> (\<exists>k < length es. e = (if k \<in> set is then mark_entry (es ! k) else es ! k))"
    using mark_at_nth [OF assms] by (intro ex_cong1 conj_cong) simp_all
  also have "\<dots> \<longleftrightarrow> (\<exists>i \<in> set is. e = mark_entry (es ! i)) \<or> (\<exists>i < length es. i \<notin> set is \<and> e = es ! i)"
    using assms(2) by (metis lessThan_iff subsetD)
  finally show ?thesis .
qed

lemma length_active_mark_at:
  assumes "distinct is" and "set is \<subseteq> {..<length es}" and "\<And>i. i \<in> set is \<Longrightarrow> e_active (es ! i)"
  shows "length (filter e_active (mark_at is es)) + length is = length (filter e_active es)"
  using assms
proof (induction "is" arbitrary: es)
  case Nil
  then show ?case by simp
next
  case (Cons i "is")
  let ?es = "es[i := mark_entry (es ! i)]"
  have "length (filter e_active (mark_at is ?es)) + length is = length (filter e_active ?es)"
    using Cons.prems by (intro Cons.IH) (auto simp: nth_list_update)
  moreover have "length (filter e_active ?es) = length (filter e_active es) - 1" "0 < length (filter e_active es)"
    using Cons.prems length_filter_update [of i es e_active "mark_entry (es ! i)"] by auto
  ultimately show ?case by simp
qed

lemma active_replaced:
  assumes "w < VERSION_LIMIT"
  shows "active_entries (replaced w is news es) = active_entries (mark_at is es) @ map (new_entry w) news"
proof -
  have "e_active (new_entry w n)" for n :: "'a interval \<times> addr" using assms by (simp add: is_active_iff)
  then show ?thesis by (simp add: replaced_def filter_id_conv)
qed

lemma active_mark_at_mem:
  assumes "index_ok now F es" and "distinct is" and "set is \<subseteq> {..<length es}"
    and "\<And>i. i \<in> set is \<Longrightarrow> e_active (es ! i)"
  shows "e \<in> set (active_entries (mark_at is es)) \<longleftrightarrow> e \<in> set (active_entries es) \<and> (\<forall>i \<in> set is. e \<noteq> es ! i)"
proof -
  have ne: "es ! i \<noteq> es ! j" if ij: "i \<in> set is" "j < length es" "j \<notin> set is" "e_active (es ! j)" for i j
  proof
    assume eq: "es ! i = es ! j"
    have i: "i < length es" "e_active (es ! i)" using assms(3,4) ij(1) by auto
    have ov: "overlap (e_fence (es ! i)) (e_fence (es ! i))"
      using index_okD(2) [OF assms(1)] i nonempty_overlap nth_mem by blast
    have "i \<noteq> j" using ij by blast
    then show False
      using shadow_free_nth [OF index_okD(3) [OF assms(1)], of i j] shadow_free_nth [OF index_okD(3) [OF assms(1)], of j i]
        ij i eq ov by (metis linorder_neqE_nat)
  qed
  have "e \<in> set (active_entries (mark_at is es)) \<longleftrightarrow> e_active e \<and> (\<exists>j < length es. j \<notin> set is \<and> e = es ! j)"
    unfolding set_filter mem_Collect_eq mark_at_mem [OF assms(2,3)] by (metis mark_entry_simps(3))
  also have "\<dots> \<longleftrightarrow> e \<in> set (active_entries es) \<and> (\<forall>i \<in> set is. e \<noteq> es ! i)"
    unfolding set_filter mem_Collect_eq using ne by (metis in_set_conv_nth)
  finally show ?thesis .
qed

lemma active_replaced_mem:
  assumes "index_ok now F es" and "distinct is" and "set is \<subseteq> {..<length es}"
    and "\<And>i. i \<in> set is \<Longrightarrow> e_active (es ! i)" and "w < VERSION_LIMIT"
  shows "e \<in> set (active_entries (replaced w is news es)) \<longleftrightarrow>
    e \<in> set (active_entries es) \<and> (\<forall>i \<in> set is. e \<noteq> es ! i) \<or> (\<exists>n \<in> set news. e = new_entry w n)"
  using active_mark_at_mem [OF assms(1-4), of e] by (auto simp: active_replaced [OF assms(5)])

text \<open>The fences of the new nodes cover the keys of the old ones.\<close>

lemma index_ok_replaced:
  assumes ok: "index_ok now F es" and w: "now \<le> w" "w < VERSION_LIMIT"
    and d: "distinct is" and sub: "set is \<subseteq> {..<length es}" and act: "\<And>i. i \<in> set is \<Longrightarrow> e_active (es ! i)"
    and ne: "\<And>n. n \<in> set news \<Longrightarrow> nonempty (fst n)"
    and apart: "sorted_wrt (\<lambda>m n. \<not> overlap (fst m) (fst n)) news"
    and cover: "\<And>k. (\<exists>n \<in> set news. contains (fst n) k) \<longleftrightarrow> (\<exists>i \<in> set is. contains (e_fence (es ! i)) k)"
  shows "index_ok (w + 1) F (replaced w is news es)"
proof -
  note s = index_okD(3) [OF ok]
  have wl: "into_cmp w = w" using w(2) by (simp add: into_cmp_def)
  have "into_cmp (e_version e) < w + 1 \<and> nonempty (e_fence e)" if "e \<in> set (replaced w is news es)" for e
  proof -
    have "into_cmp (e_version e) < w + 1 \<and> nonempty (e_fence e)" if "e \<in> set es" for e
      using index_okD(1,2) [OF ok that] w by (auto simp: version_le_step)
    then show ?thesis
      using that sub ne wl w(2) version_step [OF w(2)] unfolding replaced_def set_append Un_iff mark_at_mem [OF d sub]
      by (fastforce simp: subset_iff)
  qed
  moreover have "shadow_free (replaced w is news es)"
  proof -
    have old: "shadow_free (mark_at is es)"
      unfolding shadow_free_def sorted_wrt_iff_nth_less
      using shadow_free_nth [OF s] by (auto simp: mark_at_nth [OF d sub])
    have "\<not> overlap (e_fence e) (fst n)" if e: "e \<in> set (mark_at is es)" "e_active e" and n: "n \<in> set news" for e n
    proof
      assume o: "overlap (e_fence e) (fst n)"
      have em: "e \<in> set (active_entries es)" "\<forall>i \<in> set is. e \<noteq> es ! i"
        using e active_mark_at_mem [OF ok d sub act, of e] by auto
      then have "nonempty (e_fence e)" "nonempty (fst n)" using index_okD(2) [OF ok] ne n by auto
      then obtain k where k: "contains (e_fence e) k" "contains (fst n) k"
        using o by (metis contains_def overlap_def is_disjoint_def linorder_le_cases not_less order_refl)
      then obtain i where i: "i \<in> set is" "contains (e_fence (es ! i)) k" using cover n by blast
      then have "es ! i \<in> set es" "e_active (es ! i)" using sub act by auto
      then show False using active_unique [OF s, of e "es ! i" k] em k i by auto
    qed
    then show ?thesis
      using old apart unfolding shadow_free_def replaced_def sorted_wrt_append sorted_wrt_map
      by (auto intro: sorted_wrt_mono_rel [rotated])
  qed
  moreover have "tiles F (e_fence ` set (active_entries (replaced w is news es)))"
  proof -
    have "contains F k \<longleftrightarrow> (\<exists>e \<in> set (active_entries es). contains (e_fence e) k)" for k
      using index_okD(4) [OF ok] unfolding tiles_def by blast
    moreover have "es ! i \<in> set (active_entries es)" if "i \<in> set is" for i using sub act that by auto
    ultimately have key: "contains F k \<longleftrightarrow>
        (\<exists>e \<in> set (active_entries es). (\<forall>i \<in> set is. e \<noteq> es ! i) \<and> contains (e_fence e) k)
        \<or> (\<exists>n \<in> set news. contains (fst n) k)" for k
      using cover [of k] by metis
    show ?thesis
      unfolding tiles_def
    proof
      fix k
      have "(\<exists>f \<in> e_fence ` set (active_entries (replaced w is news es)). contains f k) \<longleftrightarrow>
          (\<exists>e. e \<in> set (active_entries (replaced w is news es)) \<and> contains (e_fence e) k)" by blast
      also have "\<dots> \<longleftrightarrow> (\<exists>e. (e \<in> set (active_entries es) \<and> (\<forall>i \<in> set is. e \<noteq> es ! i)
          \<or> (\<exists>n \<in> set news. e = new_entry w n)) \<and> contains (e_fence e) k)"
        by (intro ex_cong1 conj_cong refl active_replaced_mem [OF ok d sub act w(2)])
      also have "\<dots> \<longleftrightarrow> contains F k"
        unfolding key conj_disj_distribR ex_disj_distrib by (intro arg_cong2 [where f = "(\<or>)"]) force+
      finally show "contains F k \<longleftrightarrow> (\<exists>f \<in> e_fence ` set (active_entries (replaced w is news es)). contains f k)"
        by simp
    qed
  qed
  moreover have "replaced w is news es \<noteq> [] \<longrightarrow> e_active (last (replaced w is news es))"
  proof (cases "news = []")
    case True
    have "is = []"
    proof (rule ccontr)
      assume "is \<noteq> []"
      then obtain i where i: "i \<in> set is" by (cases "is") auto
      then have "contains (e_fence (es ! i)) (lower (e_fence (es ! i)))"
        using index_okD(2) [OF ok, of "es ! i"] sub by (auto simp: contains_def)
      then show False using cover i True by fastforce
    qed
    then show ?thesis using True index_okD(5) [OF ok] by (simp add: replaced_def)
  next
    case False
    then show ?thesis using w(2) by (simp add: replaced_def last_map is_active_iff)
  qed
  moreover have "contains F k" if e: "e \<in> set (replaced w is news es)" "contains (e_fence e) k" for e k
  proof -
    have old: "contains F k" if "e \<in> set es" "contains (e_fence e) k" for e using index_okD(6) [OF ok that] .
    have "contains F k" if n: "n \<in> set news" "contains (fst n) k" for n
    proof -
      obtain i where "i \<in> set is" "contains (e_fence (es ! i)) k" using cover [of k] n by blast
      then show ?thesis using old [of "es ! i"] sub by auto
    qed
    note new = this
    consider i where "i < length es" "contains (e_fence (es ! i)) k" | n where "n \<in> set news" "contains (fst n) k"
      using e sub unfolding replaced_def set_append Un_iff mark_at_mem [OF d sub] by auto
    then show ?thesis using old [OF nth_mem] new by cases blast+
  qed
  ultimately show ?thesis unfolding index_ok_def by blast
qed

section \<open>The pages\<close>

text \<open>A page during a repair: what its slots hold and what its counts say.\<close>

definition raw_view :: "nat \<Rightarrow> 'k internal_page \<Rightarrow> 'k entry list \<Rightarrow> nat \<times> nat \<Rightarrow> bool" where
  "raw_view f p es c \<longleftrightarrow> internal_entries p = Some es \<and> len_counts (i_len p) = c \<and> index_cap_ok f p \<and> f < 65536"

lemma raw_view_iff:
  "raw_view f p es (length (filter e_active es), length (filter (\<lambda>e. \<not> e_active e) es)) \<longleftrightarrow>
     index_view p es \<and> index_cap_ok f p"
  by (auto simp: raw_view_def index_view_def)

lemma push_entry_cap_ok: "push_entry p e i = Some p' \<Longrightarrow> index_cap_ok f p \<Longrightarrow> index_cap_ok f p'"
  by (auto simp: internal_push_uncommitted_def index_cap_ok_def bind_eq_Some_conv dest!: array_write_length)

lemma commit_cap_ok [simp]: "index_cap_ok f (internal_commit_delta p da dd) = index_cap_ok f p"
  by (simp add: internal_commit_delta_def Let_def index_cap_ok_def)

lemma raw_append_one:
  assumes "raw_view f p es (a, d)" and "length es < f" and "0 \<le> int a + da" and "0 \<le> int d + dd" and "da + dd = 1"
  shows "\<exists>p'. push_entry p e (length es) = Some p'
    \<and> raw_view f (internal_commit_delta p' da dd) (es @ [e]) (nat (int a + da), nat (int d + dd))"
  using ip.append_one [of p es a d da dd e] assms push_entry_cap_ok by (fastforce simp: raw_view_def)

lemma raw_append_two:
  assumes "raw_view f p es (a, d)" and "Suc (length es) < f" and "0 \<le> int a + da" and "0 \<le> int d + dd" and "da + dd = 2"
  shows "\<exists>p1 p2. push_entry p e1 (length es) = Some p1 \<and> push_entry p1 e2 (Suc (length es)) = Some p2
    \<and> raw_view f (internal_commit_delta p2 da dd) (es @ [e1, e2]) (nat (int a + da), nat (int d + dd))"
proof -
  obtain p1 p2 where p: "push_entry p e1 (length es) = Some p1" "push_entry p1 e2 (Suc (length es)) = Some p2"
    "internal_entries (internal_commit_delta p2 da dd) = Some (es @ [e1, e2])"
    "len_counts (i_len (internal_commit_delta p2 da dd)) = (nat (int a + da), nat (int d + dd))"
    using ip.append_two [of p es a d da dd e1 e2] assms by (auto simp: raw_view_def)
  then show ?thesis using assms(1) push_entry_cap_ok [OF p(2) push_entry_cap_ok [OF p(1)]] by (auto simp: raw_view_def)
qed

lemma raw_mark:
  assumes "raw_view f p es c" and "i < length es"
  shows "\<exists>p'. mark_version_obsolete p i = Some p' \<and> raw_view f p' (es[i := mark_entry (es ! i)]) c"
proof -
  let ?p = "p\<lparr>version_region := (version_region p)[i := Some (e_version (es ! i) OR OBSOLETE_VERSION_MARK)]\<rparr>"
  have en: "raw_slice (key_interval_region p) (sum_len p) = Some (map e_fence es)"
    "raw_slice (version_region p) (sum_len p) = Some (map e_version es)"
    "raw_slice (pointer_region p) (sum_len p) = Some (map e_child es)"
    using assms(1) by (simp_all add: raw_view_def internal_entries_iff)
  have "array_read (version_region p) i = Some (e_version (es ! i))"
    using array_read_raw_slice [OF en(2), of i] assms(2) raw_slice_length [OF en(1)] by simp
  moreover have "raw_slice (version_region ?p) (sum_len ?p) = Some (map e_version (es[i := mark_entry (es ! i)]))"
    using raw_slice_write_inside [OF en(2), of i] assms(2) raw_slice_length [OF en(1)]
    by (simp add: map_update sum_len_def)
  moreover have "map e_fence (es[i := mark_entry (es ! i)]) = map e_fence es"
    "map e_child (es[i := mark_entry (es ! i)]) = map e_child es"
    using assms(2) by (simp_all add: map_update list_update_same_conv)
  ultimately show ?thesis
    using assms(1) en by (simp add: mark_version_obsolete_def raw_view_def internal_entries_iff index_cap_ok_def sum_len_def)
qed

text \<open>The counts after the pushes, the commit and the marks are those of the entries.\<close>

lemma raw_replaced:
  assumes "raw_view f p (replaced w is news es) (nat (int a + da), nat (int d + dd))"
    and "a = length (filter e_active es)" and "d = length (filter (\<lambda>e. \<not> e_active e) es)"
    and "w < VERSION_LIMIT" and "distinct is" and "set is \<subseteq> {..<length es}"
    and "\<And>i. i \<in> set is \<Longrightarrow> e_active (es ! i)" and "da = int (length news) - int (length is)" and "dd = int (length is)"
  shows "index_view p (replaced w is news es) \<and> index_cap_ok f p"
proof -
  let ?es = "replaced w is news es"
  have act: "length (filter e_active ?es) + length is = a + length news"
    using length_active_mark_at [OF assms(5-7)] assms(2) by (simp add: active_replaced [OF assms(4)])
  have "length (filter e_active ?es) + length (filter (\<lambda>e. \<not> e_active e) ?es) = length es + length news"
    using sum_length_filter_compl [of e_active ?es] by (simp add: replaced_def)
  moreover have "a + d = length es" using sum_length_filter_compl [of e_active es] assms(2,3) by simp
  ultimately have "nat (int a + da) = length (filter e_active ?es)"
    "nat (int d + dd) = length (filter (\<lambda>e. \<not> e_active e) ?es)"
    using act assms(8,9) by linarith+
  then show ?thesis using assms(1) raw_view_iff by metis
qed

text \<open>The four shapes of a replacement: one or two new entries, one or two old ones.\<close>

definition page_room :: "nat \<Rightarrow> 'k internal_page \<Rightarrow> 'k entry list \<Rightarrow> bool" where
  "page_room f p es \<longleftrightarrow> index_view p es \<and> index_cap_ok f p \<and> length es + 2 \<le> f"

lemma page_room_raw:
  assumes "page_room f p es"
  shows "raw_view f p es (length (filter e_active es), length (filter (\<lambda>e. \<not> e_active e) es))"
    and "length es < f" and "Suc (length es) < f"
  using assms by (simp_all add: page_room_def raw_view_iff)

lemma active_index_count: "i < length es \<Longrightarrow> e_active (es ! i) \<Longrightarrow> 0 < length (filter e_active es)"
  by (metis filter_empty_conv length_greater_0_conv nth_mem)

lemma replace_1_1:
  assumes r: "page_room f p es" and w: "w < VERSION_LIMIT" and i: "i < length es" "e_active (es ! i)"
  shows "\<exists>p1 p2. internal_push_uncommitted p g w c (length es) = Some p1
    \<and> mark_version_obsolete (internal_commit_delta p1 0 1) i = Some p2
    \<and> index_view p2 (replaced w [i] [(g, c)] es) \<and> index_cap_ok f p2"
proof -
  note v = page_room_raw [OF r]
  obtain p1 where p1: "push_entry p (new_entry w (g, c)) (length es) = Some p1"
    "raw_view f (internal_commit_delta p1 0 1) (es @ [new_entry w (g, c)])
      (nat (int (length (filter e_active es)) + 0), nat (int (length (filter (\<lambda>e. \<not> e_active e) es)) + 1))"
    using raw_append_one [OF v(1,2), of 0 1 "new_entry w (g, c)"] by auto
  obtain p2 where p2: "mark_version_obsolete (internal_commit_delta p1 0 1) i = Some p2"
    "raw_view f p2 (replaced w [i] [(g, c)] es)
      (nat (int (length (filter e_active es)) + 0), nat (int (length (filter (\<lambda>e. \<not> e_active e) es)) + 1))"
    using raw_mark [OF p1(2), of i] i by (auto simp: replaced_def nth_append list_update_append1)
  have "index_view p2 (replaced w [i] [(g, c)] es) \<and> index_cap_ok f p2"
    by (rule raw_replaced [OF p2(2) refl refl w]) (use i in auto)
  then show ?thesis using p1(1) p2(1) by auto
qed

lemma replace_2_1:
  assumes r: "page_room f p es" and w: "w < VERSION_LIMIT" and i: "i < length es" "e_active (es ! i)"
  shows "\<exists>p1 p2 p3. internal_push_uncommitted p g w c (length es) = Some p1
    \<and> internal_push_uncommitted p1 g' w c' (length es + 1) = Some p2
    \<and> mark_version_obsolete (internal_commit_delta p2 1 1) i = Some p3
    \<and> index_view p3 (replaced w [i] [(g, c), (g', c')] es) \<and> index_cap_ok f p3"
proof -
  note v = page_room_raw [OF r]
  obtain p1 p2 where p1: "push_entry p (new_entry w (g, c)) (length es) = Some p1"
    "push_entry p1 (new_entry w (g', c')) (Suc (length es)) = Some p2"
    "raw_view f (internal_commit_delta p2 1 1) (es @ [new_entry w (g, c), new_entry w (g', c')])
      (nat (int (length (filter e_active es)) + 1), nat (int (length (filter (\<lambda>e. \<not> e_active e) es)) + 1))"
    using raw_append_two [OF v(1,3), of 1 1 "new_entry w (g, c)" "new_entry w (g', c')"] by auto
  obtain p3 where p3: "mark_version_obsolete (internal_commit_delta p2 1 1) i = Some p3"
    "raw_view f p3 (replaced w [i] [(g, c), (g', c')] es)
      (nat (int (length (filter e_active es)) + 1), nat (int (length (filter (\<lambda>e. \<not> e_active e) es)) + 1))"
    using raw_mark [OF p1(3), of i] i by (auto simp: replaced_def nth_append list_update_append1)
  have "index_view p3 (replaced w [i] [(g, c), (g', c')] es) \<and> index_cap_ok f p3"
    by (rule raw_replaced [OF p3(2) refl refl w]) (use i in auto)
  then show ?thesis using p1(1,2) p3(1) by auto
qed

text \<open>Two marks.\<close>

lemma raw_mark_two:
  assumes "raw_view f p (es @ new) c" and "i < length es" and "j < length es"
  shows "\<exists>p1 p2. mark_version_obsolete p j = Some p1 \<and> mark_version_obsolete p1 i = Some p2
    \<and> raw_view f p2 (mark_at [j, i] es @ new) c"
proof -
  obtain p1 where p1: "mark_version_obsolete p j = Some p1" "raw_view f p1 (mark_at [j] es @ new) c"
    using raw_mark [OF assms(1), of j] assms(3) by (auto simp: nth_append list_update_append1)
  obtain p2 where p2: "mark_version_obsolete p1 i = Some p2" "raw_view f p2 (mark_at [j, i] es @ new) c"
    using raw_mark [OF p1(2), of i] assms(2) by (auto simp: nth_append list_update_append1)
  show ?thesis using p1(1) p2 by blast
qed

lemma replace_1_2:
  assumes r: "page_room f p es" and w: "w < VERSION_LIMIT" and i: "i < length es" "e_active (es ! i)"
    and j: "j < length es" "e_active (es ! j)" "i \<noteq> j"
  shows "\<exists>p1 p2 p3. internal_push_uncommitted p g w c (length es) = Some p1
    \<and> mark_version_obsolete (internal_commit_delta p1 (-1) 2) j = Some p2 \<and> mark_version_obsolete p2 i = Some p3
    \<and> index_view p3 (replaced w [j, i] [(g, c)] es) \<and> index_cap_ok f p3"
proof -
  note v = page_room_raw [OF r]
  obtain p1 where p1: "push_entry p (new_entry w (g, c)) (length es) = Some p1"
    "raw_view f (internal_commit_delta p1 (-1) 2) (es @ [new_entry w (g, c)])
      (nat (int (length (filter e_active es)) + (-1)), nat (int (length (filter (\<lambda>e. \<not> e_active e) es)) + 2))"
    using raw_append_one [OF v(1,2), of "-1" 2 "new_entry w (g, c)"] active_index_count [OF i] by auto
  obtain p2 p3 where p3: "mark_version_obsolete (internal_commit_delta p1 (-1) 2) j = Some p2"
    "mark_version_obsolete p2 i = Some p3" "raw_view f p3 (replaced w [j, i] [(g, c)] es)
      (nat (int (length (filter e_active es)) + (-1)), nat (int (length (filter (\<lambda>e. \<not> e_active e) es)) + 2))"
    using raw_mark_two [OF p1(2) i(1) j(1)] by (auto simp: replaced_def)
  have "index_view p3 (replaced w [j, i] [(g, c)] es) \<and> index_cap_ok f p3"
    by (rule raw_replaced [OF p3(3) refl refl w]) (use i j in auto)
  then show ?thesis using p1(1) p3(1,2) by auto
qed

lemma replace_2_2:
  assumes r: "page_room f p es" and w: "w < VERSION_LIMIT" and i: "i < length es" "e_active (es ! i)"
    and j: "j < length es" "e_active (es ! j)" "i \<noteq> j"
  shows "\<exists>p1 p2 p3 p4. internal_push_uncommitted p g w c (length es) = Some p1
    \<and> internal_push_uncommitted p1 g' w c' (length es + 1) = Some p2
    \<and> mark_version_obsolete (internal_commit_delta p2 0 2) j = Some p3 \<and> mark_version_obsolete p3 i = Some p4
    \<and> index_view p4 (replaced w [j, i] [(g, c), (g', c')] es) \<and> index_cap_ok f p4"
proof -
  note v = page_room_raw [OF r]
  obtain p1 p2 where p1: "push_entry p (new_entry w (g, c)) (length es) = Some p1"
    "push_entry p1 (new_entry w (g', c')) (Suc (length es)) = Some p2"
    "raw_view f (internal_commit_delta p2 0 2) (es @ [new_entry w (g, c), new_entry w (g', c')])
      (nat (int (length (filter e_active es)) + 0), nat (int (length (filter (\<lambda>e. \<not> e_active e) es)) + 2))"
    using raw_append_two [OF v(1,3), of 0 2 "new_entry w (g, c)" "new_entry w (g', c')"] by auto
  obtain p3 p4 where p3: "mark_version_obsolete (internal_commit_delta p2 0 2) j = Some p3"
    "mark_version_obsolete p3 i = Some p4" "raw_view f p4 (replaced w [j, i] [(g, c), (g', c')] es)
      (nat (int (length (filter e_active es)) + 0), nat (int (length (filter (\<lambda>e. \<not> e_active e) es)) + 2))"
    using raw_mark_two [OF p1(3) i(1) j(1)] by (auto simp: replaced_def)
  have "index_view p4 (replaced w [j, i] [(g, c), (g', c')] es) \<and> index_cap_ok f p4"
    by (rule raw_replaced [OF p3(3) refl refl w]) (use i j in auto)
  then show ?thesis using p1(1,2) p3(1,2) by auto
qed

end
