(* ===== verification/Fill.thy ===== *)
theory Fill
  imports Index_Replace
begin

text \<open>
  How full nodes are: the arithmetic of the fill degrees of \<^verbatim>\<open>mv_tree/smo.rs\<close>. A node of height 0 is
  a leaf. With pages of at least seven slots, every repair of a node that is not the root gives
  nodes that are neither overfull nor underfull.
\<close>

definition slots :: "page_sizes \<Rightarrow> nat \<Rightarrow> nat" where
  "slots C h = (if h = 0 then NUM_RECORDS C else FAN_OUT C)"

text \<open>The entries from which on a node overflows; the active ones never exceed them.\<close>

definition limit :: "page_sizes \<Rightarrow> nat \<Rightarrow> nat" where
  "limit C h = (if h = 0 then NUM_RECORDS C else FAN_OUT C - 1)"

definition fifth :: "page_sizes \<Rightarrow> nat \<Rightarrow> nat" where
  "fifth C h = (slots C h + 4) div 5"

definition degree :: "page_sizes \<Rightarrow> nat \<Rightarrow> nat \<Rightarrow> nat \<Rightarrow> block_unsafe_degree" where
  "degree C h a d =
     (if a \<le> fifth C h \<or> limit C h \<le> a + d \<and> a \<le> 2 * fifth C h then ActiveUnderflow
      else if limit C h \<le> a + d then Overflow
      else DegreeOk)"

definition acount :: "('k, 'p) mvbt \<Rightarrow> addr \<Rightarrow> nat" where
  "acount t a = unat (fst (active_dead_count (the (node_at t a))))"

definition dcount :: "('k, 'p) mvbt \<Rightarrow> addr \<Rightarrow> nat" where
  "dcount t a = unat (snd (active_dead_count (the (node_at t a))))"

lemma leaf_in_counts:
  assumes "leaf_in t a rs"
  obtains n where "node_at t a = Some n" "is_leaf n" "acount t a = length (live_records rs)"
    "dcount t a = length rs - length (live_records rs)" "acount t a + dcount t a = length rs" "length rs \<le> NUM_RECORDS (sizes t)"
proof -
  obtain p where p: "node_at t a = Some (NLeaf p)" "leaf_view p rs" "leaf_cap p = NUM_RECORDS (sizes t)"
    using assms by (auto simp: leaf_in_def leaf_at_node)
  have "length (live_records rs) + length (filter (\<lambda>r. \<not> live r) rs) = length rs"
    using sum_length_filter_compl [of live rs] by simp
  then show thesis
    using that [of "NLeaf p"] p leaf_view_counts [OF p(2)] leaf_view_cap [OF p(2)]
    by (auto simp: acount_def dcount_def)
qed

lemma index_in_counts:
  assumes "index_in t a es"
  obtains n where "node_at t a = Some n" "\<not> is_leaf n" "acount t a = length (active_entries es)"
    "dcount t a = length es - length (active_entries es)" "acount t a + dcount t a = length es" "length es \<le> FAN_OUT (sizes t)"
proof -
  obtain p where p: "node_at t a = Some (NInternal p)" "index_view p es" "index_cap_ok (FAN_OUT (sizes t)) p"
    using assms by (auto simp: index_in_def)
  have "length (active_entries es) + length (filter (\<lambda>e. \<not> e_active e) es) = length es"
    using sum_length_filter_compl [of e_active es] by simp
  then show thesis
    using that [of "NInternal p"] p index_view_counts [OF p(2)] index_view_cap [OF p(2)]
    by (auto simp: acount_def dcount_def)
qed

lemma rep_counts:
  assumes "rep h now t a F S M"
  obtains n where "node_at t a = Some n" "is_leaf n \<longleftrightarrow> h = 0" "acount t a \<le> limit (sizes t) h"
    "acount t a + dcount t a \<le> slots (sizes t) h"
proof (cases h)
  case 0
  then obtain rs where "leaf_in t a rs" using assms by auto
  then show thesis using that 0 by (elim leaf_in_counts) (auto simp: limit_def slots_def)
next
  case (Suc h')
  then obtain es where "index_in t a es" "length (active_entries es) < FAN_OUT (sizes t)" using assms by auto
  then show thesis using that Suc by (elim index_in_counts) (auto simp: limit_def slots_def)
qed

lemma unsafe_degree_eq:
  assumes "node_at t a = Some n" and "is_leaf n \<longleftrightarrow> h = 0"
  shows "unsafe_degree (sizes t) n = degree (sizes t) h (acount t a) (dcount t a)"
  using assms
  by (auto simp: unsafe_degree_def degree_def acount_def dcount_def Let_def filling_20_percent_def max_units_def
      overflow_units_count_def fifth_def limit_def slots_def split: prod.split)

lemma fill_min_eq:
  assumes "node_at t a = Some n" and "is_leaf n \<longleftrightarrow> h = 0"
  shows "fill_min t a \<longleftrightarrow> fifth (sizes t) h \<le> acount t a"
  using assms by (auto simp: fill_min_def acount_def filling_20_percent_def max_units_def fifth_def slots_def)

section \<open>Pages of at least seven slots\<close>

definition roomy :: "page_sizes \<Rightarrow> bool" where
  "roomy C \<longleftrightarrow> 7 \<le> NUM_RECORDS C \<and> 7 \<le> FAN_OUT C"

lemma roomyD: "roomy C \<Longrightarrow> 7 \<le> slots C h" "roomy C \<Longrightarrow> slots C h \<le> Suc (limit C h)" "roomy C \<Longrightarrow> limit C h \<le> slots C h"
  by (auto simp: roomy_def slots_def limit_def)

lemma degree_ok_iff:
  "degree C h a d = DegreeOk \<longleftrightarrow> fifth C h < a \<and> a + d < limit C h"
  by (auto simp: degree_def)

text \<open>The outcomes of the repairs, as numbers of active entries.\<close>

lemma ok_version_split:
  assumes "roomy C" and "degree C h a d = Overflow" and "a < (4 * slots C h + 4) div 5"
  shows "degree C h a 0 = DegreeOk"
proof -
  have "fifth C h < a" using assms(2) by (auto simp: degree_def split: if_splits)
  then show ?thesis using assms(3) roomyD [OF assms(1), of h] unfolding degree_ok_iff fifth_def by linarith
qed

lemma ok_key_split:
  assumes "roomy C" and "(4 * slots C h + 4) div 5 \<le> a" and "a \<le> limit C h"
  shows "degree C h (a div 2) 0 = DegreeOk" and "degree C h (a - a div 2) 0 = DegreeOk"
  using assms roomyD [OF assms(1), of h] unfolding degree_ok_iff fifth_def by linarith+

lemma ok_merge:
  assumes "roomy C" and "a + b \<le> (4 * slots C h) div 5" and "fifth C h \<le> a" and "fifth C h \<le> b"
  shows "degree C h (a + b) 0 = DegreeOk"
  using assms roomyD [OF assms(1), of h] unfolding degree_ok_iff fifth_def by linarith

lemma ok_redistribute:
  assumes "roomy C" and "degree C h a d = ActiveUnderflow" and "(4 * slots C h) div 5 < a + b" and "b \<le> limit C h"
  shows "degree C h ((a + b) div 2) 0 = DegreeOk" and "degree C h ((a + b) - (a + b) div 2) 0 = DegreeOk"
proof -
  have "a \<le> 2 * fifth C h" using assms(2) by (auto simp: degree_def split: if_splits)
  then show "degree C h ((a + b) div 2) 0 = DegreeOk" "degree C h ((a + b) - (a + b) div 2) 0 = DegreeOk"
    using assms roomyD [OF assms(1), of h] unfolding degree_ok_iff fifth_def by linarith+
qed

end
