(* ===== verification/Smo_Correct.thy ===== *)
theory Smo_Correct
  imports Fill
begin

text \<open>
  The structure modifications of \<^verbatim>\<open>mv_tree/smo.rs\<close> build new nodes and touch no old one. Together
  the new nodes hold what the old ones held, for a tiling of their fences.
\<close>

section \<open>States that have grown\<close>

definition grows :: "('k, 'p) lib \<Rightarrow> nat \<Rightarrow> addr set \<Rightarrow> ('k, 'p) mvbt \<Rightarrow> ('k, 'p) mvbt \<Rightarrow> bool" where
  "grows L n W t t' \<longleftrightarrow> quiet L n W t' \<and> outer t' = outer t
     \<and> (\<forall>b. node_at t b \<noteq> None \<longrightarrow> node_at t' b = node_at t b) \<and> (\<forall>q. holds t W q \<longrightarrow> holds t' W q)"

lemma growsD:
  assumes "grows L n W t t'"
  shows "quiet L n W t'" "outer t' = outer t" "node_at t b = Some nd \<Longrightarrow> node_at t' b = Some nd"
    "holds t W q \<Longrightarrow> holds t' W q" "sizes t' = sizes t" "node_at t' b = None \<Longrightarrow> node_at t b = None"
    "dec_key t' = dec_key t"
  using assms outer_eqD [of t' t] by (auto simp: grows_def)

lemma grows_refl: "quiet L n W t \<Longrightarrow> grows L n W t t"
  by (simp add: grows_def)

lemma grows_trans: "grows L n W t t1 \<Longrightarrow> grows L n W t1 t2 \<Longrightarrow> grows L n W t t2"
  unfolding grows_def by metis

lemma grows_rep: "grows L n W t t' \<Longrightarrow> rep h now t a F S M \<Longrightarrow> rep h now t' a F S M"
  using rep_frame [of h now t a F S M t' now M] rep_blocks growsD(3,5)
  by (metis order_refl not_Some_eq)

lemma grows_alloc:
  assumes "quiet L n W t"
  obtains a t' nd where "alloc_block L leaf t = Some (a, t')" "grows L n W t t'" "node_at t a = None"
    "node_at t' = (node_at t)(a \<mapsto> nd)" "empty_page (sizes t) leaf nd"
  using quiet_alloc [OF assms, of leaf] unfolding grows_def by (metis fun_upd_other)

text \<open>Filling a fresh node.\<close>

lemma grows_push_records:
  assumes g: "grows L n W t0 t" and a: "node_at t a = Some nd" "empty_page (sizes t) True nd" "node_at t0 a = None"
    and rs: "length rs \<le> NUM_RECORDS (sizes t)" "\<And>r. r \<in> set rs \<Longrightarrow> live r"
  shows "\<exists>t' p. push_records t a rs = Some t' \<and> grows L n W t0 t' \<and> leaf_in t' a rs \<and> node_at t' = (node_at t)(a \<mapsto> NLeaf p)"
proof -
  obtain p where p: "nd = NLeaf p" "leaf_view p []" "leaf_cap p = NUM_RECORDS (sizes t)"
    using a(2) by (cases nd) auto
  obtain p' where p': "leaf_bulk_push p rs = Some p'" "leaf_view p' rs" "leaf_cap p' = leaf_cap p"
    using leaf_view_bulk_push [OF p(2), of rs] rs p(3) by auto
  have ok: "page_ok (sizes t) (NLeaf p')" using p' p(3) by auto
  obtain t' where t': "put_leaf t a p' = Some t'" "quiet L n W t'" "node_at t' = (node_at t)(a \<mapsto> NLeaf p')"
    "outer t' = outer t" "\<forall>q. holds t W q \<longrightarrow> holds t' W q"
    using quiet_put [OF growsD(1) [OF g] _ ok, of a] a(1) by auto
  have "push_records t a rs = Some t'"
    using a(1) p(1) p'(1) t'(1) by (simp add: push_records_def leaf_at_def)
  moreover have "leaf_in t' a rs"
    using t'(3) p' p(3) outer_eqD(1) [OF t'(4)] by (simp add: leaf_in_def leaf_at_node)
  moreover have "grows L n W t0 t'" using g t' a(3) unfolding grows_def by (metis fun_upd_other)
  ultimately show ?thesis using t'(3) by blast
qed

lemma array_write_list_length: "array_write_list xs i ys = Some xs' \<Longrightarrow> length xs' = length xs"
  by (induction xs i ys rule: array_write_list.induct) (fastforce simp: bind_eq_Some_conv dest: array_write_length)+

lemma internal_bulk_push_cap:
  "internal_bulk_push p es = Some p' \<Longrightarrow> index_cap_ok f p \<Longrightarrow> index_cap_ok f p'"
  by (auto simp: internal_bulk_push_def index_cap_ok_def bind_eq_Some_conv Let_def dest!: array_write_list_length)

lemma grows_push_entries:
  assumes g: "grows L n W t0 t" and a: "node_at t a = Some nd" "empty_page (sizes t) False nd" "node_at t0 a = None"
    and es: "length es \<le> FAN_OUT (sizes t)" "\<And>e. e \<in> set es \<Longrightarrow> e_active e"
  shows "\<exists>t' p. push_entries t a es = Some t' \<and> grows L n W t0 t' \<and> index_in t' a es \<and> node_at t' = (node_at t)(a \<mapsto> NInternal p)"
proof -
  obtain p where p: "nd = NInternal p" "index_view p []" "index_cap_ok (FAN_OUT (sizes t)) p"
    using a(2) by (cases nd) auto
  obtain p' where p': "internal_bulk_push p es = Some p'" "index_view p' es"
    using index_view_bulk_push [OF p(2), of es] es p(3) by auto
  note cap = internal_bulk_push_cap [OF p'(1) p(3)]
  have ok: "page_ok (sizes t) (NInternal p')" using p' cap by auto
  obtain t' where t': "put_internal t a p' = Some t'" "quiet L n W t'" "node_at t' = (node_at t)(a \<mapsto> NInternal p')"
    "outer t' = outer t" "\<forall>q. holds t W q \<longrightarrow> holds t' W q"
    using quiet_put [OF growsD(1) [OF g] _ ok, of a] a(1) by auto
  have "push_entries t a es = Some t'"
    using a(1) p(1) p'(1) t'(1) by (simp add: push_entries_def internal_at_def)
  moreover have "index_in t' a es"
    using t'(3) p' cap outer_eqD(1) [OF t'(4)] by (simp add: index_in_def)
  moreover have "grows L n W t0 t'" using g t' a(3) unfolding grows_def by (metis fun_upd_other)
  ultimately show ?thesis using t'(3) by blast
qed

lemma records_at_leaf_in: "leaf_in t a rs \<Longrightarrow> records_at t a = Some rs"
  by (auto simp: leaf_in_def leaf_at_node records_at_def leaf_view_as_records)

lemma zip_entries_maps: "zip_entries (map e_fence es, map e_version es, map e_child es) = es"
  by (induction es) (auto simp: zip_entries_def)

lemma entries_at_index_in: "index_in t a es \<Longrightarrow> entries_at t a = Some es"
  by (auto simp: index_in_def entries_at_def index_view_slices zip_entries_maps)

section \<open>New nodes\<close>

fun split_news :: "'k interval \<Rightarrow> 'k block_split \<Rightarrow> ('k interval \<times> addr) list" where
  "split_news F (ByKey fl l fr r) = [(fl, l), (fr, r)]"
| "split_news F (ByVersion a) = [(F, a)]"

text \<open>
  The new nodes \<open>news\<close>, with \<open>len\<close> active entries each, hold the map \<open>M\<close> for a tiling of \<open>F\<close>; what
  they are made of are fresh blocks and blocks of \<open>S\<close>.
\<close>

definition new_nodes ::
    "nat \<Rightarrow> version \<Rightarrow> ('k::linorder, 'p) mvbt \<Rightarrow> ('k, 'p) mvbt \<Rightarrow> 'k interval \<Rightarrow> addr set \<Rightarrow> ('k \<rightharpoonup> 'p)
       \<Rightarrow> ('k interval \<times> addr) list \<Rightarrow> nat list \<Rightarrow> bool" where
  "new_nodes h now t t' F S M news lens \<longleftrightarrow>
     tiles F (fst ` set news) \<and> sorted_wrt (\<lambda>m n. \<not> overlap (fst m) (fst n)) news
     \<and> length lens = length news
     \<and> (\<forall>i < length news. acount t' (snd (news ! i)) = lens ! i \<and> dcount t' (snd (news ! i)) = 0)
     \<and> (\<exists>Sn. (\<forall>n \<in> set news. nonempty (fst n) \<and> rep h now t' (snd n) (fst n) (Sn n) M
               \<and> Sn n \<subseteq> S \<union> {b. node_at t b = None} \<and> node_at t (snd n) = None)
          \<and> (\<forall>m \<in> set news. \<forall>n \<in> set news. m \<noteq> n \<longrightarrow> Sn m \<inter> Sn n = {}))"

lemma live_leaf_count:
  assumes "leaf_in t a rs" and "\<And>r. r \<in> set rs \<Longrightarrow> live r"
  shows "acount t a = length rs" and "dcount t a = 0"
proof -
  have "live_records rs = rs" using assms(2) by (simp add: filter_id_conv)
  then show "acount t a = length rs" "dcount t a = 0" using assms(1) by (elim leaf_in_counts; simp)+
qed

lemma live_index_count:
  assumes "index_in t a es" and "\<And>e. e \<in> set es \<Longrightarrow> e_active e"
  shows "acount t a = length es" and "dcount t a = 0"
proof -
  have "active_entries es = es" using assms(2) by (simp add: filter_id_conv)
  then show "acount t a = length es" "dcount t a = 0" using assms(1) by (elim index_in_counts; simp)+
qed

lemma new_nodes_one:
  assumes "rep h now t' a F Sa M" and "acount t' a = m" and "dcount t' a = 0" and "nonempty F"
    and "Sa \<subseteq> S \<union> {b. node_at t b = None}" and "node_at t a = None"
  shows "new_nodes h now t t' F S M [(F, a)] [m]"
  using assms unfolding new_nodes_def by (auto simp: tiles_def intro!: exI [of _ "\<lambda>_. Sa"])

lemma new_nodes_two:
  assumes "rep h now t' a f1 Sa M" and "rep h now t' b f2 Sb M" and "tiles F {f1, f2}" and "\<not> overlap f1 f2"
    and "nonempty f1" and "nonempty f2" and "acount t' a = m1" "dcount t' a = 0" "acount t' b = m2" "dcount t' b = 0"
    and "Sa \<subseteq> S \<union> {b. node_at t b = None}" and "Sb \<subseteq> S \<union> {b. node_at t b = None}" and "Sa \<inter> Sb = {}"
    and "node_at t a = None" and "node_at t b = None"
  shows "new_nodes h now t t' F S M [(f1, a), (f2, b)] [m1, m2]"
proof -
  have "(f1, a) \<noteq> (f2, b)" using assms(4,5) nonempty_overlap by blast
  then show ?thesis
    using assms unfolding new_nodes_def
    by (auto simp: less_Suc_eq intro!: exI [of _ "\<lambda>n. if n = (f1, a) then Sa else Sb"])
qed

section \<open>Leaves\<close>

lemma leaf_part_length:
  assumes "leaf_in t a rs"
  shows "length (live_records rs) = acount t a" and "length (live_records rs) \<le> NUM_RECORDS (sizes t)"
  using assms by (elim leaf_in_counts; linarith)+

lemma leaf_ok_sorted_insert:
  assumes "leaf_ok now rs"
  shows "sorted (map r_insert (filter P rs))"
proof -
  have "sorted_wrt followed_by (filter P rs)" using assms by (auto simp: leaf_ok_def intro: sorted_wrt_filter)
  then show ?thesis unfolding sorted_map by (rule sorted_wrt_mono_rel [rotated]) (simp add: followed_by_def)
qed

lemma one_leaf:
  assumes q: "quiet L n W t" and rs: "length rs \<le> NUM_RECORDS (sizes t)" "\<And>r. r \<in> set rs \<Longrightarrow> live r"
  obtains a t1 t2 where "new_empty_leaf L t = Some (a, t1)" "grows L n W t t1" "node_at t a = None"
    "push_records t1 a rs = Some t2" "grows L n W t t2" "leaf_in t2 a rs"
proof -
  obtain a t1 nd where t1: "alloc_block L True t = Some (a, t1)" "grows L n W t t1" "node_at t a = None"
    "node_at t1 = (node_at t)(a \<mapsto> nd)" "empty_page (sizes t) True nd"
    using grows_alloc [OF q] .
  then show thesis
    using that [of a t1] grows_push_records [OF t1(2), of a nd rs] rs growsD(5) [OF t1(2)]
    by (auto simp: new_empty_leaf_def)
qed

lemma two_leaves:
  assumes q: "quiet L n W t"
    and rs1: "length rs1 \<le> NUM_RECORDS (sizes t)" "\<And>r. r \<in> set rs1 \<Longrightarrow> live r"
    and rs2: "length rs2 \<le> NUM_RECORDS (sizes t)" "\<And>r. r \<in> set rs2 \<Longrightarrow> live r"
  obtains a b t1 t2 t3 t4 where "new_empty_leaf L t = Some (a, t1)" "new_empty_leaf L t1 = Some (b, t2)" "grows L n W t t2"
    "node_at t a = None" "node_at t b = None" "a \<noteq> b" "push_records t2 a rs1 = Some t3" "push_records t3 b rs2 = Some t4"
    "grows L n W t t4" "leaf_in t4 a rs1" "leaf_in t4 b rs2"
proof -
  obtain a t1 m where t1: "alloc_block L True t = Some (a, t1)" "grows L n W t t1" "node_at t a = None"
    "node_at t1 = (node_at t)(a \<mapsto> m)" "empty_page (sizes t) True m"
    using grows_alloc [OF q] .
  obtain b t2 nd where t2: "alloc_block L True t1 = Some (b, t2)" "grows L n W t1 t2" "node_at t1 b = None"
    "node_at t2 = (node_at t1)(b \<mapsto> nd)" "empty_page (sizes t1) True nd"
    using grows_alloc [OF growsD(1) [OF t1(2)]] .
  have ab: "a \<noteq> b" "node_at t b = None" using t1(4) t2(3) by (auto split: if_splits)
  note g2 = grows_trans [OF t1(2) t2(2)]
  obtain t3 p where t3: "push_records t2 a rs1 = Some t3" "grows L n W t t3" "leaf_in t3 a rs1"
    "node_at t3 = (node_at t2)(a \<mapsto> NLeaf p)"
    using grows_push_records [OF g2, of a m rs1] t1 t2 ab rs1 growsD(5) [OF g2] by auto
  obtain t4 p' where t4: "push_records t3 b rs2 = Some t4" "grows L n W t t4" "leaf_in t4 b rs2"
    "node_at t4 = (node_at t3)(b \<mapsto> NLeaf p')"
    using grows_push_records [OF t3(2), of b nd rs2] t1 t2 t3(4) ab rs2 growsD(5) [OF g2] growsD(5) [OF t1(2)]
      growsD(5) [OF t3(2)] by auto
  have "leaf_in t4 a rs1"
    using t3(3) t4(4) ab growsD(5) [OF t3(2)] growsD(5) [OF t4(2)] leaf_in_cong [of t4 a t3] by simp
  then show thesis using that [of a t1 b t2 t3 t4] t1 t2 t3 t4 ab g2 by (simp add: new_empty_leaf_def)
qed

lemma records_at_grows: "grows L n W t t' \<Longrightarrow> leaf_in t a rs \<Longrightarrow> records_at t' a = Some rs"
  using records_at_leaf_in [of t a rs] growsD(3) [of L n W t t' a] by (auto simp: records_at_def bind_eq_Some_conv)

lemma live_records_live: "r \<in> set (live_records rs) \<Longrightarrow> live r"
  by simp

lemma leaf_part_live: "leaf_part now F rs M \<Longrightarrow> r \<in> set rs \<Longrightarrow> live r"
  by (simp add: leaf_part_def)

lemma version_split_leaf_ok:
  assumes q: "quiet L n W t" and r: "rep 0 now t a F S M" and F: "nonempty F"
  shows "\<exists>b t'. version_split_leaf L t a = Some (ByVersion b, t') \<and> grows L n W t t'
    \<and> new_nodes 0 now t t' F {} M (split_news F (ByVersion b)) [acount t a]"
proof -
  obtain rs where rs: "leaf_in t a rs" "leaf_part now F (live_records rs) M" "leaf_ok now rs"
    using leaf_part_of_rep [OF r] .
  note len = leaf_part_length [OF rs(1)]
  obtain b t1 t2 where t1: "new_empty_leaf L t = Some (b, t1)" "grows L n W t t1" "node_at t b = None"
    and t2: "push_records t1 b (live_records rs) = Some t2" "grows L n W t t2" "leaf_in t2 b (live_records rs)"
    using one_leaf [OF q len(2) live_records_live] .
  have "records_at t1 a = Some rs" by (rule records_at_grows [OF t1(2) rs(1)])
  moreover have "rep 0 now t2 b F {b} M"
    using rep_of_leaf_part [OF rs(2) leaf_ok_sorted_insert [OF rs(3)] t2(3)] .
  ultimately show ?thesis
    using t1(1,3) t2 len(1) live_leaf_count [OF t2(3)] F
    by (simp add: version_split_leaf_def new_nodes_one)
qed

text \<open>Cutting a list in the middle, and merging two sorted lists.\<close>

lemma array_read_second:
  "m < length xs \<Longrightarrow> array_read (map Some (drop m xs)) 0 = Some (xs ! m)"
  by (simp add: array_read_def)

lemma mset_merge_by: "mset (merge_by P xs ys) = mset xs + mset ys"
  by (induction P xs ys rule: merge_by.induct) auto

lemma set_merge_by: "set (merge_by P xs ys) = set xs \<union> set ys"
  using mset_merge_by [of P xs ys] by (metis set_mset_mset set_mset_union)

lemma sorted_merge_by:
  assumes "\<And>x y. P x y \<Longrightarrow> f x \<le> f y" and "\<And>x y. \<not> P x y \<Longrightarrow> f y \<le> (f x :: 'b::linorder)"
    and "sorted (map f xs)" and "sorted (map f ys)"
  shows "sorted (map f (merge_by P xs ys))"
  using assms(3,4)
proof (induction xs arbitrary: ys)
  case Nil
  then show ?case by simp
next
  case (Cons x xs)
  note outer = Cons.IH Cons.prems(1)
  from Cons.prems(2) show ?case
  proof (induction ys)
    case Nil
    then show ?case using outer by simp
  next
    case (Cons y ys)
    have "sorted (map f (merge_by P xs (y # ys)))" using outer Cons.prems by simp
    moreover have "sorted (map f (merge_by P (x # xs) ys))" using Cons by simp
    ultimately show ?case
      using outer(2) Cons.prems assms(1) [of x y] assms(2) [of x y]
      by (auto simp: set_merge_by intro: order_trans)
  qed
qed

text \<open>The records of a fence, sorted by key, cut in the middle into two new leaves.\<close>

lemma leaf_cut_nodes:
  assumes p: "leaf_part now F xs M" and s: "sorted (map r_key xs)" and len: "2 \<le> length xs" and dec: "pred_law dec"
    and ab: "node_at t a = None" "node_at t b = None" "a \<noteq> b"
    and a: "leaf_in t' a (sort_key r_insert (take (length xs div 2) xs))"
    and b: "leaf_in t' b (sort_key r_insert (drop (length xs div 2) xs))"
  shows "new_nodes 0 now t t' F {} M
    [(interval_new (lower F) (dec (r_key (xs ! (length xs div 2)))), a),
     (interval_new (r_key (xs ! (length xs div 2))) (upper F), b)]
    [length xs div 2, length xs - length xs div 2]"
proof -
  let ?m = "length xs div 2"
  have m: "0 < ?m" "?m < length xs" using len by auto
  note cut = leaf_part_cut [OF p s m dec]
  note fences = cut_fences [OF dec cut(3-5)]
  have pa: "leaf_part now (interval_new (lower F) (dec (r_key (xs ! ?m)))) (sort_key r_insert (take ?m xs)) M"
    and pb: "leaf_part now (interval_new (r_key (xs ! ?m)) (upper F)) (sort_key r_insert (drop ?m xs)) M"
    by (rule leaf_part_permuted [OF cut(1)], simp, rule leaf_part_permuted [OF cut(2)], simp)
  have "\<And>r. r \<in> set (sort_key r_insert (take ?m xs)) \<Longrightarrow> live r" "\<And>r. r \<in> set (sort_key r_insert (drop ?m xs)) \<Longrightarrow> live r"
    using pa pb by (simp_all add: leaf_part_def)
  note counts = live_leaf_count [OF a this(1)] live_leaf_count [OF b this(2)]
  show ?thesis
    using rep_of_leaf_part [OF pa _ a] rep_of_leaf_part [OF pb _ b] fences(1-4) counts ab m
    by (intro new_nodes_two) auto
qed

lemma key_split_leaf_ok:
  assumes q: "quiet L n W t" and r: "rep 0 now t a F S M" and L: "lib_laws L" and dec: "pred_law (dec_key t)"
    and two: "2 \<le> acount t a"
  shows "\<exists>bs t'. key_split_leaf L t a F = Some (bs, t') \<and> grows L n W t t'
    \<and> new_nodes 0 now t t' F {} M (split_news F bs) [acount t a div 2, acount t a - acount t a div 2]"
proof -
  obtain rs where rs: "leaf_in t a rs" "leaf_part now F (live_records rs) M" "leaf_ok now rs"
    using leaf_part_of_rep [OF r] .
  note len = leaf_part_length [OF rs(1)]
  define xs where "xs = sort_key r_key (live_records rs)"
  have xs: "leaf_part now F xs M" "sorted (map r_key xs)" "length xs = acount t a" "sorted_records L r_key (live_records rs) = xs"
    using leaf_part_permuted [OF rs(2), of xs] L len(1) by (simp_all add: xs_def lib_laws_def)
  let ?m = "length xs div 2"
  let ?l = "sort_key r_insert (take ?m xs)" and ?r = "sort_key r_insert (drop ?m xs)"
  have lens: "length ?l \<le> NUM_RECORDS (sizes t)" "length ?r \<le> NUM_RECORDS (sizes t)" using len xs(3) by auto
  have live: "\<And>r. r \<in> set ?l \<Longrightarrow> live r" "\<And>r. r \<in> set ?r \<Longrightarrow> live r"
    using leaf_part_live [OF xs(1)] by (auto dest: in_set_takeD in_set_dropD)
  obtain l u t1 t2 t3 t4 where t2: "new_empty_leaf L t = Some (l, t1)" "new_empty_leaf L t1 = Some (u, t2)"
      "grows L n W t t2" "node_at t l = None" "node_at t u = None" "l \<noteq> u"
    and t4: "push_records t2 l ?l = Some t3" "push_records t3 u ?r = Some t4" "grows L n W t t4" "leaf_in t4 l ?l" "leaf_in t4 u ?r"
    by (rule two_leaves [OF q lens(1) live(1) lens(2) live(2)]) blast+
  have "records_at t2 a = Some rs" by (rule records_at_grows [OF t2(3) rs(1)])
  then show ?thesis
    using t2(1,2) t4(1-3) xs(3,4) two growsD(7) [OF t2(3)] array_read_second [of ?m xs]
      leaf_cut_nodes [OF xs(1,2) _ dec t2(4-6) t4(4,5)]
    by (simp add: key_split_leaf_def Let_def)
qed

lemma merge_leaves_ok:
  assumes q: "quiet L n W t" and r1: "rep 0 now t a f1 S1 M" and r2: "rep 0 now t b f2 S2 M" and L: "lib_laws L"
    and f: "\<not> overlap f1 f2" "tiles F {f1, f2}" "nonempty F" and len: "acount t a + acount t b \<le> NUM_RECORDS (sizes t)"
  shows "\<exists>c t'. merge_leaves L t a b = Some (c, t') \<and> grows L n W t t'
    \<and> new_nodes 0 now t t' F {} M [(F, c)] [acount t a + acount t b]"
proof -
  obtain rs1 where rs1: "leaf_in t a rs1" "leaf_part now f1 (live_records rs1) M" "leaf_ok now rs1"
    using leaf_part_of_rep [OF r1] .
  obtain rs2 where rs2: "leaf_in t b rs2" "leaf_part now f2 (live_records rs2) M" "leaf_ok now rs2"
    using leaf_part_of_rep [OF r2] .
  let ?P = "\<lambda>f s. r_insert f \<le> r_insert s"
  define xs where "xs = merge_by ?P (live_records rs1) (live_records rs2)"
  have xs: "leaf_part now F xs M" "sorted (map r_insert xs)"
    using leaf_part_permuted [OF leaf_part_join [OF rs1(2) rs2(2) f(1,2)], of xs]
      sorted_merge_by [of ?P r_insert "live_records rs1" "live_records rs2"]
      leaf_ok_sorted_insert [OF rs1(3)] leaf_ok_sorted_insert [OF rs2(3)]
    by (auto simp: xs_def mset_merge_by)
  have n: "length xs = acount t a + acount t b"
    using mset_merge_by [of ?P "live_records rs1" "live_records rs2"] leaf_part_length(1) [OF rs1(1)] leaf_part_length(1) [OF rs2(1)]
    by (metis xs_def size_mset size_union)
  obtain c t1 t2 where t1: "new_empty_leaf L t = Some (c, t1)" "grows L n W t t1" "node_at t c = None"
    and t2: "push_records t1 c xs = Some t2" "grows L n W t t2" "leaf_in t2 c xs"
    using one_leaf [OF q len [folded n] leaf_part_live [OF xs(1)]] .
  have "records_at t1 a = Some rs1" "records_at t1 b = Some rs2"
    by (rule records_at_grows [OF t1(2) rs1(1)], rule records_at_grows [OF t1(2) rs2(1)])
  moreover have "merge_records L ?P (live_records rs1) (live_records rs2) = xs"
    using L by (simp add: lib_laws_def xs_def)
  ultimately show ?thesis
    using t1(1,3) t2 n live_leaf_count [OF t2(3) leaf_part_live [OF xs(1)]] f(3) rep_of_leaf_part [OF xs t2(3)]
    by (simp add: merge_leaves_def new_nodes_one)
qed

lemma redistribute_leaves_ok:
  assumes q: "quiet L n W t" and r1: "rep 0 now t a f1 S1 M" and r2: "rep 0 now t b f2 S2 M" and L: "lib_laws L"
    and f: "\<not> overlap f1 f2" "tiles (interval_merge f1 f2) {f1, f2}" and dec: "pred_law (dec_key t)"
    and len: "2 \<le> acount t a + acount t b" "(acount t a + acount t b + 1) div 2 \<le> NUM_RECORDS (sizes t)"
  shows "\<exists>bs t'. redistribute_leaves L t a f1 b f2 = Some (bs, t') \<and> grows L n W t t' \<and> (\<exists>fl l fr r. bs = ByKey fl l fr r)
    \<and> new_nodes 0 now t t' (interval_merge f1 f2) {} M (split_news (interval_merge f1 f2) bs)
        [(acount t a + acount t b) div 2, (acount t a + acount t b) - (acount t a + acount t b) div 2]"
proof -
  obtain rs1 where rs1: "leaf_in t a rs1" "leaf_part now f1 (live_records rs1) M" "leaf_ok now rs1"
    using leaf_part_of_rep [OF r1] .
  obtain rs2 where rs2: "leaf_in t b rs2" "leaf_part now f2 (live_records rs2) M" "leaf_ok now rs2"
    using leaf_part_of_rep [OF r2] .
  let ?P = "\<lambda>f s. r_key f \<le> r_key s" and ?F = "interval_merge f1 f2"
  define xs where "xs = merge_by ?P (sort_key r_key (live_records rs2)) (sort_key r_key (live_records rs1))"
  have ms: "mset xs = mset (live_records rs1 @ live_records rs2)" by (simp add: xs_def mset_merge_by)
  have xs: "leaf_part now ?F xs M" "sorted (map r_key xs)"
    using leaf_part_permuted [OF leaf_part_join [OF rs1(2) rs2(2) f] ms]
      sorted_merge_by [of ?P r_key "sort_key r_key (live_records rs2)" "sort_key r_key (live_records rs1)"]
    by (auto simp: xs_def)
  have n: "length xs = acount t a + acount t b"
    using mset_eq_length [OF ms] leaf_part_length(1) [OF rs1(1)] leaf_part_length(1) [OF rs2(1)] by simp
  let ?m = "length xs div 2"
  let ?l = "sort_key r_insert (take ?m xs)" and ?r = "sort_key r_insert (drop ?m xs)"
  have lens: "length ?l \<le> NUM_RECORDS (sizes t)" "length ?r \<le> NUM_RECORDS (sizes t)" using len n by auto
  have live: "\<And>r. r \<in> set ?l \<Longrightarrow> live r" "\<And>r. r \<in> set ?r \<Longrightarrow> live r"
    using leaf_part_live [OF xs(1)] by (auto dest: in_set_takeD in_set_dropD)
  obtain l u t1 t2 t3 t4 where t2: "new_empty_leaf L t = Some (l, t1)" "new_empty_leaf L t1 = Some (u, t2)"
      "grows L n W t t2" "node_at t l = None" "node_at t u = None" "l \<noteq> u"
    and t4: "push_records t2 l ?l = Some t3" "push_records t3 u ?r = Some t4" "grows L n W t t4" "leaf_in t4 l ?l" "leaf_in t4 u ?r"
    by (rule two_leaves [OF q lens(1) live(1) lens(2) live(2)]) blast+
  have "merge_records L ?P (sorted_records L r_key (live_records rs2)) (sorted_records L r_key (live_records rs1)) = xs"
    using L by (simp add: lib_laws_def xs_def)
  then show ?thesis
    using t2(1,2) t4(1-3) n len array_read_second [of ?m xs] records_at_leaf_in [OF rs1(1)] records_at_leaf_in [OF rs2(1)]
      leaf_cut_nodes [OF xs _ dec t2(4-6) t4(4,5)]
    by (simp add: redistribute_leaves_def interval_merge_def Let_def)
qed

section \<open>Internal pages\<close>

lemma one_index:
  assumes q: "quiet L n W t" and es: "length es \<le> FAN_OUT (sizes t)" "\<And>e. e \<in> set es \<Longrightarrow> e_active e"
  obtains a t1 t2 where "new_empty_index_block L t = Some (a, t1)" "grows L n W t t1" "node_at t a = None"
    "push_entries t1 a es = Some t2" "grows L n W t t2" "index_in t2 a es"
proof -
  obtain a t1 nd where t1: "alloc_block L False t = Some (a, t1)" "grows L n W t t1" "node_at t a = None"
    "node_at t1 = (node_at t)(a \<mapsto> nd)" "empty_page (sizes t) False nd"
    using grows_alloc [OF q] .
  obtain t2 where "push_entries t1 a es = Some t2" "grows L n W t t2" "index_in t2 a es"
    using grows_push_entries [OF t1(2), of a nd es] t1 es growsD(5) [OF t1(2)] by fastforce
  then show thesis using that [of a t1 t2] t1 by (simp add: new_empty_index_block_def)
qed

lemma two_indexes:
  assumes q: "quiet L n W t"
    and es1: "length es1 \<le> FAN_OUT (sizes t)" "\<And>e. e \<in> set es1 \<Longrightarrow> e_active e"
    and es2: "length es2 \<le> FAN_OUT (sizes t)" "\<And>e. e \<in> set es2 \<Longrightarrow> e_active e"
  obtains a b t1 t2 t3 t4 where "new_empty_index_block L t = Some (a, t1)" "new_empty_index_block L t1 = Some (b, t2)"
    "grows L n W t t2" "node_at t a = None" "node_at t b = None" "a \<noteq> b" "push_entries t2 a es1 = Some t3"
    "push_entries t3 b es2 = Some t4" "grows L n W t t4" "index_in t4 a es1" "index_in t4 b es2"
proof -
  obtain a t1 m where t1: "alloc_block L False t = Some (a, t1)" "grows L n W t t1" "node_at t a = None"
    "node_at t1 = (node_at t)(a \<mapsto> m)" "empty_page (sizes t) False m"
    using grows_alloc [OF q] .
  obtain b t2 nd where t2: "alloc_block L False t1 = Some (b, t2)" "grows L n W t1 t2" "node_at t1 b = None"
    "node_at t2 = (node_at t1)(b \<mapsto> nd)" "empty_page (sizes t1) False nd"
    using grows_alloc [OF growsD(1) [OF t1(2)]] .
  have ab: "a \<noteq> b" "node_at t b = None" using t1(4) t2(3) by (auto split: if_splits)
  note g2 = grows_trans [OF t1(2) t2(2)]
  have sz: "sizes t2 = sizes t" "sizes t1 = sizes t" using growsD(5) g2 t1(2) by blast+
  obtain t3 p where t3: "push_entries t2 a es1 = Some t3" "grows L n W t t3" "index_in t3 a es1"
    "node_at t3 = (node_at t2)(a \<mapsto> NInternal p)"
    using grows_push_entries [OF g2, of a m es1] t1 t2 ab es1 sz by fastforce
  obtain t4 p' where t4: "push_entries t3 b es2 = Some t4" "grows L n W t t4" "index_in t4 b es2"
    "node_at t4 = (node_at t3)(b \<mapsto> NInternal p')"
    using grows_push_entries [OF t3(2), of b nd es2] t1 t2 t3(4) ab es2 sz growsD(5) [OF t3(2)] by fastforce
  have "index_in t4 a es1"
    using t3(3) t4(4) ab growsD(5) [OF t3(2)] growsD(5) [OF t4(2)] index_in_cong [of t4 a t3] by simp
  then show thesis using that [of a t1 b t2 t3 t4] t1 t2 t3 t4 ab g2 by (simp add: new_empty_index_block_def)
qed

lemma entries_at_grows: "grows L n W t t' \<Longrightarrow> index_in t a es \<Longrightarrow> entries_at t' a = Some es"
  using entries_at_index_in [of t a es] growsD(3) [of L n W t t' a] by (auto simp: entries_at_def bind_eq_Some_conv)

lemma index_part_active: "index_part h now t F es Sf M \<Longrightarrow> e \<in> set es \<Longrightarrow> e_active e"
  by (rule entry_repD(1) [OF index_partD(2)])

lemma index_part_grows:
  assumes "grows L n W t t'" and "index_part h now t F es Sf M"
  shows "index_part h now t' F es Sf M"
proof (rule index_part_frame [OF assms(2)])
  show "node_at t' b = node_at t b" if "e \<in> set es" "b \<in> Sf e" for e b
    using rep_blocks [OF entry_repD(5) [OF index_partD(2) [OF assms(2) that(1)]] that(2)] growsD(3) [OF assms(1)] by fastforce
qed (use growsD(5) [OF assms(1)] in auto)

lemma index_part_blocks:
  "index_part h now t F es Sf M \<Longrightarrow> e \<in> set es \<Longrightarrow> b \<in> Sf e \<Longrightarrow> node_at t b \<noteq> None"
  by (rule rep_blocks [OF entry_repD(5) [OF index_partD(2)]])

text \<open>A new page over the entries of a part.\<close>

lemma index_part_node:
  assumes "index_part h now t F es Sf M" and g: "grows L n W t t'" and "index_in t' a es" and "length es < FAN_OUT (sizes t)"
    and "node_at t a = None"
  shows "rep (Suc h) now t' a F (insert a (\<Union>e \<in> set es. Sf e)) M" and "acount t' a = length es" and "dcount t' a = 0"
proof -
  have "a \<notin> Sf e" if "e \<in> set es" for e using index_part_blocks [OF assms(1) that] assms(5) by blast
  then show "rep (Suc h) now t' a F (insert a (\<Union>e \<in> set es. Sf e)) M"
    using rep_of_index_part [OF index_part_grows [OF g assms(1)] assms(3)] assms(4) growsD(5) [OF g] by simp
  show "acount t' a = length es" "dcount t' a = 0"
    by (rule live_index_count [OF assms(3) index_part_active [OF assms(1)]], assumption)+
qed

lemma index_part_length:
  assumes "index_in t a es"
  shows "length (active_entries es) = acount t a"
  using assms by (elim index_in_counts; simp)

lemma version_split_internal_ok:
  assumes q: "quiet L n W t" and r: "rep (Suc h) now t a F S M" and F: "nonempty F"
  shows "\<exists>b t'. version_split_internal L t a = Some (ByVersion b, t') \<and> grows L n W t t'
    \<and> new_nodes (Suc h) now t t' F (S - {a}) M (split_news F (ByVersion b)) [acount t a]"
proof -
  obtain es Sf where es: "index_in t a es" "length (active_entries es) < FAN_OUT (sizes t)"
    "index_part h now t F (active_entries es) Sf M" "S = insert a (\<Union>e \<in> set (active_entries es). Sf e)"
    "\<And>e. e \<in> set (active_entries es) \<Longrightarrow> a \<notin> Sf e"
    using index_part_of_rep [OF r] by metis
  obtain b t1 t2 where t1: "new_empty_index_block L t = Some (b, t1)" "grows L n W t t1" "node_at t b = None"
    and t2: "push_entries t1 b (active_entries es) = Some t2" "grows L n W t t2" "index_in t2 b (active_entries es)"
    using one_index [OF q less_imp_le [OF es(2)] index_part_active [OF es(3)]] .
  have "entries_at t1 a = Some es" by (rule entries_at_grows [OF t1(2) es(1)])
  moreover have "insert b (\<Union>e \<in> set (active_entries es). Sf e) \<subseteq> (S - {a}) \<union> {b. node_at t b = None}"
    using t1(3) es(4,5) by blast
  ultimately show ?thesis
    using t1(1,3) t2 index_part_length [OF es(1)] F index_part_node [OF es(3) t2(2,3) es(2) t1(3)]
    by (simp add: version_split_internal_def new_nodes_one)
qed

text \<open>The entries of a fence, sorted by their lower bounds, cut in the middle into two new pages.\<close>

lemma index_cut_nodes:
  assumes p: "index_part h now t F xs Sf M" and s: "sorted (map e_lower xs)" and len: "2 \<le> length xs"
    "length xs div 2 < FAN_OUT (sizes t)" "length xs - length xs div 2 < FAN_OUT (sizes t)" and dec: "pred_law dec"
    and ab: "node_at t a = None" "node_at t b = None" "a \<noteq> b" and g: "grows L n W t t'"
    and a: "index_in t' a (sort_key e_version (take (length xs div 2) xs))"
    and b: "index_in t' b (sort_key e_version (drop (length xs div 2) xs))"
    and S: "(\<Union>e \<in> set xs. Sf e) \<subseteq> S"
  shows "new_nodes (Suc h) now t t' F S M
    [(interval_new (lower F) (dec (e_lower (xs ! (length xs div 2)))), a),
     (interval_new (e_lower (xs ! (length xs div 2))) (upper F), b)]
    [length xs div 2, length xs - length xs div 2]"
proof -
  let ?m = "length xs div 2"
  have m: "0 < ?m" "?m < length xs" using len by auto
  note cut = index_part_cut [OF p s m dec]
  note fences = cut_fences [OF dec cut(3-5)]
  have pa: "index_part h now t (interval_new (lower F) (dec (e_lower (xs ! ?m)))) (sort_key e_version (take ?m xs)) Sf M"
    and pb: "index_part h now t (interval_new (e_lower (xs ! ?m)) (upper F)) (sort_key e_version (drop ?m xs)) Sf M"
    by (rule index_part_permuted [OF cut(1)], simp, rule index_part_permuted [OF cut(2)], simp)
  have tk: "set (take ?m xs) \<subseteq> set xs" "set (drop ?m xs) \<subseteq> set xs" by (rule set_take_subset, rule set_drop_subset)
  have dd: "set (take ?m xs) \<inter> set (drop ?m xs) = {}" using index_partD(1) [OF p] by (simp add: set_take_disj_set_drop_if_distinct)
  let ?Sa = "insert a (\<Union>e \<in> set (sort_key e_version (take ?m xs)). Sf e)"
    and ?Sb = "insert b (\<Union>e \<in> set (sort_key e_version (drop ?m xs)). Sf e)"
  have blocks: "node_at t c \<noteq> None" if "c \<in> (\<Union>e \<in> set xs. Sf e)" for c using that index_part_blocks [OF p] by blast
  have "(\<Union>e \<in> set (take ?m xs). Sf e) \<inter> (\<Union>e \<in> set (drop ?m xs). Sf e) = {}"
    using index_partD(4) [OF p] tk dd by blast
  moreover have "a \<notin> (\<Union>e \<in> set xs. Sf e)" "b \<notin> (\<Union>e \<in> set xs. Sf e)" using blocks ab by blast+
  ultimately have "?Sa \<inter> ?Sb = {}" using ab(3) tk unfolding set_sort by blast
  moreover have "?Sa \<subseteq> S \<union> {b. node_at t b = None}" "?Sb \<subseteq> S \<union> {b. node_at t b = None}"
    using S tk ab by auto
  moreover have "length (sort_key e_version (take ?m xs)) < FAN_OUT (sizes t)" "length (sort_key e_version (drop ?m xs)) < FAN_OUT (sizes t)"
    using len m by simp_all
  note na = index_part_node [OF pa g a this(1) ab(1)] and nb = index_part_node [OF pb g b this(2) ab(2)]
  ultimately show ?thesis
    using m by (intro new_nodes_two [OF na(1) nb(1) fences(1-4) _ na(3) _ nb(3)] ab) (simp_all add: na(2) nb(2))
qed

lemma key_split_internal_ok:
  assumes q: "quiet L n W t" and r: "rep (Suc h) now t a F S M" and L: "lib_laws L" and dec: "pred_law (dec_key t)"
    and two: "2 \<le> acount t a"
  shows "\<exists>bs t'. key_split_internal L t a F = Some (bs, t') \<and> grows L n W t t'
    \<and> new_nodes (Suc h) now t t' F (S - {a}) M (split_news F bs) [acount t a div 2, acount t a - acount t a div 2]"
proof -
  obtain es Sf where es: "index_in t a es" "length (active_entries es) < FAN_OUT (sizes t)"
    "index_part h now t F (active_entries es) Sf M" "S = insert a (\<Union>e \<in> set (active_entries es). Sf e)"
    "\<And>e. e \<in> set (active_entries es) \<Longrightarrow> a \<notin> Sf e"
    using index_part_of_rep [OF r] by metis
  define xs where "xs = sort_key e_lower (active_entries es)"
  have xs: "index_part h now t F xs Sf M" "sorted (map e_lower xs)" "length xs = acount t a"
    "sorted_entries L e_lower (active_entries es) = xs"
    using index_part_permuted [OF es(3), of xs] L index_part_length [OF es(1)] by (simp_all add: xs_def lib_laws_def)
  let ?m = "length xs div 2"
  let ?l = "sort_key e_version (take ?m xs)" and ?r = "sort_key e_version (drop ?m xs)"
  have lens: "length ?l \<le> FAN_OUT (sizes t)" "length ?r \<le> FAN_OUT (sizes t)" using es(2) by (auto simp: xs_def)
  have act: "\<And>e. e \<in> set ?l \<Longrightarrow> e_active e" "\<And>e. e \<in> set ?r \<Longrightarrow> e_active e"
    using index_part_active [OF xs(1)] by (auto dest!: in_set_takeD in_set_dropD)
  obtain l u t1 t2 t3 t4 where t2: "new_empty_index_block L t = Some (l, t1)" "new_empty_index_block L t1 = Some (u, t2)"
      "grows L n W t t2" "node_at t l = None" "node_at t u = None" "l \<noteq> u"
    and t4: "push_entries t2 l ?l = Some t3" "push_entries t3 u ?r = Some t4" "grows L n W t t4" "index_in t4 l ?l" "index_in t4 u ?r"
    by (rule two_indexes [OF q lens(1) act(1) lens(2) act(2)]) blast+
  have "entries_at t2 a = Some es" by (rule entries_at_grows [OF t2(3) es(1)])
  moreover have "(\<Union>e \<in> set xs. Sf e) \<subseteq> S - {a}" using es(4,5) by (auto simp: xs_def)
  moreover have "?m < FAN_OUT (sizes t)" "length xs - ?m < FAN_OUT (sizes t)" using es(2) by (auto simp: xs_def)
  ultimately show ?thesis
    using t2(1,2) t4(1-3) xs(3,4) two growsD(7) [OF t2(3)] array_read_second [of ?m xs]
      index_cut_nodes [OF xs(1,2) _ _ _ dec t2(4-6) t4(3-5)]
    by (simp add: key_split_internal_def Let_def)
qed

text \<open>Two pages joined: their entries are one part, and their children stay apart.\<close>

lemma index_parts_joined:
  assumes r1: "rep (Suc h) now t a f1 S1 M" and r2: "rep (Suc h) now t b f2 S2 M"
    and f: "\<not> overlap f1 f2" "tiles F {f1, f2}" and d: "S1 \<inter> S2 = {}"
  obtains es1 es2 Sf where "index_in t a es1" "index_in t b es2"
    "index_part h now t F (active_entries es1 @ active_entries es2) Sf M"
    "(\<Union>e \<in> set (active_entries es1 @ active_entries es2). Sf e) \<subseteq> S1 \<union> S2 - {a, b}"
proof -
  obtain es1 Sf1 where es1: "index_in t a es1" "index_part h now t f1 (active_entries es1) Sf1 M"
    "S1 = insert a (\<Union>e \<in> set (active_entries es1). Sf1 e)" "\<And>e. e \<in> set (active_entries es1) \<Longrightarrow> a \<notin> Sf1 e"
    using index_part_of_rep [OF r1] by metis
  obtain es2 Sf2 where es2: "index_in t b es2" "index_part h now t f2 (active_entries es2) Sf2 M"
    "S2 = insert b (\<Union>e \<in> set (active_entries es2). Sf2 e)" "\<And>e. e \<in> set (active_entries es2) \<Longrightarrow> b \<notin> Sf2 e"
    using index_part_of_rep [OF r2] by metis
  have "Sf1 e \<inter> Sf2 g = {}" if "e \<in> set (active_entries es1)" "g \<in> set (active_entries es2)" for e g
    using d es1(3) es2(3) that by blast
  note join = index_part_join [OF es1(2) es2(2) f this]
  have "(\<Union>e \<in> set (active_entries es1). Sf1 e) \<union> (\<Union>e \<in> set (active_entries es2). Sf2 e) \<subseteq> S1 \<union> S2 - {a, b}"
    using es1(3,4) es2(3,4) d by blast
  note sub = this
  show thesis
  proof (rule that [OF es1(1) es2(1)])
    show "(\<Union>e \<in> set (active_entries es1 @ active_entries es2).
        if e \<in> set (active_entries es1) then Sf1 e else Sf2 e) \<subseteq> S1 \<union> S2 - {a, b}"
      using sub by (simp only: join(2))
  qed (rule join(1))
qed

lemma merge_internals_ok:
  assumes q: "quiet L n W t" and r1: "rep (Suc h) now t a f1 S1 M" and r2: "rep (Suc h) now t b f2 S2 M" and L: "lib_laws L"
    and f: "\<not> overlap f1 f2" "tiles F {f1, f2}" "nonempty F" and d: "S1 \<inter> S2 = {}"
    and len: "acount t a + acount t b < FAN_OUT (sizes t)"
  shows "\<exists>c t'. merge_internals L t a b = Some (c, t') \<and> grows L n W t t'
    \<and> new_nodes (Suc h) now t t' F (S1 \<union> S2 - {a, b}) M [(F, c)] [acount t a + acount t b]"
proof -
  obtain es1 es2 Sf where es: "index_in t a es1" "index_in t b es2"
    "index_part h now t F (active_entries es1 @ active_entries es2) Sf M"
    "(\<Union>e \<in> set (active_entries es1 @ active_entries es2). Sf e) \<subseteq> S1 \<union> S2 - {a, b}"
    using index_parts_joined [OF r1 r2 f(1,2) d] .
  let ?P = "\<lambda>f s. e_version f \<le> e_version s"
  define xs where "xs = merge_by ?P (active_entries es1) (active_entries es2)"
  have ms: "mset xs = mset (active_entries es1 @ active_entries es2)" by (simp add: xs_def mset_merge_by)
  note part = index_part_permuted [OF es(3) ms]
  have n: "length xs = acount t a + acount t b"
    using mset_eq_length [OF ms] index_part_length [OF es(1)] index_part_length [OF es(2)] by simp
  obtain c t1 t2 where t1: "new_empty_index_block L t = Some (c, t1)" "grows L n W t t1" "node_at t c = None"
    and t2: "push_entries t1 c xs = Some t2" "grows L n W t t2" "index_in t2 c xs"
    using one_index [OF q less_imp_le [OF len [folded n]] index_part_active [OF part]] .
  have "entries_at t1 a = Some es1" "entries_at t1 b = Some es2"
    by (rule entries_at_grows [OF t1(2) es(1)], rule entries_at_grows [OF t1(2) es(2)])
  moreover have "merge_entries L ?P (active_entries es1) (active_entries es2) = xs"
    using L by (simp add: lib_laws_def xs_def)
  moreover have "insert c (\<Union>e \<in> set xs. Sf e) \<subseteq> (S1 \<union> S2 - {a, b}) \<union> {b. node_at t b = None}"
    using es(4) t1(3) mset_eq_setD [OF ms] by blast
  ultimately show ?thesis
    using t1(1,3) t2 n f(3) index_part_node [OF part t2(2,3) len [folded n] t1(3)]
    by (simp add: merge_internals_def new_nodes_one)
qed

lemma redistribute_internals_ok:
  assumes q: "quiet L n W t" and r1: "rep (Suc h) now t a f1 S1 M" and r2: "rep (Suc h) now t b f2 S2 M" and L: "lib_laws L"
    and f: "\<not> overlap f1 f2" "tiles (interval_merge f1 f2) {f1, f2}" and d: "S1 \<inter> S2 = {}" and dec: "pred_law (dec_key t)"
    and len: "2 \<le> acount t a + acount t b" "(acount t a + acount t b + 1) div 2 < FAN_OUT (sizes t)"
  shows "\<exists>bs t'. redistribute_internals L t a f1 b f2 = Some (bs, t') \<and> grows L n W t t' \<and> (\<exists>fl l fr r. bs = ByKey fl l fr r)
    \<and> new_nodes (Suc h) now t t' (interval_merge f1 f2) (S1 \<union> S2 - {a, b}) M (split_news (interval_merge f1 f2) bs)
        [(acount t a + acount t b) div 2, (acount t a + acount t b) - (acount t a + acount t b) div 2]"
proof -
  obtain es1 es2 Sf where es: "index_in t a es1" "index_in t b es2"
    "index_part h now t (interval_merge f1 f2) (active_entries es1 @ active_entries es2) Sf M"
    "(\<Union>e \<in> set (active_entries es1 @ active_entries es2). Sf e) \<subseteq> S1 \<union> S2 - {a, b}"
    using index_parts_joined [OF r1 r2 f d] .
  let ?P = "\<lambda>f s. e_lower f < e_lower s" and ?F = "interval_merge f1 f2"
  define xs where "xs = merge_by ?P (sort_key e_lower (active_entries es2)) (sort_key e_lower (active_entries es1))"
  have ms: "mset xs = mset (active_entries es1 @ active_entries es2)" by (simp add: xs_def mset_merge_by)
  note part = index_part_permuted [OF es(3) ms]
  have s: "sorted (map e_lower xs)"
    using sorted_merge_by [of ?P e_lower "sort_key e_lower (active_entries es2)" "sort_key e_lower (active_entries es1)"]
    by (auto simp: xs_def)
  have n: "length xs = acount t a + acount t b"
    using mset_eq_length [OF ms] index_part_length [OF es(1)] index_part_length [OF es(2)] by simp
  let ?m = "length xs div 2"
  let ?l = "sort_key e_version (take ?m xs)" and ?r = "sort_key e_version (drop ?m xs)"
  have lens: "length ?l \<le> FAN_OUT (sizes t)" "length ?r \<le> FAN_OUT (sizes t)" using len n by auto
  have act: "\<And>e. e \<in> set ?l \<Longrightarrow> e_active e" "\<And>e. e \<in> set ?r \<Longrightarrow> e_active e"
    using index_part_active [OF part] by (auto dest!: in_set_takeD in_set_dropD)
  obtain l u t1 t2 t3 t4 where t2: "new_empty_index_block L t = Some (l, t1)" "new_empty_index_block L t1 = Some (u, t2)"
      "grows L n W t t2" "node_at t l = None" "node_at t u = None" "l \<noteq> u"
    and t4: "push_entries t2 l ?l = Some t3" "push_entries t3 u ?r = Some t4" "grows L n W t t4" "index_in t4 l ?l" "index_in t4 u ?r"
    by (rule two_indexes [OF q lens(1) act(1) lens(2) act(2)]) blast+
  have S: "(\<Union>e \<in> set xs. Sf e) \<subseteq> S1 \<union> S2 - {a, b}" using es(4) mset_eq_setD [OF ms] by metis
  have lt: "2 \<le> length xs" "?m < FAN_OUT (sizes t)" "length xs - ?m < FAN_OUT (sizes t)" using n len by linarith+
  have "merge_entries L ?P (sorted_entries L e_lower (active_entries es2)) (sorted_entries L e_lower (active_entries es1)) = xs"
    using L by (simp add: lib_laws_def xs_def)
  then show ?thesis
    using t2(1,2) t4(1-3) n len array_read_second [of ?m xs] entries_at_index_in [OF es(1)] entries_at_index_in [OF es(2)]
      index_cut_nodes [OF part s lt dec t2(4-6) t4(3-5) S]
    by (simp add: redistribute_internals_def interval_merge_def Let_def)
qed

end
