(* ===== verification/Repair.thy ===== *)
theory Repair
  imports Smo_Correct
begin

text \<open>
  The repairs of a child: \<open>split\<close>, \<open>merge\<close>, \<open>on_overflow_node\<close> and \<open>on_underflow_node\<close> of
  \<^verbatim>\<open>mv_tree/smo.rs\<close> in a tree. A repair returns, keeps the map and the past, and gives children that
  are neither overfull nor underfull.
\<close>

section \<open>Splits\<close>

definition split_lens :: "page_sizes \<Rightarrow> nat \<Rightarrow> nat \<Rightarrow> nat list" where
  "split_lens C h a = (if (4 * slots C h + 4) div 5 \<le> a then [a div 2, a - a div 2] else [a])"

lemma split_ok:
  assumes q: "quiet L n W t" and r: "rep h now t a F S M" and L: "lib_laws L" and dec: "pred_law (dec_key t)"
    and F: "nonempty F" and C: "roomy (sizes t)"
  shows "\<exists>bs t'. split L t a F = Some (bs, t') \<and> grows L n W t t'
    \<and> new_nodes h now t t' F (S - {a}) M (split_news F bs) (split_lens (sizes t) h (acount t a))"
proof -
  obtain nd where nd: "node_at t a = Some nd" "is_leaf nd \<longleftrightarrow> h = 0" using rep_counts [OF r] by metis
  have cnt: "unat (fst (active_dead_count nd)) = acount t a" using nd by (simp add: acount_def)
  have fill: "filling_80_percent (sizes t) nd = (4 * slots (sizes t) h + 4) div 5"
    using nd by (simp add: filling_80_percent_def max_units_def slots_def)
  have two: "2 \<le> acount t a" if "(4 * slots (sizes t) h + 4) div 5 \<le> acount t a"
    using that roomyD(1) [OF C, of h] by linarith
  have eq: "split L t a F = (if (4 * slots (sizes t) h + 4) div 5 \<le> acount t a
      then (if h = 0 then key_split_leaf L t a F else key_split_internal L t a F)
      else (if h = 0 then version_split_leaf L t a else version_split_internal L t a))"
    using nd cnt fill by (simp add: Smo.split_def case_prod_beta)
  show ?thesis
  proof (cases h)
    case 0
    then have r0: "rep 0 now t a F S M" and S: "S - {a} = {}" using r by auto
    show ?thesis
      unfolding eq split_lens_def S 0
      using key_split_leaf_ok [OF q r0 L dec two] version_split_leaf_ok [OF q r0 F] 0 by auto
  next
    case (Suc h')
    then have r0: "rep (Suc h') now t a F S M" using r by simp
    show ?thesis
      unfolding eq split_lens_def Suc
      using key_split_internal_ok [OF q r0 L dec two] version_split_internal_ok [OF q r0 F] Suc by auto
  qed
qed

section \<open>The sibling of a merge\<close>

lemma neighbour_tiles:
  assumes ok: "index_ok now F es" and e: "e \<in> set (active_entries es)" and f: "f \<in> set (active_entries es)"
    and lt: "e_lower e < e_lower f"
    and near: "\<And>g. g \<in> set (active_entries es) \<Longrightarrow> \<not> (e_lower e < e_lower g \<and> e_lower g < e_lower f)"
  shows "tiles (interval_merge (e_fence e) (e_fence f)) {e_fence e, e_fence f}"
    and "interval_merge (e_fence e) (e_fence f) = interval_new (e_lower e) (upper (e_fence f))"
proof -
  have act: "\<not> overlap (e_fence x) (e_fence y)" if "x \<in> set (active_entries es)" "y \<in> set (active_entries es)" "x \<noteq> y" for x y
    using active_disjoint [OF index_okD(3) [OF ok], of x y] that by auto
  have ne: "nonempty (e_fence x)" if "x \<in> set (active_entries es)" for x using index_okD(2) [OF ok] that by auto
  have inF: "contains F k \<longleftrightarrow> (\<exists>x \<in> set (active_entries es). contains (e_fence x) k)" for k
    using index_okD(4) [OF ok] unfolding tiles_def by blast
  have up: "upper (e_fence e) < e_lower f" using fence_order [OF act [OF e f] ne [OF e] ne [OF f]] lt by (metis less_imp_le less_irrefl)
  show hull: "interval_merge (e_fence e) (e_fence f) = interval_new (e_lower e) (upper (e_fence f))"
    using less_imp_le [OF lt] less_imp_le [OF less_le_trans [OF up ne [OF f]]] by (simp add: interval_merge_def min_absorb2 max_absorb1)
  have "contains (e_fence e) k \<or> contains (e_fence f) k" if k: "e_lower e \<le> k" "k \<le> upper (e_fence f)" for k
  proof (rule ccontr)
    assume out: "\<not> (contains (e_fence e) k \<or> contains (e_fence f) k)"
    have "contains F (e_lower e)" using inF [of "e_lower e"] e ne [OF e] by (metis contains_def order_refl)
    moreover have "contains F (upper (e_fence f))" using inF [of "upper (e_fence f)"] f ne [OF f] by (metis contains_def order_refl)
    ultimately have "contains F k" using k by (auto simp: contains_def)
    then obtain g where g: "g \<in> set (active_entries es)" "contains (e_fence g) k" unfolding inF by blast
    then have "g \<noteq> e" "g \<noteq> f" using out by auto
    have "\<not> e_lower g \<le> e_lower e"
      using fence_order [OF act [OF g(1) e \<open>g \<noteq> e\<close>] ne [OF g(1)] ne [OF e]] g(2) k(1) by (auto simp: contains_def)
    moreover have "\<not> e_lower f \<le> e_lower g"
      using fence_order [OF act [OF f g(1)] ne [OF f] ne [OF g(1)]] \<open>g \<noteq> f\<close> g(2) k(2) by (auto simp: contains_def)
    ultimately show False using near [OF g(1)] by auto
  qed
  then show "tiles (interval_merge (e_fence e) (e_fence f)) {e_fence e, e_fence f}"
    unfolding hull tiles_pair using lt up ne [OF e] ne [OF f] by (auto simp: contains_def)
qed

lemma interval_merge_sym: "interval_merge a b = interval_merge b a"
  by (simp add: interval_merge_def min.commute max.commute)

lemma merge_candidates_mem:
  assumes "lib_laws L"
  shows "(j, c, f) \<in> set (merge_candidates L es i) \<longleftrightarrow>
    j < length es \<and> j \<noteq> i \<and> e_active (es ! j) \<and> c = e_child (es ! j) \<and> f = e_fence (es ! j)"
  using assms by (auto simp: merge_candidates_def lib_laws_def in_set_enumerate_eq image_iff intro!: exI [of _ "(j, es ! j)"])

lemma compute_candidate_ok:
  assumes L: "lib_laws L" and ok: "index_ok now F es" and i: "i < length es" "e_active (es ! i)"
    and two: "2 \<le> length (active_entries es)"
  obtains j where "compute_candidate L es i (e_fence (es ! i)) = Some (j, e_child (es ! j), e_fence (es ! j))"
    "j < length es" "j \<noteq> i" "e_active (es ! j)"
    "tiles (interval_merge (e_fence (es ! i)) (e_fence (es ! j))) {e_fence (es ! i), e_fence (es ! j)}"
proof -
  note found = that
  let ?low = "\<lambda>(_, _, f). lower f"
  define cs where "cs = merge_candidates L es i"
  note mem = merge_candidates_mem [OF L, of _ _ _ es i, folded cs_def]
  have srt: "sorted (map ?low cs)" using L by (simp add: cs_def merge_candidates_def lib_laws_def)
  have ne: "cs \<noteq> []"
  proof -
    have "\<exists>e \<in> set (active_entries es). e \<noteq> es ! i"
    proof (rule ccontr)
      assume "\<not> ?thesis"
      then have "set (active_entries es) \<subseteq> {es ! i}" by blast
      then have "card (set (active_entries es)) \<le> 1" by (metis card_mono finite.intros(1,2) card_1_singleton_iff is_singletonI is_singleton_altdef)
      then show False using two distinct_card [OF active_entries_distinct [OF ok]] by simp
    qed
    then obtain j where "j < length es" "e_active (es ! j)" "es ! j \<noteq> es ! i" by (auto simp: in_set_conv_nth)
    then show ?thesis using mem [of j] by fastforce
  qed
  have diff: "e_lower (es ! j) \<noteq> e_lower (es ! i)" if "j < length es" "j \<noteq> i" "e_active (es ! j)" for j
  proof
    assume eq: "e_lower (es ! j) = e_lower (es ! i)"
    have "overlap (e_fence (es ! i)) (e_fence (es ! j))"
      using eq index_okD(2) [OF ok nth_mem [OF i(1)]] index_okD(2) [OF ok nth_mem [OF that(1)]]
      by (auto simp: overlap_def is_disjoint_def not_less)
    then show False
      using shadow_free_nth [OF index_okD(3) [OF ok], of i j] shadow_free_nth [OF index_okD(3) [OF ok], of j i] that i overlap_sym
      by (metis linorder_neqE_nat)
  qed
  have fin: thesis if c: "compute_candidate L es i (e_fence (es ! i)) = Some (cs ! p)" "p < length cs"
    and near: "\<And>g. g \<in> set (active_entries es) \<Longrightarrow>
      \<not> (e_lower (es ! i) < e_lower g \<and> e_lower g < ?low (cs ! p)) \<and> \<not> (?low (cs ! p) < e_lower g \<and> e_lower g < e_lower (es ! i))" for p
  proof -
    obtain j c f where jp: "cs ! p = (j, c, f)" by (cases "cs ! p")
    then have j: "j < length es" "j \<noteq> i" "e_active (es ! j)" "c = e_child (es ! j)" "f = e_fence (es ! j)"
      using mem [of j c f] nth_mem [OF c(2)] by auto
    have m: "es ! i \<in> set (active_entries es)" "es ! j \<in> set (active_entries es)" using i j by auto
    have "tiles (interval_merge (e_fence (es ! i)) (e_fence (es ! j))) {e_fence (es ! i), e_fence (es ! j)}"
    proof (cases "e_lower (es ! i) < e_lower (es ! j)")
      case True
      then show ?thesis using neighbour_tiles(1) [OF ok m True] near jp j by auto
    next
      case False
      then have lt: "e_lower (es ! j) < e_lower (es ! i)" using diff [OF j(1-3)] by (metis linorder_neqE)
      have "\<not> (e_lower (es ! j) < e_lower g \<and> e_lower g < e_lower (es ! i))" if "g \<in> set (active_entries es)" for g
        using near [OF that] jp j(5) by simp
      then show ?thesis
        using neighbour_tiles(1) [OF ok m(2,1) lt]
        unfolding interval_merge_sym [of "e_fence (es ! i)"] insert_commute [of "e_fence (es ! i)"] by blast
    qed
    then show thesis using found [of j] j c(1) jp by simp
  qed
  have pos: "\<exists>p < length cs. ?low (cs ! p) = e_lower g" if g: "g \<in> set (active_entries es)" "e_lower g \<noteq> e_lower (es ! i)" for g
  proof -
    obtain j where j: "j < length es" "es ! j = g" "e_active g" using g by (auto simp: in_set_conv_nth)
    then have "(j, e_child g, e_fence g) \<in> set cs" using mem [of j] g(2) by auto
    then show ?thesis by (auto simp: in_set_conv_nth)
  qed
  have bs: "case binary_search_by_key ?low (e_lower (es ! i)) cs of
      Inr p \<Rightarrow> p < length cs \<and> ?low (cs ! p) = e_lower (es ! i) \<and> (\<forall>j. p < j \<and> j < length cs \<longrightarrow> e_lower (es ! i) < ?low (cs ! j))
    | Inl p \<Rightarrow> p \<le> length cs \<and> (\<forall>j < p. ?low (cs ! j) < e_lower (es ! i))
        \<and> (\<forall>j. p \<le> j \<and> j < length cs \<longrightarrow> e_lower (es ! i) < ?low (cs ! j))"
    by (rule binary_search_cases [OF srt])
  show thesis
  proof (cases "binary_search_by_key ?low (e_lower (es ! i)) cs")
    case (Inr p)
    then have p: "p < length cs" "?low (cs ! p) = e_lower (es ! i)" using bs by auto
    obtain j c f where "cs ! p = (j, c, f)" by (cases "cs ! p")
    then show thesis using mem [of j c f] nth_mem [OF p(1)] p(2) diff by auto
  next
    case (Inl p)
    then have p: "\<And>j. j < p \<Longrightarrow> ?low (cs ! j) < e_lower (es ! i)" "\<And>j. p \<le> j \<Longrightarrow> j < length cs \<Longrightarrow> e_lower (es ! i) < ?low (cs ! j)"
      using bs by auto
    have mono: "?low (cs ! x) \<le> ?low (cs ! y)" if "x \<le> y" "y < length cs" for x y
      using sorted_nth_mono [OF srt that(1)] that by simp
    show thesis
    proof (cases "p < length cs")
      case True
      show thesis
      proof (rule fin [OF _ True])
        show "compute_candidate L es i (e_fence (es ! i)) = Some (cs ! p)"
          using Inl True by (simp add: compute_candidate_def cs_def [symmetric] Let_def)
        fix g assume g: "g \<in> set (active_entries es)"
        show "\<not> (e_lower (es ! i) < e_lower g \<and> e_lower g < ?low (cs ! p)) \<and> \<not> (?low (cs ! p) < e_lower g \<and> e_lower g < e_lower (es ! i))"
        proof (intro conjI notI; elim conjE)
          assume a: "e_lower (es ! i) < e_lower g" "e_lower g < ?low (cs ! p)"
          then obtain x where x: "x < length cs" "?low (cs ! x) = e_lower g" using pos [OF g less_imp_neq [THEN not_sym]] by blast
          then have "p \<le> x" using p(1) [of x] a(1) by (metis leI order.asym)
          then show False using mono [of p x] x a(2) by simp
        next
          assume a: "?low (cs ! p) < e_lower g" "e_lower g < e_lower (es ! i)"
          then show False using less_trans [OF a] p(2) [of p] True by (metis order.asym order_refl)
        qed
      qed
    next
      case False
      let ?p = "length cs - 1"
      have lp: "?p < length cs" using ne by simp
      show thesis
      proof (rule fin [OF _ lp])
        show "compute_candidate L es i (e_fence (es ! i)) = Some (cs ! ?p)"
          using Inl False ne by (simp add: compute_candidate_def cs_def [symmetric] Let_def last_conv_nth)
        fix g assume g: "g \<in> set (active_entries es)"
        show "\<not> (e_lower (es ! i) < e_lower g \<and> e_lower g < ?low (cs ! ?p)) \<and> \<not> (?low (cs ! ?p) < e_lower g \<and> e_lower g < e_lower (es ! i))"
        proof -
          have all: "?low (cs ! x) < e_lower (es ! i)" if "x < length cs" for x using p(1) False that by auto
          have "?low (cs ! x) \<le> ?low (cs ! ?p)" if "x < length cs" for x using mono [of x ?p] that lp by simp
          then show ?thesis using pos [OF g] all lp by (metis leD order.asym)
        qed
      qed
    qed
  qed
qed

section \<open>Replacing children\<close>

text \<open>A page of the current tree with its children.\<close>

definition family ::
    "nat \<Rightarrow> version \<Rightarrow> ('k::linorder, 'p) mvbt \<Rightarrow> addr \<Rightarrow> 'k interval \<Rightarrow> 'k entry list \<Rightarrow> ('k entry \<Rightarrow> addr set)
       \<Rightarrow> ('k \<rightharpoonup> 'p) \<Rightarrow> bool" where
  "family h now t mu F es Sf M \<longleftrightarrow> index_in t mu es \<and> index_ok now F es
     \<and> index_part h now t F (active_entries es) Sf M \<and> (\<forall>e \<in> set (active_entries es). mu \<notin> Sf e)"

abbreviation brood :: "addr \<Rightarrow> 'k entry list \<Rightarrow> ('k entry \<Rightarrow> addr set) \<Rightarrow> addr set" where
  "brood mu es Sf \<equiv> insert mu (\<Union>e \<in> set (active_entries es). Sf e)"

lemma familyD:
  assumes "family h now t mu F es Sf M"
  shows "index_in t mu es" "index_ok now F es" "index_part h now t F (active_entries es) Sf M"
    "e \<in> set (active_entries es) \<Longrightarrow> mu \<notin> Sf e"
    "e \<in> set (active_entries es) \<Longrightarrow> entry_rep h now t M e (Sf e)"
    "e \<in> set (active_entries es) \<Longrightarrow> b \<in> Sf e \<Longrightarrow> node_at t b \<noteq> None"
  using assms index_partD(2) index_part_blocks unfolding family_def by blast+

lemma family_of_rep:
  assumes "rep (Suc h) now t mu F S M"
  obtains es Sf where "family h now t mu F es Sf M" "S = brood mu es Sf" "length (active_entries es) < FAN_OUT (sizes t)"
  using index_part_of_rep [OF assms] unfolding family_def by metis

lemma new_nodesD:
  assumes "new_nodes h now t t' G S M news lens"
  obtains Sn where "tiles G (fst ` set news)" "sorted_wrt (\<lambda>m n. \<not> overlap (fst m) (fst n)) news"
    "\<And>n. n \<in> set news \<Longrightarrow> nonempty (fst n)" "\<And>n. n \<in> set news \<Longrightarrow> rep h now t' (snd n) (fst n) (Sn n) M"
    "\<And>n. n \<in> set news \<Longrightarrow> Sn n \<subseteq> S \<union> {b. node_at t b = None}"
    "\<And>m n. m \<in> set news \<Longrightarrow> n \<in> set news \<Longrightarrow> m \<noteq> n \<Longrightarrow> Sn m \<inter> Sn n = {}"
    "\<And>n. n \<in> set news \<Longrightarrow> node_at t (snd n) = None"
proof -
  obtain Sn where "\<forall>n \<in> set news. nonempty (fst n) \<and> rep h now t' (snd n) (fst n) (Sn n) M
      \<and> Sn n \<subseteq> S \<union> {b. node_at t b = None} \<and> node_at t (snd n) = None"
    "\<forall>m \<in> set news. \<forall>n \<in> set news. m \<noteq> n \<longrightarrow> Sn m \<inter> Sn n = {}"
    using assms unfolding new_nodes_def by blast
  note Sn = this
  show thesis
    by (rule that [of Sn]) (use Sn assms in \<open>simp_all add: new_nodes_def\<close>)
qed

lemma new_nodes_fill:
  assumes "new_nodes h now t t' G S M news lens" and "\<And>l. l \<in> set lens \<Longrightarrow> degree (sizes t') h l 0 = DegreeOk"
    and "n \<in> set news"
  shows "fill_min t' (snd n)" and "degree (sizes t') h (acount t' (snd n)) (dcount t' (snd n)) = DegreeOk"
proof -
  obtain i where i: "i < length news" "news ! i = n" using assms(3) by (auto simp: in_set_conv_nth)
  then have c: "acount t' (snd n) = lens ! i" "dcount t' (snd n) = 0" "lens ! i \<in> set lens"
    using assms(1) unfolding new_nodes_def by auto
  then show ok: "degree (sizes t') h (acount t' (snd n)) (dcount t' (snd n)) = DegreeOk" using assms(2) by simp
  obtain Sn where "rep h now t' (snd n) (fst n) (Sn n) M" using new_nodesD [OF assms(1)] assms(3) by metis
  then obtain nd where "node_at t' (snd n) = Some nd" "is_leaf nd \<longleftrightarrow> h = 0" using rep_counts by metis
  then show "fill_min t' (snd n)" using ok fill_min_eq degree_ok_iff less_imp_le by metis
qed

lemma replace_children:
  assumes fam: "family h now t mu F es Sf M" and w: "now < VERSION_LIMIT"
    and d: "distinct is" and sub: "set is \<subseteq> {..<length es}" and act: "\<And>i. i \<in> set is \<Longrightarrow> e_active (es ! i)"
    and new: "new_nodes h now t t' G (\<Union>i \<in> set is. Sf (es ! i)) M news lens"
    and G: "\<And>k. contains G k \<longleftrightarrow> (\<exists>i \<in> set is. contains (e_fence (es ! i)) k)"
    and ok: "\<And>l. l \<in> set lens \<Longrightarrow> degree (sizes t) h l 0 = DegreeOk"
    and len: "length (active_entries es) + length news < FAN_OUT (sizes t) + length is"
    and at': "\<And>b. node_at t b \<noteq> None \<Longrightarrow> node_at t' b = node_at t b" and sz': "sizes t' = sizes t"
    and mu: "index_in t'' mu (replaced now is news es)"
    and at'': "\<And>b. b \<noteq> mu \<Longrightarrow> node_at t'' b = node_at t' b" and sz'': "sizes t'' = sizes t"
  obtains S' where "rep (Suc h) (now + 1) t'' mu F S' M" "S' \<subseteq> brood mu es Sf \<union> {b. node_at t b = None}"
proof -
  obtain Sn where nn: "tiles G (fst ` set news)" "sorted_wrt (\<lambda>m n. \<not> overlap (fst m) (fst n)) news"
    "\<And>n. n \<in> set news \<Longrightarrow> nonempty (fst n)" "\<And>n. n \<in> set news \<Longrightarrow> rep h now t' (snd n) (fst n) (Sn n) M"
    "\<And>n. n \<in> set news \<Longrightarrow> Sn n \<subseteq> (\<Union>i \<in> set is. Sf (es ! i)) \<union> {b. node_at t b = None}"
    "\<And>m n. m \<in> set news \<Longrightarrow> n \<in> set news \<Longrightarrow> m \<noteq> n \<Longrightarrow> Sn m \<inter> Sn n = {}"
    using new_nodesD [OF new] by metis
  note iok = familyD(2) [OF fam]
  let ?es = "replaced now is news es"
  have mem: "e \<in> set (active_entries ?es) \<longleftrightarrow> e \<in> set (active_entries es) \<and> (\<forall>i \<in> set is. e \<noteq> es ! i) \<or> (\<exists>n \<in> set news. e = new_entry now n)" for e
    by (rule active_replaced_mem [OF iok d sub act w])
  have fresh: "new_entry now n \<notin> set (active_entries es)" for n :: "'a interval \<times> addr"
    using index_okD(1) [OF iok, of "new_entry now n"] w by (auto simp: into_cmp_def)
  have old: "es ! i \<in> set (active_entries es)" if "i \<in> set is" for i using sub act that by auto
  have mu_at: "node_at t mu \<noteq> None" using familyD(1) [OF fam] by (auto simp: index_in_def)
  define Sg where "Sg e = (if e \<in> set (active_entries es) then Sf e else Sn (e_fence e, e_child e))" for e
  have SgN: "Sg (new_entry now n) = Sn n" for n using fresh [of n] by (auto simp: Sg_def)
  have SgO: "Sg e = Sf e" if "e \<in> set (active_entries es)" for e using that by (simp add: Sg_def)
  have "mu \<notin> (\<Union>i \<in> set is. Sf (es ! i))"
  proof
    assume "mu \<in> (\<Union>i \<in> set is. Sf (es ! i))"
    then obtain i where "i \<in> set is" "mu \<in> Sf (es ! i)" by blast
    then show False using familyD(4) [OF fam old [of i]] by simp
  qed
  then have muN: "mu \<notin> Sn n" if "n \<in> set news" for n
    using contra_subsetD [OF nn(5) [OF that], of mu] mu_at by simp
  have le: "now \<le> now + 1" using version_step [OF w] by simp
  have kept: "entry_rep h (now + 1) t'' M e (Sf e)" if e: "e \<in> set (active_entries es)" for e
  proof (rule entry_rep_frame [OF familyD(5) [OF fam e]])
    show "node_at t'' b = node_at t b" if "b \<in> Sf e" for b
      using at' [OF familyD(6) [OF fam e that]] at'' [of b] familyD(4) [OF fam e] that by metis
  qed (use sz'' le in auto)
  have made: "rep h (now + 1) t'' (snd n) (fst n) (Sn n) M \<and> fill_min t'' (snd n)" if n: "n \<in> set news" for n
  proof
    have eq: "node_at t'' b = node_at t' b" if "b \<in> Sn n" for b using muN [OF n] that at'' [of b] by metis
    show "rep h (now + 1) t'' (snd n) (fst n) (Sn n) M"
      by (rule rep_frame [OF nn(4) [OF n]]) (use eq le sz' sz'' in simp_all)
    have "fill_min t' (snd n)" using new_nodes_fill(1) [OF new _ n] ok sz' by simp
    then show "fill_min t'' (snd n)"
      using fill_min_cong [of t'' "snd n" t'] eq rep_top [OF nn(4) [OF n]] sz' sz'' by simp
  qed
  have "rep (Suc h) (now + 1) t'' mu F (brood mu ?es Sg) M"
    unfolding rep.simps
  proof (intro exI [of _ ?es] exI [of _ Sg] conjI ballI impI)
    show "index_in t'' mu ?es" by (rule mu)
    have cov: "(\<exists>n \<in> set news. contains (fst n) k) \<longleftrightarrow> (\<exists>i \<in> set is. contains (e_fence (es ! i)) k)" for k
      using nn(1) G [of k] unfolding tiles_def by (metis imageE imageI)
    show "index_ok (now + 1) F ?es"
      by (rule index_ok_replaced [OF iok order_refl w d sub act nn(3,2) cov])
    show "length (active_entries ?es) < FAN_OUT (sizes t'')"
      using length_active_mark_at [OF d sub act] len sz'' by (simp add: active_replaced [OF w])
    fix e assume e: "e \<in> set (active_entries ?es)"
    have all: "mu \<notin> Sg e \<and> fill_min t'' (e_child e) \<and> rep h (now + 1) t'' (e_child e) (e_fence e) (Sg e) M"
    proof (cases "e \<in> set (active_entries es)")
      case True
      then show ?thesis using familyD(4) [OF fam True] entry_repD(4,5) [OF kept [OF True]] SgO by simp
    next
      case False
      then obtain n where n: "n \<in> set news" "e = new_entry now n" using e mem by blast
      then show ?thesis using made [OF n(1)] muN [OF n(1)] SgN by simp
    qed
    then show "mu \<notin> Sg e" "fill_min t'' (e_child e)" "rep h (now + 1) t'' (e_child e) (e_fence e) (Sg e) M" by blast+
  next
    fix e f assume ef: "e \<in> set (active_entries ?es)" "f \<in> set (active_entries ?es)" "e \<noteq> f"
    have on: "Sf x \<inter> Sn n = {}" if x: "x \<in> set (active_entries es)" "\<forall>i \<in> set is. x \<noteq> es ! i" and n: "n \<in> set news" for x n
    proof -
      have "Sf x \<inter> Sf (es ! i) = {}" if "i \<in> set is" for i
        using index_partD(4) [OF familyD(3) [OF fam] x(1) old [OF that]] x(2) that by simp
      moreover have "b \<notin> {b. node_at t b = None}" if "b \<in> Sf x" for b using familyD(6) [OF fam x(1) that] by simp
      ultimately show ?thesis using nn(5) [OF n] by blast
    qed
    have kind: "x \<in> set (active_entries es) \<and> (\<forall>i \<in> set is. x \<noteq> es ! i) \<and> Sg x = Sf x \<or> (\<exists>n \<in> set news. x = new_entry now n \<and> Sg x = Sn n)"
      if "x \<in> set (active_entries ?es)" for x using that mem SgO SgN by metis
    show "Sg e \<inter> Sg f = {}"
      using kind [OF ef(1)] kind [OF ef(2)]
    proof (elim disjE conjE bexE, goal_cases)
      case 1
      then show ?case using index_partD(4) [OF familyD(3) [OF fam]] ef(3) by simp
    next
      case (2 n)
      then show ?case using on by simp
    next
      case (3 n)
      then show ?case using on by blast
    next
      case (4 m n)
      then show ?case using nn(6) ef(3) by metis
    qed
  qed simp
  moreover have "brood mu ?es Sg \<subseteq> brood mu es Sf \<union> {b. node_at t b = None}"
  proof -
    have "Sg e \<subseteq> brood mu es Sf \<union> {b. node_at t b = None}" if e: "e \<in> set (active_entries ?es)" for e
    proof (cases "e \<in> set (active_entries es)")
      case True
      then show ?thesis using SgO by blast
    next
      case False
      then obtain n where n: "n \<in> set news" "e = new_entry now n" using e mem by blast
      have "Sg e = Sn n" using n(2) SgN by simp
      moreover have "(\<Union>i \<in> set is. Sf (es ! i)) \<subseteq> brood mu es Sf" by (intro UN_least subset_insertI2 UN_upper old)
      ultimately show ?thesis using order_trans [OF nn(5) [OF n(1)] Un_mono [OF _ order_refl]] by metis
    qed
    then show ?thesis by blast
  qed
  ultimately show thesis by (rule that)
qed

section \<open>What a repair achieves\<close>

text \<open>
  After the repair of a child of \<open>mu\<close> that took the keys with \<open>K\<close>: the tree below \<open>mu\<close> holds the same
  map, the past is kept, only \<open>mu\<close> and fresh blocks have changed, and the children of the keys \<open>K\<close>
  are neither overfull nor underfull.
\<close>

definition repaired ::
    "nat \<Rightarrow> ('k::linorder, 'p) mvbt \<Rightarrow> addr \<Rightarrow> 'k interval \<Rightarrow> addr set \<Rightarrow> ('k \<rightharpoonup> 'p) \<Rightarrow> ('k \<Rightarrow> bool) \<Rightarrow> ('k, 'p) mvbt \<Rightarrow> bool" where
  "repaired h t mu F S M K t' \<longleftrightarrow>
     static t' = static t \<and> root t' = root t \<and> root_latch t' = root_latch t
     \<and> current_version t' = current_version t + 1 \<and> keeps (current_version t) t t'
     \<and> (\<forall>b. node_at t b \<noteq> None \<longrightarrow> b \<noteq> mu \<longrightarrow> node_at t' b = node_at t b)
     \<and> (\<exists>S'. rep (Suc h) (current_version t + 1) t' mu F S' M \<and> S' \<subseteq> S \<union> {b. node_at t b = None})
     \<and> (\<exists>es. index_in t' mu es \<and> (\<forall>e \<in> set (active_entries es). (\<exists>k. K k \<and> contains (e_fence e) k)
          \<longrightarrow> degree (sizes t') h (acount t' (e_child e)) (dcount t' (e_child e)) = DegreeOk))
     \<and> acount t mu \<le> Suc (acount t' mu)"

lemma repaired_cong:
  assumes "repaired h t mu F S M K t'" and "node_at t'' = node_at t'" and "outer t'' = outer t'"
  shows "repaired h t mu F S M K t''"
proof -
  note o = outer_eqD [OF assms(3)]
  have eq: "acount t'' b = acount t' b" "dcount t'' b = dcount t' b" "index_in t'' b es = index_in t' b es" for b es
    using assms(2) o(1) by (simp_all add: acount_def dcount_def index_in_def)
  have k: "keeps c t t'' = keeps c t t'" for c using assms(2) by (simp add: keeps_def)
  have r: "rep (Suc h) v t'' mu F S' M" if "rep (Suc h) v t' mu F S' M" for v S'
    by (rule rep_frame [OF that]) (use assms(2) o(1) in simp_all)
  obtain S' where S': "rep (Suc h) (current_version t + 1) t' mu F S' M" "S' \<subseteq> S \<union> {b. node_at t b = None}"
    using assms(1) unfolding repaired_def by blast
  show ?thesis
    using assms(1) r [OF S'(1)] S'(2) outer_static [OF assms(3)] unfolding repaired_def eq k o assms(2) by auto
qed

lemma publish_ok:
  assumes fam: "family h now t mu F es Sf M" and w: "now = current_version t" "now < VERSION_LIMIT"
    and g: "quiet L n W t1" "outer t1 = outer t" "\<And>b. node_at t b \<noteq> None \<Longrightarrow> node_at t1 b = node_at t b"
    and d: "distinct is" and sub: "set is \<subseteq> {..<length es}" and act: "\<And>i. i \<in> set is \<Longrightarrow> e_active (es ! i)"
    and new: "new_nodes h now t t1 G (\<Union>i \<in> set is. Sf (es ! i)) M news lens"
    and G: "\<And>k. contains G k \<longleftrightarrow> (\<exists>i \<in> set is. contains (e_fence (es ! i)) k)"
    and ok: "\<And>l. l \<in> set lens \<Longrightarrow> degree (sizes t) h l 0 = DegreeOk"
    and len: "length (active_entries es) + length news < FAN_OUT (sizes t) + length is" "length is \<le> Suc (length news)"
    and st: "start_tx_commit t1 = (now, t2)"
    and p': "index_view p' (replaced now is news es)" "index_cap_ok (FAN_OUT (sizes t)) p'"
  obtains t3 where "put_internal t2 mu p' = Some t3" "quiet L n W (end_tx_commit now t3)"
    "repaired h t mu F (brood mu es Sf) M (contains G) (end_tx_commit now t3)"
    "\<And>q. holds t1 W q \<Longrightarrow> holds (end_tx_commit now t3) W q" "db_tracker t3 = None"
proof -
  have t2: "quiet L n W t2" "node_at t2 = node_at t1" "static t2 = static t1" "root t2 = root t1" "root_latch t2 = root_latch t1"
    "current_version t2 = current_version t1 + 1" "\<And>q. holds t1 W q \<Longrightarrow> holds t2 W q"
    using quiet_start_tx_commit [OF g(1)] st by auto
  note o1 = outer_eqD [OF g(2)] and s2 = static_eqD [OF t2(3)]
  have sz: "sizes t2 = sizes t" using s2(1) o1(1) by simp
  obtain p where p: "node_at t mu = Some (NInternal p)" "index_view p es"
    using familyD(1) [OF fam] by (auto simp: index_in_def)
  have mu2: "node_at t2 mu = Some (NInternal p)" using p(1) t2(2) g(3) [of mu] by simp
  have pok: "page_ok (sizes t2) (NInternal p')" using p' sz by auto
  obtain t3 where t3: "put_internal t2 mu p' = Some t3" "quiet L n W t3" "node_at t3 = (node_at t2)(mu \<mapsto> NInternal p')"
    "outer t3 = outer t2" "\<forall>q. holds t2 W q \<longrightarrow> holds t3 W q"
    using quiet_put [OF t2(1) _ pok, of mu] mu2 by auto
  note o3 = outer_eqD [OF t3(4)]
  have mu3: "index_in t3 mu (replaced now is news es)"
    using p' t3(3) o3(1) sz by (auto simp: index_in_def)
  have at3: "node_at t3 b = node_at t1 b" if "b \<noteq> mu" for b using t3(3) t2(2) that by simp
  obtain S' where S': "rep (Suc h) (now + 1) t3 mu F S' M" "S' \<subseteq> brood mu es Sf \<union> {b. node_at t b = None}"
    using replace_children [OF fam w(2) d sub act new G ok len(1) g(3) o1(1) mu3 at3] o3(1) sz by metis
  have keep: "keeps now t t3"
    unfolding keeps_def
  proof (intro allI impI)
    fix a nd assume nd: "node_at t a = Some nd"
    show "\<exists>n'. node_at t3 a = Some n' \<and> (\<forall>v<now. \<forall>k. node_answer n' k v = node_answer nd k v)"
    proof (cases "a = mu")
      case False
      then show ?thesis using at3 [OF False] g(3) [of a] nd by simp
    next
      case True
      have "read_entry p' k v = read_entry p k v" if "v < now" for k v
      proof (rule read_entry_keeps [OF p(2) p'(1) [unfolded replaced_def] _ _ _ that])
        show "now \<le> into_cmp (e_version e)" if "e \<in> set (map (new_entry now) news)" for e
          using that w(2) by (auto simp: into_cmp_def)
      qed (simp_all add: mark_at_nth [OF d sub])
      moreover have "nd = NInternal p" "node_at t3 mu = Some (NInternal p')" using True nd p(1) t3(3) by simp_all
      ultimately show ?thesis using True by simp
    qed
  qed
  have cnt: "acount t3 mu + length is = acount t mu + length news"
  proof -
    have "acount t3 mu = length (active_entries (replaced now is news es))" "acount t mu = length (active_entries es)"
      using index_part_length [OF mu3] index_part_length [OF familyD(1) [OF fam]] by simp_all
    then show ?thesis using length_active_mark_at [OF d sub act] by (simp add: active_replaced [OF w(2)])
  qed
  have safe: "degree (sizes t3) h (acount t3 (e_child e)) (dcount t3 (e_child e)) = DegreeOk"
    if e: "e \<in> set (active_entries (replaced now is news es))" and k: "contains G k" "contains (e_fence e) k" for e k
  proof -
    have "\<not> (e \<in> set (active_entries es) \<and> (\<forall>i \<in> set is. e \<noteq> es ! i))"
    proof
      assume a: "e \<in> set (active_entries es) \<and> (\<forall>i \<in> set is. e \<noteq> es ! i)"
      obtain i where i: "i \<in> set is" "contains (e_fence (es ! i)) k" using G k(1) by blast
      then have "es ! i \<in> set es" "e_active (es ! i)" using sub act by auto
      then show False using active_unique [OF index_okD(3) [OF familyD(2) [OF fam]], of e "es ! i" k] a i k(2) by auto
    qed
    then obtain m where m: "m \<in> set news" "e = new_entry now m"
      using e active_replaced_mem [OF familyD(2) [OF fam] d sub act w(2)] by blast
    have "node_at t (snd m) = None" using new_nodesD [OF new] m(1) by metis
    then have ne: "snd m \<noteq> mu" using p(1) by auto
    have "degree (sizes t1) h (acount t1 (snd m)) (dcount t1 (snd m)) = DegreeOk"
      using new_nodes_fill(2) [OF new _ m(1)] ok o1(1) by simp
    then show ?thesis using at3 [OF ne] m(2) o3(1) sz o1(1) by (simp add: acount_def dcount_def)
  qed
  have "repaired h t mu F (brood mu es Sf) M (contains G) t3"
    unfolding repaired_def
  proof (intro conjI)
    show "static t3 = static t" using outer_static [OF t3(4)] t2(3) outer_static [OF g(2)] by simp
    show "root t3 = root t" "root_latch t3 = root_latch t" using o3 t2(4,5) o1 by simp_all
    show "current_version t3 = current_version t + 1" using o3 t2(6) o1 by simp
    show "acount t mu \<le> Suc (acount t3 mu)" using cnt len(2) by linarith
    show "\<forall>b. node_at t b \<noteq> None \<longrightarrow> b \<noteq> mu \<longrightarrow> node_at t3 b = node_at t b" using at3 g(3) by simp
  qed (use S' keep mu3 safe w(1) in blast)+
  then have "repaired h t mu F (brood mu es Sf) M (contains G) (end_tx_commit now t3)"
    by (rule repaired_cong) (simp_all add: quiet_end_tx_commit(2) [OF t3(2)])
  then show thesis
    using that [OF t3(1)] quiet_end_tx_commit(1,3) [OF t3(2)] t2(7) t3(5) quietD(2) [OF t3(2)] by blast
qed

end
