(* ===== verification/Repair_Child.thy ===== *)
theory Repair_Child
  imports Repair
begin

text \<open>
  \<open>on_overflow_node\<close> and \<open>on_underflow_node\<close> of \<^verbatim>\<open>mv_tree/smo.rs\<close>: the repair of a child whose latch
  and whose parent's latch the writer holds.
\<close>

text \<open>What the repairs rely on: the library, the predecessor function of the keys, the page sizes.\<close>

definition setting :: "('k::linorder, 'p) lib \<Rightarrow> ('k, 'p) mvbt \<Rightarrow> bool" where
  "setting L t \<longleftrightarrow> lib_laws L \<and> pred_law (dec_key t) \<and> roomy (sizes t)"

lemma settingD: "setting L t \<Longrightarrow> lib_laws L" "setting L t \<Longrightarrow> pred_law (dec_key t)" "setting L t \<Longrightarrow> roomy (sizes t)"
  by (simp_all add: setting_def)

lemma setting_static:
  assumes "static t' = static t"
  shows "setting L t' = setting L t"
  using static_eqD [OF assms] by (simp add: setting_def)

lemma split_lens_ok:
  assumes "roomy C" and "degree C h a d = Overflow" and "a \<le> limit C h" and "l \<in> set (split_lens C h a)"
  shows "degree C h l 0 = DegreeOk"
  using assms(4) ok_version_split [OF assms(1,2)] ok_key_split [OF assms(1) _ assms(3)]
  by (auto simp: split_lens_def not_le split: if_splits)

lemma internal_at_grows:
  "grows L n W t t' \<Longrightarrow> node_at t a = Some (NInternal p) \<Longrightarrow> internal_at t' a = Some p"
  using growsD(3) by (fastforce simp: internal_at_def)

lemma sum_len_view: "index_view p es \<Longrightarrow> sum_len p = length es"
  by (rule index_view_length)

lemma replaced_child:
  assumes "index_view p' (replaced w is news es)" and "distinct is" and "set is \<subseteq> {..<length es}" and "i < length es"
  shows "get_pointer p' i = Some (e_child (es ! i))"
proof -
  have "replaced w is news es ! i = mark_at is es ! i" using assms(4) by (simp add: replaced_def nth_append)
  then have "e_child (replaced w is news es ! i) = e_child (es ! i)" using mark_at_nth [OF assms(2,3,4)] by simp
  then show ?thesis using index_view_get(3) [OF assms(1), of i] assms(4) by (simp add: replaced_def)
qed

text \<open>The page of the parent after a split.\<close>

lemma split_page_ok:
  assumes r: "page_room f p es" and w: "w < VERSION_LIMIT" and i: "i < length es" "e_active (es ! i)"
  shows "\<exists>p'. (case bs of
         ByKey left_fence left right_fence right \<Rightarrow> do {
           page \<leftarrow> internal_push_uncommitted p left_fence w left (length es);
           page \<leftarrow> internal_push_uncommitted page right_fence w right (length es + 1);
           mark_version_obsolete (internal_commit_delta page 1 1) i
         }
       | ByVersion fresh \<Rightarrow> do {
           page \<leftarrow> internal_push_uncommitted p G w fresh (length es);
           mark_version_obsolete (internal_commit_delta page 0 1) i
         }) = Some p'
    \<and> index_view p' (replaced w [i] (split_news G bs) es) \<and> index_cap_ok f p'"
proof (cases bs)
  case (ByKey fl l fr u)
  obtain p1 p2 p3 where "internal_push_uncommitted p fl w l (length es) = Some p1"
    "internal_push_uncommitted p1 fr w u (length es + 1) = Some p2"
    "mark_version_obsolete (internal_commit_delta p2 1 1) i = Some p3"
    "index_view p3 (replaced w [i] [(fl, l), (fr, u)] es)" "index_cap_ok f p3"
    using replace_2_1 [OF assms] by blast
  then show ?thesis using ByKey by simp
next
  case (ByVersion c)
  obtain p1 p2 where "internal_push_uncommitted p G w c (length es) = Some p1"
    "mark_version_obsolete (internal_commit_delta p1 0 1) i = Some p2"
    "index_view p2 (replaced w [i] [(G, c)] es)" "index_cap_ok f p2"
    using replace_1_1 [OF assms] by blast
  then show ?thesis using ByVersion by simp
qed

lemma on_overflow_ok:
  assumes q: "quiet L n W t" and n: "Suc n < 2 ^ 62" and set: "setting L t" and fam: "family h now t mu F es Sf M"
    and w: "now = current_version t" "now < VERSION_LIMIT"
    and i: "i < length es" "e_active (es ! i)" and room: "length es + 2 \<le> FAN_OUT (sizes t)"
    and mg: "guard_addr mg = mu" and sg: "guard_addr sg = e_child (es ! i)" "holds t W sg"
    and deg: "degree (sizes t) h (acount t (e_child (es ! i))) (dcount t (e_child (es ! i))) = Overflow"
  shows "\<exists>t'. on_overflow_node L t mg sg i = Some (mg, t') \<and> quiet L (Suc n) (W - {e_child (es ! i)}) t'
    \<and> repaired h t mu F (brood mu es Sf) M (contains (e_fence (es ! i))) t'
    \<and> (\<forall>q. guard_addr q \<noteq> e_child (es ! i) \<longrightarrow> holds t W q \<longrightarrow> holds t' (W - {e_child (es ! i)}) q)"
proof -
  let ?c = "e_child (es ! i)" and ?G = "e_fence (es ! i)"
  have ia: "es ! i \<in> set (active_entries es)" using i by simp
  note er = entry_repD [OF familyD(5) [OF fam ia]]
  obtain p where p: "node_at t mu = Some (NInternal p)" "index_view p es" "index_cap_ok (FAN_OUT (sizes t)) p"
    using familyD(1) [OF fam] by (auto simp: index_in_def)
  have pr: "page_room (FAN_OUT (sizes t)) p es" using p room by (simp add: page_room_def)
  obtain bs t1 where t1: "split L t ?c ?G = Some (bs, t1)" "grows L n W t t1"
    "new_nodes h now t t1 ?G (Sf (es ! i) - {?c}) M (split_news ?G bs) (split_lens (sizes t) h (acount t ?c))"
    using split_ok [OF q er(5) settingD(1,2) [OF set] er(3) settingD(3) [OF set]] by blast
  have lens: "degree (sizes t) h l 0 = DegreeOk" if "l \<in> set (split_lens (sizes t) h (acount t ?c))" for l
    using split_lens_ok [OF settingD(3) [OF set] deg _ that] rep_counts [OF er(5)] by metis
  have new: "new_nodes h now t t1 ?G (\<Union>i \<in> set [i]. Sf (es ! i)) M (split_news ?G bs) (split_lens (sizes t) h (acount t ?c))"
    using t1(3) unfolding new_nodes_def by fastforce
  have o1: "outer t1 = outer t" "quiet L n W t1" using growsD(1,2) [OF t1(2)] by auto
  obtain t2 where t2: "start_tx_commit t1 = (now, t2)"
    using quiet_start_tx_commit [OF o1(2)] outer_eqD(10) [OF o1(1)] w(1) by auto
  have act: "length (active_entries es) \<le> length es" by (rule length_filter_le)
  have at1: "node_at t1 b = node_at t b" if "node_at t b \<noteq> None" for b using growsD(3) [OF t1(2)] that by auto
  obtain p' where p': "(case bs of
         ByKey left_fence left right_fence right \<Rightarrow> do {
           page \<leftarrow> internal_push_uncommitted p left_fence now left (length es);
           page \<leftarrow> internal_push_uncommitted page right_fence now right (length es + 1);
           mark_version_obsolete (internal_commit_delta page 1 1) i
         }
       | ByVersion fresh \<Rightarrow> do {
           page \<leftarrow> internal_push_uncommitted p ?G now fresh (length es);
           mark_version_obsolete (internal_commit_delta page 0 1) i
         }) = Some p'"
    "index_view p' (replaced now [i] (split_news ?G bs) es)" "index_cap_ok (FAN_OUT (sizes t)) p'"
    using split_page_ok [OF pr w(2) i, of ?G bs] by blast
  have nl: "length (split_news ?G bs) \<le> 2" "1 \<le> length (split_news ?G bs)" by (cases bs; simp)+
  have nlen: "length (active_entries es) + length (split_news ?G bs) < FAN_OUT (sizes t) + 1" using nl act room by linarith
  obtain t3 where t3: "put_internal t2 mu p' = Some t3" "quiet L n W (end_tx_commit now t3)"
    "repaired h t mu F (brood mu es Sf) M (contains ?G) (end_tx_commit now t3)"
    "\<And>q. holds t1 W q \<Longrightarrow> holds (end_tx_commit now t3) W q" "db_tracker t3 = None"
    by (rule publish_ok [OF fam w o1(2,1) at1 _ _ _ new _ lens _ _ t2 p'(2,3)]) (use i nl nlen in auto)
  have sg3: "holds (end_tx_commit now t3) W sg" using t3(4) growsD(4) [OF t1(2) sg(2)] by blast
  obtain t4 where t4: "block_drop (end_tx_commit now t3) sg = Some t4" "quiet L (Suc n) (W - {?c}) t4"
    "node_at t4 = node_at (end_tx_commit now t3)" "outer t4 = outer (end_tx_commit now t3)"
    "\<forall>q. guard_addr q \<noteq> ?c \<longrightarrow> holds (end_tx_commit now t3) W q \<longrightarrow> holds t4 (W - {?c}) q"
    using quiet_drop [OF t3(2) n sg3] sg(1) by auto
  have db: "db_tracker (end_tx_commit now t3) = None" using quietD(2) [OF t3(2)] .
  have "on_overflow_node L t mg sg i = Some (mg, t4)"
    using p(1) t1(1) t2 p'(1) t3(1) t4(1) mg sg(1) db index_view_get(1) [OF p(2) i(1)] sum_len_view [OF p(2)]
      internal_at_grows [OF t1(2) p(1)] replaced_child [OF p'(2) _ _ i(1)] i(1)
    by (simp add: on_overflow_node_def internal_at_def [of t] del: One_nat_def)
  then show ?thesis
    using t4(2,5) repaired_cong [OF t3(3) t4(3,4)] t3(4) growsD(4) [OF t1(2)] by blast
qed

section \<open>Merges\<close>

lemma new_nodes_mono:
  assumes "new_nodes h now t t' F S M news lens" and "S \<subseteq> S'"
  shows "new_nodes h now t t' F S' M news lens"
proof -
  obtain Sn where Sn: "\<forall>n \<in> set news. nonempty (fst n) \<and> rep h now t' (snd n) (fst n) (Sn n) M
      \<and> Sn n \<subseteq> S \<union> {b. node_at t b = None} \<and> node_at t (snd n) = None"
    "\<forall>m \<in> set news. \<forall>n \<in> set news. m \<noteq> n \<longrightarrow> Sn m \<inter> Sn n = {}"
    using assms(1) unfolding new_nodes_def by blast
  have "Sn n \<subseteq> S' \<union> {b. node_at t b = None}" if "n \<in> set news" for n using Sn(1) that assms(2) by blast
  then show ?thesis
    using assms(1) Sn unfolding new_nodes_def by (intro conjI exI [of _ Sn]) simp_all
qed

text \<open>The two nodes as one or as two, whatever their height.\<close>

lemma merge_nodes_ok:
  assumes q: "quiet L n W t" and r1: "rep h now t a f1 S1 M" and r2: "rep h now t b f2 S2 M" and set: "setting L t"
    and f: "\<not> overlap f1 f2" "tiles (interval_merge f1 f2) {f1, f2}" "nonempty f1" and d: "S1 \<inter> S2 = {}"
    and sum: "acount t a + acount t b \<le> (4 * slots (sizes t) h) div 5"
  shows "\<exists>c t'. (if h = 0 then merge_leaves L t a b else merge_internals L t a b) = Some (c, t') \<and> grows L n W t t'
    \<and> new_nodes h now t t' (interval_merge f1 f2) (S1 \<union> S2) M [(interval_merge f1 f2, c)] [acount t a + acount t b]"
proof -
  have F: "nonempty (interval_merge f1 f2)"
    using f(3) by (auto simp: interval_merge_def intro: order_trans min.coboundedI2 max.coboundedI2)
  have le: "acount t a + acount t b < slots (sizes t) h"
    using sum roomyD(1) [OF settingD(3) [OF set], of h] by linarith
  show ?thesis
  proof (cases h)
    case 0
    obtain c t' where "merge_leaves L t a b = Some (c, t')" "grows L n W t t'"
      "new_nodes 0 now t t' (interval_merge f1 f2) {} M [(interval_merge f1 f2, c)] [acount t a + acount t b]"
      using merge_leaves_ok [OF q r1 [unfolded 0] r2 [unfolded 0] settingD(1) [OF set] f(1,2) F] le 0 by (auto simp: slots_def)
    then show ?thesis using new_nodes_mono [OF _ empty_subsetI] 0 by auto
  next
    case (Suc h')
    obtain c t' where "merge_internals L t a b = Some (c, t')" "grows L n W t t'"
      "new_nodes (Suc h') now t t' (interval_merge f1 f2) (S1 \<union> S2 - {a, b}) M [(interval_merge f1 f2, c)] [acount t a + acount t b]"
      using merge_internals_ok [OF q r1 [unfolded Suc] r2 [unfolded Suc] settingD(1) [OF set] f(1,2) F d] le Suc
      by (auto simp: slots_def)
    then show ?thesis using new_nodes_mono [OF _ Diff_subset] Suc by auto
  qed
qed

lemma redistribute_nodes_ok:
  assumes q: "quiet L n W t" and r1: "rep h now t a f1 S1 M" and r2: "rep h now t b f2 S2 M" and set: "setting L t"
    and f: "\<not> overlap f1 f2" "tiles (interval_merge f1 f2) {f1, f2}" and d: "S1 \<inter> S2 = {}"
    and deg: "degree (sizes t) h (acount t a) (dcount t a) = ActiveUnderflow"
    and sum: "(4 * slots (sizes t) h) div 5 < acount t a + acount t b"
  shows "\<exists>fl l fr u t'. (if h = 0 then redistribute_leaves L t a f1 b f2 else redistribute_internals L t a f1 b f2)
      = Some (ByKey fl l fr u, t') \<and> grows L n W t t'
    \<and> new_nodes h now t t' (interval_merge f1 f2) (S1 \<union> S2) M [(fl, l), (fr, u)]
        [(acount t a + acount t b) div 2, (acount t a + acount t b) - (acount t a + acount t b) div 2]"
proof -
  have lim: "acount t b \<le> limit (sizes t) h" using rep_counts [OF r2] by metis
  have "degree (sizes t) h ((acount t a + acount t b) - (acount t a + acount t b) div 2) 0 = DegreeOk"
    by (rule ok_redistribute(2) [OF settingD(3) [OF set] deg sum lim])
  then have le: "(acount t a + acount t b + 1) div 2 < limit (sizes t) h" unfolding degree_ok_iff by linarith
  have two: "2 \<le> acount t a + acount t b" using sum roomyD(1) [OF settingD(3) [OF set], of h] by linarith
  show ?thesis
  proof (cases h)
    case 0
    obtain fl l fr u t' where "redistribute_leaves L t a f1 b f2 = Some (ByKey fl l fr u, t')" "grows L n W t t'"
      "new_nodes 0 now t t' (interval_merge f1 f2) {} M [(fl, l), (fr, u)]
        [(acount t a + acount t b) div 2, (acount t a + acount t b) - (acount t a + acount t b) div 2]"
      using redistribute_leaves_ok [OF q r1 [unfolded 0] r2 [unfolded 0] settingD(1) [OF set] f settingD(2) [OF set] two] le 0
      by (auto simp: limit_def)
    then show ?thesis using new_nodes_mono [OF _ empty_subsetI] 0 by auto
  next
    case (Suc h')
    have lt: "(acount t a + acount t b + 1) div 2 < FAN_OUT (sizes t)" using le Suc by (simp add: limit_def)
    obtain fl l fr u t' where "redistribute_internals L t a f1 b f2 = Some (ByKey fl l fr u, t')" "grows L n W t t'"
      "new_nodes (Suc h') now t t' (interval_merge f1 f2) (S1 \<union> S2 - {a, b}) M [(fl, l), (fr, u)]
        [(acount t a + acount t b) div 2, (acount t a + acount t b) - (acount t a + acount t b) div 2]"
      using redistribute_internals_ok [OF q r1 [unfolded Suc] r2 [unfolded Suc] settingD(1) [OF set] f d settingD(2) [OF set] two lt]
      by auto
    then show ?thesis using new_nodes_mono [OF _ Diff_subset] Suc by auto
  qed
qed

text \<open>
  \<open>merge\<close> always finds a neighbour, latches it, and builds one or two nodes for both; the fence of
  the result is the hull of the two fences.
\<close>

definition merged_as :: "usize \<Rightarrow> 'k::linorder interval \<Rightarrow> 'k interval \<Rightarrow> smart_guard \<Rightarrow> 'k merge_result
    \<Rightarrow> ('k interval \<times> addr) list \<Rightarrow> bool" where
  "merged_as j fi fj g res news \<longleftrightarrow>
     (\<exists>m. res = Merged j fj m g \<and> news = [(interval_merge fi fj, m)])
     \<or> (\<exists>fl l fr u. res = KeySplit j (ByKey fl l fr u) g \<and> news = [(fl, l), (fr, u)])"

lemma merge_ok:
  assumes q: "quiet L n W t" and n: "n < 2 ^ 62" and set: "setting L t" and fam: "family h now t mu F es Sf M"
    and i: "i < length es" "e_active (es ! i)" and two: "2 \<le> length (active_entries es)"
    and W: "W = {mu, e_child (es ! i)}"
    and deg: "degree (sizes t) h (acount t (e_child (es ! i))) (dcount t (e_child (es ! i))) = ActiveUnderflow"
  obtains j g res news lens t' where "merge L t mu (e_child (es ! i)) i = Some (res, t')"
    "merged_as j (e_fence (es ! i)) (e_fence (es ! j)) g res news" "j < length es" "e_active (es ! j)" "i \<noteq> j"
    "guard_addr g = e_child (es ! j)" "e_child (es ! j) \<notin> W" "quiet L n (insert (e_child (es ! j)) W) t'" "outer t' = outer t"
    "\<And>b. node_at t b \<noteq> None \<Longrightarrow> node_at t' b = node_at t b" "holds t' (insert (e_child (es ! j)) W) g"
    "\<And>q. guard_addr q \<noteq> e_child (es ! j) \<Longrightarrow> holds t W q \<Longrightarrow> holds t' (insert (e_child (es ! j)) W) q"
    "tiles (interval_merge (e_fence (es ! i)) (e_fence (es ! j))) {e_fence (es ! i), e_fence (es ! j)}"
    "new_nodes h now t t' (interval_merge (e_fence (es ! i)) (e_fence (es ! j))) (Sf (es ! i) \<union> Sf (es ! j)) M news lens"
    "\<And>l. l \<in> set lens \<Longrightarrow> degree (sizes t) h l 0 = DegreeOk" "1 \<le> length news" "length news \<le> 2"
proof -
  note found = that
  let ?s = "e_child (es ! i)" and ?fi = "e_fence (es ! i)"
  obtain p where p: "node_at t mu = Some (NInternal p)" "index_view p es"
    using familyD(1) [OF fam] by (auto simp: index_in_def)
  obtain j where j: "compute_candidate L es i ?fi = Some (j, e_child (es ! j), e_fence (es ! j))"
    "j < length es" "j \<noteq> i" "e_active (es ! j)" "tiles (interval_merge ?fi (e_fence (es ! j))) {?fi, e_fence (es ! j)}"
    using compute_candidate_ok [OF settingD(1) [OF set] familyD(2) [OF fam] i two] .
  let ?c = "e_child (es ! j)" and ?fj = "e_fence (es ! j)"
  have ia: "es ! i \<in> set (active_entries es)" and ja: "es ! j \<in> set (active_entries es)" using i j by simp_all
  note ei = entry_repD [OF familyD(5) [OF fam ia]] and ej = entry_repD [OF familyD(5) [OF fam ja]]
  have ov: "\<not> overlap ?fi ?fj"
    using shadow_free_nth [OF index_okD(3) [OF familyD(2) [OF fam]], of i j]
      shadow_free_nth [OF index_okD(3) [OF familyD(2) [OF fam]], of j i] i j(2-4) overlap_sym by (metis linorder_neqE_nat)
  then have ne: "es ! i \<noteq> es ! j" using nonempty_overlap [OF ei(3)] by auto
  have dj: "Sf (es ! i) \<inter> Sf (es ! j) = {}" by (rule index_partD(4) [OF familyD(3) [OF fam] ia ja ne])
  have cW: "?c \<notin> W"
    using W familyD(4) [OF fam ja] rep_top [OF ei(5)] rep_top [OF ej(5)] dj by auto
  obtain v where v: "block_borrow_read t ?c = Some (Reader ?c v)" "holds t W (Reader ?c v)"
    using quiet_borrow [OF q n _ cW] rep_blocks [OF ej(5) rep_top [OF ej(5)]] by blast
  obtain g t1 where t1: "block_upgrade t (Reader ?c v) = Some (g, True, t1)" "guard_addr g = ?c"
    "quiet L n (insert ?c W) t1" "holds t1 (insert ?c W) g" "node_at t1 = node_at t" "outer t1 = outer t"
    "\<forall>q. guard_addr q \<noteq> ?c \<longrightarrow> holds t W q \<longrightarrow> holds t1 (insert ?c W) q"
    using quiet_upgrade [OF q n v(2)] by auto
  have sz: "sizes t1 = sizes t" by (rule outer_eqD(1) [OF t1(6)])
  have st: "static t1 = static t" by (rule outer_static [OF t1(6)])
  have set1: "setting L t1" using set setting_static [OF st] by simp
  have cnt: "acount t1 b = acount t b" "dcount t1 b = dcount t b" for b using t1(5) by (simp_all add: acount_def dcount_def)
  have ri: "rep h now t1 ?s ?fi (Sf (es ! i)) M" and rj: "rep h now t1 ?c ?fj (Sf (es ! j)) M"
    by (rule rep_frame [OF ei(5)], use t1(5) sz in simp_all) (rule rep_frame [OF ej(5)], use t1(5) sz in simp_all)
  obtain ns where ns: "node_at t ?s = Some ns" "is_leaf ns \<longleftrightarrow> h = 0" using rep_counts [OF ei(5)] by metis
  obtain nc where nc: "node_at t ?c = Some nc" "is_leaf nc \<longleftrightarrow> h = 0" using rep_counts [OF ej(5)] by metis
  have mu: "max_units (sizes t) ns = slots (sizes t) h" using ns by (simp add: max_units_def slots_def)
  have cs: "unat (fst (active_dead_count ns)) = acount t ?s" "unat (fst (active_dead_count nc)) = acount t ?c"
    using ns nc by (simp_all add: acount_def)
  let ?sum = "acount t ?s + acount t ?c" and ?hull = "interval_merge ?fi ?fj"
  have eq: "merge L t mu ?s i = (if ?sum \<le> (4 * slots (sizes t) h) div 5
      then map_option (\<lambda>(m, t). (Merged j ?fj m g, t)) (if h = 0 then merge_leaves L t1 ?s ?c else merge_internals L t1 ?s ?c)
      else map_option (\<lambda>(bs, t). (KeySplit j bs g, t))
        (if h = 0 then redistribute_leaves L t1 ?s ?fi ?c ?fj else redistribute_internals L t1 ?s ?fi ?c ?fj))"
    using p ns nc mu cs sz t1(1,5) v(1) j(1) index_view_get(1) [OF p(2) i(1)]
    by (simp add: merge_def internal_at_def index_view_slices [OF p(2)] zip_entries_maps case_prod_beta add.commute
        map_option_case split: option.split)
  have fin: thesis
    if m: "merge L t mu ?s i = Some (res, t')" "grows L n (insert ?c W) t1 t'" "merged_as j ?fi ?fj g res news"
      and nn: "new_nodes h now t1 t' ?hull (Sf (es ! i) \<union> Sf (es ! j)) M news lens"
      and ok: "\<And>l. l \<in> set lens \<Longrightarrow> degree (sizes t) h l 0 = DegreeOk" for res t' news lens
  proof (rule found [OF m(1,3) j(2,4) _ t1(2) cW])
    show "i \<noteq> j" using j(3) by simp
    show "quiet L n (insert ?c W) t'" "outer t' = outer t" using growsD(1,2) [OF m(2)] t1(6) by simp_all
    show "node_at t' b = node_at t b" if "node_at t b \<noteq> None" for b
      using growsD(3) [OF m(2), of b] t1(5) that by auto
    show "holds t' (insert ?c W) g" by (rule growsD(4) [OF m(2) t1(4)])
    show "holds t' (insert ?c W) q" if "guard_addr q \<noteq> ?c" "holds t W q" for q
      using growsD(4) [OF m(2)] t1(7) that by blast
    show "new_nodes h now t t' ?hull (Sf (es ! i) \<union> Sf (es ! j)) M news lens"
      using nn unfolding new_nodes_def t1(5) .
    show "1 \<le> length news" "length news \<le> 2" using m(3) by (auto simp: merged_as_def)
  qed (use ok j(5) in auto)
  show thesis
  proof (cases "?sum \<le> (4 * slots (sizes t) h) div 5")
    case True
    obtain m t' where m: "(if h = 0 then merge_leaves L t1 ?s ?c else merge_internals L t1 ?s ?c) = Some (m, t')"
      "grows L n (insert ?c W) t1 t'" "new_nodes h now t1 t' ?hull (Sf (es ! i) \<union> Sf (es ! j)) M [(?hull, m)] [?sum]"
      using merge_nodes_ok [OF t1(3) ri rj set1 ov j(5) ei(3) dj] True cnt sz by auto
    have "degree (sizes t) h ?sum 0 = DegreeOk"
      using ok_merge [OF settingD(3) [OF set] True] fill_min_eq [OF ns] fill_min_eq [OF nc] ei(4) ej(4) by simp
    then show thesis
      using m True by (intro fin [of "Merged j ?fj m g" t' "[(?hull, m)]" "[?sum]"]) (auto simp: eq merged_as_def)
  next
    case False
    obtain fl l fr u t' where m: "(if h = 0 then redistribute_leaves L t1 ?s ?fi ?c ?fj else redistribute_internals L t1 ?s ?fi ?c ?fj)
        = Some (ByKey fl l fr u, t')" "grows L n (insert ?c W) t1 t'"
      "new_nodes h now t1 t' ?hull (Sf (es ! i) \<union> Sf (es ! j)) M [(fl, l), (fr, u)] [?sum div 2, ?sum - ?sum div 2]"
      using redistribute_nodes_ok [OF t1(3) ri rj set1 ov j(5) dj] False cnt sz deg by auto
    have lim: "acount t ?c \<le> limit (sizes t) h" using rep_counts [OF ej(5)] by metis
    have "degree (sizes t) h l' 0 = DegreeOk" if "l' \<in> set [?sum div 2, ?sum - ?sum div 2]" for l'
      using ok_redistribute [OF settingD(3) [OF set] deg _ lim] False that by auto
    then show thesis
      using m False
      by (intro fin [of "KeySplit j (ByKey fl l fr u) g" t' "[(fl, l), (fr, u)]" "[?sum div 2, ?sum - ?sum div 2]"])
        (auto simp: eq merged_as_def)
  qed
qed

text \<open>The end of a merge: the new page is published, the two old blocks are released.\<close>

definition merged_page :: "'k::linorder internal_page \<Rightarrow> usize \<Rightarrow> version \<Rightarrow> 'k merge_result \<Rightarrow> 'k internal_page option" where
  "merged_page page i w res = (case res of
       Merged j fj m g \<Rightarrow> do {
         fi \<leftarrow> get_key page i;
         page \<leftarrow> internal_push_uncommitted page (interval_merge fi fj) w m (sum_len page);
         page \<leftarrow> mark_version_obsolete (internal_commit_delta page (-1) 2) j;
         mark_version_obsolete page i
       }
     | KeySplit j (ByKey fl l fr u) g \<Rightarrow> do {
         let len = sum_len page;
         page \<leftarrow> internal_push_uncommitted page fl w l len;
         page \<leftarrow> internal_push_uncommitted page fr w u (len + 1);
         page \<leftarrow> mark_version_obsolete (internal_commit_delta page 0 2) j;
         mark_version_obsolete page i
       }
     | _ \<Rightarrow> None)"

lemma merged_page_ok:
  assumes r: "page_room f p es" and v: "index_view p es" and w: "w < VERSION_LIMIT" and i: "i < length es" "e_active (es ! i)"
    and j: "j < length es" "e_active (es ! j)" "i \<noteq> j"
    and m: "merged_as j (e_fence (es ! i)) (e_fence (es ! j)) g res news"
  shows "\<exists>p'. merged_page p i w res = Some p' \<and> index_view p' (replaced w [j, i] news es) \<and> index_cap_ok f p'"
  using m unfolding merged_as_def
proof (elim disjE exE conjE)
  fix m assume res: "res = Merged j (e_fence (es ! j)) m g" and news: "news = [(interval_merge (e_fence (es ! i)) (e_fence (es ! j)), m)]"
  show ?thesis
    using replace_1_2 [OF r w i j, of "interval_merge (e_fence (es ! i)) (e_fence (es ! j))" m]
    by (auto simp: merged_page_def res news index_view_get(1) [OF v i(1)] sum_len_view [OF v])
next
  fix fl l fr u assume res: "res = KeySplit j (ByKey fl l fr u) g" and news: "news = [(fl, l), (fr, u)]"
  show ?thesis
    using replace_2_2 [OF r w i j, of fl l fr u]
    by (auto simp: merged_page_def res news sum_len_view [OF v])
qed

lemma on_underflow_step:
  assumes "merge L t (guard_addr mg) (guard_addr sg) i = Some (res, t1)" and "merged_as j fi fj g res news"
    and "internal_at t1 (guard_addr mg) = Some p" and "start_tx_commit t1 = (w, t2)" and "merged_page p i w res = Some p'"
    and "put_internal t2 (guard_addr mg) p' = Some t3" and "get_pointer p' i = Some a" and "get_pointer p' j = Some b"
    and "db_tracker t3 = None" and "block_drop (end_tx_commit w t3) g = Some t4" and "block_drop t4 sg = Some t5"
  shows "on_underflow_node L t mg sg i = Some (Inr mg, t5)"
  using assms(2) unfolding merged_as_def
  by (elim disjE exE conjE)
    (use assms in \<open>auto simp: on_underflow_node_def merged_page_def Let_def bind_eq_Some_conv
      split: option.splits\<close>)

lemma hull_contains:
  assumes "tiles H {f, g}"
  shows "contains H k \<longleftrightarrow> contains f k \<or> contains g k"
  using assms by (simp add: tiles_def)

lemma on_underflow_ok:
  assumes q: "quiet L n W t" and n: "n + 2 < 2 ^ 62" and set: "setting L t" and fam: "family h now t mu F es Sf M"
    and w: "now = current_version t" "now < VERSION_LIMIT"
    and i: "i < length es" "e_active (es ! i)" and room: "length es + 2 \<le> FAN_OUT (sizes t)"
    and two: "2 \<le> length (active_entries es)" and W: "W = {mu, e_child (es ! i)}"
    and mg: "guard_addr mg = mu" and sg: "guard_addr sg = e_child (es ! i)" "holds t W sg"
    and deg: "degree (sizes t) h (acount t (e_child (es ! i))) (dcount t (e_child (es ! i))) = ActiveUnderflow"
  shows "\<exists>t' G. on_underflow_node L t mg sg i = Some (Inr mg, t') \<and> quiet L (n + 2) (W - {e_child (es ! i)}) t'
    \<and> repaired h t mu F (brood mu es Sf) M (contains G) t' \<and> (\<forall>k. contains (e_fence (es ! i)) k \<longrightarrow> contains G k)
    \<and> (guard_addr mg \<noteq> e_child (es ! i) \<longrightarrow> holds t W mg \<longrightarrow> holds t' (W - {e_child (es ! i)}) mg)"
proof -
  let ?s = "e_child (es ! i)" and ?fi = "e_fence (es ! i)"
  obtain p where p: "node_at t mu = Some (NInternal p)" "index_view p es" "index_cap_ok (FAN_OUT (sizes t)) p"
    using familyD(1) [OF fam] by (auto simp: index_in_def)
  have pr: "page_room (FAN_OUT (sizes t)) p es" using p room by (simp add: page_room_def)
  have n': "n < 2 ^ 62" using n by simp
  obtain j g res news lens t1 where m: "merge L t mu ?s i = Some (res, t1)"
    "merged_as j ?fi (e_fence (es ! j)) g res news" and j: "j < length es" "e_active (es ! j)" "i \<noteq> j"
    and g: "guard_addr g = e_child (es ! j)" "e_child (es ! j) \<notin> W" "holds t1 (insert (e_child (es ! j)) W) g"
    and t1: "quiet L n (insert (e_child (es ! j)) W) t1" "outer t1 = outer t"
      "\<And>b. node_at t b \<noteq> None \<Longrightarrow> node_at t1 b = node_at t b"
      "\<And>q. guard_addr q \<noteq> e_child (es ! j) \<Longrightarrow> holds t W q \<Longrightarrow> holds t1 (insert (e_child (es ! j)) W) q"
    and hull: "tiles (interval_merge ?fi (e_fence (es ! j))) {?fi, e_fence (es ! j)}"
    and new: "new_nodes h now t t1 (interval_merge ?fi (e_fence (es ! j))) (Sf (es ! i) \<union> Sf (es ! j)) M news lens"
    and lens: "\<And>l. l \<in> set lens \<Longrightarrow> degree (sizes t) h l 0 = DegreeOk" and nl: "1 \<le> length news" "length news \<le> 2"
    by (rule merge_ok [OF q n' set fam i two W deg]) blast
  let ?c = "e_child (es ! j)" and ?G = "interval_merge ?fi (e_fence (es ! j))" and ?W = "insert (e_child (es ! j)) W"
  obtain t2 where t2: "start_tx_commit t1 = (now, t2)"
    using quiet_start_tx_commit [OF t1(1)] outer_eqD(10) [OF t1(2)] w(1) by auto
  obtain p' where p': "merged_page p i now res = Some p'" "index_view p' (replaced now [j, i] news es)"
    "index_cap_ok (FAN_OUT (sizes t)) p'"
    using merged_page_ok [OF pr p(2) w(2) i j m(2)] by blast
  have sub: "distinct [j, i]" "set [j, i] \<subseteq> {..<length es}" using i j by auto
  have act: "length (active_entries es) \<le> length es" by (rule length_filter_le)
  have len: "length (active_entries es) + length news < FAN_OUT (sizes t) + length [j, i]" "length [j, i] \<le> Suc (length news)"
    unfolding list.size using act room nl by linarith+
  have new2: "new_nodes h now t t1 ?G (\<Union>i \<in> set [j, i]. Sf (es ! i)) M news lens" using new by (simp add: Un_commute)
  have G: "contains ?G k \<longleftrightarrow> (\<exists>i \<in> set [j, i]. contains (e_fence (es ! i)) k)" for k
    using hull_contains [OF hull] by auto
  have ae: "e_active (es ! x)" if "x \<in> set [j, i]" for x using that i j by auto
  obtain t3 where t3: "put_internal t2 mu p' = Some t3" "quiet L n ?W (end_tx_commit now t3)"
    "repaired h t mu F (brood mu es Sf) M (contains ?G) (end_tx_commit now t3)"
    "\<And>q. holds t1 ?W q \<Longrightarrow> holds (end_tx_commit now t3) ?W q" "db_tracker t3 = None"
    by (rule publish_ok [OF fam w t1(1-3) sub ae new2 G lens len t2 p'(2,3)]) blast+
  obtain t4 where t4: "block_drop (end_tx_commit now t3) g = Some t4" "quiet L (Suc n) (?W - {?c}) t4"
    "node_at t4 = node_at (end_tx_commit now t3)" "outer t4 = outer (end_tx_commit now t3)"
    "\<And>q. guard_addr q \<noteq> ?c \<Longrightarrow> holds (end_tx_commit now t3) ?W q \<Longrightarrow> holds t4 (?W - {?c}) q"
    using quiet_drop [OF t3(2) _ t3(4) [OF g(3)]] n g(1) by auto
  have Wc: "?W - {?c} = W" using g(2) by simp
  have keepg: "holds t4 W q" if "guard_addr q \<in> W" "holds t W q" for q
    using t4(5) [OF _ t3(4) [OF t1(4)], of q] that g(2) Wc by metis
  obtain t5 where t5: "block_drop t4 sg = Some t5" "quiet L (Suc (Suc n)) (W - {?s}) t5"
    "node_at t5 = node_at t4" "outer t5 = outer t4" "\<And>q. guard_addr q \<noteq> ?s \<Longrightarrow> holds t4 W q \<Longrightarrow> holds t5 (W - {?s}) q"
    using quiet_drop [OF t4(2) [unfolded Wc] _ keepg [OF _ sg(2)]] n sg(1) W by auto
  have "on_underflow_node L t mg sg i = Some (Inr mg, t5)"
  proof (rule on_underflow_step [OF _ m(2) _ t2 p'(1)])
    show "merge L t (guard_addr mg) (guard_addr sg) i = Some (res, t1)" using m(1) mg sg(1) by simp
    show "internal_at t1 (guard_addr mg) = Some p" using t1(3) [of mu] p(1) mg by (simp add: internal_at_def)
    show "put_internal t2 (guard_addr mg) p' = Some t3" using t3(1) mg by simp
    show "get_pointer p' i = Some ?s" "get_pointer p' j = Some ?c"
      by (rule replaced_child [OF p'(2) sub i(1)], rule replaced_child [OF p'(2) sub j(1)])
  qed (rule t3(5) t4(1) t5(1))+
  moreover have "repaired h t mu F (brood mu es Sf) M (contains ?G) t5"
    by (rule repaired_cong [OF repaired_cong [OF t3(3) t4(3,4)] t5(3,4)])
  moreover have "guard_addr mg \<noteq> ?s \<longrightarrow> holds t W mg \<longrightarrow> holds t5 (W - {?s}) mg" using t5(5) keepg mg W by blast
  ultimately show ?thesis
    using t5(2) hull_contains [OF hull] by (intro exI [of _ t5] exI [of _ ?G]) simp
qed

end
