(* ===== verification/Standing.thy ===== *)
theory Standing
  imports Repair_Child
begin

text \<open>
  The invariant of a tree that one thread works on: \<open>standing\<close>. The heap is quiet, the index over
  the roots ends with the current root, that root stands for the present of an abstract history,
  and a reader of any earlier version sees what the history says. A commit extends the history; a
  commit that keeps the present map is not visible at any version.
\<close>

section \<open>The past\<close>

definition whole :: "('k, 'p) mvbt \<Rightarrow> 'k interval" where
  "whole t = interval_new (min_key t) (max_key t)"

definition past :: "('k::linorder, 'p) lib \<Rightarrow> ('k, 'p) mvbt \<Rightarrow> ('k, 'p) history \<Rightarrow> bool" where
  "past L t Hs \<longleftrightarrow> (\<forall>v. START_VERSION \<le> v \<longrightarrow> v < current_version t \<longrightarrow>
     (\<exists>b h. retrieve_root_for L t v = Some b \<and> view h t v b (whole t) (Hs v)))"

definition rooted :: "('k, 'p) lib \<Rightarrow> ('k, 'p) mvbt \<Rightarrow> addr \<Rightarrow> bool" where
  "rooted L t r \<longleftrightarrow> ri_ok (l_root L) (root t) \<and> roots_of (root t) \<noteq> [] \<and> root_block (last (roots_of (root t))) = r
     \<and> (\<forall>q \<in> set (roots_of (root t)). root_version q \<le> current_version t)
     \<and> (\<exists>q \<in> set (roots_of (root t)). root_version q \<le> START_VERSION)"

lemma rootedD:
  assumes "rooted L t r"
  shows "ri_ok (l_root L) (root t)" "roots_of (root t) \<noteq> []" "root_block (last (roots_of (root t))) = r"
    "q \<in> set (roots_of (root t)) \<Longrightarrow> root_version q \<le> current_version t"
    "\<exists>q \<in> set (roots_of (root t)). root_version q \<le> START_VERSION"
  using assms by (auto simp: rooted_def)

lemma rooted_now:
  assumes "rooted L t r" and "current_version t \<le> v"
  shows "retrieve_root_for L t v = Some r"
proof -
  let ?rs = "roots_of (root t)"
  have le: "root_version (last ?rs) \<le> v" "last ?rs \<in> set ?rs"
    using rootedD(2) [OF assms(1)] rootedD(4) [OF assms(1), of "last ?rs"] assms(2) by auto
  then have "rfind (\<lambda>r. root_version r \<le> v) ?rs = Some (last ?rs)"
    using rootedD(2) [OF assms(1)] by (cases ?rs rule: rev_cases) auto
  then show ?thesis
    using ri_lookup [OF rootedD(1) [OF assms(1)] le(2,1)] rootedD(3) [OF assms(1)] by (simp add: retrieve_root_for_def)
qed

lemma rooted_mono:
  assumes "rooted L t r" and "root t' = root t" and "current_version t \<le> current_version t'"
  shows "rooted L t' r"
  using assms by (auto simp: rooted_def intro: order_trans)

section \<open>The invariant\<close>

text \<open>Roots are older than the clock, except the first one until the first commit.\<close>

definition aged :: "('k, 'p) mvbt \<Rightarrow> nat \<Rightarrow> addr \<Rightarrow> bool" where
  "aged t H r \<longleftrightarrow> (\<forall>q \<in> set (roots_of (root t)). root_version q < current_version t) \<or> H = 0 \<and> acount t r + dcount t r = 0"

definition standing ::
    "('k::linorder, 'p) lib \<Rightarrow> nat \<Rightarrow> addr set \<Rightarrow> ('k, 'p) mvbt \<Rightarrow> nat \<Rightarrow> addr \<Rightarrow> addr set \<Rightarrow> ('k, 'p) history \<Rightarrow> bool" where
  "standing L n W t H r S Hs \<longleftrightarrow> quiet L n W t \<and> setting L t \<and> unat (root_latch t) \<le> n \<and> rooted L t r \<and> aged t H r
     \<and> rep H (current_version t) t r (whole t) S (Hs (current_version t))
     \<and> (\<forall>v \<ge> current_version t. Hs v = Hs (current_version t)) \<and> past L t Hs"

lemma standingD:
  assumes "standing L n W t H r S Hs"
  shows "quiet L n W t" "setting L t" "unat (root_latch t) \<le> n" "rooted L t r"
    "rep H (current_version t) t r (whole t) S (Hs (current_version t))"
    "\<forall>v \<ge> current_version t. Hs v = Hs (current_version t)" "past L t Hs" "aged t H r"
  using assms unfolding standing_def by blast+

lemma whole_static: "static t' = static t \<Longrightarrow> whole t' = whole t"
  by (simp add: whole_def static_def)

lemma past_kept:
  assumes "past L t Hs" and "keeps (current_version t) t t'" and "root t' = root t" and "whole t' = whole t"
    and "START_VERSION \<le> v" and "v < current_version t"
  shows "\<exists>b h. retrieve_root_for L t' v = Some b \<and> view h t' v b (whole t') (Hs v)"
proof -
  obtain b h where b: "retrieve_root_for L t v = Some b" "view h t v b (whole t) (Hs v)"
    using assms(1,5,6) unfolding past_def by blast
  then show ?thesis
    using view_keeps [OF assms(2,6) b(2)] assms(3,4) by (auto simp: retrieve_root_for_def)
qed

text \<open>Latches and other bookkeeping.\<close>

lemma standing_cong:
  assumes st: "standing L n W t H r S Hs" and q: "quiet L n' W' t'" and at: "node_at t' = node_at t"
    and o: "outer t' = outer t" and n: "n \<le> n'"
  shows "standing L n' W' t' H r S Hs"
proof -
  note d = standingD [OF st] and o' = outer_eqD [OF o] and s = outer_static [OF o]
  have w: "whole t' = whole t" by (rule whole_static [OF s])
  have "past L t' Hs"
    unfolding past_def using past_kept [OF d(7) keeps_refl [OF at] o'(8) w] by (simp add: o' w)
  moreover have "rep H (current_version t') t' r (whole t') S (Hs (current_version t'))"
    unfolding w o'(10) by (rule rep_frame [OF d(5)]) (use at o' in auto)
  moreover have "rooted L t' r" by (rule rooted_mono [OF d(4) o'(8)]) (simp add: o')
  moreover have "\<forall>v \<ge> current_version t'. Hs v = Hs (current_version t')" using d(6) unfolding o'(10) .
  moreover have "setting L t'" "unat (root_latch t') \<le> n'" using setting_static [OF s] d(2,3) o'(9) n by simp_all
  moreover have "aged t' H r" using d(8) at by (simp add: aged_def acount_def dcount_def o')
  ultimately show ?thesis using q unfolding standing_def by blast
qed

text \<open>A commit: from its version on the history has the new map.\<close>

definition extended :: "('k, 'p) history \<Rightarrow> version \<Rightarrow> ('k \<rightharpoonup> 'p) \<Rightarrow> ('k, 'p) history" where
  "extended Hs now M = (\<lambda>v. if now \<le> v then M else Hs v)"

lemma extended_same:
  assumes "standing L n W t H r S Hs"
  shows "extended Hs (current_version t) (Hs (current_version t)) = Hs"
proof
  fix v
  show "extended Hs (current_version t) (Hs (current_version t)) v = Hs v"
    using spec [OF standingD(6) [OF assms], of v] by (cases "current_version t \<le> v") (simp_all add: extended_def)
qed

lemma standing_commit:
  assumes st: "standing L n W t H r S Hs" and w: "current_version t < VERSION_LIMIT"
    and q: "quiet L n' W' t'" and n: "n \<le> n'" and s: "static t' = static t" and rt: "root t' = root t" "root_latch t' = root_latch t"
    and v: "current_version t' = current_version t + 1" and k: "keeps (current_version t) t t'"
    and rep: "rep H (current_version t') t' r (whole t) S' M"
  shows "standing L n' W' t' H r S' (extended Hs (current_version t) M)"
proof -
  note d = standingD [OF st]
  let ?H = "extended Hs (current_version t) M"
  have wh: "whole t' = whole t" by (rule whole_static [OF s])
  have le: "current_version t \<le> current_version t'" using v version_step [OF w] by simp
  have root': "rooted L t' r" by (rule rooted_mono [OF d(4) rt(1) le])
  have age: "aged t' H r"
    using rootedD(4) [OF d(4)] rt(1) v version_step [OF w] by (auto simp: aged_def intro: order_le_less_trans)
  have "past L t' ?H"
    unfolding past_def
  proof (intro allI impI)
    fix u assume u: "START_VERSION \<le> u" "u < current_version t'"
    show "\<exists>b h. retrieve_root_for L t' u = Some b \<and> view h t' u b (whole t') (?H u)"
    proof (cases "u < current_version t")
      case True
      then show ?thesis using past_kept [OF d(7) k rt(1) wh u(1) True] by (simp add: extended_def not_le [symmetric])
    next
      case False
      have now: "retrieve_root_for L t' u = Some r"
        using rooted_now [OF d(4), of u] False rt(1) by (simp add: retrieve_root_for_def)
      have "up_to_date (current_version t') u" using up_to_dateI(2) [OF w, of u] False v by simp
      then have "view H t' u r (whole t') M" using rep_view [OF _ rep] wh by simp
      then show ?thesis using now leI [OF False] by (auto simp: extended_def)
    qed
  qed
  moreover have "?H u = M" if "current_version t' \<le> u" for u using order_trans [OF le that] by (simp add: extended_def)
  ultimately show ?thesis
    using q setting_static [OF s] d(2) le_trans [OF d(3) n] rt(2) root' age rep wh by (simp add: standing_def)
qed

text \<open>Every version sees what the history says.\<close>

lemma standing_view:
  assumes st: "standing L n W t H r S Hs" and v: "START_VERSION \<le> v"
  obtains b h where "retrieve_root_for L t v = Some b" "view h t v b (whole t) (Hs v)"
proof (cases "v < current_version t")
  case True
  then show thesis using standingD(7) [OF st] v that unfolding past_def by blast
next
  case False
  have "view H t v r (whole t) (Hs v)"
    using rep_view [OF up_to_dateI(1) standingD(5) [OF st]] spec [OF standingD(6) [OF st], of v] False by simp
  then show thesis using that rooted_now [OF standingD(4) [OF st]] False by simp
qed

lemma standing_read:
  assumes st: "standing L n W t H r S Hs" and v: "START_VERSION \<le> v" and k: "contains (whole t) k"
  shows "\<exists>b. retrieve_root_for L t v = Some b \<and> key_point_read_from_root t b k v = Some (point_result k (Hs v k))"
  using standing_view [OF st v] view_read [OF _ k] by metis

text \<open>A commit that publishes a new root for the same map.\<close>

lemma keeps_grow:
  assumes "\<And>b. node_at t b \<noteq> None \<Longrightarrow> node_at t' b = node_at t b"
  shows "keeps c t t'"
  unfolding keeps_def using assms by fastforce

lemma standing_new_root:
  assumes st: "standing L n W t H r S Hs" and w: "current_version t < VERSION_LIMIT"
    and old: "\<And>q. q \<in> set (roots_of (root t)) \<Longrightarrow> root_version q < current_version t"
    and q: "quiet L n' W' t'" and lt: "unat (root_latch t') \<le> n'" and s: "static t' = static t"
    and ri: "ri_ok (l_root L) (root t')" "roots_of (root t') = roots_of (root t) @ [root_new r' (current_version t) hh]"
    and v: "current_version t' = current_version t + 1" and k: "keeps (current_version t) t t'"
    and rep: "rep H' (current_version t') t' r' (whole t) S' (Hs (current_version t))"
  shows "standing L n' W' t' H' r' S' Hs"
proof -
  note d = standingD [OF st]
  have wh: "whole t' = whole t" by (rule whole_static [OF s])
  have lt': "current_version t < current_version t'" using v version_step [OF w] by simp
  have root': "rooted L t' r'"
    using ri rootedD(4,5) [OF d(4)] lt' by (auto simp: rooted_def intro: order_trans less_imp_le)
  have age: "aged t' H' r'" using old lt' ri(2) by (auto simp: aged_def intro: less_trans)
  obtain q0 where q0: "q0 \<in> set (roots_of (root t))" "root_version q0 \<le> START_VERSION" using rootedD(5) [OF d(4)] by blast
  have look: "retrieve_root_for L t' u = (if current_version t \<le> u then Some r' else retrieve_root_for L t u)"
    if u: "START_VERSION \<le> u" for u
  proof -
    have le: "root_version q0 \<le> u" using q0(2) u by simp
    have "root_for (l_root L) (root t') u = rfind (\<lambda>r. root_version r \<le> u) (roots_of (root t'))"
      using ri_lookup [OF ri(1), of q0 u] q0(1) le ri(2) by simp
    then show ?thesis
      using ri_lookup [OF rootedD(1) [OF d(4)] q0(1) le] ri(2) by (simp add: retrieve_root_for_def)
  qed
  have "past L t' Hs"
    unfolding past_def
  proof (intro allI impI)
    fix u assume u: "START_VERSION \<le> u" "u < current_version t'"
    show "\<exists>b h. retrieve_root_for L t' u = Some b \<and> view h t' u b (whole t') (Hs u)"
    proof (cases "u < current_version t")
      case True
      obtain b h where b: "retrieve_root_for L t u = Some b" "view h t u b (whole t) (Hs u)"
        using d(7) u True unfolding past_def by blast
      then show ?thesis using look [OF u(1)] True view_keeps [OF k True b(2)] wh by auto
    next
      case False
      have "up_to_date (current_version t') u" using up_to_dateI(2) [OF w, of u] False v by simp
      then have "view H' t' u r' (whole t') (Hs (current_version t))" using rep_view [OF _ rep] wh by simp
      moreover have "Hs u = Hs (current_version t)" using spec [OF d(6), of u] False by simp
      ultimately show ?thesis using look [OF u(1)] leI [OF False] by auto
    qed
  qed
  moreover have "Hs u = Hs (current_version t)" if "current_version t \<le> u" for u using spec [OF d(6), of u] that by simp
  note eq = this
  have "Hs (current_version t') = Hs (current_version t)" by (rule eq [OF less_imp_le [OF lt']])
  moreover have "\<forall>u \<ge> current_version t'. Hs u = Hs (current_version t)" using eq lt' by (meson less_imp_le order_trans)
  ultimately show ?thesis
    using q setting_static [OF s] d(2) lt root' age rep wh by (simp add: standing_def)
qed

end
