(* ===== verification/Descent.thy ===== *)
theory Descent
  imports Standing
begin

text \<open>
  The writer's descent of \<^verbatim>\<open>mv_query/olc_query.rs\<close> by one thread: from a node that may be entered it
  reaches, after at most one repair per level, the latched leaf of the key, and that leaf has room.
\<close>

section \<open>Nodes that may be entered\<close>

text \<open>
  The degree with which a node is entered; a repair may take one active entry from it and add two
  entries. After the repair of the child for a key, that child may be entered.
\<close>

definition entered :: "nat \<Rightarrow> ('k, 'p) mvbt \<Rightarrow> addr \<Rightarrow> addr \<Rightarrow> bool" where
  "entered h t r a \<longleftrightarrow> acount t a + dcount t a < limit (sizes t) h \<and> (h \<noteq> 0 \<longrightarrow> 2 \<le> acount t a)
     \<and> (a \<noteq> r \<longrightarrow> fifth (sizes t) h < acount t a)"

definition settled :: "nat \<Rightarrow> ('k::linorder, 'p) mvbt \<Rightarrow> addr \<Rightarrow> 'k \<Rightarrow> bool" where
  "settled h t a k \<longleftrightarrow> (\<exists>es. index_in t a es \<and> (\<forall>e \<in> set (active_entries es). contains (e_fence e) k
     \<longrightarrow> degree (sizes t) h (acount t (e_child e)) (dcount t (e_child e)) = DegreeOk))"

lemma entered_of_degree:
  assumes "roomy (sizes t)" and "degree (sizes t) h (acount t a) (dcount t a) = DegreeOk"
  shows "entered h t r a"
  using assms(2) roomyD(1) [OF assms(1), of h] unfolding degree_ok_iff entered_def fifth_def by auto

lemma counts_cong: "node_at t' a = node_at t a \<Longrightarrow> acount t' a = acount t a \<and> dcount t' a = dcount t a"
  by (simp add: acount_def dcount_def)

lemma entered_cong: "node_at t' a = node_at t a \<Longrightarrow> sizes t' = sizes t \<Longrightarrow> entered h t' r a = entered h t r a"
  using counts_cong [of t' a t] by (simp add: entered_def)

section \<open>The state of the loop\<close>

definition at_node ::
    "('k::linorder, 'p) lib \<Rightarrow> nat \<Rightarrow> ('k, 'p) mvbt \<Rightarrow> nat \<Rightarrow> addr \<Rightarrow> ('k, 'p) history \<Rightarrow> 'k \<Rightarrow> nat \<Rightarrow> smart_guard \<Rightarrow> addr set \<Rightarrow> bool" where
  "at_node L n t H r Hs key h g W \<longleftrightarrow> (\<exists>S F Sa. standing L n W t H r S Hs \<and> W \<subseteq> {guard_addr g} \<and> holds t W g
     \<and> focus H r (whole t) S (current_version t) t (Hs (current_version t)) h (guard_addr g) F Sa \<and> contains F key)"

lemma focus_cong:
  assumes f: "focus H r F0 S now t M h a F Sa" and at: "node_at t' = node_at t" and s: "sizes t' = sizes t"
  shows "focus H r F0 S now t' M h a F Sa"
proof -
  have "rep h now t' a F Sa M" by (rule rep_frame [OF focus_rep [OF f]]) (use at s in auto)
  moreover have "Sa \<subseteq> S" "a \<noteq> r \<Longrightarrow> fill_min t' a"
    using f fill_min_cong [of t' a t] at s by (auto simp: focus_def)
  ultimately have "focus H r F0 (S - Sa \<union> Sa) now t' M h a F Sa"
    by (intro focus_update [OF f]) (use at s in auto)
  moreover have "S - Sa \<union> Sa = S" using f by (auto simp: focus_def)
  ultimately show ?thesis by simp
qed

lemma family_of_focus:
  assumes f: "focus H r F0 S now t M (Suc h) a F Sa"
  obtains es Sf where "family h now t a F es Sf M" "Sa = brood a es Sf"
    "\<And>e. e \<in> set (active_entries es) \<Longrightarrow> e_child e \<noteq> r \<and> focus H r F0 S now t M h (e_child e) (e_fence e) (Sf e)"
proof -
  obtain es Sf where r: "index_in t a es" "index_ok now F es" "Sa = brood a es Sf"
    and c: "\<And>e. e \<in> set (active_entries es) \<Longrightarrow> a \<notin> Sf e \<and> fill_min t (e_child e) \<and> e_child e \<noteq> r
       \<and> focus H r F0 S now t M h (e_child e) (e_fence e) (Sf e)"
    and d: "\<And>e f. e \<in> set (active_entries es) \<Longrightarrow> f \<in> set (active_entries es) \<Longrightarrow> e \<noteq> f \<Longrightarrow> Sf e \<inter> Sf f = {}"
    using focus_child [OF f] by metis
  have "entry_rep h now t M e (Sf e)" if "e \<in> set (active_entries es)" for e
    unfolding entry_rep_def using c [OF that] focus_rep index_okD(1,2) [OF r(2), of e] that by auto
  moreover have "\<forall>e \<in> set (active_entries es). \<forall>f \<in> set (active_entries es). e \<noteq> f \<longrightarrow> \<not> overlap (e_fence e) (e_fence f)"
    using active_disjoint [OF index_okD(3) [OF r(2)]] by auto
  ultimately have "index_part h now t F (active_entries es) Sf M"
    unfolding index_part_def using active_entries_distinct [OF r(2)] index_okD(4) [OF r(2)] d by blast
  then show thesis using that r c unfolding family_def by blast
qed

text \<open>The child for the key, and the step that reads it.\<close>

lemma descend_child:
  assumes q: "quiet L n W t" and n: "n < 2 ^ 62" and W: "W \<subseteq> {guard_addr g}" and g: "holds t W g"
    and fam: "family h now t (guard_addr g) F es Sf M" and k: "contains F key"
  obtains i v where "i < length es" "e_active (es ! i)" "contains (e_fence (es ! i)) key"
    "guard_addr g \<noteq> e_child (es ! i)" "holds t W (Reader (e_child (es ! i)) v)"
    "\<And>att. descend_step L t key g att = (case degree (sizes t) h (acount t (e_child (es ! i))) (dcount t (e_child (es ! i))) of
        DegreeOk \<Rightarrow> map_option (\<lambda>t. (Continue (Reader (e_child (es ! i)) v), t)) (block_drop t g)
      | d \<Rightarrow> repair_child L t g (Reader (e_child (es ! i)) v) i att d)"
proof -
  obtain i where i: "write_index (map e_fence es) (map e_version es) key = Some i" "i < length es" "e_active (es ! i)"
    "contains (e_fence (es ! i)) key"
    using write_index_active [OF familyD(2) [OF fam] k] by metis
  obtain p where p: "node_at t (guard_addr g) = Some (NInternal p)" "index_view p es"
    using familyD(1) [OF fam] by (auto simp: index_in_def)
  let ?c = "e_child (es ! i)"
  have ia: "es ! i \<in> set (active_entries es)" using i by simp
  have rc: "rep h now t ?c (e_fence (es ! i)) (Sf (es ! i)) M" using entry_repD(5) [OF familyD(5) [OF fam ia]] .
  have ne: "guard_addr g \<noteq> ?c" using familyD(4) [OF fam ia] rep_top [OF rc] by auto
  obtain nd where nd: "node_at t ?c = Some nd" "is_leaf nd \<longleftrightarrow> h = 0" using rep_counts [OF rc] by metis
  have cW: "?c \<notin> W" and cn: "node_at t ?c \<noteq> None" using ne W nd(1) by auto
  obtain v where v: "block_borrow_read t ?c = Some (Reader ?c v)" "holds t W (Reader ?c v)"
    using quiet_borrow [OF q n _ cW] cn by blast
  have "descend_step L t key g att = (case degree (sizes t) h (acount t ?c) (dcount t ?c) of
        DegreeOk \<Rightarrow> map_option (\<lambda>t. (Continue (Reader ?c v), t)) (block_drop t g)
      | d \<Rightarrow> repair_child L t g (Reader ?c v) i att d)" for att
    using p i nd v(1) holds_live [OF g]
    by (simp add: descend_step_def index_view_slices [OF p(2)] index_view_get [OF p(2)] unsafe_degree_eq [OF nd]
        map_option_case split: block_unsafe_degree.split option.split)
  then show thesis using that i ne v(2) by blast
qed

lemma family_cong:
  assumes "family h now t a F es Sf M" and "node_at t' = node_at t" and "sizes t' = sizes t"
  shows "family h now t' a F es Sf M"
proof -
  have "entry_rep h now t' M e (Sf e)" if "e \<in> set (active_entries es)" for e
    by (rule entry_rep_frame [OF familyD(5) [OF assms(1) that]]) (use assms(2,3) in auto)
  then show ?thesis
    using assms(1) index_in_cong [of t' a t] assms(2,3) unfolding family_def index_part_def by auto
qed

lemma repaired_start:
  assumes "repaired h t2 mu F S M K t'" and "node_at t2 = node_at t" and "outer t2 = outer t"
  shows "repaired h t mu F S M K t'"
  using assms(1) outer_eqD [OF assms(3)] outer_static [OF assms(3)] assms(2)
  by (simp add: repaired_def keeps_def acount_def)

text \<open>One repair: the same node, with the child for the key ready to be entered.\<close>

lemma repair_child_ok:
  assumes q: "quiet L n W t" and n: "n + 2 < 2 ^ 62" and set: "setting L t" and W: "W \<subseteq> {guard_addr g}" and g: "holds t W g"
    and fam: "family h now t (guard_addr g) F es Sf M" and w: "now = current_version t" "now < VERSION_LIMIT"
    and i: "i < length es" "e_active (es ! i)" and room: "length es + 2 \<le> FAN_OUT (sizes t)" and two: "2 \<le> length (active_entries es)"
    and ne: "guard_addr g \<noteq> e_child (es ! i)" and rd: "holds t W (Reader (e_child (es ! i)) v)"
    and deg: "degree (sizes t) h (acount t (e_child (es ! i))) (dcount t (e_child (es ! i))) = d" "d \<noteq> DegreeOk"
  shows "\<exists>g' t' G. repair_child L t g (Reader (e_child (es ! i)) v) i att d = Some (Continue g', t')
    \<and> guard_addr g' = guard_addr g \<and> quiet L (n + 2) {guard_addr g} t' \<and> holds t' {guard_addr g} g'
    \<and> repaired h t (guard_addr g) F (brood (guard_addr g) es Sf) M (contains G) t'
    \<and> (\<forall>k. contains (e_fence (es ! i)) k \<longrightarrow> contains G k)"
proof -
  let ?a = "guard_addr g" and ?c = "e_child (es ! i)"
  have n': "n < 2 ^ 62" "Suc n < 2 ^ 62" using n by simp_all
  have Wa: "insert ?a W = {?a}" using W by auto
  obtain g1 t1 where t1: "block_upgrade t g = Some (g1, True, t1)" "guard_addr g1 = ?a" "quiet L n {?a} t1"
    "holds t1 {?a} g1" "node_at t1 = node_at t" "outer t1 = outer t" "holds t1 {?a} (Reader ?c v)"
    using quiet_upgrade [OF q n'(1) g] rd ne unfolding Wa by (metis guard_addr.simps(1))
  obtain g2 t2 where t2: "block_upgrade t1 (Reader ?c v) = Some (g2, True, t2)" "guard_addr g2 = ?c"
    "quiet L n (insert ?c {?a}) t2" "holds t2 (insert ?c {?a}) g2" "node_at t2 = node_at t1" "outer t2 = outer t1"
    "\<forall>q. guard_addr q \<noteq> ?c \<longrightarrow> holds t1 {?a} q \<longrightarrow> holds t2 (insert ?c {?a}) q"
    using quiet_upgrade [OF t1(3) n'(1) t1(7)] by auto
  have at2: "node_at t2 = node_at t" and o2: "outer t2 = outer t" using t1(5,6) t2(5,6) by simp_all
  note o = outer_eqD [OF o2]
  have set2: "setting L t2" using set setting_static [OF outer_static [OF o2]] by simp
  have cnt: "acount t2 b = acount t b" "dcount t2 b = dcount t b" for b using at2 by (simp_all add: acount_def dcount_def)
  have fam2: "family h now t2 ?a F es Sf M" by (rule family_cong [OF fam at2 o(1)])
  have w2: "now = current_version t2" using w(1) o(10) by simp
  have g1: "holds t2 (insert ?c {?a}) g1" using t2(7) t1(2,4) ne by metis
  have W2: "insert ?c {?a} - {?c} = {?a}" "insert ?c {?a} = {?a, ?c}" using ne by auto
  have home: "repaired h t ?a F S M K t'" if "repaired h t2 ?a F S M K t'" for S K t'
    by (rule repaired_start [OF that at2 o2])
  show ?thesis
  proof (cases d)
    case Overflow
    obtain t' where t': "on_overflow_node L t2 g1 g2 i = Some (g1, t')" "quiet L (Suc n) {?a} t'"
      "repaired h t2 ?a F (brood ?a es Sf) M (contains (e_fence (es ! i))) t'" "holds t' {?a} g1"
      using on_overflow_ok [OF t2(3) n'(2) set2 fam2 w2 w(2) i _ t1(2) t2(2,4)] room deg Overflow cnt o(1) g1 ne t1(2)
      unfolding W2(1) by auto
    have "repair_child L t g (Reader ?c v) i att d = Some (Continue g1, t')"
      using t1(1) t2(1) t'(1) Overflow by (simp add: repair_child_def)
    then show ?thesis
      using t1(2) t'(4) quiet_mono [OF t'(2), of "n + 2"] home [OF t'(3)]
      by (intro exI [of _ g1] exI [of _ t'] exI [of _ "e_fence (es ! i)"]) simp
  next
    case ActiveUnderflow
    obtain t' G where t': "on_underflow_node L t2 g1 g2 i = Some (Inr g1, t')" "quiet L (n + 2) {?a} t'"
      "repaired h t2 ?a F (brood ?a es Sf) M (contains G) t'" "\<forall>k. contains (e_fence (es ! i)) k \<longrightarrow> contains G k"
      "holds t' {?a} g1"
      using on_underflow_ok [OF t2(3) n set2 fam2 w2 w(2) i _ two W2(2) t1(2) t2(2,4)] room deg ActiveUnderflow cnt o(1) g1 ne t1(2)
      unfolding W2(1) by auto
    have "repair_child L t g (Reader ?c v) i att d = Some (Continue g1, t')"
      using t1(1) t2(1) t'(1) ActiveUnderflow by (simp add: repair_child_def)
    then show ?thesis
      using t1(2) t'(2,4,5) home [OF t'(3)] by (intro exI [of _ g1] exI [of _ t'] exI [of _ G]) simp
  qed (use deg in simp)
qed

section \<open>The steps\<close>

lemma index_in_unique:
  assumes "index_in t a es" and "index_in t a fs"
  shows "es = fs"
  using assms by (auto simp: index_in_def index_view_def)


lemma at_nodeI:
  assumes "standing L n W t H r S Hs" and "W \<subseteq> {guard_addr g}" and "holds t W g"
    and "focus H r (whole t) S (current_version t) t (Hs (current_version t)) h (guard_addr g) F Sa" and "contains F key"
  shows "at_node L n t H r Hs key h g W"
  using assms unfolding at_node_def by blast

lemma step_down:
  assumes at: "at_node L n t H r Hs key (Suc h) g W" and n: "Suc n < 2 ^ 62"
    and ok: "settled h t (guard_addr g) key"
  shows "\<exists>g' t'. descend_step L t key g att = Some (Continue g', t') \<and> at_node L (Suc n) t' H r Hs key h g' {}
    \<and> entered h t' r (guard_addr g') \<and> current_version t' = current_version t \<and> static t' = static t"
proof -
  let ?now = "current_version t"
  obtain S F Sa where st: "standing L n W t H r S Hs" and W: "W \<subseteq> {guard_addr g}" and g: "holds t W g"
    and f: "focus H r (whole t) S ?now t (Hs ?now) (Suc h) (guard_addr g) F Sa" and k: "contains F key"
    using at unfolding at_node_def by blast
  obtain es Sf where fam: "family h ?now t (guard_addr g) F es Sf (Hs ?now)"
    and fc: "\<And>e. e \<in> set (active_entries es) \<Longrightarrow> e_child e \<noteq> r \<and> focus H r (whole t) S ?now t (Hs ?now) h (e_child e) (e_fence e) (Sf e)"
    using family_of_focus [OF f] by metis
  have q: "quiet L n W t" and set: "setting L t" using standingD(1,2) [OF st] .
  have n': "n < 2 ^ 62" using n by simp
  obtain i v where i: "i < length es" "e_active (es ! i)" "contains (e_fence (es ! i)) key"
    and c: "guard_addr g \<noteq> e_child (es ! i)" "holds t W (Reader (e_child (es ! i)) v)"
    and step: "\<And>att. descend_step L t key g att = (case degree (sizes t) h (acount t (e_child (es ! i))) (dcount t (e_child (es ! i))) of
        DegreeOk \<Rightarrow> map_option (\<lambda>t. (Continue (Reader (e_child (es ! i)) v), t)) (block_drop t g)
      | d \<Rightarrow> repair_child L t g (Reader (e_child (es ! i)) v) i att d)"
    using descend_child [OF q n' W g fam k] by metis
  let ?c = "e_child (es ! i)"
  have ia: "es ! i \<in> set (active_entries es)" using i by simp
  have deg: "degree (sizes t) h (acount t ?c) (dcount t ?c) = DegreeOk"
    using ok index_in_unique [OF familyD(1) [OF fam]] ia i(3) unfolding settled_def by blast
  obtain t' where t': "block_drop t g = Some t'" "quiet L (Suc n) {} t'" "node_at t' = node_at t" "outer t' = outer t"
    "holds t' {} (Reader ?c v)"
    using quiet_drop [OF q n g] c W by (metis Diff_eq_empty_iff guard_addr.simps(1))
  note o = outer_eqD [OF t'(4)]
  have st': "standing L (Suc n) {} t' H r S Hs" by (rule standing_cong [OF st t'(2-4)]) simp
  have "at_node L (Suc n) t' H r Hs key h (Reader ?c v) {}"
  proof (rule at_nodeI [OF st' _ t'(5) _ i(3)])
    show "focus H r (whole t') S (current_version t') t' (Hs (current_version t')) h (guard_addr (Reader ?c v)) (e_fence (es ! i)) (Sf (es ! i))"
      using focus_cong [OF conjunct2 [OF fc [OF ia]] t'(3) o(1)] by (simp add: o(10) whole_static [OF outer_static [OF t'(4)]])
  qed simp
  moreover have "entered h t' r ?c"
    using entered_of_degree [OF settingD(3) [OF set] deg] entered_cong [of t' ?c t] t'(3) o(1) by simp
  ultimately show ?thesis
    using step [of att] deg t'(1) o(10) outer_static [OF t'(4)] by simp
qed

lemma step_repair:
  assumes at: "at_node L n t H r Hs key (Suc h) g W" and n: "n + 2 < 2 ^ 62" and w: "current_version t < VERSION_LIMIT"
    and en: "entered (Suc h) t r (guard_addr g)" and bad: "\<not> settled h t (guard_addr g) key"
  shows "\<exists>g' t'. descend_step L t key g att = Some (Continue g', t') \<and> at_node L (n + 2) t' H r Hs key (Suc h) g' {guard_addr g'}
    \<and> settled h t' (guard_addr g') key \<and> current_version t' = current_version t + 1 \<and> static t' = static t"
proof -
  let ?now = "current_version t" and ?a = "guard_addr g"
  obtain S F Sa where st: "standing L n W t H r S Hs" and W: "W \<subseteq> {?a}" and g: "holds t W g"
    and f: "focus H r (whole t) S ?now t (Hs ?now) (Suc h) ?a F Sa" and k: "contains F key"
    using at unfolding at_node_def by blast
  obtain es Sf where fam: "family h ?now t ?a F es Sf (Hs ?now)" and Sa: "Sa = brood ?a es Sf"
    using family_of_focus [OF f] by metis
  have q: "quiet L n W t" and set: "setting L t" using standingD(1,2) [OF st] .
  have n': "n < 2 ^ 62" using n by simp
  obtain i v where i: "i < length es" "e_active (es ! i)" "contains (e_fence (es ! i)) key"
    and c: "?a \<noteq> e_child (es ! i)" "holds t W (Reader (e_child (es ! i)) v)"
    and step: "\<And>att. descend_step L t key g att = (case degree (sizes t) h (acount t (e_child (es ! i))) (dcount t (e_child (es ! i))) of
        DegreeOk \<Rightarrow> map_option (\<lambda>t. (Continue (Reader (e_child (es ! i)) v), t)) (block_drop t g)
      | d \<Rightarrow> repair_child L t g (Reader (e_child (es ! i)) v) i att d)"
    using descend_child [OF q n' W g fam k] by metis
  let ?c = "e_child (es ! i)"
  have ia: "es ! i \<in> set (active_entries es)" using i by simp
  have deg: "degree (sizes t) h (acount t ?c) (dcount t ?c) \<noteq> DegreeOk"
  proof
    assume ok: "degree (sizes t) h (acount t ?c) (dcount t ?c) = DegreeOk"
    have "e = es ! i" if "e \<in> set (active_entries es)" "contains (e_fence e) key" for e
      using active_unique [OF index_okD(3) [OF familyD(2) [OF fam]], of e "es ! i" key] that ia i(3) by simp
    then have "settled h t ?a key"
      unfolding settled_def using familyD(1) [OF fam] ok by (intro exI [of _ es]) blast
    then show False using bad by simp
  qed
  have cnt: "acount t ?a = length (active_entries es)" "acount t ?a + dcount t ?a = length es"
    using index_in_counts [OF familyD(1) [OF fam]] by metis+
  have room: "length es + 2 \<le> FAN_OUT (sizes t)" "2 \<le> length (active_entries es)"
    using en cnt roomyD(1) [OF settingD(3) [OF set], of "Suc h"] by (auto simp: entered_def limit_def slots_def)
  obtain g' t' G where t': "repair_child L t g (Reader ?c v) i att (degree (sizes t) h (acount t ?c) (dcount t ?c)) = Some (Continue g', t')"
    "guard_addr g' = ?a" "quiet L (n + 2) {?a} t'" "holds t' {?a} g'"
    "repaired h t ?a F (brood ?a es Sf) (Hs ?now) (contains G) t'" and G: "\<forall>k. contains (e_fence (es ! i)) k \<longrightarrow> contains G k"
    using repair_child_ok [OF q n set W g fam refl w i(1,2) room c refl deg] by metis
  obtain S' es' where re: "static t' = static t" "root t' = root t" "root_latch t' = root_latch t"
    "current_version t' = ?now + 1" "keeps ?now t t'"
    "\<forall>b. node_at t b \<noteq> None \<longrightarrow> b \<noteq> ?a \<longrightarrow> node_at t' b = node_at t b"
    "rep (Suc h) (?now + 1) t' ?a F S' (Hs ?now)" "S' \<subseteq> Sa \<union> {b. node_at t b = None}"
    "index_in t' ?a es'" "\<forall>e \<in> set (active_entries es'). (\<exists>k. contains G k \<and> contains (e_fence e) k)
          \<longrightarrow> degree (sizes t') h (acount t' (e_child e)) (dcount t' (e_child e)) = DegreeOk"
    "acount t ?a \<le> Suc (acount t' ?a)"
    using t'(5) unfolding repaired_def Sa by blast
  have nd': "\<exists>n. node_at t' ?a = Some n \<and> (is_leaf n \<longleftrightarrow> Suc h = 0)" using rep_counts [OF re(7)] by metis
  have sz: "sizes t' = sizes t" using static_eqD(1) [OF re(1)] .
  have fill: "fill_min t' ?a" if "?a \<noteq> r"
    using nd' fill_min_eq [of t' ?a _ "Suc h"] en that re(11) sz by (auto simp: entered_def)
  have le: "?now \<le> ?now + 1" using version_step [OF w] by simp
  have inS: "node_at t b \<noteq> None" if "b \<in> S" for b using rep_blocks [OF standingD(5) [OF st] that] .
  have outS: "node_at t' b = node_at t b" if "b \<in> S - Sa" for b
    using re(6) inS that rep_top [OF focus_rep [OF f]] by (metis DiffD1 DiffD2)
  have dS: "S' \<inter> (S - Sa) = {}" using re(8) inS by blast
  have f': "focus H r (whole t) (S - Sa \<union> S') (?now + 1) t' (Hs ?now) (Suc h) ?a F S'"
    by (rule focus_update [OF f le sz outS dS _ re(7) fill]) simp_all
  have rep': "rep H (current_version t') t' r (whole t) (S - Sa \<union> S') (Hs ?now)"
    unfolding re(4) by (rule focusD [OF f le sz outS dS _ re(7) fill]) simp_all
  have st': "standing L (n + 2) {?a} t' H r (S - Sa \<union> S') Hs"
    using standing_commit [OF st w t'(3) _ re(1-5) rep'] extended_same [OF st] by simp
  have Hs': "Hs (current_version t') = Hs ?now"
    using spec [OF standingD(6) [OF st], of "?now + 1"] le re(4) by simp
  have "at_node L (n + 2) t' H r Hs key (Suc h) g' {?a}"
    using f' by (intro at_nodeI [OF st' _ t'(4) _ k]) (simp_all add: t'(2) Hs' whole_static [OF re(1)] re(4) [symmetric])
  moreover have "settled h t' ?a key" unfolding settled_def using re(9,10) G i(3) by blast
  moreover have "descend_step L t key g att = Some (Continue g', t')"
    using step [of att] t'(1) deg by (cases "degree (sizes t) h (acount t ?c) (dcount t ?c)") simp_all
  ultimately show ?thesis using t'(2) re(1,4) by metis
qed

section \<open>The loop\<close>

text \<open>The bounds: a level takes at most one version and three releases of latches.\<close>

definition arrived ::
    "('k::linorder, 'p) lib \<Rightarrow> nat \<Rightarrow> ('k, 'p) mvbt \<Rightarrow> nat \<Rightarrow> addr \<Rightarrow> ('k, 'p) history \<Rightarrow> 'k \<Rightarrow> smart_guard \<Rightarrow> ('k, 'p) mvbt \<Rightarrow> nat \<Rightarrow> nat \<Rightarrow> bool" where
  "arrived L n t H r Hs key g t' m j \<longleftrightarrow> at_node L (n + m) t' H r Hs key 0 g {guard_addr g} \<and> entered 0 t' r (guard_addr g)
     \<and> current_version t \<le> current_version t' \<and> unat (current_version t') \<le> unat (current_version t) + j \<and> static t' = static t"

lemma unat_version_step:
  assumes "unat (v :: version) < 2 ^ 63"
  shows "v < VERSION_LIMIT" and "unat (v + 1) = Suc (unat v)"
proof -
  show "v < VERSION_LIMIT" using assms by (simp add: word_less_nat_alt)
  have "unat v + unat (1 :: version) < 2 ^ 64" using assms by simp
  then show "unat (v + 1) = Suc (unat v)" by (simp add: unat_word_ariths)
qed

lemma at_node_mono:
  assumes "at_node L n t H r Hs key h g W" and "n \<le> m"
  shows "at_node L m t H r Hs key h g W"
  using assms standing_cong [of L n W t H r _ Hs m W t] quiet_mono [of L n W t m] standingD(1)
  unfolding at_node_def by (metis (no_types, opaque_lifting))

lemma step_leaf:
  assumes at: "at_node L n t H r Hs key 0 g W" and n: "n < 2 ^ 62" and en: "entered 0 t r (guard_addr g)"
  shows "\<exists>g' t'. descend_step L t key g att = Some (Done (Inr g'), t') \<and> arrived L n t H r Hs key g' t' 0 0"
proof -
  obtain S F Sa where st: "standing L n W t H r S Hs" and W: "W \<subseteq> {guard_addr g}" and g: "holds t W g"
    and f: "focus H r (whole t) S (current_version t) t (Hs (current_version t)) 0 (guard_addr g) F Sa" and k: "contains F key"
    using at unfolding at_node_def by blast
  have Wa: "insert (guard_addr g) W = {guard_addr g}" using W by auto
  obtain p where p: "node_at t (guard_addr g) = Some (NLeaf p)"
    using focus_rep [OF f] by (auto simp: leaf_in_def leaf_at_node)
  obtain g' t' where t': "block_upgrade t g = Some (g', True, t')" "guard_addr g' = guard_addr g" "quiet L n {guard_addr g} t'"
    "holds t' {guard_addr g} g'" "node_at t' = node_at t" "outer t' = outer t"
    using quiet_upgrade [OF standingD(1) [OF st] n g] unfolding Wa by blast
  note o = outer_eqD [OF t'(6)]
  have st': "standing L n {guard_addr g} t' H r S Hs" by (rule standing_cong [OF st t'(3,5,6)]) simp
  have "at_node L n t' H r Hs key 0 g' {guard_addr g'}"
    using focus_cong [OF f t'(5) o(1)] st' t'(2,4)
    by (intro at_nodeI [OF _ _ _ _ k]) (simp_all add: o(10) whole_static [OF outer_static [OF t'(6)]])
  then have "arrived L n t H r Hs key g' t' 0 0"
    using en entered_cong [of t' "guard_addr g" t] t'(2,5) o(1,10) outer_static [OF t'(6)] by (simp add: arrived_def)
  then show ?thesis using t'(1) p by (simp add: descend_step_def)
qed

lemma arrived_trans:
  assumes "arrived L (n + m) t H r Hs key g' t' m' j'" and "static t = static t0"
    and "unat (current_version t) \<le> unat (current_version t0) + j" and "current_version t0 \<le> current_version t"
  shows "arrived L n t0 H r Hs key g' t' (m + m') (j + j')"
  using assms by (auto simp: arrived_def add.assoc intro: order_trans)

lemma arrived_mono: "arrived L n t H r Hs key g' t' m j \<Longrightarrow> m \<le> m' \<Longrightarrow> j \<le> j' \<Longrightarrow> arrived L n t H r Hs key g' t' m' j'"
  unfolding arrived_def using at_node_mono [of L "n + m" t' H r Hs key 0 g' _ "n + m'"] by auto

lemma descend_ok:
  assumes "at_node L n t H r Hs key h g W" and "n + 3 * h < 2 ^ 62" and "unat (current_version t) + h < 2 ^ 63"
    and "entered h t r (guard_addr g)"
  shows "\<exists>g' t'. descend L t key g att = Some (Inr g', t') \<and> arrived L n t H r Hs key g' t' (3 * h) h"
  using assms
proof (induction h arbitrary: n t g W)
  case 0
  then obtain g' t' where "descend_step L t key g att = Some (Done (Inr g'), t')" "arrived L n t H r Hs key g' t' 0 0"
    using step_leaf [OF 0(1) _ 0(4), of att] by auto
  then show ?case by (simp add: descend.simps [of L t key g])
next
  case (Suc h)
  have down: "\<exists>g' t'. descend L t key g att = Some (Inr g', t') \<and> arrived L n t H r Hs key g' t' (Suc (3 * h)) h"
    if at: "at_node L n t H r Hs key (Suc h) g W" and n: "Suc n + 3 * h < 2 ^ 62" and v: "unat (current_version t) + h < 2 ^ 63"
      and ok: "settled h t (guard_addr g) key" for n t g W
  proof -
    obtain g1 t1 where t1: "descend_step L t key g att = Some (Continue g1, t1)" "at_node L (Suc n) t1 H r Hs key h g1 {}"
      "entered h t1 r (guard_addr g1)" "current_version t1 = current_version t" "static t1 = static t"
      using step_down [OF at _ ok] n by (metis add_lessD1)
    obtain g' t' where t': "descend L t1 key g1 att = Some (Inr g', t')" "arrived L (Suc n) t1 H r Hs key g' t' (3 * h) h"
      using Suc.IH [OF t1(2) n _ t1(3)] v t1(4) by auto
    have "arrived L n t H r Hs key g' t' (1 + 3 * h) (0 + h)"
      by (rule arrived_trans [where t = t1]) (use t' t1 in simp_all)
    then show ?thesis using t'(1) t1(1) by (simp add: descend.simps [of L t key g])
  qed
  show ?case
  proof (cases "settled h t (guard_addr g) key")
    case True
    then obtain g' t' where "descend L t key g att = Some (Inr g', t')" "arrived L n t H r Hs key g' t' (Suc (3 * h)) h"
      using down [OF Suc.prems(1)] Suc.prems(2,3) by auto
    then show ?thesis using arrived_mono [of L n t H r Hs key g' t' "Suc (3 * h)" h] by auto
  next
    case False
    have v: "current_version t < VERSION_LIMIT" "unat (current_version t + 1) = Suc (unat (current_version t))"
      using unat_version_step [of "current_version t"] Suc.prems(3) by auto
    obtain g1 t1 where t1: "descend_step L t key g att = Some (Continue g1, t1)" "at_node L (n + 2) t1 H r Hs key (Suc h) g1 {guard_addr g1}"
      "settled h t1 (guard_addr g1) key" "current_version t1 = current_version t + 1" "static t1 = static t"
      using step_repair [OF Suc.prems(1) _ v(1) Suc.prems(4) False] Suc.prems(2) by fastforce
    have b: "Suc (n + 2) + 3 * h < 2 ^ 62" "unat (current_version t1) + h < 2 ^ 63"
      using Suc.prems(2,3) v t1(4) by simp_all
    obtain g' t' where t': "descend L t1 key g1 att = Some (Inr g', t')" "arrived L (n + 2) t1 H r Hs key g' t' (Suc (3 * h)) h"
      using down [OF t1(2) b t1(3)] by blast
    have "arrived L n t H r Hs key g' t' (3 * Suc h) (Suc h)"
      by (rule arrived_mono [OF arrived_trans [OF t'(2) t1(5), of 1]]) (use v t1(4) version_step [OF v(1)] in simp_all)
    moreover have "descend L t key g att = Some (Inr g', t')" using t'(1) t1(1) by (simp add: descend.simps [of L t key g])
    ultimately show ?thesis by blast
  qed
qed

end
