(* ===== verification/Root_Repair.thy ===== *)
theory Root_Repair
  imports Descent
begin

text \<open>
  \<open>split_root\<close> and \<open>merge_root\<close> of \<^verbatim>\<open>mv_tree/smo.rs\<close> and \<open>retrieve_root_write_internal_olc\<close> of
  \<^verbatim>\<open>mv_query/olc_query.rs\<close>: a root that is full, or has one child, is replaced; the new root is
  appended to the index over the roots and readers of older versions keep the old one.
\<close>

section \<open>The latch of the root index\<close>

lemma root_borrow_ok:
  assumes "unat (root_latch t) \<le> n" and "n < 2 ^ 62"
  shows "root_borrow_read t = Some (Reader 0 (root_latch t))"
  using mask_count(1) [OF small_count [OF assms]] by (simp add: root_borrow_read_def borrow_read_def)

lemma root_upgrade_ok:
  assumes "unat (root_latch t) \<le> n" and "n < 2 ^ 62"
  shows "root_upgrade t (Reader 0 (root_latch t)) = Some (Writer 0 (WRITE_FLAG_VERSION OR root_latch t), True,
    t\<lparr>root_latch := WRITE_FLAG_VERSION OR root_latch t\<rparr>)"
  using mask_count(1) [OF small_count [OF assms]] by (simp add: root_upgrade_def write_lock_def)

lemma root_drop_ok:
  assumes "unat w \<le> n" and "Suc n < 2 ^ 62"
  shows "root_drop t (Writer 0 (WRITE_FLAG_VERSION OR w)) = Some (t\<lparr>root_latch := w + 1\<rparr>)" and "unat (w + 1) \<le> Suc n"
  using count_step [OF assms] small_count [OF assms(1)] assms by (simp_all add: root_drop_def release_word)

section \<open>The block of the new root\<close>

definition root_of_split ::
    "('k, 'p) lib \<Rightarrow> ('k, 'p) mvbt \<Rightarrow> 'k block_split \<Rightarrow> height \<Rightarrow> (addr \<times> version \<times> height \<times> ('k, 'p) mvbt) option" where
  "root_of_split L t bs h = (case bs of
       ByKey left_fence left right_fence right \<Rightarrow> do {
         (new_root_block, t) \<leftarrow> new_empty_index_block L t;
         page \<leftarrow> internal_at t new_root_block;
         let (version, t) = start_tx_commit t;
         page \<leftarrow> internal_push_uncommitted page left_fence version left 0;
         page \<leftarrow> internal_push_uncommitted page right_fence version right 1;
         t \<leftarrow> put_internal t new_root_block (internal_commit_delta page 2 0);
         Some (new_root_block, version, h + 1, t)
       }
     | ByVersion new_root_block \<Rightarrow>
         (let (version, t) = start_tx_commit t in Some (new_root_block, version, h, t)))"

text \<open>A block that can serve as the root of the same map from the next version on.\<close>

definition root_made ::
    "('k::linorder, 'p) lib \<Rightarrow> nat \<Rightarrow> addr set \<Rightarrow> ('k, 'p) mvbt \<Rightarrow> 'k interval \<Rightarrow> ('k \<rightharpoonup> 'p) \<Rightarrow> nat \<Rightarrow> addr \<Rightarrow> ('k, 'p) mvbt \<Rightarrow> bool" where
  "root_made L n W t F M H' r' t' \<longleftrightarrow> quiet L n W t' \<and> static t' = static t \<and> root t' = root t \<and> root_latch t' = root_latch t
     \<and> current_version t' = current_version t + 1 \<and> (\<forall>b. node_at t b \<noteq> None \<longrightarrow> node_at t' b = node_at t b)
     \<and> (\<forall>q. holds t W q \<longrightarrow> holds t' W q) \<and> node_at t r' = None
     \<and> (\<exists>S'. rep H' (current_version t') t' r' F S' M) \<and> entered H' t' r' r'"

lemma root_made_by_version:
  assumes g: "grows L n W t t1" and new: "new_nodes h (current_version t) t t1 F S M [(F, c)] [a]"
    and w: "current_version t < VERSION_LIMIT" and a: "a < limit (sizes t) h" "h \<noteq> 0 \<longrightarrow> 2 \<le> a"
  shows "\<exists>t2. root_of_split L t1 (ByVersion c) hh = Some (c, current_version t, hh, t2) \<and> root_made L n W t F M h c t2"
proof -
  let ?now = "current_version t"
  have o1: "quiet L n W t1" "outer t1 = outer t" using growsD(1,2) [OF g] .
  note o = outer_eqD [OF o1(2)]
  obtain t2 where t2: "start_tx_commit t1 = (?now, t2)" "quiet L n W t2" "node_at t2 = node_at t1" "static t2 = static t1"
    "root t2 = root t1" "root_latch t2 = root_latch t1" "current_version t2 = ?now + 1" "\<forall>q. holds t1 W q \<longrightarrow> holds t2 W q"
    using quiet_start_tx_commit [OF o1(1)] o(10) by auto
  note s2 = static_eqD [OF t2(4)]
  obtain Sn where r1: "rep h ?now t1 c F Sn M" and fresh: "node_at t c = None"
    using new_nodesD [OF new] by (metis fst_conv list.set_intros(1) snd_conv)
  have cnt: "acount t1 c = a" "dcount t1 c = 0" using new unfolding new_nodes_def by auto
  have "rep h (current_version t2) t2 c F Sn M"
    by (rule rep_frame [OF r1]) (use t2(3,7) s2(1) version_step [OF w] in auto)
  moreover have "entered h t2 c c"
    using cnt a t2(3) s2(1) o(1) by (simp add: entered_def acount_def dcount_def)
  moreover have "node_at t2 b = node_at t b" if "node_at t b \<noteq> None" for b
    using growsD(3) [OF g, of b] that t2(3) by auto
  ultimately have "root_made L n W t F M h c t2"
    unfolding root_made_def using t2 o outer_static [OF o1(2)] growsD(4) [OF g] fresh by auto
  then show ?thesis using t2(1) by (simp add: root_of_split_def)
qed

text \<open>The page of a root with two children.\<close>

lemma two_entry_page:
  assumes "index_view p []" and "index_cap_ok f p" and "2 < f" and w: "w < VERSION_LIMIT"
  shows "\<exists>p1 p2. internal_push_uncommitted p fl w l 0 = Some p1 \<and> internal_push_uncommitted p1 fr w u 1 = Some p2
    \<and> index_view (internal_commit_delta p2 2 0) [new_entry w (fl, l), new_entry w (fr, u)]
    \<and> index_cap_ok f (internal_commit_delta p2 2 0)"
proof -
  have "raw_view f p [] (0, 0)" using raw_view_iff [of f p "[]"] assms(1,2) by simp
  from raw_append_two [OF this, of 2 0 "new_entry w (fl, l)" "new_entry w (fr, u)"]
  obtain p1 p2 where p: "internal_push_uncommitted p fl w l 0 = Some p1" "internal_push_uncommitted p1 fr w u 1 = Some p2"
    "raw_view f (internal_commit_delta p2 2 0) [new_entry w (fl, l), new_entry w (fr, u)] (2, 0)"
    using assms(3) by auto
  have "raw_view f (internal_commit_delta p2 2 0) [new_entry w (fl, l), new_entry w (fr, u)]
      (length (filter e_active [new_entry w (fl, l), new_entry w (fr, u)]),
       length (filter (\<lambda>e. \<not> e_active e) [new_entry w (fl, l), new_entry w (fr, u)]))"
    using p(3) w by (simp add: is_active_iff numeral_2_eq_2)
  then show ?thesis using p(1,2) raw_view_iff by blast
qed

lemma two_children:
  assumes new: "new_nodes h now t t1 F S M [(fl, l), (fr, u)] lens" and w: "now < VERSION_LIMIT"
    and ok: "\<And>x. x \<in> set lens \<Longrightarrow> degree (sizes t1) h x 0 = DegreeOk"
    and at: "\<And>b. b \<noteq> a \<Longrightarrow> node_at t2 b = node_at t1 b" and a: "node_at t1 a = None" and sz: "sizes t2 = sizes t1"
    and ia: "index_in t2 a [new_entry now (fl, l), new_entry now (fr, u)]" and f: "2 < FAN_OUT (sizes t1)"
  shows "\<exists>S'. rep (Suc h) (now + 1) t2 a F S' M"
proof -
  let ?es = "[new_entry now (fl, l), new_entry now (fr, u)]" and ?news = "[(fl, l), (fr, u)]"
  obtain Sn where n: "tiles F (fst ` set ?news)" "sorted_wrt (\<lambda>m n. \<not> overlap (fst m) (fst n)) ?news"
    "\<And>n. n \<in> set ?news \<Longrightarrow> nonempty (fst n)" "\<And>n. n \<in> set ?news \<Longrightarrow> rep h now t1 (snd n) (fst n) (Sn n) M"
    "\<And>n. n \<in> set ?news \<Longrightarrow> Sn n \<subseteq> S \<union> {b. node_at t b = None}"
    "\<And>m n. m \<in> set ?news \<Longrightarrow> n \<in> set ?news \<Longrightarrow> m \<noteq> n \<Longrightarrow> Sn m \<inter> Sn n = {}"
    by (rule new_nodesD [OF new]) blast
  define Sf where "Sf e = Sn (e_fence e, e_child e)" for e
  have an: "a \<notin> Sn m" if "m \<in> set ?news" for m using rep_blocks [OF n(4) [OF that], of a] a by auto
  have er: "entry_rep h (now + 1) t2 M (new_entry now m) (Sn m)" if m: "m \<in> set ?news" for m
  proof -
    have eq: "node_at t2 b = node_at t1 b" if "b \<in> Sn m" for b using at [of b] an [OF m] that by metis
    have "rep h (now + 1) t2 (snd m) (fst m) (Sn m) M"
      by (rule rep_frame [OF n(4) [OF m] eq sz]) (use version_step [OF w] in simp_all)
    moreover have "fill_min t2 (snd m)"
      using new_nodes_fill(1) [OF new ok m] fill_min_cong [OF eq sz] rep_top [OF n(4) [OF m]] by simp
    ultimately show ?thesis
      using n(3) [OF m] w version_step [OF w] by (simp add: entry_rep_def is_active_iff into_cmp_def)
  qed
  have ov: "\<not> overlap fl fr" using n(2) by simp
  have ne: "fl \<noteq> fr" using ov nonempty_overlap [of fl] n(3) [of "(fl, l)"] by auto
  have "index_part h (now + 1) t2 F ?es Sf M"
    unfolding index_part_def using er [of "(fl, l)"] er [of "(fr, u)"] n(1) n(6) [of "(fl, l)" "(fr, u)"] ne ov overlap_sym [of fl fr]
    by (auto simp: Sf_def new_entry_def)
  then have "rep (Suc h) (now + 1) t2 a F (insert a (\<Union>e \<in> set ?es. Sf e)) M"
    by (rule rep_of_index_part [OF _ ia]) (use f sz an in \<open>auto simp: Sf_def\<close>)
  then show ?thesis by blast
qed

lemma root_made_by_key:
  assumes g: "grows L n W t t1" and new: "new_nodes h (current_version t) t t1 F S M [(fl, l), (fr, u)] lens"
    and w: "current_version t < VERSION_LIMIT" and ok: "\<And>x. x \<in> set lens \<Longrightarrow> degree (sizes t) h x 0 = DegreeOk"
    and C: "roomy (sizes t)"
  shows "\<exists>r' t2. root_of_split L t1 (ByKey fl l fr u) hh = Some (r', current_version t, hh + 1, t2) \<and> root_made L n W t F M (Suc h) r' t2"
proof -
  let ?now = "current_version t" and ?es = "[new_entry (current_version t) (fl, l), new_entry (current_version t) (fr, u)]"
  have o1: "quiet L n W t1" "outer t1 = outer t" using growsD(1,2) [OF g] .
  note o = outer_eqD [OF o1(2)]
  obtain a t2 nd where t2: "alloc_block L False t1 = Some (a, t2)" "quiet L n W t2" "node_at t1 a = None"
    "node_at t2 = (node_at t1)(a \<mapsto> nd)" "empty_page (sizes t1) False nd" "outer t2 = outer t1" "\<forall>q. holds t1 W q \<longrightarrow> holds t2 W q"
    using quiet_alloc [OF o1(1), of False] by blast
  note o2 = outer_eqD [OF t2(6)]
  obtain p where p: "nd = NInternal p" "index_view p []" "index_cap_ok (FAN_OUT (sizes t)) p"
    using t2(5) o(1) by (cases nd) auto
  obtain t3 where t3: "start_tx_commit t2 = (?now, t3)" "quiet L n W t3" "node_at t3 = node_at t2" "static t3 = static t2"
    "root t3 = root t2" "root_latch t3 = root_latch t2" "current_version t3 = ?now + 1" "\<forall>q. holds t2 W q \<longrightarrow> holds t3 W q"
    using quiet_start_tx_commit [OF t2(2)] o2(10) o(10) by auto
  note s3 = static_eqD [OF t3(4)]
  have f: "2 < FAN_OUT (sizes t)" using C by (simp add: roomy_def)
  obtain p1 p2 where pp: "internal_push_uncommitted p fl ?now l 0 = Some p1" "internal_push_uncommitted p1 fr ?now u 1 = Some p2"
    "index_view (internal_commit_delta p2 2 0) ?es" "index_cap_ok (FAN_OUT (sizes t)) (internal_commit_delta p2 2 0)"
    using two_entry_page [OF p(2,3) f w] by blast
  let ?p = "internal_commit_delta p2 2 0"
  have sz3: "sizes t3 = sizes t" using s3(1) o2(1) o(1) by simp
  have ex: "node_at t3 a \<noteq> None" and pok: "page_ok (sizes t3) (NInternal ?p)" using t3(3) t2(4) pp(3,4) sz3 by auto
  obtain t4 where t4: "put_internal t3 a ?p = Some t4" "quiet L n W t4" "node_at t4 = (node_at t3)(a \<mapsto> NInternal ?p)"
    "outer t4 = outer t3" "\<forall>q. holds t3 W q \<longrightarrow> holds t4 W q"
    using quiet_put [OF t3(2) ex pok] by blast
  note o4 = outer_eqD [OF t4(4)]
  have sz4: "sizes t4 = sizes t1" "sizes t4 = sizes t" using o4(1) sz3 o(1) by simp_all
  have at4: "node_at t4 b = node_at t1 b" if "b \<noteq> a" for b using t4(3) t3(3) t2(4) that by simp
  have ia: "index_in t4 a ?es" using t4(3) pp(3,4) sz4 by (auto simp: index_in_def)
  have "\<exists>S'. rep (Suc h) (?now + 1) t4 a F S' M"
    by (rule two_children [OF new w _ at4 t2(3) sz4(1) ia]) (use ok f o(1) in simp_all)
  moreover obtain "acount t4 a = length (active_entries ?es)" "dcount t4 a = length ?es - length (active_entries ?es)"
    using index_in_counts [OF ia] by blast
  then have "acount t4 a = 2" "dcount t4 a = 0" using w by (simp_all add: is_active_iff)
  then have "entered (Suc h) t4 a a" using C sz4(2) by (auto simp: entered_def limit_def roomy_def)
  moreover have "node_at t a = None" using growsD(6) [OF g t2(3)] .
  moreover have "node_at t4 b = node_at t b" if "node_at t b \<noteq> None" for b
    using growsD(3) [OF g, of b] that at4 [of b] t2(3) by force
  moreover have "static t4 = static t" using outer_static [OF t4(4)] t3(4) outer_static [OF t2(6)] outer_static [OF o1(2)] by simp
  ultimately have "root_made L n W t F M (Suc h) a t4"
    unfolding root_made_def using t4(2,5) t3 t2(7) o4 o2 o growsD(4) [OF g] by auto
  moreover have "internal_at t2 a = Some p" using t2(4) p(1) by (simp add: internal_at_def)
  ultimately show ?thesis
    using t2(1) t3(1) pp(1,2) t4(1) by (simp add: root_of_split_def new_empty_index_block_def)
qed

section \<open>The new root\<close>

lemma ri_follows_last:
  assumes "ri_ok L ri" and "\<And>q. q \<in> set (roots_of ri) \<Longrightarrow> root_version q < v"
  shows "ri_follows ri v"
proof -
  have "roots_of ri \<noteq> []" using assms(1) by (cases ri) auto
  then have "root_version (last (roots_of ri)) < v" using assms(2) by simp
  then show ?thesis using assms(1) by (cases ri) (auto simp: last_rev_iter last_map simp flip: rev_map)
qed

lemma split_root_unfold:
  "split_root L t mg rg h = do {
     (bs, t) \<leftarrow> split L t (guard_addr rg) (whole t);
     (block, version, h', t) \<leftarrow> root_of_split L t bs h;
     new_root_latch \<leftarrow> block_borrow_read t block;
     t \<leftarrow> tree_append_root L t (root_new block version h');
     t \<leftarrow> block_drop (register_dead L version (inner_cell rg) (end_tx_commit version t)) rg;
     t \<leftarrow> root_drop t mg;
     Some (new_root_latch, t)
   }"
  by (simp add: split_root_def root_of_split_def whole_def Let_def)

lemma split_lens_one: "length (split_lens C h a) = 1 \<longleftrightarrow> a < (4 * slots C h + 4) div 5"
  unfolding split_lens_def not_le [symmetric] by simp

text \<open>Every split of a node for the whole key space gives a root.\<close>

lemma split_makes_root:
  assumes q: "quiet L n W t" and set: "setting L t" and w: "current_version t < VERSION_LIMIT" and F: "nonempty F"
    and r: "rep h (current_version t) t c F S M" and two: "h \<noteq> 0 \<longrightarrow> 2 \<le> acount t c"
  shows "\<exists>bs t1 r' hh' t2 H'. split L t c F = Some (bs, t1)
    \<and> root_of_split L t1 bs hh = Some (r', current_version t, hh', t2) \<and> root_made L n W t F M H' r' t2 \<and> H' \<le> Suc h"
proof -
  note C = settingD(3) [OF set]
  obtain bs t1 where b: "split L t c F = Some (bs, t1)" "grows L n W t t1"
    "new_nodes h (current_version t) t t1 F (S - {c}) M (split_news F bs) (split_lens (sizes t) h (acount t c))"
    using split_ok [OF q r settingD(1,2) [OF set] F C] by blast
  have len: "length (split_news F bs) = length (split_lens (sizes t) h (acount t c))" using b(3) unfolding new_nodes_def by simp
  show ?thesis
  proof (cases bs)
    case (ByVersion c')
    have lt: "acount t c < (4 * slots (sizes t) h + 4) div 5" using split_lens_one [of "sizes t" h "acount t c"] len ByVersion by simp
    then have lim: "acount t c < limit (sizes t) h" using roomyD [OF C, of h] by linarith
    have nn: "new_nodes h (current_version t) t t1 F (S - {c}) M [(F, c')] [acount t c]"
      using b(3) ByVersion lt by (simp add: split_lens_def)
    obtain t2 where "root_of_split L t1 bs hh = Some (c', current_version t, hh, t2)" "root_made L n W t F M h c' t2"
      using root_made_by_version [OF b(2) nn w lim two] ByVersion by blast
    then show ?thesis using b(1) by (meson le_SucI le_refl)
  next
    case (ByKey fl l fr u)
    have ge: "(4 * slots (sizes t) h + 4) div 5 \<le> acount t c" using split_lens_one [of "sizes t" h "acount t c"] len ByKey by simp
    have lim: "acount t c \<le> limit (sizes t) h" using rep_counts [OF r] by metis
    have "degree (sizes t) h x 0 = DegreeOk" if "x \<in> set (split_lens (sizes t) h (acount t c))" for x
      using that ok_key_split [OF C ge lim] ge by (auto simp: split_lens_def)
    then obtain r' t2 where "root_of_split L t1 bs hh = Some (r', current_version t, hh + 1, t2)"
      "root_made L n W t F M (Suc h) r' t2"
      using root_made_by_key [OF b(2) _ w _ C] b(3) ByKey by fastforce
    then show ?thesis using b(1) by (meson le_refl)
  qed
qed

lemma append_root_ok:
  assumes q: "quiet L n W t" and ri: "ri_ok (l_root L) (root t)" and old: "\<And>q. q \<in> set (roots_of (root t)) \<Longrightarrow> root_version q < v"
  shows "\<exists>t'. tree_append_root L t (root_new b v hh) = Some t' \<and> quiet L n W t' \<and> node_at t' = node_at t \<and> static t' = static t
    \<and> root_latch t' = root_latch t \<and> current_version t' = current_version t \<and> ri_ok (l_root L) (root t')
    \<and> roots_of (root t') = roots_of (root t) @ [root_new b v hh] \<and> (\<forall>q. holds t W q \<longrightarrow> holds t' W q)"
proof -
  obtain ri' pos' where r: "append_root (l_root L) (rng_pos t) (root t) (root_new b v hh) = Some (ri', pos', True)"
    "ri_ok (l_root L) ri'" "roots_of ri' = roots_of (root t) @ [root_new b v hh]"
    using ri_append [OF ri, of "root_new b v hh" "rng_pos t"] ri_follows_last [OF ri old] by auto
  let ?t = "t\<lparr>root := ri', rng_pos := pos'\<rparr>"
  have "static ?t = static t" by (simp add: static_def)
  then have "quiet L n W ?t" using quiet_cong [OF q] by simp
  then show ?thesis
    using r holds_cong [of ?t t] by (auto simp: tree_append_root_def node_at_heap_eq static_def current_version_def)
qed

definition root_replaced ::
    "('k::linorder, 'p) lib \<Rightarrow> nat \<Rightarrow> addr set \<Rightarrow> ('k, 'p) mvbt \<Rightarrow> ('k \<rightharpoonup> 'p) \<Rightarrow> nat \<Rightarrow> addr \<Rightarrow> ('k, 'p) mvbt \<Rightarrow> bool" where
  "root_replaced L n W t M H' r' t' \<longleftrightarrow> quiet L n W t' \<and> static t' = static t \<and> unat (root_latch t') \<le> n
     \<and> ri_ok (l_root L) (root t') \<and> (\<exists>hh. roots_of (root t') = roots_of (root t) @ [root_new r' (current_version t) hh])
     \<and> current_version t' = current_version t + 1 \<and> keeps (current_version t) t t'
     \<and> (\<exists>S'. rep H' (current_version t') t' r' (whole t) S' M) \<and> entered H' t' r' r' \<and> node_at t r' = None"

lemma split_root_ok:
  assumes q: "quiet L n W t" and n: "Suc n < 2 ^ 62" and set: "setting L t" and w: "current_version t < VERSION_LIMIT"
    and F: "nonempty (whole t)" and r: "rep h (current_version t) t c (whole t) S M" and two: "h \<noteq> 0 \<longrightarrow> 2 \<le> acount t c"
    and ri: "ri_ok (l_root L) (root t)" and old: "\<And>q. q \<in> set (roots_of (root t)) \<Longrightarrow> root_version q < current_version t"
    and rg: "guard_addr rg = c" "holds t W rg" and rl: "root_latch t = WRITE_FLAG_VERSION OR x" "unat x \<le> n"
  shows "\<exists>H' r' v t'. split_root L t (Writer 0 (root_latch t)) rg hh = Some (Reader r' v, t') \<and> H' \<le> Suc h
    \<and> root_replaced L (Suc n) (W - {c}) t M H' r' t' \<and> holds t' (W - {c}) (Reader r' v)
    \<and> (\<forall>q. guard_addr q \<noteq> c \<longrightarrow> holds t W q \<longrightarrow> holds t' (W - {c}) q)"
proof -
  let ?now = "current_version t"
  obtain bs t1 r' hh' t2 H' where t2: "split L t c (whole t) = Some (bs, t1)"
    "root_of_split L t1 bs hh = Some (r', ?now, hh', t2)" "root_made L n W t (whole t) M H' r' t2" "H' \<le> Suc h"
    using split_makes_root [OF q set w F r two] by blast
  obtain S' where m: "quiet L n W t2" "static t2 = static t" "root t2 = root t" "root_latch t2 = root_latch t"
    "current_version t2 = ?now + 1" "\<forall>b. node_at t b \<noteq> None \<longrightarrow> node_at t2 b = node_at t b" "\<forall>q. holds t W q \<longrightarrow> holds t2 W q"
    "node_at t r' = None" "rep H' (current_version t2) t2 r' (whole t) S' M" "entered H' t2 r' r'"
    using t2(3) unfolding root_made_def by blast
  have rW: "r' \<notin> W" using m(8) quietD(3) [OF q] by (auto simp: latched_def node_at_def unsafe_borrow_def)
  have rc: "r' \<noteq> c" using holds_node [OF rg(2)] rg(1) m(8) by auto
  have n': "n < 2 ^ 62" using n by simp
  have "node_at t2 r' \<noteq> None" using rep_blocks [OF m(9) rep_top [OF m(9)]] .
  then obtain v where v: "block_borrow_read t2 r' = Some (Reader r' v)" "holds t2 W (Reader r' v)"
    using quiet_borrow [OF m(1) n' _ rW] by blast
  obtain t3 where t3: "tree_append_root L t2 (root_new r' ?now hh') = Some t3" "quiet L n W t3" "node_at t3 = node_at t2"
    "static t3 = static t2" "root_latch t3 = root_latch t2" "current_version t3 = current_version t2" "ri_ok (l_root L) (root t3)"
    "roots_of (root t3) = roots_of (root t2) @ [root_new r' ?now hh']" "\<forall>q. holds t2 W q \<longrightarrow> holds t3 W q"
    using append_root_ok [OF m(1)] ri old unfolding m(3) by metis
  let ?t4 = "end_tx_commit ?now t3"
  note e = quiet_end_tx_commit [OF t3(2)]
  have g4: "holds ?t4 W q" if "holds t W q" for q using e(3) t3(9) m(7) that by blast
  obtain t5 where t5: "block_drop ?t4 rg = Some t5" "quiet L (Suc n) (W - {c}) t5" "node_at t5 = node_at ?t4" "outer t5 = outer ?t4"
    "\<forall>q. guard_addr q \<noteq> c \<longrightarrow> holds ?t4 W q \<longrightarrow> holds t5 (W - {c}) q"
    using quiet_drop [OF e(1) n g4 [OF rg(2)]] rg(1) by blast
  let ?t6 = "t5\<lparr>root_latch := x + 1\<rparr>"
  have o5: "outer t5 = outer t3" using t5(4) e(2) by simp
  note o = outer_eqD [OF o5]
  have at5: "node_at t5 = node_at t2" using t5(3) t3(3) by simp
  have rd: "root_drop t5 (Writer 0 (root_latch t)) = Some ?t6" "unat (x + 1) \<le> Suc n"
    using root_drop_ok(1) [OF rl(2) n, of t5] root_drop_ok(2) [OF rl(2) n] rl(1) by simp_all
  have db: "db_tracker ?t4 = None" using quietD(2) [OF e(1)] .
  have st6: "static ?t6 = static t5" by (simp add: static_def)
  have q6: "quiet L (Suc n) (W - {c}) ?t6" by (rule quiet_cong [OF t5(2) _ _ st6]) simp_all
  have h6: "holds ?t6 X q = holds t5 X q" for X q by (rule holds_cong) simp
  have at6: "node_at ?t6 = node_at t2" using at5 by (simp add: node_at_def)
  have stt: "static ?t6 = static t" using st6 outer_static [OF o5] t3(4) m(2) by simp
  have cv: "current_version ?t6 = current_version t2" using o(10) t3(6) by (simp add: current_version_def)
  have sz: "sizes ?t6 = sizes t2" using static_eqD(1) [OF stt] static_eqD(1) [OF m(2)] by simp
  have "split_root L t (Writer 0 (root_latch t)) rg hh = Some (Reader r' v, ?t6)"
    using t2(1,2) v(1) t3(1) t5(1) rd(1) rg(1) db by (simp add: split_root_unfold)
  moreover have "root_replaced L (Suc n) (W - {c}) t M H' r' ?t6"
    unfolding root_replaced_def
  proof (intro conjI)
    show "\<exists>hh. roots_of (root ?t6) = roots_of (root t) @ [root_new r' ?now hh]"
      using t3(8) m(3) o(8) by auto
    show "keeps ?now t ?t6" by (rule keeps_grow) (use m(6) at6 in simp)
    show "\<exists>S'. rep H' (current_version ?t6) ?t6 r' (whole t) S' M"
      unfolding cv by (rule exI, rule rep_frame [OF m(9) _ sz]) (use at6 in simp_all)
    show "entered H' ?t6 r' r'" using m(10) entered_cong [of ?t6 r' t2] at6 sz by simp
    show "current_version ?t6 = ?now + 1" using cv m(5) by simp
    show "unat (root_latch ?t6) \<le> Suc n" using rd(2) by simp
    show "ri_ok (l_root L) (root ?t6)" using t3(7) o(8) by simp
  qed (rule q6 stt m(8))+
  moreover have "holds ?t6 (W - {c}) q" if "guard_addr q \<noteq> c" "holds t W q" for q
    using h6 t5(5) g4 that by blast
  moreover have "holds ?t6 (W - {c}) (Reader r' v)"
    using h6 t5(5) e(3) t3(9) v(2) rc by (metis guard_addr.simps(1))
  ultimately show ?thesis using t2(4) by blast
qed

section \<open>The root for a writer\<close>

lemma unsafe_degree_root_eq:
  assumes "node_at t a = Some n" and "is_leaf n \<longleftrightarrow> h = 0"
  shows "unsafe_degree_root (sizes t) n =
    (if acount t a = 1 \<and> h \<noteq> 0 then ActiveUnderflow
     else if limit (sizes t) h \<le> acount t a + dcount t a then Overflow else DegreeOk)"
proof -
  have "fst (active_dead_count n) = 1 \<longleftrightarrow> acount t a = 1"
    using assms(1) word_unat_eq_iff [of "fst (active_dead_count n)" 1] by (simp add: acount_def)
  then show ?thesis
    using assms
    by (auto simp: unsafe_degree_root_def acount_def dcount_def Let_def overflow_units_count_def limit_def split: prod.split)
qed

lemma replaced_at_node:
  assumes st: "standing L n {} t H r S Hs" and w: "current_version t < VERSION_LIMIT"
    and old: "\<And>q. q \<in> set (roots_of (root t)) \<Longrightarrow> root_version q < current_version t"
    and t1: "node_at t1 = node_at t" "static t1 = static t" "root t1 = root t" "current_version t1 = current_version t"
    and rr: "root_replaced L n' {} t1 (Hs (current_version t)) H' r' t'" and g: "holds t' {} (Reader r' v)"
    and k: "contains (whole t) key"
  shows "at_node L n' t' H' r' Hs key H' (Reader r' v) {}"
proof -
  have wh: "whole t1 = whole t" by (rule whole_static [OF t1(2)])
  obtain S' hh where d: "quiet L n' {} t'" "static t' = static t" "unat (root_latch t') \<le> n'" "ri_ok (l_root L) (root t')"
    "roots_of (root t') = roots_of (root t) @ [root_new r' (current_version t) hh]"
    "current_version t' = current_version t + 1" "keeps (current_version t) t1 t'"
    "rep H' (current_version t') t' r' (whole t) S' (Hs (current_version t))"
    using rr t1 wh unfolding root_replaced_def by auto
  have kp: "keeps (current_version t) t t'" using d(7) t1(1) by (simp add: keeps_def)
  have st': "standing L n' {} t' H' r' S' Hs"
    by (rule standing_new_root [OF st w old d(1,3,2,4,5,6) kp d(8)])
  show ?thesis
    by (rule at_nodeI [OF st' _ g]) (use focus_root [OF standingD(5) [OF st']] k whole_static [OF d(2)] in simp_all)
qed

lemma interval_eqI:
  fixes F G :: "'k::linorder interval"
  assumes "nonempty F" and "nonempty G" and "\<And>k. contains F k \<longleftrightarrow> contains G k"
  shows "F = G"
proof (rule interval.equality)
  have "contains G (lower F)" "contains F (lower G)" "contains G (upper F)" "contains F (upper G)"
    using assms by (auto simp: contains_def simp flip: assms(3))
  then show "lower F = lower G" "upper F = upper G" by (auto simp: contains_def)
qed simp

text \<open>The only child of a root is its last one and has the whole key space.\<close>

lemma only_child:
  assumes fam: "family h now t r F es Sf M" and one: "acount t r = 1" and F: "nonempty F"
  shows "es \<noteq> []" and "e_active (last es)" and "e_fence (last es) = F"
    and "rep h now t (e_child (last es)) F (Sf (last es)) M" and "fill_min t (e_child (last es))"
proof -
  have len: "length (active_entries es) = 1" using index_in_counts [OF familyD(1) [OF fam]] one by metis
  then show ne: "es \<noteq> []" by auto
  then show act: "e_active (last es)" using index_okD(5) [OF familyD(2) [OF fam]] by simp
  then have la: "last es \<in> set (active_entries es)" using ne by simp
  then have ae: "active_entries es = [last es]" using len by (cases "active_entries es") auto
  note er = entry_repD [OF familyD(5) [OF fam la]]
  have "contains F k \<longleftrightarrow> contains (e_fence (last es)) k" for k
    using index_okD(4) [OF familyD(2) [OF fam]] unfolding tiles_def ae by simp
  then show fe: "e_fence (last es) = F" using interval_eqI [OF F er(3)] by metis
  show "rep h now t (e_child (last es)) F (Sf (last es)) M" "fill_min t (e_child (last es))" using er(4,5) fe by simp_all
qed

lemma merge_root_ok:
  assumes q: "quiet L n {} t" and n: "n + 2 < 2 ^ 62" and set: "setting L t" and w: "current_version t < VERSION_LIMIT"
    and F: "nonempty (whole t)" and r: "rep (Suc h) (current_version t) t r (whole t) S M" and one: "acount t r = 1"
    and ri: "ri_ok (l_root L) (root t)" and old: "\<And>q. q \<in> set (roots_of (root t)) \<Longrightarrow> root_version q < current_version t"
    and rg: "holds t {} (Reader r u)" and rl: "root_latch t = WRITE_FLAG_VERSION OR x" "unat x \<le> n"
  shows "\<exists>H' r' v t1 t'. merge_root L t (Writer 0 (root_latch t)) (Reader r u) hh = Some (Inr (Reader r' v), t') \<and> H' \<le> Suc h
    \<and> root_replaced L (n + 2) {} t1 M H' r' t' \<and> holds t' {} (Reader r' v)
    \<and> node_at t1 = node_at t \<and> outer t1 = outer t"
proof -
  let ?now = "current_version t"
  have n': "n < 2 ^ 62" "Suc n < 2 ^ 62" "Suc (Suc n) < 2 ^ 62" using n by simp_all
  obtain es Sf where fam: "family h ?now t r (whole t) es Sf M" using family_of_rep [OF r] by metis
  note c = only_child [OF fam one F]
  let ?c = "e_child (last es)"
  obtain p where p: "node_at t r = Some (NInternal p)" "index_view p es"
    using familyD(1) [OF fam] by (auto simp: index_in_def)
  have la: "last es \<in> set (active_entries es)" using c(1,2) by simp
  have rc: "r \<noteq> ?c" using familyD(4) [OF fam la] rep_top [OF c(4)] by auto
  have lc: "last_child p = Some ?c"
    using c(1) index_view_get(3) [OF p(2), of "length es - 1"] by (simp add: last_child_def sum_len_view [OF p(2)] last_conv_nth)
  have cn: "node_at t ?c \<noteq> None" using rep_blocks [OF c(4) rep_top [OF c(4)]] .
  obtain v where v: "block_borrow_read t ?c = Some (Reader ?c v)" "holds t {} (Reader ?c v)"
    using quiet_borrow [OF q n'(1) cn] by blast
  obtain cg t1 where t1: "block_upgrade t (Reader ?c v) = Some (cg, True, t1)" "guard_addr cg = ?c" "quiet L n {?c} t1"
    "holds t1 {?c} cg" "node_at t1 = node_at t" "outer t1 = outer t" "\<forall>q. guard_addr q \<noteq> ?c \<longrightarrow> holds t {} q \<longrightarrow> holds t1 {?c} q"
    using quiet_upgrade [OF q n'(1) v(2)] by auto
  note o = outer_eqD [OF t1(6)] and st = outer_static [OF t1(6)]
  have wh: "whole t1 = whole t" by (rule whole_static [OF st])
  have set1: "setting L t1" using set setting_static [OF st] by simp
  have rep1: "rep h (current_version t1) t1 ?c (whole t1) (Sf (last es)) M"
    unfolding o(10) wh by (rule rep_frame [OF c(4)]) (use t1(5) o(1) in simp_all)
  obtain nd where nd: "node_at t ?c = Some nd" "is_leaf nd \<longleftrightarrow> h = 0" using rep_counts [OF c(4)] by metis
  have "2 \<le> acount t ?c"
    using fill_min_eq [OF nd] c(5) roomyD(1) [OF settingD(3) [OF set], of h] unfolding fifth_def by linarith
  then have two: "h \<noteq> 0 \<longrightarrow> 2 \<le> acount t1 ?c" using counts_cong [of t1 ?c t] t1(5) by simp
  obtain H' r' v' t2 where t2: "split_root L t1 (Writer 0 (root_latch t1)) cg (hh - 1) = Some (Reader r' v', t2)" "H' \<le> Suc h"
    "root_replaced L (Suc n) {} t1 M H' r' t2" "holds t2 {} (Reader r' v')"
    "\<forall>q. guard_addr q \<noteq> ?c \<longrightarrow> holds t1 {?c} q \<longrightarrow> holds t2 {} q"
    using split_root_ok [OF t1(3) n'(2) set1 _ _ rep1 two _ _ t1(2,4), of x "hh - 1"] w F ri old rl o wh by auto
  have q2: "quiet L (Suc n) {} t2" using t2(3) by (simp add: root_replaced_def)
  have g2: "holds t2 {} (Reader r u)" using t2(5) t1(7) rg rc by (metis guard_addr.simps(1))
  have dr: "block_drop t2 (Reader r u) = Some t2" by (simp add: block_drop_def)
  have "merge_root L t (Writer 0 (root_latch t)) (Reader r u) hh = Some (Inr (Reader r' v'), t2)"
    using p(1) lc v(1) t1(1) t2(1) dr o(9) by (simp add: merge_root_def internal_at_def)
  moreover have "root_replaced L (n + 2) {} t1 M H' r' t2"
    using t2(3) quiet_mono [OF q2, of "n + 2"] by (auto simp: root_replaced_def)
  ultimately show ?thesis using t2(2,4) t1(5,6) by blast
qed

lemma ri_height_ok: "ri_ok L ri \<Longrightarrow> \<exists>h. ri_height L ri = Some h"
  by (cases ri) (auto simp: sk_height_def sl_back_def)

lemma inner_has_child:
  assumes "rep H now t r F S M" and "contains F key" and "H \<noteq> 0"
  shows "1 \<le> acount t r"
proof -
  obtain h where h: "H = Suc h" using assms(3) by (cases H) auto
  obtain es Sf where fam: "family h now t r F es Sf M" using family_of_rep [OF assms(1) [unfolded h]] by metis
  have "active_entries es \<noteq> []"
    using index_okD(4) [OF familyD(2) [OF fam]] assms(2) unfolding tiles_def by (auto simp del: set_filter)
  then show ?thesis using index_in_counts [OF familyD(1) [OF fam]] by (metis One_nat_def Suc_leI length_greater_0_conv)
qed

text \<open>The writer's root: with a repair or without, it may be entered, and no version reads differently.\<close>

lemma retrieve_root_ok:
  assumes st: "standing L n {} t H r S Hs" and n: "n + 2 < 2 ^ 62" and w: "current_version t < VERSION_LIMIT"
    and k: "contains (whole t) key"
  obtains r' v t' H' where "retrieve_root_write_internal_olc L t = Some (Inr (Reader r' v), t')"
    "at_node L (n + 2) t' H' r' Hs key H' (Reader r' v) {}" "entered H' t' r' r'" "H' \<le> Suc H" "static t' = static t"
    "current_version t' = current_version t \<or> current_version t' = current_version t + 1"
proof -
  note found = that
  let ?now = "current_version t"
  note d = standingD [OF st]
  have n': "n < 2 ^ 62" "Suc n < 2 ^ 62" using n by simp_all
  have F: "nonempty (whole t)" using k by (auto simp: contains_def)
  note ri = rootedD(1) [OF d(4)]
  have gb: "guard_block (l_root L) (root t) = Some r"
    using ri_current [OF ri] rootedD(3) [OF d(4)] by (simp add: guard_block_def)
  obtain nd where nd: "node_at t r = Some nd" "is_leaf nd \<longleftrightarrow> H = 0" using rep_counts [OF d(5)] by metis
  obtain u where u: "block_borrow_read t r = Some (Reader r u)" "holds t {} (Reader r u)"
    using quiet_borrow [OF d(1) n'(1), of r] nd(1) by auto
  obtain hh where hh: "ri_height (l_root L) (root t) = Some hh" using ri_height_ok [OF ri] by blast
  have pos: "1 \<le> acount t r" if "H \<noteq> 0" by (rule inner_has_child [OF d(5) k that])
  let ?t = "t\<lparr>root_latch := WRITE_FLAG_VERSION OR root_latch t\<rparr>"
  have sz: "sizes ?t = sizes t" "static ?t = static t" "root ?t = root t" "current_version ?t = ?now"
    and at: "node_at ?t = node_at t"
    by (simp_all add: static_def current_version_def node_at_def)
  have q': "quiet L n {} ?t" by (rule quiet_cong [OF d(1) _ _ sz(2)]) simp_all
  have set': "setting L ?t" using d(2) setting_static [OF sz(2)] by simp
  have wh: "whole ?t = whole t" by (rule whole_static [OF sz(2)])
  have rep': "rep H (current_version ?t) ?t r (whole ?t) S (Hs ?now)"
    unfolding sz(4) wh by (rule rep_frame [OF d(5)]) (use at sz in simp_all)
  have cnt: "acount ?t b = acount t b" for b using at by (simp add: acount_def)
  have up: "root_borrow_read t = Some (Reader 0 (root_latch t))"
    "root_upgrade t (Reader 0 (root_latch t)) = Some (Writer 0 (root_latch ?t), True, ?t)"
    using root_borrow_ok [OF d(3) n'(1)] root_upgrade_ok [OF d(3) n'(1)] by simp_all
  have u': "holds ?t {} (Reader r u)" using u(2) by simp
  have finish: thesis if "retrieve_root_write_internal_olc L t = Some (Inr (Reader r' v), t')" "H' \<le> Suc H"
      "root_replaced L (n + 2) {} t1 (Hs ?now) H' r' t'" "holds t' {} (Reader r' v)"
      "node_at t1 = node_at t" "static t1 = static t" "root t1 = root t" "current_version t1 = ?now"
      and old: "\<And>q. q \<in> set (roots_of (root t)) \<Longrightarrow> root_version q < ?now" for r' v t' H' t1
  proof (rule found [OF that(1) _ _ that(2)])
    show "at_node L (n + 2) t' H' r' Hs key H' (Reader r' v) {}"
      by (rule replaced_at_node [OF st w old that(5-8,3,4) k])
  qed (use that(3,6,8) in \<open>simp_all add: root_replaced_def\<close>)
  consider "acount t r = 1" "H \<noteq> 0" | "\<not> (acount t r = 1 \<and> H \<noteq> 0)" "limit (sizes t) H \<le> acount t r + dcount t r"
    | "\<not> (acount t r = 1 \<and> H \<noteq> 0)" "acount t r + dcount t r < limit (sizes t) H" by linarith
  then show thesis
  proof cases
    case 1
    then obtain h where h: "H = Suc h" by (cases H) auto
    have deg: "unsafe_degree_root (sizes t) nd = ActiveUnderflow" using unsafe_degree_root_eq [OF nd] 1 by simp
    have old: "root_version q < ?now" if "q \<in> set (roots_of (root t))" for q using d(8) 1 that by (auto simp: aged_def)
    obtain H' r' v t1 t' where m: "merge_root L ?t (Writer 0 (root_latch ?t)) (Reader r u) hh = Some (Inr (Reader r' v), t')"
      "H' \<le> Suc h" "root_replaced L (n + 2) {} t1 (Hs ?now) H' r' t'" "holds t' {} (Reader r' v)"
      "node_at t1 = node_at ?t" "outer t1 = outer ?t"
      using merge_root_ok [OF q' n set' _ _ rep' [unfolded h] _ _ _ u', of "root_latch t" hh] w F 1 ri old d(3) wh sz cnt by auto
    have "retrieve_root_write_internal_olc L t = Some (Inr (Reader r' v), t')"
      using up gb u(1) nd(1) hh m(1) deg by (simp add: retrieve_root_write_internal_olc_def)
    then show thesis
      using finish [OF _ _ m(3,4)] m(2,5) outer_eqD(8,10) [OF m(6)] outer_static [OF m(6)] old h at sz by simp
  next
    case 2
    have deg: "unsafe_degree_root (sizes t) nd = Overflow" using unsafe_degree_root_eq [OF nd] 2 by presburger
    have two: "H \<noteq> 0 \<longrightarrow> 2 \<le> acount ?t r" using 2(1) pos cnt by force
    have "0 < limit (sizes t) H" using roomyD [OF settingD(3) [OF d(2)], of H] by linarith
    then have old: "root_version q < ?now" if "q \<in> set (roots_of (root t))" for q using d(8) 2(2) that by (auto simp: aged_def)
    obtain H' r' v t' where m: "split_root L ?t (Writer 0 (root_latch ?t)) (Reader r u) hh = Some (Reader r' v, t')"
      "H' \<le> Suc H" "root_replaced L (Suc n) {} ?t (Hs ?now) H' r' t'" "holds t' {} (Reader r' v)"
      using split_root_ok [OF q' n'(2) set' _ _ rep' two _ _ _ u', of "root_latch t" hh] w F ri old d(3) wh sz by auto
    have "retrieve_root_write_internal_olc L t = Some (Inr (Reader r' v), t')"
      using up gb u(1) nd(1) hh m(1) deg by (simp add: retrieve_root_write_internal_olc_def)
    moreover have "root_replaced L (n + 2) {} ?t (Hs ?now) H' r' t'"
      using m(3) quiet_mono [of L "Suc n" "{}" t' "n + 2"] by (auto simp: root_replaced_def)
    ultimately show thesis using finish [OF _ m(2) _ m(4)] at sz old by simp
  next
    case 3
    have deg: "unsafe_degree_root (sizes t) nd = DegreeOk" using unsafe_degree_root_eq [OF nd] 3 by (metis not_le)
    have "retrieve_root_write_internal_olc L t = Some (Inr (Reader r u), t)"
      using up(1) gb u(1) nd(1) deg by (simp add: retrieve_root_write_internal_olc_def)
    moreover have "at_node L n t H r Hs key H (Reader r u) {}"
      by (rule at_nodeI [OF st _ u(2)]) (use focus_root [OF d(5)] k in simp_all)
    moreover have "entered H t r r" using 3 pos by (force simp: entered_def)
    ultimately show thesis using found [of r u t H] at_node_mono [of L n t H r Hs key H _ _ "n + 2"] by simp
  qed
qed

end
