(* ===== verification/Tree_Write.thy ===== *)
theory Tree_Write
  imports Root_Repair
begin

text \<open>
  The writers of \<^verbatim>\<open>mv_query/dispatch.rs\<close> on the whole tree: the descent ends at the leaf of the key,
  the write to that leaf is one commit, and the tree then stands for the history that the abstract
  operation gives.
\<close>

section \<open>The descent from the root\<close>

lemma retry_record_frame:
  "heap (retry_record n t) = heap t" "next_addr (retry_record n t) = next_addr t" "outer (retry_record n t) = outer t"
  by (simp_all add: retry_record_def Let_def outer_def current_version_def)

lemma at_node_cong:
  assumes at: "at_node L n t H r Hs key h g W" and h: "heap t' = heap t" "next_addr t' = next_addr t" and o: "outer t' = outer t"
  shows "at_node L n t' H r Hs key h g W"
proof -
  obtain S F Sa where a: "standing L n W t H r S Hs" "W \<subseteq> {guard_addr g}" "holds t W g"
    "focus H r (whole t) S (current_version t) t (Hs (current_version t)) h (guard_addr g) F Sa" "contains F key"
    using at unfolding at_node_def by blast
  have at': "node_at t' = node_at t" by (simp add: node_at_heap_eq h(1))
  have q: "quiet L n W t'" by (rule quiet_cong [OF standingD(1) [OF a(1)] h outer_static [OF o]])
  show ?thesis
    using focus_cong [OF a(4) at' outer_eqD(1) [OF o]] a(2) holds_cong [OF h(1)] a(3)
    by (intro at_nodeI [OF standing_cong [OF a(1) q at' o le_refl] _ _ _ a(5)])
      (simp_all add: outer_eqD(10) [OF o] whole_static [OF outer_static [OF o]])
qed

lemma traversal_ok:
  assumes st: "standing L n {} t H r S Hs" and n: "n + 3 * H + 5 < 2 ^ 62" and w: "unat (current_version t) + H + 2 < 2 ^ 63"
    and k: "contains (whole t) key"
  obtains g t' H' r' where "traversal_write_olc L t key = Some (g, t')" "H' \<le> Suc H"
    "at_node L (n + 3 * H + 5) t' H' r' Hs key 0 g {guard_addr g}" "entered 0 t' r' (guard_addr g)"
    "current_version t \<le> current_version t'" "unat (current_version t') \<le> unat (current_version t) + H + 2" "static t' = static t"
proof -
  have v: "current_version t < VERSION_LIMIT" "unat (current_version t + 1) = Suc (unat (current_version t))"
    using unat_version_step [of "current_version t"] w by auto
  have n2: "n + 2 < 2 ^ 62" using n by simp
  obtain r' u t1 H' where t1: "retrieve_root_write_internal_olc L t = Some (Inr (Reader r' u), t1)"
    "at_node L (n + 2) t1 H' r' Hs key H' (Reader r' u) {}" "entered H' t1 r' r'" "H' \<le> Suc H" "static t1 = static t"
    "current_version t1 = current_version t \<or> current_version t1 = current_version t + 1"
    by (rule retrieve_root_ok [OF st n2 v(1) k])
  have c1: "unat (current_version t1) \<le> unat (current_version t) + 1" using t1(6) v(2) by auto
  have b: "n + 2 + 3 * H' < 2 ^ 62" "unat (current_version t1) + H' < 2 ^ 63" using n w t1(4) c1 by linarith+
  obtain g t2 where t2: "descend L t1 key (Reader r' u) 0 = Some (Inr g, t2)" "arrived L (n + 2) t1 H' r' Hs key g t2 (3 * H') H'"
    using descend_ok [OF t1(2) b, of 0] t1(3) by auto
  let ?t = "retry_record 0 t2"
  have o: "outer ?t = outer t2" by (rule retry_record_frame)
  have tr: "traversal_write_olc L t key = Some (g, ?t)"
    using t1(1) t2(1)
    by (simp add: traversal_write_olc_def traversal_write_from.simps [of L t key] traversal_write_internal_olc_def
        retrieve_root_write_olc.simps [of L t])
  have a2: "at_node L (n + 3 * H + 5) t2 H' r' Hs key 0 g {guard_addr g}"
    by (rule at_node_mono [where n = "n + 2 + 3 * H'"]) (use t2(2) t1(4) in \<open>simp_all add: arrived_def\<close>)
  show thesis
  proof (rule that [OF tr t1(4) at_node_cong [OF a2 retry_record_frame]])
    have "node_at ?t = node_at t2" by (simp add: node_at_heap_eq retry_record_frame)
    then show "entered 0 ?t r' (guard_addr g)"
      using t2(2) entered_cong [of ?t "guard_addr g" t2] outer_eqD(1) [OF o] by (simp add: arrived_def)
    show "current_version t \<le> current_version ?t"
      using t2(2) t1(6) version_step [OF v(1)] outer_eqD(10) [OF o] by (auto simp: arrived_def)
    show "unat (current_version ?t) \<le> unat (current_version t) + H + 2"
      using t2(2) c1 t1(4) outer_eqD(10) [OF o] by (simp add: arrived_def)
    show "static ?t = static t" using t2(2) t1(5) outer_static [OF o] by (simp add: arrived_def)
  qed
qed

section \<open>The leaf of the key\<close>

lemma leaf_write_now:
  assumes "leaf_ok now rs" and "now < VERSION_LIMIT"
  shows "leaf_now (leaf_write now k x rs) = (leaf_now rs)(k := x)"
proof
  fix j
  have "leaf_now (leaf_write now k x rs) j = leaf_history (leaf_write now k x rs) now j"
    using leaf_history_present [OF leaf_write_ok [OF assms(1) order_refl assms(2)] up_to_dateI(2) [OF assms(2) order_refl]] by simp
  also have "\<dots> = ((leaf_history rs now)(k := x)) j"
    by (simp add: leaf_write_history [OF assms(1) order_refl assms(2)] spec_write_def)
  also have "\<dots> = ((leaf_now rs)(k := x)) j"
    using leaf_history_present [OF assms(1) up_to_dateI(1) [OF order_refl], of j] by simp
  finally show "leaf_now (leaf_write now k x rs) j = ((leaf_now rs)(k := x)) j" .
qed

lemma leaf_write_keys:
  assumes "r \<in> set (leaf_write w k x rs)"
  shows "r_key r = k \<or> (\<exists>q \<in> set rs. r_key r = r_key q)"
proof (cases "live_index rs k")
  case (Some i)
  have "r_key r = k \<or> r \<in> set (rs[i := kill w (rs ! i)])"
    using assms Some by (auto simp: leaf_write_def end_live_def split: option.splits)
  then show ?thesis
    using live_index_SomeD [OF Some] set_update_subset_insert [of rs i "kill w (rs ! i)"] by auto
qed (use assms in \<open>auto simp: leaf_write_def end_live_def split: option.splits\<close>)

lemma leaf_write_live:
  "length (live_records rs) \<le> Suc (length (live_records (leaf_write w k x rs)))"
proof (cases "live_index rs k")
  case (Some i)
  then show ?thesis
    using length_filter_update [of i rs live "kill w (rs ! i)"] live_index_SomeD [OF Some]
    by (auto simp: leaf_write_def end_live_def split: option.split)
qed (simp add: leaf_write_def end_live_def split: option.split)

text \<open>The leaf that a writer has latched.\<close>

lemma at_leaf:
  assumes at: "at_node L n t H r Hs key 0 g {guard_addr g}" and en: "entered 0 t r (guard_addr g)"
  obtains rs p where "node_at t (guard_addr g) = Some (NLeaf p)" "leaf_view p rs" "leaf_cap p = NUM_RECORDS (sizes t)"
    "leaf_ok (current_version t) rs" "length rs < NUM_RECORDS (sizes t)"
    "live_index rs key \<noteq> None \<longleftrightarrow> Hs (current_version t) key \<noteq> None"
proof -
  let ?now = "current_version t"
  obtain S F Sa where f: "focus H r (whole t) S ?now t (Hs ?now) 0 (guard_addr g) F Sa" and k: "contains F key"
    using at unfolding at_node_def by blast
  obtain rs where rs: "leaf_in t (guard_addr g) rs" "leaf_ok ?now rs" "Hs ?now key = leaf_now rs key"
    using focus_rep [OF f] k by auto
  obtain p where p: "node_at t (guard_addr g) = Some (NLeaf p)" "leaf_view p rs" "leaf_cap p = NUM_RECORDS (sizes t)"
    using rs(1) by (auto simp: leaf_in_def leaf_at_node)
  have "live_index rs key \<noteq> None \<longleftrightarrow> Hs ?now key \<noteq> None"
    using history_present_iff [OF rs(2) order_refl, of key] leaf_history_present [OF rs(2) up_to_dateI(1) [OF order_refl]] rs(3)
    by simp
  moreover have "length rs < NUM_RECORDS (sizes t)"
    using en leaf_in_counts [OF rs(1)] by (metis entered_def limit_def)
  ultimately show thesis using that p rs(2) by blast
qed

text \<open>The write of one key, committed at the current version.\<close>

lemma write_extends:
  assumes "standing L n W t H r S Hs"
  shows "extended Hs (current_version t) ((Hs (current_version t))(k := x)) = spec_write (current_version t) k x Hs"
proof
  fix v
  show "extended Hs (current_version t) ((Hs (current_version t))(k := x)) v = spec_write (current_version t) k x Hs v"
    using spec [OF standingD(6) [OF assms], of v] by (cases "current_version t \<le> v") (simp_all add: extended_def spec_write_def)
qed

lemma leaf_write_records:
  assumes "leaf_ok now rs" and "now < VERSION_LIMIT" and "v < now"
  shows "leaf_records (leaf_write now k x rs) v = leaf_records rs v"
proof -
  have "leaf_records (end_live now k rs) v = leaf_records rs v"
  proof (cases "live_index rs k")
    case None
    then show ?thesis by (simp add: end_live_def)
  next
    case (Some i)
    have i: "i < length rs" "live (rs ! i)" using live_index_SomeD [OF Some] by auto
    let ?f = "\<lambda>rs. leaf_records rs v"
    have app: "?f (as @ r # bs) = ?f as @ ?f [r] @ ?f bs" for as r bs by (simp add: leaf_records_def)
    have "?f [kill now (rs ! i)] = ?f [rs ! i]"
      using matches_kill [OF i(2) assms(2)] assms(3) by (auto simp: leaf_records_def record_point_result_from_def kill_def)
    moreover have "end_live now k rs = take i rs @ kill now (rs ! i) # drop (Suc i) rs"
      using Some i(1) by (simp add: end_live_def upd_conv_take_nth_drop)
    ultimately have "?f (end_live now k rs) = ?f (take i rs @ rs ! i # drop (Suc i) rs)" by (simp only: app)
    then show ?thesis using id_take_nth_drop [OF i(1)] by simp
  qed
  then show ?thesis
    using assms(3) by (auto simp: leaf_write_def leaf_records_def matches_live not_le [symmetric] split: option.splits)
qed

lemma leaf_commit_keeps:
  assumes "node_at t a = Some (NLeaf p)" and "leaf_view p rs" and "leaf_view p' (leaf_write now k x rs)"
    and "leaf_ok now rs" and "now < VERSION_LIMIT" and "node_at t' = (node_at t)(a \<mapsto> NLeaf p')"
  shows "keeps now t t'"
proof (rule keeps_put [OF assms(1,6)])
  fix v j assume v: "v < now"
  have "leaf_records (leaf_write now k x rs) v = leaf_records rs v" by (rule leaf_write_records [OF assms(4,5) v])
  then show "node_answer (NLeaf p') j v = node_answer (NLeaf p) j v"
    by (simp add: leaf_view_as_records [OF assms(2)] leaf_view_as_records [OF assms(3)])
qed

lemma tree_write:
  assumes at: "at_node L n t H r Hs key 0 g {guard_addr g}" and en: "entered 0 t r (guard_addr g)" and n: "Suc n < 2 ^ 62"
    and w: "current_version t < VERSION_LIMIT" and p: "node_at t (guard_addr g) = Some (NLeaf p)" "leaf_view p rs"
    and p': "leaf_view p' (leaf_write (current_version t) key x rs)" "leaf_cap p' = NUM_RECORDS (sizes t)"
    and s: "start_tx_commit t = (current_version t, t1)"
  shows "\<exists>t2 t3 S. put_leaf t1 (guard_addr g) p' = Some t2 \<and> finish g res (end_tx_commit (current_version t) t2) = Some (res, t3)
    \<and> standing L (Suc n) {} t3 H r S (spec_write (current_version t) key x Hs)
    \<and> current_version t3 = current_version t + 1 \<and> static t3 = static t"
proof -
  let ?now = "current_version t" and ?a = "guard_addr g"
  obtain S F Sa where st: "standing L n {?a} t H r S Hs" and g: "holds t {?a} g"
    and f: "focus H r (whole t) S ?now t (Hs ?now) 0 ?a F Sa" and k: "contains F key"
    using at unfolding at_node_def by blast
  have q: "quiet L n {?a} t" using standingD(1) [OF st] .
  have Sa: "Sa = {?a}" and rs: "leaf_ok ?now rs" "\<forall>q \<in> set rs. contains F (r_key q)" "\<forall>j. contains F j \<longrightarrow> Hs ?now j = leaf_now rs j"
    and li: "leaf_in t ?a rs"
    using focus_rep [OF f] p by (auto simp: leaf_in_def leaf_at_node leaf_view_def)
  obtain t1' where t1: "quiet L n {?a} t1" "node_at t1 = node_at t" "static t1 = static t" "root t1 = root t"
    "root_latch t1 = root_latch t" "current_version t1 = ?now + 1" "holds t1 {?a} g"
    using quiet_start_tx_commit [OF q] s g by auto
  have pok: "page_ok (sizes t1) (NLeaf p')" using p' static_eqD(1) [OF t1(3)] by auto
  obtain t2 where t2: "put_leaf t1 ?a p' = Some t2" "quiet L n {?a} t2" "node_at t2 = (node_at t)(?a \<mapsto> NLeaf p')"
    "outer t2 = outer t1" "holds t2 {?a} g"
    using quiet_put [OF t1(1) _ pok, of ?a] t1(2,7) p(1) by auto
  note e = quiet_end_tx_commit [OF t2(2), of ?now]
  obtain t3 where t3: "block_drop (end_tx_commit ?now t2) g = Some t3" "quiet L (Suc n) {} t3"
    "node_at t3 = node_at t2" "outer t3 = outer t2"
    using quiet_drop [OF e(1) n, of g] e(2,3) t2(5) by auto
  note o3 = outer_eqD [OF t3(4)] and o2 = outer_eqD [OF t2(4)]
  have st3: "static t3 = static t" using outer_static [OF t3(4)] outer_static [OF t2(4)] t1(3) by simp
  have sz: "sizes t3 = sizes t" using static_eqD(1) [OF st3] .
  have at3: "node_at t3 = (node_at t)(?a \<mapsto> NLeaf p')" using t3(3) t2(3) by simp
  let ?rs = "leaf_write ?now key x rs" and ?M = "(Hs ?now)(key := x)"
  have li3: "leaf_in t3 ?a ?rs" using at3 p' sz by (auto simp: leaf_in_def leaf_at_node)
  have rep3: "rep 0 (?now + 1) t3 ?a F {?a} ?M"
    using li3 leaf_write_ok [OF rs(1) order_refl w] leaf_write_keys [of _ ?now key x rs] rs(2,3) k leaf_write_now [OF rs(1) w, of key x]
    by fastforce
  have fill: "fill_min t3 ?a" if "?a \<noteq> r"
  proof -
    obtain nd where nd: "node_at t3 ?a = Some nd" "is_leaf nd" "acount t3 ?a = length (live_records ?rs)"
      using leaf_in_counts [OF li3] by metis
    have "acount t ?a = length (live_records rs)" using leaf_in_counts [OF li] by metis
    then have "fifth (sizes t) 0 \<le> acount t3 ?a"
      using en that leaf_write_live [of rs ?now key x] nd(3) by (auto simp: entered_def)
    then show ?thesis using fill_min_eq [OF nd(1), of 0] nd(2) sz by simp
  qed
  have "rep H (?now + 1) t3 r (whole t) (S - Sa \<union> {?a}) ?M"
    by (rule focusD [OF f _ sz _ _ _ rep3 fill]) (use at3 Sa k version_step [OF w] in auto)
  then have "standing L (Suc n) {} t3 H r (S - Sa \<union> {?a}) (extended Hs ?now ?M)"
    using standing_commit [OF st w t3(2) _ st3 _ _ _ leaf_commit_keeps [OF p p'(1) rs(1) w at3]] o3 o2 t1 by simp
  then show ?thesis
    using t2(1) t3(1) st3 o3(10) o2(10) t1(6) write_extends [OF st] by (auto simp: finish_def)
qed

text \<open>A writer that finds nothing to do, without and with a version of its own.\<close>

lemma tree_skip:
  assumes at: "at_node L n t H r Hs key 0 g {guard_addr g}" and n: "Suc n < 2 ^ 62"
  shows "\<exists>t3 S. finish g res t = Some (res, t3) \<and> standing L (Suc n) {} t3 H r S Hs
    \<and> current_version t3 = current_version t \<and> static t3 = static t"
proof -
  obtain S where st: "standing L n {guard_addr g} t H r S Hs" and g: "holds t {guard_addr g} g"
    using at unfolding at_node_def by blast
  obtain t3 where t3: "block_drop t g = Some t3" "quiet L (Suc n) {} t3" "node_at t3 = node_at t" "outer t3 = outer t"
    using quiet_drop [OF standingD(1) [OF st] n g] by auto
  have "standing L (Suc n) {} t3 H r S Hs" by (rule standing_cong [OF st t3(2-4)]) simp
  then show ?thesis using t3(1) outer_eqD(10) [OF t3(4)] outer_static [OF t3(4)] by (auto simp: finish_def)
qed

lemma tree_skip_version:
  assumes at: "at_node L n t H r Hs key 0 g {guard_addr g}" and n: "Suc n < 2 ^ 62"
    and w: "current_version t < VERSION_LIMIT" and s: "start_tx_commit t = (current_version t, t1)"
  shows "\<exists>t3 S. finish g res t1 = Some (res, t3) \<and> standing L (Suc n) {} t3 H r S Hs
    \<and> current_version t3 = current_version t + 1 \<and> static t3 = static t"
proof -
  let ?now = "current_version t"
  obtain S where st: "standing L n {guard_addr g} t H r S Hs" and g: "holds t {guard_addr g} g"
    using at unfolding at_node_def by blast
  have t1: "quiet L n {guard_addr g} t1" "node_at t1 = node_at t" "static t1 = static t" "root t1 = root t"
    "root_latch t1 = root_latch t" "current_version t1 = ?now + 1" "holds t1 {guard_addr g} g"
    using quiet_start_tx_commit [OF standingD(1) [OF st]] s g by auto
  obtain t3 where t3: "block_drop t1 g = Some t3" "quiet L (Suc n) {} t3" "node_at t3 = node_at t1" "outer t3 = outer t1"
    using quiet_drop [OF t1(1) n t1(7)] by auto
  note o = outer_eqD [OF t3(4)]
  have s3: "static t3 = static t" using outer_static [OF t3(4)] t1(3) by simp
  have "rep H (current_version t3) t3 r (whole t) S (Hs ?now)"
    by (rule rep_frame [OF standingD(5) [OF st]])
      (use t3(3) t1(2,6) o(10) static_eqD(1) [OF s3] version_step [OF w] in auto)
  then have "standing L (Suc n) {} t3 H r S Hs"
    using standing_commit [OF st w t3(2) _ s3 _ _ _ keeps_refl, of S "Hs ?now"] extended_same [OF st] t3(3) t1 o by simp
  then show ?thesis using t3(1) s3 o(10) t1(6) by (auto simp: finish_def)
qed

section \<open>The operations\<close>

text \<open>The reason for a missing key depends on what the leaf still holds: deleted records are dropped by splits.\<close>

definition same_result :: "('k, 'p) crud_result \<Rightarrow> ('k, 'p) crud_result \<Rightarrow> bool" where
  "same_result a b \<longleftrightarrow> a = b
     \<or> a \<in> {ZeroAffected KeyAlreadyDeleted, ZeroAffected KeyDoesNotExist} \<and> b \<in> {ZeroAffected KeyAlreadyDeleted, ZeroAffected KeyDoesNotExist}"

text \<open>
  The outcome of a writer that has latched the leaf: the abstract operation at the version of the
  writer. Whoever has written has taken that version.
\<close>

fun wrote :: "('k, 'p) crud_result \<Rightarrow> bool" where
  "wrote (ZeroAffected reason) = False"
| "wrote (MatchedRecords rs) = False"
| "wrote res = True"

definition tree_outcome ::
    "('k::linorder, 'p) lib \<Rightarrow> nat \<Rightarrow> ('k, 'p) mvbt \<Rightarrow> nat \<Rightarrow> addr \<Rightarrow> ('k, 'p) crud_result \<times> ('k, 'p) history
       \<Rightarrow> (('k, 'p) crud_result \<times> ('k, 'p) mvbt) option \<Rightarrow> bool" where
  "tree_outcome L n t H r spec out \<longleftrightarrow> (\<exists>res t' S. out = Some (res, t') \<and> same_result res (fst spec)
     \<and> standing L n {} t' H r S (snd spec) \<and> static t' = static t
     \<and> (current_version t' = current_version t \<and> \<not> wrote res \<or> current_version t' = current_version t + 1))"

lemma tree_outcomeI:
  "out = Some (res, t') \<Longrightarrow> same_result res (fst spec) \<Longrightarrow> standing L n {} t' H r S (snd spec) \<Longrightarrow> static t' = static t \<Longrightarrow>
    current_version t' = current_version t \<and> \<not> wrote res \<or> current_version t' = current_version t + 1 \<Longrightarrow> tree_outcome L n t H r spec out"
  unfolding tree_outcome_def by blast

lemma insert_ok:
  fixes t :: "('k::linorder, 'p) mvbt"
  assumes at: "at_node L n t H r Hs k 0 g {guard_addr g}" and en: "entered 0 t r (guard_addr g)" and n: "Suc n < 2 ^ 62"
    and w: "current_version t < VERSION_LIMIT"
  shows "tree_outcome L (Suc n) t H r (spec_insert (current_version t) k x Hs) (insert_at_leaf t g k x)"
proof -
  let ?now = "current_version t"
  obtain rs p where p: "node_at t (guard_addr g) = Some (NLeaf p)" "leaf_view p rs" "leaf_cap p = NUM_RECORDS (sizes t)"
    "leaf_ok ?now rs" "length rs < NUM_RECORDS (sizes t)" "live_index rs k \<noteq> None \<longleftrightarrow> Hs ?now k \<noteq> None"
    by (rule at_leaf [OF at en])
  have la: "leaf_at t (guard_addr g) = Some p" "as_records p = Some rs" using p by (simp_all add: leaf_at_node leaf_view_as_records)
  have find: "(case rfind (\<lambda>r. r_key r = k) rs of None \<Rightarrow> False | Some r \<Rightarrow> live r) \<longleftrightarrow> live_index rs k \<noteq> None"
    by (auto simp: rfind_eq_index live_index_def split: option.splits)
  show ?thesis
  proof (cases "live_index rs k")
    case (Some i)
    obtain t3 S where t3: "finish g (ZeroAffected KeyAlreadyExists :: ('k, 'p) crud_result) t = Some (ZeroAffected KeyAlreadyExists, t3)"
      "standing L (Suc n) {} t3 H r S Hs" "current_version t3 = ?now" "static t3 = static t"
      using tree_skip [OF at n, where res = "ZeroAffected KeyAlreadyExists :: ('k, 'p) crud_result"] by blast
    have "insert_at_leaf t g k x = Some (ZeroAffected KeyAlreadyExists, t3)"
      using la find Some t3(1) by (simp add: insert_at_leaf_def)
    then show ?thesis
      by (rule tree_outcomeI [where S = S]) (use t3 Some p(6) in \<open>auto simp: spec_insert_def same_result_def\<close>)
  next
    case None
    obtain t1 where t1: "start_tx_commit t = (?now, t1)" using start_tx_commit_version by (metis surj_pair)
    obtain p' where p': "publish_record p k ?now x (leaf_len p) = Some p'" "leaf_view p' (rs @ [new_record ?now k x])" "leaf_cap p' = leaf_cap p"
      using publish_record_ok [OF p(2)] p(3,5) by metis
    have cap: "leaf_cap p' = NUM_RECORDS (sizes t)" using p'(3) p(3) by simp
    have lw: "leaf_view p' (leaf_write ?now k (Some x) rs)" using p'(2) None by (simp add: leaf_write_def end_live_def)
    obtain t2 t3 S where t3: "put_leaf t1 (guard_addr g) p' = Some t2"
      "finish g (Inserted ?now :: ('k, 'p) crud_result) (end_tx_commit ?now t2) = Some (Inserted ?now, t3)"
      "standing L (Suc n) {} t3 H r S (spec_write ?now k (Some x) Hs)" "current_version t3 = ?now + 1" "static t3 = static t"
      using tree_write [OF at en n w p(1,2) lw cap t1, where res = "Inserted ?now :: ('k, 'p) crud_result"] by blast
    have "insert_at_leaf t g k x = Some (Inserted ?now, t3)"
      using la find None t1 p'(1) t3(1,2) by (simp add: insert_at_leaf_def)
    then show ?thesis
      by (rule tree_outcomeI [where S = S]) (use t3 None p(6) in \<open>auto simp: spec_insert_def same_result_def\<close>)
  qed
qed

lemma missing_same [simp]:
  "same_result (ZeroAffected KeyDoesNotExist) (ZeroAffected (missing_reason H k))"
  "same_result (ZeroAffected KeyAlreadyDeleted) (ZeroAffected (missing_reason H k))"
  by (simp_all add: same_result_def missing_reason_def)

lemma delete_ok:
  fixes t :: "('k::linorder, 'p) mvbt"
  assumes at: "at_node L n t H r Hs k 0 g {guard_addr g}" and en: "entered 0 t r (guard_addr g)" and n: "Suc n < 2 ^ 62"
    and w: "current_version t < VERSION_LIMIT"
  shows "tree_outcome L (Suc n) t H r (spec_delete (current_version t) k Hs) (delete_at_leaf Deleted t g k)"
proof -
  let ?now = "current_version t"
  obtain rs p where p: "node_at t (guard_addr g) = Some (NLeaf p)" "leaf_view p rs" "leaf_cap p = NUM_RECORDS (sizes t)"
    "leaf_ok ?now rs" "length rs < NUM_RECORDS (sizes t)" "live_index rs k \<noteq> None \<longleftrightarrow> Hs ?now k \<noteq> None"
    by (rule at_leaf [OF at en])
  have la: "leaf_at t (guard_addr g) = Some p" using p by (simp add: leaf_at_node)
  obtain t1 where t1: "start_tx_commit t = (?now, t1)" using start_tx_commit_version by (metis surj_pair)
  show ?thesis
  proof (cases "live_index rs k")
    case None
    let ?b = "rfind_index (\<lambda>r. r_key r = k) rs = None"
    let ?res = "ZeroAffected (if ?b then KeyDoesNotExist else KeyAlreadyDeleted) :: ('k, 'p) crud_result"
    obtain t3 S where t3: "finish g ?res t1 = Some (?res, t3)"
      "standing L (Suc n) {} t3 H r S Hs" "current_version t3 = ?now + 1" "static t3 = static t"
      using tree_skip_version [OF at n w t1, where res = ?res] by blast
    have "delete_at_leaf Deleted t g k = Some (?res, t3)"
      using la t1 t3(1) leaf_delete_missing [OF p(2) None] by (auto simp: delete_at_leaf_def)
    then show ?thesis
      by (rule tree_outcomeI [where S = S]) (use t3 None p(6) in \<open>auto simp: spec_delete_def\<close>)
  next
    case (Some i)
    obtain p' info where p': "leaf_delete p k ?now = Some (p', Inr (Some info))"
      "leaf_view (leaf_commit_delta p' (-1) 1) (end_live ?now k rs)" "leaf_cap (leaf_commit_delta p' (-1) 1) = leaf_cap p"
      using leaf_delete_live [OF p(2) Some] by blast
    have cap: "leaf_cap (leaf_commit_delta p' (-1) 1) = NUM_RECORDS (sizes t)" using p'(3) p(3) by simp
    have lw: "leaf_view (leaf_commit_delta p' (-1) 1) (leaf_write ?now k None rs)" using p'(2) by (simp add: leaf_write_def)
    obtain t2 t3 S where t3: "put_leaf t1 (guard_addr g) (leaf_commit_delta p' (-1) 1) = Some t2"
      "finish g (Deleted ?now :: ('k, 'p) crud_result) (end_tx_commit ?now t2) = Some (Deleted ?now, t3)"
      "standing L (Suc n) {} t3 H r S (spec_write ?now k None Hs)" "current_version t3 = ?now + 1" "static t3 = static t"
      using tree_write [OF at en n w p(1,2) lw cap t1, where res = "Deleted ?now :: ('k, 'p) crud_result"] by blast
    have "delete_at_leaf Deleted t g k = Some (Deleted ?now, t3)"
      using la t1 p'(1) t3(1,2) by (simp add: delete_at_leaf_def)
    then show ?thesis
      by (rule tree_outcomeI [where S = S]) (use t3 Some p(6) in \<open>auto simp: spec_delete_def same_result_def\<close>)
  qed
qed

lemma update_ok:
  fixes t :: "('k::linorder, 'p) mvbt"
  assumes at: "at_node L n t H r Hs k 0 g {guard_addr g}" and en: "entered 0 t r (guard_addr g)" and n: "Suc n < 2 ^ 62"
    and w: "current_version t < VERSION_LIMIT"
  shows "tree_outcome L (Suc n) t H r (spec_update (current_version t) k x Hs) (update_at_leaf t g k x)"
proof -
  let ?now = "current_version t"
  obtain rs p where p: "node_at t (guard_addr g) = Some (NLeaf p)" "leaf_view p rs" "leaf_cap p = NUM_RECORDS (sizes t)"
    "leaf_ok ?now rs" "length rs < NUM_RECORDS (sizes t)" "live_index rs k \<noteq> None \<longleftrightarrow> Hs ?now k \<noteq> None"
    by (rule at_leaf [OF at en])
  have la: "leaf_at t (guard_addr g) = Some p" "as_records p = Some rs" using p by (simp_all add: leaf_at_node leaf_view_as_records)
  have "db_tracker t = None" using at unfolding at_node_def standing_def quiet_def by blast
  then have ip: "in_place_target t rs k = None" by (simp add: in_place_target_def)
  show ?thesis
  proof (cases "live_index rs k")
    case None
    let ?res = "ZeroAffected (if rfind_index (\<lambda>r. r_key r = k) rs = None then KeyDoesNotExist else KeyAlreadyDeleted) :: ('k, 'p) crud_result"
    obtain t3 S where t3: "finish g ?res t = Some (?res, t3)"
      "standing L (Suc n) {} t3 H r S Hs" "current_version t3 = ?now" "static t3 = static t"
      using tree_skip [OF at n, where res = ?res] by blast
    have "update_at_leaf t g k x = finish g ?res t"
      using la ip None by (auto simp: update_at_leaf_def rfind_eq_index live_index_def split: option.splits if_splits)
    then have "update_at_leaf t g k x = Some (?res, t3)" using t3(1) by simp
    then show ?thesis
      by (rule tree_outcomeI [where S = S]) (use t3 None p(6) in \<open>auto simp: spec_update_def\<close>)
  next
    case (Some i)
    obtain t1 where t1: "start_tx_commit t = (?now, t1)" using start_tx_commit_version by (metis surj_pair)
    obtain p1 where p1: "publish_record p k ?now x (leaf_len p) = Some p1" "leaf_view p1 (rs @ [new_record ?now k x])" "leaf_cap p1 = leaf_cap p"
      using publish_record_ok [OF p(2)] p(3,5) by metis
    obtain p2 info where p2: "leaf_delete_after_update p1 k ?now = Some (p2, Inr (Some info))"
      and lw: "leaf_view (leaf_commit_delta p2 (-1) 1) (leaf_write ?now k (Some x) rs)" and "leaf_cap (leaf_commit_delta p2 (-1) 1) = leaf_cap p1"
      using leaf_replace [OF p1(2) Some] by blast
    then have cap: "leaf_cap (leaf_commit_delta p2 (-1) 1) = NUM_RECORDS (sizes t)" using p1(3) p(3) by simp
    obtain t2 t3 S where t3: "put_leaf t1 (guard_addr g) (leaf_commit_delta p2 (-1) 1) = Some t2"
      "finish g (Updated ?now :: ('k, 'p) crud_result) (end_tx_commit ?now t2) = Some (Updated ?now, t3)"
      "standing L (Suc n) {} t3 H r S (spec_write ?now k (Some x) Hs)" "current_version t3 = ?now + 1" "static t3 = static t"
      using tree_write [OF at en n w p(1,2) lw cap t1, where res = "Updated ?now :: ('k, 'p) crud_result"] by blast
    have "rfind (\<lambda>r. r_key r = k) rs = Some (rs ! i)" "live (rs ! i)"
      using live_index_SomeD [OF Some] by (simp_all add: rfind_eq_index)
    then have "update_at_leaf t g k x = Some (Updated ?now, t3)"
      using la ip t1 p1(1) p2 t3(1,2) by (simp add: update_at_leaf_def)
    then show ?thesis
      by (rule tree_outcomeI [where S = S]) (use t3 Some p(6) in \<open>auto simp: spec_update_def same_result_def\<close>)
  qed
qed

end
