(* ===== verification/Database.thy ===== *)
theory Database
  imports Tree_Write
begin

text \<open>
  The tree as a multiversion map, for one thread without garbage collection: from the tree that
  \<open>make\<close> builds on, every \<open>Insert\<close>, \<open>Update\<close> and \<open>Delete\<close> returns and does to the abstract history what
  its specification says, and every point read at every version returns what the history holds.
\<close>

section \<open>The database\<close>

text \<open>
  A tree that stands for a history, with no latch held. \<open>n\<close> bounds the releases of any latch so far,
  \<open>H\<close> is the height: an operation takes at most \<open>3 * H + 6\<close> releases and \<open>H + 3\<close> versions.
\<close>

definition db :: "('k::linorder, 'p) lib \<Rightarrow> nat \<Rightarrow> nat \<Rightarrow> ('k, 'p) mvbt \<Rightarrow> ('k, 'p) history \<Rightarrow> bool" where
  "db L n H t Hs \<longleftrightarrow> (\<exists>r S. standing L n {} t H r S Hs)"

definition capacity :: "nat \<Rightarrow> nat \<Rightarrow> ('k, 'p) mvbt \<Rightarrow> bool" where
  "capacity n H t \<longleftrightarrow> n + 3 * H + 6 < 2 ^ 62 \<and> unat (current_version t) + H + 3 < 2 ^ 63"

text \<open>The outcome of an operation of the tree, at a version \<open>w\<close> not before the current one.\<close>

definition refines ::
    "('k::linorder, 'p) lib \<Rightarrow> nat \<Rightarrow> nat \<Rightarrow> ('k, 'p) mvbt \<Rightarrow> (version \<Rightarrow> ('k, 'p) crud_result \<times> ('k, 'p) history)
       \<Rightarrow> (('k, 'p) crud_result \<times> ('k, 'p) mvbt) option \<Rightarrow> bool" where
  "refines L n H t spec out \<longleftrightarrow> (\<exists>w res t' H'. out = Some (res, t') \<and> current_version t \<le> w
     \<and> (if wrote res then w < current_version t' else w \<le> current_version t') \<and> same_result res (fst (spec w))
     \<and> db L (n + 3 * H + 6) H' t' (snd (spec w)) \<and> H' \<le> Suc H
     \<and> unat (current_version t') \<le> unat (current_version t) + H + 3 \<and> static t' = static t)"

lemma write_refines:
  assumes d: "db L n H t Hs" and c: "capacity n H t" and k: "contains (whole t) k"
    and leaf: "\<And>t g n r H. at_node L n t H r Hs k 0 g {guard_addr g} \<Longrightarrow> entered 0 t r (guard_addr g) \<Longrightarrow> Suc n < 2 ^ 62 \<Longrightarrow>
      current_version t < VERSION_LIMIT \<Longrightarrow> tree_outcome L (Suc n) t H r (spec (current_version t)) (f t g)"
  shows "refines L n H t spec (Option.bind (traversal_write_olc L t k) (\<lambda>(g, t). f t g))"
proof -
  obtain r S where st: "standing L n {} t H r S Hs" using d unfolding db_def by blast
  have b: "n + 3 * H + 5 < 2 ^ 62" "unat (current_version t) + H + 2 < 2 ^ 63" "Suc (n + 3 * H + 5) < 2 ^ 62"
    using c by (auto simp: capacity_def)
  obtain g t1 H' r' where t1: "traversal_write_olc L t k = Some (g, t1)" "H' \<le> Suc H"
    "at_node L (n + 3 * H + 5) t1 H' r' Hs k 0 g {guard_addr g}" "entered 0 t1 r' (guard_addr g)"
    "current_version t \<le> current_version t1" "unat (current_version t1) \<le> unat (current_version t) + H + 2" "static t1 = static t"
    by (rule traversal_ok [OF st b(1,2) k])
  have v: "unat (current_version t1) < 2 ^ 63" using t1(6) b(2) by simp
  obtain res t2 S' where t2: "f t1 g = Some (res, t2)" "same_result res (fst (spec (current_version t1)))"
    "standing L (Suc (n + 3 * H + 5)) {} t2 H' r' S' (snd (spec (current_version t1)))" "static t2 = static t1"
    "current_version t2 = current_version t1 \<and> \<not> wrote res \<or> current_version t2 = current_version t1 + 1"
    using leaf [OF t1(3,4) b(3) unat_version_step(1) [OF v]] unfolding tree_outcome_def by blast
  have "db L (n + 3 * H + 6) H' t2 (snd (spec (current_version t1)))"
    using t2(3) by (auto simp: db_def add.commute [of 6])
  moreover have "unat (current_version t2) \<le> unat (current_version t) + H + 3"
    using t2(5) unat_version_step(2) [OF v] t1(6) by auto
  moreover have "if wrote res then current_version t1 < current_version t2 else current_version t1 \<le> current_version t2"
    using t2(5) version_step [OF unat_version_step(1) [OF v]] by auto
  ultimately show ?thesis
    unfolding refines_def using t1 t2 by (intro exI [of _ "current_version t1"] exI [of _ res] exI [of _ t2] exI [of _ H']) simp
qed

lemma crud_insert_refines:
  assumes "db L n H t Hs" and "capacity n H t" and "contains (whole t) k"
  shows "refines L n H t (\<lambda>w. spec_insert w k x Hs) (crud_insert L k x t)"
  unfolding crud_insert_def by (rule write_refines [OF assms]) (rule insert_ok)

lemma crud_update_refines:
  assumes "db L n H t Hs" and "capacity n H t" and "contains (whole t) k"
  shows "refines L n H t (\<lambda>w. spec_update w k x Hs) (crud_update L k x t)"
  unfolding crud_update_def by (rule write_refines [OF assms]) (rule update_ok)

lemma crud_delete_refines:
  assumes "db L n H t Hs" and "capacity n H t" and "contains (whole t) k"
  shows "refines L n H t (\<lambda>w. spec_delete w k Hs) (crud_delete L k t)"
  unfolding crud_delete_def by (rule write_refines [OF assms]) (rule delete_ok)

lemma standing_point:
  assumes st: "standing L n W t H r S Hs" and v: "START_VERSION \<le> v" and k: "contains (whole t) k"
  shows "crud_point L k v t = Some (MatchedRecords (point_result k (Hs v k)), t)"
proof -
  obtain b where b: "retrieve_root_for L t v = Some b" "key_point_read_from_root t b k v = Some (point_result k (Hs v k))"
    using standing_read [OF st v k] by blast
  have "db_tracker t = None" using quietD(2) [OF standingD(1) [OF st]] .
  then have "on_acquire_reader_snapshot L v t = t" "on_release_reader_snapshot L v t = t"
    by (simp_all add: on_acquire_reader_snapshot_def on_release_reader_snapshot_def)
  then show ?thesis using b by (simp add: crud_point_def)
qed

lemma crud_point_reads:
  "db L n H t Hs \<Longrightarrow> START_VERSION \<le> v \<Longrightarrow> contains (whole t) k \<Longrightarrow>
    crud_point L k v t = Some (MatchedRecords (point_result k (Hs v k)), t)"
  unfolding db_def using standing_point by blast

section \<open>A new tree\<close>

text \<open>What the index over the roots needs of the library, by variant.\<close>

definition root_laws :: "('k, 'p) lib \<Rightarrow> root_index_type \<Rightarrow> bool" where
  "root_laws L variant \<longleftrightarrow> (variant = TFrugalList \<longrightarrow> (\<forall>pos. fair (coin (l_root L)) pos)) \<and> (variant = TBTree \<longrightarrow> btree_laws (l_root L))"

lemma root_index_new_ok:
  assumes "lib_laws L" and "root_laws L variant"
  shows "ri_ok (l_root L) (root_index_new (l_root L) v variant b)"
    and "\<exists>h. roots_of (root_index_new (l_root L) v variant b) = [root_new b v h]"
proof -
  have sk: "skip_laws (sk_lib (l_root L))" using assms(1) by (simp add: lib_laws_def)
  have si: "sl_insert (sk_lib (l_root L)) v x [] = [(v, x)]" for x :: value_root
  proof (rule ascending_set_eq)
    show "ascending (sl_insert (sk_lib (l_root L)) v x [])" using skip_lawsD(1) [OF sk, of "[]"] by simp
    show "set (sl_insert (sk_lib (l_root L)) v x []) = set [(v, x)]" using skip_lawsD(2) [OF sk, of "[]"] by simp
  qed simp
  have bi: "fst (bt_insert (l_root L) v x []) = [(v, x)]" if bl: "btree_laws (l_root L)" for x :: value_root
  proof (rule ascending_set_eq)
    have "ascending (fst (bt_insert (l_root L) v x [])) \<and> set (fst (bt_insert (l_root L) v x [])) = insert (v, x) (set [])"
      using bl [unfolded btree_laws_def, THEN conjunct1, rule_format, of "[]" v x] by simp
    then show "ascending (fst (bt_insert (l_root L) v x []))" "set (fst (bt_insert (l_root L) v x [])) = set [(v, x)]" by simp_all
  qed simp
  have "ri_ok (l_root L) (root_index_new (l_root L) v variant b)
    \<and> (\<exists>h. roots_of (root_index_new (l_root L) v variant b) = [root_new b v h])"
  proof (cases variant)
    case TFrugalList
    then show ?thesis
      using assms(2) by (simp add: root_laws_def frugal_new_def frugal_root_of_def value_root_initial_def)
  next
    case TSkipList
    then show ?thesis using sk by (simp add: si root_of_entry_def value_root_initial_def)
  next
    case TBTree
    then have "btree_laws (l_root L)" using assms(2) by (simp add: root_laws_def)
    then show ?thesis using TBTree by (simp add: rt_append_root_def bi root_of_entry_def value_root_initial_def)
  qed simp
  then show "ri_ok (l_root L) (root_index_new (l_root L) v variant b)"
    "\<exists>h. roots_of (root_index_new (l_root L) v variant b) = [root_new b v h]" by blast+
qed

lemma mvbt_make_simps:
  fixes L C variant inc dec mn mx m th
  defines "t \<equiv> mvbt_make L C variant inc dec mn mx m th"
  shows "sizes t = C" "dec_key t = dec" "whole t = interval_new mn mx" "db_tracker t = None" "root_latch t = 0"
    "current_version t = START_VERSION" "heap t = [0 \<mapsto> opt_cell_new (NLeaf (leaf_new (NUM_RECORDS C)))]" "next_addr t = 1"
    "root t = root_index_new (l_root L) START_VERSION variant 0" "inc_key t = inc" "max_key t = mx"
  by (simp_all add: t_def mvbt_make_def fresh_block_def current_version_def clock_current_version_def new_leaf_def Let_def
      whole_def CELL_START_VERSION_def)

lemma mvbt_make_db:
  assumes L: "lib_laws L" "root_laws L variant" and dec: "pred_law dec" and C: "roomy C" "sizes_ok C"
  shows "db L 0 0 (mvbt_make L C variant inc dec mn mx m th) (\<lambda>v. Map.empty)"
proof -
  define t where "t = mvbt_make L C variant inc dec mn mx m th"
  note t = mvbt_make_simps [of L C variant inc dec mn mx m th, folded t_def]
  let ?p = "leaf_new (NUM_RECORDS C)"
  have at: "node_at t a = (if a = 0 then Some (NLeaf ?p) else None)" for a
    by (simp add: node_at_def unsafe_borrow_def t(7) opt_cell_new_def)
  have p: "leaf_view ?p []" "leaf_cap ?p = NUM_RECORDS C"
    using leaf_view_new [of "NUM_RECORDS C"] C(2) by (simp_all add: leaf_new_def sizes_ok_def)
  have "heap_ok L t"
    using at p C(2) L(1) t by (auto simp: heap_ok_def graves_ok_def dead_addrs_def lib_laws_def split: if_splits)
  moreover have "latched 0 {} t" using t(7) by (auto simp: latched_def opt_cell_new_def CELL_START_VERSION_def split: if_splits)
  ultimately have q: "quiet L 0 {} t" using t(4) by (simp add: quiet_def)
  have li: "leaf_in t 0 []" using at p t(1) by (auto simp: leaf_in_def leaf_at_node)
  have cnt: "acount t 0 + dcount t 0 = 0" using leaf_in_counts [OF li] by (metis list.size(3))
  obtain h where roots: "roots_of (root t) = [root_new 0 START_VERSION h]" using root_index_new_ok(2) [OF L] t(9) by metis
  have "rooted L t 0" using root_index_new_ok(1) [OF L] roots t(6,9) by (simp add: rooted_def)
  moreover have "rep 0 (current_version t) t 0 (whole t) {0} Map.empty"
    using li by (auto simp: leaf_now_def)
  moreover have "past L t (\<lambda>v. Map.empty)" by (auto simp: past_def t(6))
  moreover have "setting L t" using L(1) dec C(1) t by (simp add: setting_def)
  ultimately have "standing L 0 {} t 0 0 {0} (\<lambda>v. Map.empty)"
    using q cnt t(5) by (simp add: standing_def aged_def)
  then show ?thesis unfolding db_def t_def by blast
qed

lemma dec_key_u64_pred: "pred_law dec_key_u64"
  unfolding pred_law_def
proof (intro allI impI)
  fix y k x :: u64 assume "y < k"
  then have "k \<noteq> 0" by auto
  then have "unat (k - 1) = unat k - 1" "0 < unat k" by (auto simp: unat_minus_one unat_gt_0)
  then show "x \<le> dec_key_u64 k \<longleftrightarrow> x < k" using \<open>k \<noteq> 0\<close> by (auto simp: dec_key_u64_def word_le_nat_alt word_less_nat_alt)
qed

lemma make_standard_db:
  assumes "lib_laws L" and "root_laws L variant" and "roomy C" and "sizes_ok C"
  shows "db L 0 0 (make_standard L C variant m th) (\<lambda>v. Map.empty)" and "contains (whole (make_standard L C variant m th)) k"
    and "current_version (make_standard L C variant m th) = START_VERSION"
  unfolding make_standard_def
  using mvbt_make_db [OF assms(1,2) dec_key_u64_pred assms(3,4)] max_version [of k] by (simp_all add: mvbt_make_simps contains_def)

section \<open>Properties\<close>

text \<open>
  C2: the invariant of the tree, for keys of any ordered type: a tree that stands for a history has,
  after an insert, an update or a delete of a key of its range, returned the result of the abstract
  operation at a version of its own and stands for the new history; its height grows by one at most
  and the clock by the height and three.
\<close>

theorem writes_preserve_invariant:
  assumes "db L n H t Hs" and "capacity n H t" and "contains (whole t) k"
  shows "refines L n H t (\<lambda>w. spec_insert w k x Hs) (crud_insert L k x t)
    \<and> refines L n H t (\<lambda>w. spec_update w k x Hs) (crud_update L k x t)
    \<and> refines L n H t (\<lambda>w. spec_delete w k Hs) (crud_delete L k t)"
  using crud_insert_refines [OF assms] crud_update_refines [OF assms] crud_delete_refines [OF assms] by blast

theorem writes_preserve_invariant_witness:
  "refines ref_tree_lib 0 0 (ref_tree 8 8) (\<lambda>w. spec_insert w 5 50 (\<lambda>v. Map.empty)) (crud_insert ref_tree_lib 5 50 (ref_tree 8 8))"
proof -
  have "root_laws ref_tree_lib TFrugalList" using ref_root_lib_ok(1) by (simp add: root_laws_def ref_tree_lib_def)
  note made = make_standard_db [OF ref_tree_lib_laws this, of "\<lparr>FAN_OUT = 8, NUM_RECORDS = 8\<rparr>" clock_new "\<lparr>t_id = 0, reads_in_row = 0\<rparr>",
      folded ref_tree_def]
  have "roomy \<lparr>FAN_OUT = 8, NUM_RECORDS = 8\<rparr>" "sizes_ok \<lparr>FAN_OUT = 8, NUM_RECORDS = 8\<rparr>" by (simp_all add: roomy_def sizes_ok_def)
  then have d: "db ref_tree_lib 0 0 (ref_tree 8 8) (\<lambda>v. Map.empty)" "contains (whole (ref_tree 8 8)) 5" using made by blast+
  have "capacity 0 0 (ref_tree 8 8)" by (simp add: capacity_def)
  from writes_preserve_invariant [OF d(1) this d(2), of 50] show ?thesis by simp
qed

end
