(* ===== verification/Range_Correct.thy ===== *)
theory Range_Correct
  imports Database
begin

text \<open>
  Range reads: the iterator of \<^verbatim>\<open>mv_query/iter_query.rs\<close>, collected to its end as the dispatch of
  \<open>Range\<close> does, returns every record of the version in the range once. It walks over what the version
  sees (\<open>view\<close>): behind every leaf it continues at the successor of the leaf's upper bound, from the
  lowest page on its path that has that key.
\<close>

section \<open>Steps of the iterator\<close>

text \<open>An iterator that has buffered nothing, at a lower bound and a path.\<close>

definition scanning :: "version \<Rightarrow> 'k interval \<Rightarrow> 'k \<Rightarrow> ('k interval \<times> addr) list \<Rightarrow> ('k, 'p) range_query_iter" where
  "scanning v rng x ps = \<lparr>it_snapshot = v, it_range = rng\<lparr>lower := x\<rparr>, path = ps, buff = [], is_completed = False\<rparr>"

lemma scanning_simps [simp]:
  "it_snapshot (scanning v rng x ps) = v" "it_range (scanning v rng x ps) = rng\<lparr>lower := x\<rparr>"
  "path (scanning v rng x ps) = ps" "buff (scanning v rng x ps) = []" "is_completed (scanning v rng x ps) = False"
  "(scanning v rng x ps)\<lparr>buff := []\<rparr> = scanning v rng x ps"
  by (simp_all add: scanning_def)

lemma collect_continue:
  assumes "iter_step L t it = Some (Inl it')" and "buff it = []" and "\<not> is_completed it" and "buff it' = []" and "\<not> is_completed it'"
  shows "iter_collect L it t acc = iter_collect L it' t acc"
proof -
  have "iter_next L it t = iter_next L it' t"
    using assms by (simp add: iter_next_def iter_loop.simps [of L t it])
  then show ?thesis by (simp add: iter_collect.simps [of L it] iter_collect.simps [of L it'])
qed

lemma collect_buffer:
  "iter_collect L (it\<lparr>buff := bs\<rparr>) t acc = iter_collect L (it\<lparr>buff := []\<rparr>) t (acc @ bs)"
proof (induction bs arbitrary: acc)
  case (Cons b bs)
  have "iter_collect L (it\<lparr>buff := b # bs\<rparr>) t acc = iter_collect L (it\<lparr>buff := bs\<rparr>) t (acc @ [b])"
    by (simp add: iter_collect.simps [of L "it\<lparr>buff := b # bs\<rparr>"] iter_next_def)
  then show ?case using Cons.IH by simp
qed simp

text \<open>Without a tracker, a finished iterator leaves the tree as it is.\<close>

lemma release_no_tracker: "db_tracker t = None \<Longrightarrow> on_release_reader_snapshot L v t = t"
  by (simp add: on_release_reader_snapshot_def)

lemma collect_end:
  assumes "db_tracker t = None" and "ps = [] \<or> upper rng < x"
  shows "iter_collect L (scanning v rng x ps) t acc = Some (acc, t)"
proof -
  have "iter_step L t (scanning v rng x ps) = Some (Inr (None, (scanning v rng x ps)\<lparr>is_completed := True\<rparr>, t))"
    using assms by (auto simp: iter_step_def release_no_tracker split: list.split)
  then show ?thesis
    by (simp add: iter_collect.simps [of L "scanning v rng x ps"] iter_next_def iter_loop.simps [of L t "scanning v rng x ps"] iter_drop_def)
qed

lemma collect_down:
  assumes "node_at t a = Some n" and "node_answer n x v = Some (Inr (Some (f, c)))" and "x \<le> upper rng"
  shows "iter_collect L (scanning v rng x ((F, a) # ps)) t acc = iter_collect L (scanning v rng x ((f, c) # (F, a) # ps)) t acc"
proof (rule collect_continue)
  obtain p where p: "n = NInternal p" "read_entry p x v = Some (Some (f, c))" using assms(2) by (cases n) auto
  then obtain ks vs pos where "keys_versions p = Some (ks, vs)" "read_index ks vs x v = Some pos" "get_pointer p pos = Some c" "ks ! pos = f"
    by (auto simp: read_entry_def bind_eq_Some_conv split: option.splits)
  then show "iter_step L t (scanning v rng x ((F, a) # ps)) = Some (Inl (scanning v rng x ((f, c) # (F, a) # ps)))"
    using assms(1,3) p(1) by (simp add: iter_step_def scanning_def)
qed simp_all

lemma collect_up:
  assumes "node_at t a = Some n" and "node_answer n x v = Some (Inr None)" and "x \<le> upper rng"
  shows "iter_collect L (scanning v rng x ((F, a) # ps)) t acc = iter_collect L (scanning v rng (inc_key t (upper F)) ps) t acc"
proof (rule collect_continue)
  obtain p where p: "n = NInternal p" "read_entry p x v = Some None" using assms(2) by (cases n) auto
  then obtain ks vs where "keys_versions p = Some (ks, vs)" "read_index ks vs x v = None"
    by (auto simp: read_entry_def bind_eq_Some_conv split: option.splits)
  then show "iter_step L t (scanning v rng x ((F, a) # ps)) = Some (Inl (scanning v rng (inc_key t (upper F)) ps))"
    using assms(1,3) p(1) by (simp add: iter_step_def scanning_def)
qed simp_all

text \<open>
  A leaf. The iterator also stops when the successor is the largest key; that is no loss for a range
  that ends below it.
\<close>

definition in_range :: "'k::linorder interval \<Rightarrow> 'k \<Rightarrow> ('k, 'p) record_point_result list \<Rightarrow> ('k, 'p) record_point_result list" where
  "in_range rng x xs = filter (\<lambda>r. x \<le> res_key r \<and> res_key r \<le> upper rng) xs"

lemma leaf_matches_records: "leaf_matches rs (rng\<lparr>lower := x\<rparr>) v = in_range rng x (leaf_records rs v)"
  by (simp add: leaf_matches_def in_range_def leaf_records_def filter_map comp_def record_point_result_from_def contains_def
      conj_ac filter_filter)

lemma collect_leaf:
  assumes "node_at t a = Some n" and "node_answer n x v = Some (Inl xs)" and "x \<le> upper rng"
    and "db_tracker t = None" and "upper rng < max_key t \<or> in_range rng x xs \<noteq> []"
  shows "iter_collect L (scanning v rng x ((F, a) # ps)) t acc
    = iter_collect L (scanning v rng (inc_key t (upper F)) ps) t (acc @ in_range rng x xs)"
proof -
  let ?it = "scanning v rng x ((F, a) # ps)" and ?it' = "scanning v rng (inc_key t (upper F)) ps"
  let ?bs = "in_range rng x xs"
  obtain p rs where p: "n = NLeaf p" "as_records p = Some rs" "xs = leaf_records rs v" using assms(2) by (cases n) auto
  have step: "iter_step L t ?it = (if ?bs \<noteq> [] \<or> inc_key t (upper F) = max_key t
      then Some (Inr (let (r, i) = pop_front (?it'\<lparr>buff := ?bs\<rparr>) in (r, i, t))) else Some (Inl ?it'))"
    using assms(1,3) p by (auto simp: iter_step_def leaf_matches_records scanning_def Let_def)
  show ?thesis
  proof (cases ?bs)
    case Nil
    show ?thesis
    proof (cases "inc_key t (upper F) = max_key t")
      case True
      then have "iter_next L ?it t = Some (None, ?it', t)"
        using step Nil by (simp add: iter_next_def iter_loop.simps [of L t ?it])
      then have "iter_collect L ?it t acc = Some (acc, t)"
        using assms(4) by (simp add: iter_collect.simps [of L ?it] iter_drop_def release_no_tracker)
      then show ?thesis using collect_end [OF assms(4)] True assms(5) Nil by simp
    next
      case False
      then have "iter_step L t ?it = Some (Inl ?it')" using step Nil by simp
      then show ?thesis using collect_continue [of L t ?it ?it'] Nil by simp
    qed
  next
    case (Cons b bs)
    then have "iter_next L ?it t = Some (Some b, ?it'\<lparr>buff := bs\<rparr>, t)"
      using step by (simp add: iter_next_def iter_loop.simps [of L t ?it])
    then have "iter_collect L ?it t acc = iter_collect L (?it'\<lparr>buff := bs\<rparr>) t (acc @ [b])"
      by (simp add: iter_collect.simps [of L ?it])
    then show ?thesis using collect_buffer [where it = "?it'" and bs = bs] Cons by simp
  qed
qed

section \<open>The walk\<close>

lemma found_empty: "(\<And>k. K k \<Longrightarrow> M k = None) \<Longrightarrow> found [] K M"
  by (auto simp: found_def)

lemma found_key:
  assumes "found xs K M" and "r \<in> set xs"
  shows "K (res_key r)"
proof -
  have "r = \<lparr>res_key = res_key r, res_payload = res_payload r\<rparr>" by simp
  then show ?thesis using assms unfolding found_def by metis
qed

lemma found_append:
  assumes "found xs K1 M" and "found ys K2 M" and "\<And>k. \<not> (K1 k \<and> K2 k)" and "\<And>k. K k \<longleftrightarrow> K1 k \<or> K2 k"
  shows "found (xs @ ys) K M"
proof -
  have "res_key ` set xs \<inter> res_key ` set ys = {}"
    using found_key [OF assms(1)] found_key [OF assms(2)] assms(3) by fastforce
  moreover have "distinct (map res_key xs)" "distinct (map res_key ys)" using assms(1,2) by (simp_all add: found_def)
  moreover have "\<lparr>res_key = k, res_payload = x\<rparr> \<in> set (xs @ ys) \<longleftrightarrow> K k \<and> M k = Some x" for k x
    using assms(1,2,4) by (auto simp: found_def)
  ultimately show ?thesis by (simp add: found_def)
qed

lemma found_cong: "found xs K M \<Longrightarrow> (\<And>k. K' k \<longleftrightarrow> K k) \<Longrightarrow> found xs K' M"
  by (simp add: found_def)

lemma found_in_range:
  assumes "found xs (contains F) M" and "contains F x"
  shows "found (in_range rng x xs) (\<lambda>k. x \<le> k \<and> k \<le> upper F \<and> k \<le> upper rng) M"
proof -
  have "distinct (map res_key (in_range rng x xs))" using assms(1) by (simp add: found_def in_range_def distinct_map_filter)
  then show ?thesis using assms by (auto simp: found_def in_range_def contains_def)
qed

text \<open>
  Visiting a block with a lower bound among its keys: the records from the bound on are collected,
  and the iterator is behind the block.
\<close>

definition visited :: "('k::linorder, 'p) lib \<Rightarrow> ('k, 'p) mvbt \<Rightarrow> version \<Rightarrow> 'k interval \<Rightarrow> 'k \<Rightarrow> ('k interval \<times> addr) \<Rightarrow> ('k \<rightharpoonup> 'p) \<Rightarrow> bool" where
  "visited L t v rng x e M \<longleftrightarrow> (\<exists>bs. found bs (\<lambda>k. x \<le> k \<and> k \<le> upper (fst e) \<and> k \<le> upper rng) M
     \<and> (\<forall>ps acc. iter_collect L (scanning v rng x (e # ps)) t acc
          = iter_collect L (scanning v rng (inc_key t (upper (fst e))) ps) t (acc @ bs)))"

lemma visit_children:
  assumes sc: "succ_law (inc_key t) (max_key t)" and tr: "db_tracker t = None" and hi: "upper rng < max_key t"
    and n: "node_at t a = Some n" and fin: "finite kids"
    and into: "\<And>k. contains F k \<Longrightarrow> \<exists>e \<in> kids. contains (fst e) k \<and> node_answer n k v = Some (Inr (Some e))"
    and out: "\<And>k. \<not> contains F k \<Longrightarrow> node_answer n k v = Some (Inr None)"
    and kids: "\<And>e. e \<in> kids \<Longrightarrow> upper (fst e) \<le> upper F"
    and IH: "\<And>e y. e \<in> kids \<Longrightarrow> contains (fst e) y \<Longrightarrow> y \<le> upper rng \<Longrightarrow> visited L t v rng y e M"
    and x: "contains F x" "x \<le> upper rng"
  shows "visited L t v rng x (F, a) M"
  using x
proof (induction "card {e \<in> kids. x \<le> upper (fst e)}" arbitrary: x rule: less_induct)
  case less
  obtain f c where e: "(f, c) \<in> kids" "contains f x" "node_answer n x v = Some (Inr (Some (f, c)))"
    using into [OF less.prems(1)] by force
  obtain bs where bs: "found bs (\<lambda>k. x \<le> k \<and> k \<le> upper f \<and> k \<le> upper rng) M"
    "\<And>ps acc. iter_collect L (scanning v rng x ((f, c) # ps)) t acc = iter_collect L (scanning v rng (inc_key t (upper f)) ps) t (acc @ bs)"
    using IH [OF e(1), of x] e(2) less.prems(2) unfolding visited_def fst_conv by blast
  let ?y = "inc_key t (upper f)"
  have down: "iter_collect L (scanning v rng x ((F, a) # ps)) t acc
      = iter_collect L (scanning v rng ?y ((F, a) # ps)) t (acc @ bs)" for ps acc
    using collect_down [OF n e(3) less.prems(2)] bs(2) by simp
  have f: "x \<le> upper f" "upper f \<le> upper F" using e(2) kids [OF e(1)] by (simp_all add: contains_def)
  show ?case
  proof (cases "upper f < upper rng")
    case False
    have ends: "upper rng < ?y" "upper rng < inc_key t (upper F)"
      using succ_law_below [OF sc hi] False f(2) by (meson not_le order.strict_trans2)+
    have "found bs (\<lambda>k. x \<le> k \<and> k \<le> upper F \<and> k \<le> upper rng) M"
      by (rule found_cong [OF bs(1)]) (use False f(2) in auto)
    moreover have "iter_collect L (scanning v rng x ((F, a) # ps)) t acc
        = iter_collect L (scanning v rng (inc_key t (upper F)) ps) t (acc @ bs)" for ps acc
      using down collect_end [OF tr] ends by simp
    ultimately show ?thesis unfolding visited_def by auto
  next
    case True
    then have y: "?y \<le> j \<longleftrightarrow> upper f < j" for j using succ_law_from [OF sc, of "upper f" j] hi by simp
    show ?thesis
    proof (cases "contains F ?y")
      case in_F: True
      have lt: "upper f < ?y" using y [of ?y] by simp
      have "(f, c) \<in> {e \<in> kids. x \<le> upper (fst e)} - {e \<in> kids. ?y \<le> upper (fst e)}" using e(1) f(1) lt by auto
      moreover have "{e \<in> kids. ?y \<le> upper (fst e)} \<subseteq> {e \<in> kids. x \<le> upper (fst e)}" using f(1) lt by auto
      ultimately have "{e \<in> kids. ?y \<le> upper (fst e)} \<subset> {e \<in> kids. x \<le> upper (fst e)}" by blast
      then have "card {e \<in> kids. ?y \<le> upper (fst e)} < card {e \<in> kids. x \<le> upper (fst e)}"
        using fin by (intro psubset_card_mono) auto
      then have "visited L t v rng ?y (F, a) M" using less.hyps in_F y True by blast
      then obtain cs where cs: "found cs (\<lambda>k. ?y \<le> k \<and> k \<le> upper F \<and> k \<le> upper rng) M"
        "\<And>ps acc. iter_collect L (scanning v rng ?y ((F, a) # ps)) t acc = iter_collect L (scanning v rng (inc_key t (upper F)) ps) t (acc @ cs)"
        unfolding visited_def fst_conv by blast
      have "found (bs @ cs) (\<lambda>k. x \<le> k \<and> k \<le> upper F \<and> k \<le> upper rng) M"
      proof (rule found_append [OF bs(1) cs(1)])
        fix k
        show "\<not> ((x \<le> k \<and> k \<le> upper f \<and> k \<le> upper rng) \<and> ?y \<le> k \<and> k \<le> upper F \<and> k \<le> upper rng)" using y [of k] by auto
        show "(x \<le> k \<and> k \<le> upper F \<and> k \<le> upper rng)
          \<longleftrightarrow> (x \<le> k \<and> k \<le> upper f \<and> k \<le> upper rng) \<or> ?y \<le> k \<and> k \<le> upper F \<and> k \<le> upper rng"
          unfolding y using f by auto
      qed
      then show ?thesis unfolding visited_def fst_conv using down cs(2) by (intro exI [of _ "bs @ cs"]) simp
    next
      case out_F: False
      have "lower F \<le> ?y" using less.prems(1) f(1) y [of ?y] by (auto simp: contains_def)
      then have eq: "upper F = upper f" using out_F y [of "upper F"] f(2) by (auto simp: contains_def)
      have "?y \<le> upper rng" using y True by simp
      then have "iter_collect L (scanning v rng x ((F, a) # ps)) t acc
          = iter_collect L (scanning v rng (inc_key t (upper F)) ps) t (acc @ bs)" for ps acc
        using down collect_up [OF n out [OF out_F]] by simp
      then show ?thesis using bs(1) unfolding visited_def fst_conv eq by blast
    qed
  qed
qed

lemma visit:
  assumes sc: "succ_law (inc_key t) (max_key t)" and tr: "db_tracker t = None" and hi: "upper rng < max_key t"
  shows "view h t v a F M \<Longrightarrow> contains F x \<Longrightarrow> x \<le> upper rng \<Longrightarrow> visited L t v rng x (F, a) M"
proof (induction h arbitrary: a F x)
  case 0
  then obtain n xs where n: "node_at t a = Some n" "node_answer n x v = Some (Inl xs)" "found xs (contains F) M" by auto
  show ?case
    unfolding visited_def fst_conv using collect_leaf [OF n(1,2) 0(3) tr disjI1 [OF hi]] found_in_range [OF n(3) 0(2)] by blast
next
  case (Suc h)
  then obtain n kids where n: "node_at t a = Some n" and k: "finite kids"
    "\<forall>k. contains F k \<longrightarrow> (\<exists>e \<in> kids. contains (fst e) k \<and> node_answer n k v = Some (Inr (Some e)))"
    "\<forall>k. \<not> contains F k \<longrightarrow> node_answer n k v = Some (Inr None)"
    "\<forall>e \<in> kids. upper (fst e) \<le> upper F \<and> view h t v (snd e) (fst e) M" by auto
  show ?case
    by (rule visit_children [OF sc tr hi n k(1) _ _ _ _ Suc.prems(2,3)]) (use k(2-4) Suc.IH in auto)
qed

section \<open>Range reads of the tree\<close>

text \<open>Reading the clock moves the thread's bookkeeping and nothing else.\<close>

lemma view_cong: "node_at t' = node_at t \<Longrightarrow> view h t' v a F M = view h t v a F M"
  by (induction h arbitrary: a F) simp_all

lemma reader_clock:
  assumes "quiet L n W t"
  shows "quiet L n W (snd (tree_version_for_reader t))" and "outer (snd (tree_version_for_reader t)) = outer t"
    and "node_at (snd (tree_version_for_reader t)) = node_at t"
proof -
  obtain m th u where u: "current_version_for_reader (clk t) (thr t) = (m, th, u)" by (rule prod_cases3)
  then have t': "snd (tree_version_for_reader t) = t\<lparr>clk := m, thr := th\<rparr>" by (simp add: tree_version_for_reader_def)
  have "global_clock m = global_clock (clk t)"
    using u by (auto simp: current_version_for_reader_def committed_read_def note_read_def set_inactive_commit_def
        thread_local_commit_inactive_def thread_local_commit_def committed_snapshot_def Let_def split: if_splits prod.splits)
  then show "outer (snd (tree_version_for_reader t)) = outer t"
    by (simp add: t' outer_def current_version_def clock_current_version_def)
  show "quiet L n W (snd (tree_version_for_reader t))"
    by (rule quiet_cong [OF assms]) (simp_all add: t' static_def)
  show "node_at (snd (tree_version_for_reader t)) = node_at t" by (rule node_at_cong) (simp add: t')
qed

lemma iter_new_scanning:
  assumes "db_tracker t = None" and "retrieve_root_for L t v = Some b"
  shows "iter_new L v rng t = Some (scanning v rng (lower rng) [(whole t, b)], snd (tree_version_for_reader t))"
proof -
  have "on_acquire_reader_snapshot L v t = t" using assms(1) by (simp add: on_acquire_reader_snapshot_def)
  moreover have "retrieve_root_for L (snd (tree_version_for_reader t)) v = Some b"
    using assms(2) by (simp add: retrieve_root_for_def tree_version_for_reader_def split_beta)
  ultimately show ?thesis
    by (simp add: iter_new_def scanning_def whole_def split_beta Let_def) (simp add: tree_version_for_reader_def split_beta)
qed

lemma collect_view:
  assumes sc: "succ_law (inc_key t) (max_key t)" and tr: "db_tracker t = None" and hi: "upper rng < max_key t"
    and b: "view h t v b (whole t) M" and lo: "contains (whole t) (lower rng)"
  shows "\<exists>xs. iter_collect L (scanning v rng (lower rng) [(whole t, b)]) t [] = Some (xs, t) \<and> found xs (contains rng) M"
proof (cases "lower rng \<le> upper rng")
  case True
  obtain bs where bs: "found bs (\<lambda>k. lower rng \<le> k \<and> k \<le> upper (whole t) \<and> k \<le> upper rng) M"
    "\<And>ps acc. iter_collect L (scanning v rng (lower rng) ((whole t, b) # ps)) t acc
        = iter_collect L (scanning v rng (inc_key t (upper (whole t))) ps) t (acc @ bs)"
    using visit [OF sc tr hi b lo True] unfolding visited_def fst_conv by blast
  have "found bs (contains rng) M"
    by (rule found_cong [OF bs(1)]) (use hi in \<open>auto simp: contains_def whole_def\<close>)
  then show ?thesis using bs(2) [of "[]" "[]"] collect_end [OF tr, of "[]"] by simp
next
  case False
  then have "found [] (contains rng) M" by (intro found_empty) (auto simp: contains_def)
  then show ?thesis using collect_end [OF tr, of "[(whole t, b)]" rng "lower rng"] False by auto
qed

lemma crud_range_reads:
  assumes d: "db L n H t Hs" and sc: "succ_law (inc_key t) (max_key t)" and hi: "upper rng < max_key t"
    and lo: "contains (whole t) (lower rng)" and v: "START_VERSION \<le> v"
  shows "\<exists>xs t'. crud_range L rng v t = Some (MatchedRecords xs, t') \<and> found xs (contains rng) (Hs v) \<and> db L n H t' Hs
    \<and> static t' = static t \<and> current_version t' = current_version t"
proof -
  obtain r S where st: "standing L n {} t H r S Hs" using d unfolding db_def by blast
  define t' where "t' = snd (tree_version_for_reader t)"
  note q = standingD(1) [OF st]
  note c = reader_clock [OF q, folded t'_def] and o = outer_eqD [OF reader_clock(2) [OF q, folded t'_def]]
  have st': "standing L n {} t' H r S Hs" by (rule standing_cong [OF st c(1,3,2) order_refl])
  obtain b h where b: "retrieve_root_for L t' v = Some b" "view h t' v b (whole t') (Hs v)" by (rule standing_view [OF st' v])
  have b': "retrieve_root_for L t v = Some b" using b(1) o by (simp add: retrieve_root_for_def)
  have wh: "whole t' = whole t" using o by (simp add: whole_def)
  obtain xs where xs: "iter_collect L (scanning v rng (lower rng) [(whole t', b)]) t' [] = Some (xs, t')" "found xs (contains rng) (Hs v)"
    using collect_view [OF _ quietD(2) [OF c(1)] _ b(2), of rng L] sc hi lo wh o by auto
  have "crud_range L rng v t = Some (MatchedRecords xs, t')"
    using xs(1) iter_new_scanning [OF quietD(2) [OF q] b', of rng] wh by (simp add: crud_range_def RANGE_DISPATCH_LAZY_def t'_def)
  then show ?thesis using xs(2) st' o(10) outer_static [OF c(2)] unfolding db_def by blast
qed

lemma inc_key_u64_succ: "succ_law inc_key_u64 U64_MAX"
  unfolding succ_law_def
proof (intro conjI allI impI)
  fix k j :: u64 assume "k < U64_MAX"
  then have "unat (k + 1) = unat k + 1" "k \<noteq> U64_MAX"
    by (auto simp: word_less_nat_alt unat_word_ariths)
  then show "inc_key_u64 k \<le> j \<longleftrightarrow> k < j" by (auto simp: inc_key_u64_def word_le_nat_alt word_less_nat_alt)
next
  fix k :: u64 assume "U64_MAX \<le> k"
  then have "k = U64_MAX" using max_version [of k] by simp
  then show "U64_MAX \<le> inc_key_u64 k" by (simp add: inc_key_u64_def)
qed

section \<open>The largest key\<close>

text \<open>
  The successor of the largest key is that key again: behind the last leaf the iterator finds the
  same leaf, from the page above it. A range that starts at the largest key and finds a record there
  is never read to its end.
\<close>

lemma collect_extends: "iter_collect L it t acc = Some (xs, t') \<Longrightarrow> length acc \<le> length xs"
proof -
  have "length acc \<le> length (fst r)" if "iter_collect L it t acc = Some r" for r
  proof (rule iter_collect.raw_induct [where P = "\<lambda>L it t acc r. length acc \<le> length (fst r)", OF _ that])
    fix f :: "('a, 'b) lib \<Rightarrow> ('a, 'b) range_query_iter \<Rightarrow> ('a, 'b) mvbt \<Rightarrow> ('a, 'b) record_point_result list
       \<Rightarrow> (('a, 'b) record_point_result list \<times> ('a, 'b) mvbt) option" and L it t acc and r
    assume IH: "\<And>L it t acc r. f L it t acc = Some r \<Longrightarrow> length acc \<le> length (fst r)"
      and r: "Option.bind (iter_next L it t) (\<lambda>(r, it', t'). case r of None \<Rightarrow> Some (acc, iter_drop L it' t')
        | Some x \<Rightarrow> f L it' t' (acc @ [x])) = Some r"
    show "length acc \<le> length (fst r)"
      using r IH [of L _ _ "acc @ [_]" r] by (auto simp: bind_eq_Some_conv split: option.splits dest!: IH)
  qed
  then show "iter_collect L it t acc = Some (xs, t') \<Longrightarrow> length acc \<le> length xs" by force
qed

lemma collect_forever:
  assumes "\<And>acc. iter_collect L it t acc = iter_collect L it t (acc @ bs)" and "bs \<noteq> []"
  shows "iter_collect L it t acc = None"
proof (rule ccontr)
  assume "iter_collect L it t acc \<noteq> None"
  then obtain xs t' where xs: "iter_collect L it t acc = Some (xs, t')" by auto
  have "\<exists>ys. n \<le> length ys \<and> iter_collect L it t ys = Some (xs, t')" for n
  proof (induction n)
    case 0
    show ?case using xs by auto
  next
    case (Suc n)
    then obtain ys where "n \<le> length ys" "iter_collect L it t ys = Some (xs, t')" by blast
    then show ?case using assms by (intro exI [of _ "ys @ bs"]) (auto simp: Suc_le_eq intro: le_less_trans)
  qed
  then obtain ys where "Suc (length xs) \<le> length ys" "iter_collect L it t ys = Some (xs, t')" by blast
  then show False using collect_extends [of L it t ys xs t'] by simp
qed

lemma view_child:
  assumes "view (Suc h) t v a F M" and "contains F k"
  obtains n e where "node_at t a = Some n" "contains (fst e) k" "node_answer n k v = Some (Inr (Some e))"
    "upper (fst e) \<le> upper F" "view h t v (snd e) (fst e) M"
  using assms by (auto simp only: view.simps(2))

lemma collect_largest:
  assumes tr: "db_tracker t = None" and inc: "inc_key t mx = mx" and M: "M mx \<noteq> None" and rng: "rng = interval_new mx mx"
  shows "view (Suc h) t v a F M \<Longrightarrow> contains F mx \<Longrightarrow> upper F = mx \<Longrightarrow> iter_collect L (scanning v rng mx ((F, a) # ps)) t acc = None"
proof (induction h arbitrary: a F ps acc)
  case 0
  obtain n e where n: "node_at t a = Some n" and e: "contains (fst e) mx" "node_answer n mx v = Some (Inr (Some e))"
    "upper (fst e) \<le> upper F" "view 0 t v (snd e) (fst e) M" by (rule view_child [OF 0(1,2)])
  obtain nl xs where l: "node_at t (snd e) = Some nl" "node_answer nl mx v = Some (Inl xs)" "found xs (contains (fst e)) M"
    using e(4) by auto
  let ?bs = "in_range rng mx xs"
  obtain x where "M mx = Some x" using M by blast
  then have "\<lparr>res_key = mx, res_payload = x\<rparr> \<in> set ?bs" using l(3) e(1) rng by (simp add: found_def in_range_def)
  then have bs: "?bs \<noteq> []" by auto
  have up: "upper (fst e) = mx" using e(1,3) 0(3) by (auto simp: contains_def)
  have hi: "mx \<le> upper rng" using rng by simp
  have ans: "node_answer n mx v = Some (Inr (Some (fst e, snd e)))" using e(2) by simp
  have inc': "inc_key t (upper (fst e)) = mx" using up inc by simp
  have "iter_collect L (scanning v rng mx ((F, a) # ps)) t acc = iter_collect L (scanning v rng mx ((F, a) # ps)) t (acc @ ?bs)" for acc
    by (rule trans [OF collect_down [OF n ans hi] collect_leaf [OF l(1,2) hi tr disjI2 [OF bs], where F = "fst e", unfolded inc']])
  then show ?case by (rule collect_forever [OF _ bs])
next
  case (Suc h)
  obtain n e where n: "node_at t a = Some n" and e: "contains (fst e) mx" "node_answer n mx v = Some (Inr (Some e))"
    "upper (fst e) \<le> upper F" "view (Suc h) t v (snd e) (fst e) M" by (rule view_child [OF Suc.prems(1,2)])
  have up: "upper (fst e) = mx" using e(1,3) Suc.prems(3) by (auto simp: contains_def)
  have hi: "mx \<le> upper rng" using rng by simp
  have ans: "node_answer n mx v = Some (Inr (Some (fst e, snd e)))" using e(2) by simp
  show ?case by (rule trans [OF collect_down [OF n ans hi] Suc.IH [OF e(4,1) up]])
qed

lemma crud_range_largest:
  assumes d: "db L n H t Hs" and H: "H \<noteq> 0" and v: "current_version t \<le> v" and mx: "inc_key t (max_key t) = max_key t"
    and k: "contains (whole t) (max_key t)" "Hs v (max_key t) \<noteq> None"
  shows "crud_range L (interval_new (max_key t) (max_key t)) v t = None"
proof -
  obtain r S where st: "standing L n {} t H r S Hs" using d unfolding db_def by blast
  define t' where "t' = snd (tree_version_for_reader t)"
  note q = standingD(1) [OF st]
  note c = reader_clock [OF q, folded t'_def] and o = outer_eqD [OF reader_clock(2) [OF q, folded t'_def]]
  obtain h where h: "H = Suc h" using H by (cases H) auto
  have eq: "Hs v = Hs (current_version t)" using spec [OF standingD(6) [OF st], of v] v by simp
  have "view H t v r (whole t) (Hs v)" unfolding eq by (rule rep_view [OF up_to_dateI(1) [OF v] standingD(5) [OF st]])
  then have vw: "view (Suc h) t' v r (whole t) (Hs v)" using view_cong [OF c(3)] h by simp
  have "iter_collect L (scanning v (interval_new (max_key t) (max_key t)) (max_key t) [(whole t, r)]) t' [] = None"
    by (rule collect_largest [OF quietD(2) [OF c(1)] _ k(2) refl vw]) (use mx k(1) o in \<open>auto simp: whole_def\<close>)
  then show ?thesis
    using iter_new_scanning [OF quietD(2) [OF q] rooted_now [OF standingD(4) [OF st] v]]
    by (simp add: crud_range_def RANGE_DISPATCH_LAZY_def t'_def)
qed

end
