(* ===== verification/Tx.thy ===== *)
theory Tx
  imports Crud
begin

text \<open>
  \<^verbatim>\<open>mv_tx_model\<close> and \<^verbatim>\<open>mv_tx_query\<close>: transactions, their dispatch over an isolated snapshot, and the
  transaction manager. The thread pool and the channel are library code: a job is the state
  transformer the pool's closure performs when it runs.
\<close>

section \<open>Transactions\<close>

record ('k, 'p) transaction =
  tx_snapshot :: "snapshot option"
  tx_crud :: "('k, 'p) crud_operation list"

record ('k, 'p) atomic_transaction =
  atx_snapshot :: "snapshot option"
  atx_crud :: "('k, 'p) crud_operation"

definition atomic_new :: "snapshot option \<Rightarrow> ('k, 'p) crud_operation \<Rightarrow> ('k, 'p) atomic_transaction" where
  "atomic_new si op = \<lparr>atx_snapshot = si, atx_crud = op\<rparr>"

text \<open>\<open>new_latest_si\<close>, \<open>from_crud\<close> and \<open>Into<AtomicTransaction>\<close>.\<close>

definition from_crud :: "('k, 'p) crud_operation \<Rightarrow> ('k, 'p) atomic_transaction" where
  "from_crud op = \<lparr>atx_snapshot = None, atx_crud = op\<rparr>"

definition transaction_new :: "snapshot option \<Rightarrow> ('k, 'p) crud_operation list \<Rightarrow> ('k, 'p) transaction" where
  "transaction_new si ops = \<lparr>tx_snapshot = si, tx_crud = ops\<rparr>"

definition into_transaction :: "('k, 'p) atomic_transaction \<Rightarrow> ('k, 'p) transaction" where
  "into_transaction atx = transaction_new (atx_snapshot atx) [atx_crud atx]"

definition try_into_atomic_transaction ::
    "('k, 'p) transaction \<Rightarrow> ('k, 'p) transaction + ('k, 'p) atomic_transaction" where
  "try_into_atomic_transaction tx =
     (case tx_crud tx of [op] \<Rightarrow> Inr (atomic_new (tx_snapshot tx) op) | _ \<Rightarrow> Inl tx)"

definition transaction_snapshot :: "('k, 'p) transaction \<Rightarrow> version" where
  "transaction_snapshot tx = (case tx_snapshot tx of Some si \<Rightarrow> si | None \<Rightarrow> U64_MAX)"

text \<open>\<open>Inl\<close> is \<open>Err\<close>: the rest of the transaction and the results so far.\<close>

type_synonym ('k, 'p) transaction_result =
  "('k, 'p) transaction \<times> ('k, 'p) crud_result list + snapshot \<times> ('k, 'p) crud_result list"

type_synonym ('k, 'p) atomic_transaction_result = "snapshot + snapshot \<times> ('k, 'p) crud_result"

definition snapshot_from_atomic_tx_result :: "('k, 'p) atomic_transaction_result \<Rightarrow> snapshot" where
  "snapshot_from_atomic_tx_result r = (case r of Inr (si, _) \<Rightarrow> si | Inl si \<Rightarrow> si)"

definition snapshot_from_tx_result :: "('k, 'p) transaction_result \<Rightarrow> snapshot" where
  "snapshot_from_tx_result r = (case r of Inr (si, _) \<Rightarrow> si | Inl (tx, _) \<Rightarrow> transaction_snapshot tx)"

section \<open>Isolated snapshots\<close>

text \<open>An \<open>IsolatedSnapShot\<close> is its version; the tree is the state.\<close>

fun isolate :: "snapshot \<Rightarrow> ('k, 'p) crud_operation \<Rightarrow> ('k, 'p) crud_operation" where
  "isolate si (PointSi key) = Point key si"
| "isolate si (RangeSi rng) = Range rng si"
| "isolate si (RangeIterSi rng) = RangeIter rng si"
| "isolate si op = op"

definition snapshot_dispatch_crud ::
    "(u64, 'p) lib \<Rightarrow> 'p \<Rightarrow> snapshot \<Rightarrow> (u64, 'p) crud_operation \<Rightarrow> (u64, 'p) mvbt \<Rightarrow> ((u64, 'p) crud_result \<times> (u64, 'p) mvbt) option" where
  "snapshot_dispatch_crud L dflt si op t = dispatch_crud L dflt (isolate si op) t"

section \<open>The dispatch of transactions\<close>

fun dispatch_ops ::
    "(u64, 'p) lib \<Rightarrow> 'p \<Rightarrow> snapshot \<Rightarrow> (u64, 'p) crud_operation list \<Rightarrow> (u64, 'p) crud_result list \<Rightarrow> (u64, 'p) mvbt
       \<Rightarrow> (((u64, 'p) crud_operation list option \<times> (u64, 'p) crud_result list) \<times> (u64, 'p) mvbt) option" where
  "dispatch_ops L dflt si [] result t = Some ((None, result), t)"
| "dispatch_ops L dflt si (op # ops) result t = do {
     (res, t) \<leftarrow> snapshot_dispatch_crud L dflt si op t;
     if crud_is_err res then Some ((Some ops, result @ [Error]), t)
     else dispatch_ops L dflt si ops (result @ [res]) t
   }"

definition dispatch_transaction ::
    "(u64, 'p) lib \<Rightarrow> 'p \<Rightarrow> (u64, 'p) transaction \<Rightarrow> (u64, 'p) mvbt \<Rightarrow> ((u64, 'p) transaction_result \<times> (u64, 'p) mvbt) option" where
  "dispatch_transaction L dflt tx t = do {
     ((rest, result), t) \<leftarrow> dispatch_ops L dflt (transaction_snapshot tx) (tx_crud tx) [] t;
     Some (case rest of
             Some ops \<Rightarrow> Inl (tx\<lparr>tx_crud := ops\<rparr>, result)
           | None \<Rightarrow> Inr (transaction_snapshot tx, result), t)
   }"

text \<open>The argument of \<open>unwrap_or\<close> is evaluated in any case: the clock is always read.\<close>

definition dispatch_atomic_transaction ::
    "(u64, 'p) lib \<Rightarrow> 'p \<Rightarrow> (u64, 'p) atomic_transaction \<Rightarrow> (u64, 'p) mvbt
       \<Rightarrow> ((u64, 'p) atomic_transaction_result \<times> (u64, 'p) mvbt) option" where
  "dispatch_atomic_transaction L dflt atx t = do {
     let (current, t) = tree_version_for_reader t;
     let si = (case atx_snapshot atx of Some si \<Rightarrow> si | None \<Rightarrow> current);
     (res, t) \<leftarrow> snapshot_dispatch_crud L dflt si (atx_crud atx) t;
     Some (if crud_is_err res then Inl si else Inr (si, res), t)
   }"

section \<open>The transaction manager\<close>

datatype ('k, 'p) transaction_holder = Atomic "('k, 'p) atomic_transaction" | Multi "('k, 'p) transaction"

datatype ('k, 'p) tx_execution_result =
    AtomicTxResult "('k, 'p) atomic_transaction_result"
  | TxResult "('k, 'p) transaction_result"

definition tx_execution_is_ok :: "('k, 'p) tx_execution_result \<Rightarrow> bool" where
  "tx_execution_is_ok r \<longleftrightarrow>
     (case r of
        AtomicTxResult (Inr _) \<Rightarrow> True | AtomicTxResult (Inl _) \<Rightarrow> False
      | TxResult (Inr _) \<Rightarrow> True | TxResult (Inl _) \<Rightarrow> False)"

fun unwrap_transaction :: "('k, 'p) tx_execution_result \<Rightarrow> ('k, 'p) transaction_result option" where
  "unwrap_transaction (TxResult tx) = Some tx"
| "unwrap_transaction (AtomicTxResult r) = None"

fun unwrap_atomic :: "('k, 'p) tx_execution_result \<Rightarrow> ('k, 'p) atomic_transaction_result option" where
  "unwrap_atomic (AtomicTxResult r) = Some r"
| "unwrap_atomic (TxResult tx) = None"

fun holder_execute ::
    "(u64, 'p) lib \<Rightarrow> 'p \<Rightarrow> (u64, 'p) transaction_holder \<Rightarrow> (u64, 'p) mvbt
       \<Rightarrow> ((u64, 'p) tx_execution_result \<times> (u64, 'p) mvbt) option" where
  "holder_execute L dflt (Atomic atx) t = do {
     (r, t) \<leftarrow> dispatch_atomic_transaction L dflt atx t;
     Some (AtomicTxResult r, t)
   }"
| "holder_execute L dflt (Multi tx) t = do {
     (r, t) \<leftarrow> dispatch_transaction L dflt tx t;
     Some (TxResult r, t)
   }"

fun holder_snapshot :: "('k, 'p) transaction_holder \<Rightarrow> snapshot option" where
  "holder_snapshot (Atomic atx) = atx_snapshot atx"
| "holder_snapshot (Multi tx) = tx_snapshot tx"

fun holder_is_read :: "('k, 'p) transaction_holder \<Rightarrow> bool" where
  "holder_is_read (Atomic atx) \<longleftrightarrow> crud_is_read (atx_crud atx) \<noteq> None"
| "holder_is_read (Multi tx) \<longleftrightarrow> (\<forall>op \<in> set (tx_crud tx). crud_is_read op \<noteq> None)"

definition tracked_snapshot :: "('k, 'p) transaction_holder \<Rightarrow> snapshot option" where
  "tracked_snapshot h = (if holder_is_read h then holder_snapshot h else None)"

fun set_snapshot :: "snapshot option \<Rightarrow> ('k, 'p) transaction_holder \<Rightarrow> ('k, 'p) transaction_holder" where
  "set_snapshot si (Atomic atx) = Atomic (atx\<lparr>atx_snapshot := si\<rparr>)"
| "set_snapshot si (Multi tx) = Multi (tx\<lparr>tx_snapshot := si\<rparr>)"

fun as_atomic :: "('k, 'p) transaction_holder \<Rightarrow> ('k, 'p) atomic_transaction option" where
  "as_atomic (Atomic atx) = Some atx"
| "as_atomic (Multi tx) = None"

text \<open>
  The manager's tracker and the tree's are one shared object: it lives in the tree, and \<open>mgr_gc\<close>
  says whether the manager holds it. \<open>pool\<close> is the number of threads, if there is a pool.
\<close>

record 'p tx_manager =
  mgr_gc :: bool
  pool :: "nat option"
  index :: "(u64, 'p) mvbt"

definition POOL_DISABLED :: nat where
  "POOL_DISABLED = 0"

definition manager_new :: "nat \<Rightarrow> (u64, 'p) mvbt \<Rightarrow> bool \<Rightarrow> 'p tx_manager" where
  "manager_new threads t gc =
     \<lparr>mgr_gc = gc, pool = (if threads = POOL_DISABLED then None else Some threads),
      index = t\<lparr>db_tracker := (if gc then Some tracker_new else None)\<rparr>\<rparr>"

definition manager_new_unmanaged :: "(u64, 'p) mvbt \<Rightarrow> bool \<Rightarrow> 'p tx_manager" where
  "manager_new_unmanaged t gc = manager_new POOL_DISABLED t gc"

definition manager_enable_gc :: "'p tx_manager \<Rightarrow> 'p tx_manager" where
  "manager_enable_gc mg = mg\<lparr>mgr_gc := True, index := (index mg)\<lparr>db_tracker := Some tracker_new\<rparr>\<rparr>"

definition manager_disable_gc :: "'p tx_manager \<Rightarrow> 'p tx_manager" where
  "manager_disable_gc mg = mg\<lparr>mgr_gc := False, index := (index mg)\<lparr>db_tracker := None\<rparr>\<rparr>"

definition manager_is_gc_enabled :: "'p tx_manager \<Rightarrow> bool" where
  "manager_is_gc_enabled mg = mgr_gc mg"

definition manager_threads :: "'p tx_manager \<Rightarrow> nat" where
  "manager_threads mg = (case pool mg of Some n \<Rightarrow> n | None \<Rightarrow> 0)"

definition managed :: "nat \<Rightarrow> 'p tx_manager \<Rightarrow> 'p tx_manager" where
  "managed threads mg = mg\<lparr>pool := Some threads\<rparr>"

definition unmanaged :: "'p tx_manager \<Rightarrow> 'p tx_manager" where
  "unmanaged mg = mg\<lparr>pool := None\<rparr>"

definition execute_on_caller_thread ::
    "(u64, 'p) lib \<Rightarrow> 'p \<Rightarrow> (u64, 'p) transaction_holder \<Rightarrow> 'p tx_manager
       \<Rightarrow> ((u64, 'p) tx_execution_result \<times> 'p tx_manager) option" where
  "execute_on_caller_thread L dflt h mg = do {
     (r, t) \<leftarrow> holder_execute L dflt h (index mg);
     Some (r, mg\<lparr>index := t\<rparr>)
   }"

text \<open>The bookkeeping of readers around a job.\<close>

definition enq_bookkeeping :: "(u64, 'p) lib \<Rightarrow> (u64, 'p) transaction_holder \<Rightarrow> 'p tx_manager \<Rightarrow> 'p tx_manager" where
  "enq_bookkeeping L h mg =
     (case tracked_snapshot h of
        Some si \<Rightarrow> if mgr_gc mg then mg\<lparr>index := on_acquire_reader_snapshot L si (index mg)\<rparr> else mg
      | None \<Rightarrow> mg)"

definition deq_book_keeping :: "(u64, 'p) lib \<Rightarrow> snapshot \<Rightarrow> 'p tx_manager \<Rightarrow> 'p tx_manager" where
  "deq_book_keeping L si mg =
     (if mgr_gc mg then mg\<lparr>index := on_release_reader_snapshot L si (index mg)\<rparr> else mg)"

text \<open>
  The closure of \<open>execute_tx\<close> and \<open>execute_tx_non_reader\<close>: execute, then release. It needs a pool.
\<close>

definition tx_job ::
    "(u64, 'p) lib \<Rightarrow> 'p \<Rightarrow> (u64, 'p) transaction_holder \<Rightarrow> 'p tx_manager
       \<Rightarrow> ((u64, 'p) tx_execution_result \<times> 'p tx_manager) option" where
  "tx_job L dflt h mg = do {
     let si = tracked_snapshot h;
     (r, mg) \<leftarrow> execute_on_caller_thread L dflt h mg;
     Some (r, case si of Some si \<Rightarrow> deq_book_keeping L si mg | None \<Rightarrow> mg)
   }"

text \<open>\<open>execute_tx\<close> up to the hand-over of the job to the pool.\<close>

definition execute_tx_enqueue ::
    "(u64, 'p) lib \<Rightarrow> (u64, 'p) transaction_holder \<Rightarrow> 'p tx_manager \<Rightarrow> 'p tx_manager option" where
  "execute_tx_enqueue L h mg = (case pool mg of Some _ \<Rightarrow> Some (enq_bookkeeping L h mg) | None \<Rightarrow> None)"

text \<open>The closure of \<open>execute_tx_non_reader_batch\<close>: both halves of the bookkeeping for every transaction.\<close>

fun tx_batch_job ::
    "(u64, 'p) lib \<Rightarrow> 'p \<Rightarrow> (u64, 'p) transaction_holder list \<Rightarrow> 'p tx_manager \<Rightarrow> 'p tx_manager option" where
  "tx_batch_job L dflt [] mg = Some mg"
| "tx_batch_job L dflt (h # hs) mg = do {
     (_, mg) \<leftarrow> tx_job L dflt h (enq_bookkeeping L h mg);
     tx_batch_job L dflt hs mg
   }"

end
