(* ===== verification/Api.thy ===== *)
theory Api
  imports Tx
begin

text \<open>
  \<^verbatim>\<open>lib.rs\<close>: the exported interface, a transaction manager with \<open>u64\<close> keys and payloads. What the C
  functions read through the caller's pointers are arguments here, what they write through them
  are results: \<open>find\<close> its value, \<open>scan\<close> its buffer.
\<close>

definition EX_FAN_OUT :: nat where
  "EX_FAN_OUT = 127"

definition EX_N :: nat where
  "EX_N = 127"

text \<open>Every protocol and clock gives the standard tree.\<close>

definition init_tree_gc :: "(u64, u64) lib \<Rightarrow> u8 \<Rightarrow> u8 \<Rightarrow> u8 \<Rightarrow> clock_mem \<Rightarrow> thread_state \<Rightarrow> u64 tx_manager" where
  "init_tree_gc L protocol clock gc m th =
     (let C = \<lparr>FAN_OUT = EX_FAN_OUT, NUM_RECORDS = EX_N\<rparr>;
          idx = (if protocol = 2 \<and> clock = 0 then make_standard L C TFrugalList m th
                 else if protocol = 2 \<and> clock = 1 then make_standard L C TFrugalList m th
                 else make_standard L C TFrugalList m th)
      in manager_new_unmanaged idx (gc = 1))"

definition execute_atomic ::
    "(u64, u64) lib \<Rightarrow> (u64, u64) atomic_transaction \<Rightarrow> u64 tx_manager
       \<Rightarrow> ((u64, u64) atomic_transaction_result \<times> u64 tx_manager) option" where
  "execute_atomic L atx mg = do {
     (r, mg) \<leftarrow> execute_on_caller_thread L 0 (Atomic atx) mg;
     r \<leftarrow> unwrap_atomic r;
     Some (r, mg)
   }"

text \<open>A read at a pinned snapshot; the pin is dropped at the end.\<close>

definition pinned_read ::
    "(u64, u64) lib \<Rightarrow> (version \<Rightarrow> (u64, u64) crud_operation) \<Rightarrow> u64 tx_manager
       \<Rightarrow> ((u64, u64) atomic_transaction_result \<times> u64 tx_manager) option" where
  "pinned_read L op mg = do {
     let (querying_v, pin, t) = pinned_reader_snapshot L (index mg);
     (r, mg) \<leftarrow> execute_atomic L (atomic_new (Some querying_v) (op querying_v)) (mg\<lparr>index := t\<rparr>);
     Some (r, mg\<lparr>index := reader_pin_drop L pin (index mg)\<rparr>)
   }"

definition api_find :: "(u64, u64) lib \<Rightarrow> u64 \<Rightarrow> u64 tx_manager \<Rightarrow> (u64 option \<times> u64 tx_manager) option" where
  "api_find L key mg = do {
     (r, mg) \<leftarrow> pinned_read L (Point key) mg;
     Some (case r of
             Inr (_, MatchedRecords (rec # _)) \<Rightarrow> Some (res_payload rec)
           | _ \<Rightarrow> None, mg)
   }"

definition api_insert :: "(u64, u64) lib \<Rightarrow> u64 \<Rightarrow> u64 \<Rightarrow> u64 tx_manager \<Rightarrow> (bool \<times> u64 tx_manager) option" where
  "api_insert L key val mg = do {
     (r, mg) \<leftarrow> execute_atomic L (from_crud (Insert key val)) mg;
     Some (case r of Inr (_, Inserted _) \<Rightarrow> True | _ \<Rightarrow> False, mg)
   }"

definition api_update :: "(u64, u64) lib \<Rightarrow> u64 \<Rightarrow> u64 \<Rightarrow> u64 tx_manager \<Rightarrow> (bool \<times> u64 tx_manager) option" where
  "api_update L key val mg = do {
     (r, mg) \<leftarrow> execute_atomic L (from_crud (Update key val)) mg;
     Some (case r of Inr (_, Updated _) \<Rightarrow> True | _ \<Rightarrow> False, mg)
   }"

definition api_remove :: "(u64, u64) lib \<Rightarrow> u64 \<Rightarrow> u64 tx_manager \<Rightarrow> (bool \<times> u64 tx_manager) option" where
  "api_remove L key mg = do {
     (r, mg) \<leftarrow> execute_atomic L (from_crud (Delete key)) mg;
     Some (case r of Inr (_, Deleted _) \<Rightarrow> True | _ \<Rightarrow> False, mg)
   }"

text \<open>\<open>scan_sz as u64\<close> extends the sign; the sum wraps.\<close>

definition scan_range :: "u64 \<Rightarrow> 32 word \<Rightarrow> u64 interval" where
  "scan_range key_start scan_sz = interval_new key_start (key_start + scast scan_sz - 1)"

definition api_scan ::
    "(u64, u64) lib \<Rightarrow> u64 \<Rightarrow> 32 word \<Rightarrow> u64 tx_manager
       \<Rightarrow> ((32 word \<times> (u64, u64) record_point_result list option) \<times> u64 tx_manager) option" where
  "api_scan L key scan_sz mg = do {
     (r, mg) \<leftarrow> pinned_read L (Range (scan_range key scan_sz)) mg;
     Some (case r of
             Inr (_, MatchedRecords out) \<Rightarrow> (word_of_nat (length out), Some out)
           | _ \<Rightarrow> (-1, None), mg)
   }"

end
