(* ===== verification/Tx_Correct.thy ===== *)
theory Tx_Correct
  imports Range_Correct Api
begin

text \<open>
  Transactions of \<^verbatim>\<open>mv_tx_query/dispatch.rs\<close> as sequences of operations on the multiversion map. A
  transaction returns, its results are those of the abstract operations in order, at increasing
  versions, and the tree then stands for the history they give.
\<close>

section \<open>Sequences of operations\<close>

primrec run_ops :: "('op \<Rightarrow> 's \<Rightarrow> ('r \<times> 's) option) \<Rightarrow> 'op list \<Rightarrow> 's \<Rightarrow> ('r list \<times> 's) option" where
  "run_ops step [] s = Some ([], s)"
| "run_ops step (op # ops) s = do {
     (r, s) \<leftarrow> step op s;
     (rs, s) \<leftarrow> run_ops step ops s;
     Some (r # rs, s)
   }"

text \<open>
  \<open>explained spec now ops a rs now' a'\<close>: the results \<open>rs\<close> are those of the abstract operations from
  state \<open>a\<close> and time \<open>now\<close> to state \<open>a'\<close> and time \<open>now'\<close>.
\<close>

inductive explained ::
    "('op \<Rightarrow> version \<Rightarrow> 'a \<Rightarrow> 'r \<Rightarrow> version \<Rightarrow> 'a \<Rightarrow> bool) \<Rightarrow> version \<Rightarrow> 'op list \<Rightarrow> 'a \<Rightarrow> 'r list \<Rightarrow> version \<Rightarrow> 'a \<Rightarrow> bool"
  for spec where
  finished: "explained spec now [] a [] now a"
| continued: "spec op now a r now' a' \<Longrightarrow> explained spec now' ops a' rs now'' a'' \<Longrightarrow> explained spec now (op # ops) a (r # rs) now'' a''"

inductive_cases explained_NilE: "explained spec now [] a rs now' a'"
inductive_cases explained_ConsE: "explained spec now (op # ops) a rs now' a'"

text \<open>
  A store that does, operation by operation, what an abstract one does, as long as a budget lasts:
  it does so for every sequence within the budget.
\<close>

locale simulation =
  fixes step :: "'op \<Rightarrow> 's \<Rightarrow> ('r \<times> 's) option"
    and spec :: "'op \<Rightarrow> version \<Rightarrow> 'a \<Rightarrow> 'r \<Rightarrow> version \<Rightarrow> 'a \<Rightarrow> bool"
    and clock :: "'s \<Rightarrow> version"
    and rel :: "nat \<Rightarrow> 's \<Rightarrow> 'a \<Rightarrow> bool"
    and admissible :: "'op \<Rightarrow> bool"
    and budget :: nat
  assumes sim: "rel m s a \<Longrightarrow> admissible op \<Longrightarrow> m < budget \<Longrightarrow>
      \<exists>r s' a'. step op s = Some (r, s') \<and> spec op (clock s) a r (clock s') a' \<and> rel (Suc m) s' a'"
begin

lemma run_sim:
  assumes "rel m s a" and "\<forall>op \<in> set ops. admissible op" and "m + length ops \<le> budget"
  shows "\<exists>rs s' a'. run_ops step ops s = Some (rs, s') \<and> explained spec (clock s) ops a rs (clock s') a' \<and> rel (m + length ops) s' a'"
  using assms
proof (induction ops arbitrary: m s a)
  case Nil
  then show ?case by (auto intro: finished)
next
  case (Cons op ops)
  obtain r s1 a1 where s1: "step op s = Some (r, s1)" "spec op (clock s) a r (clock s1) a1" "rel (Suc m) s1 a1"
    using sim [OF Cons.prems(1), of op] Cons.prems(2,3) by auto
  obtain rs s2 a2 where s2: "run_ops step ops s1 = Some (rs, s2)" "explained spec (clock s1) ops a1 rs (clock s2) a2"
    "rel (Suc m + length ops) s2 a2"
    using Cons.IH [OF s1(3)] Cons.prems(2,3) by auto
  have "explained spec (clock s) (op # ops) a (r # rs) (clock s2) a2" by (rule continued [of spec, OF s1(2) s2(2)])
  then show ?case using s1(1) s2(1,3) by auto
qed

end

section \<open>The abstract operations\<close>

fun spec_of :: "('k, 'p) crud_operation \<Rightarrow> version \<Rightarrow> ('k, 'p) history \<Rightarrow> ('k, 'p) crud_result \<times> ('k, 'p) history" where
  "spec_of (Insert k x) w Hs = spec_insert w k x Hs"
| "spec_of (Update k x) w Hs = spec_update w k x Hs"
| "spec_of (Delete k) w Hs = spec_delete w k Hs"
| "spec_of (Point k v) w Hs = (MatchedRecords (point_result k (Hs v k)), Hs)"
| "spec_of _ w Hs = (Error, Hs)"

text \<open>A range read returns the records of the range in any order.\<close>

fun answers :: "('k::linorder, 'p) crud_operation \<Rightarrow> version \<Rightarrow> ('k, 'p) history \<Rightarrow> ('k, 'p) crud_result \<Rightarrow> bool" where
  "answers (Range rng v) w Hs r \<longleftrightarrow> (\<exists>xs. r = MatchedRecords xs \<and> found xs (contains rng) (Hs v))"
| "answers op w Hs r \<longleftrightarrow> same_result r (fst (spec_of op w Hs))"

text \<open>The writes, the point reads, and the range reads that end below the largest key.\<close>

fun keyed :: "(u64, 'p) crud_operation \<Rightarrow> bool" where
  "keyed (Insert k x) = True"
| "keyed (Update k x) = True"
| "keyed (Delete k) = True"
| "keyed (Point k v) = (START_VERSION \<le> v)"
| "keyed (Range rng v) = (START_VERSION \<le> v \<and> upper rng < U64_MAX)"
| "keyed _ = False"

definition op_spec ::
    "('k::linorder, 'p) crud_operation \<Rightarrow> version \<Rightarrow> ('k, 'p) history \<Rightarrow> ('k, 'p) crud_result \<Rightarrow> version \<Rightarrow> ('k, 'p) history \<Rightarrow> bool" where
  "op_spec op now Hs r now' Hs' \<longleftrightarrow> now \<le> now' \<and> (\<exists>w \<ge> now. (if wrote r then w < now' else w \<le> now')
     \<and> answers op w Hs r \<and> Hs' = snd (spec_of op w Hs))"

text \<open>After \<open>m\<close> operations the height is at most \<open>m\<close>; latches and versions are bounded by its square.\<close>

definition db_after :: "(u64, 'p) lib \<Rightarrow> nat \<Rightarrow> (u64, 'p) mvbt \<Rightarrow> (u64, 'p) history \<Rightarrow> bool" where
  "db_after L m t Hs \<longleftrightarrow> (\<exists>n H. db L n H t Hs \<and> H \<le> m \<and> n \<le> 3 * m * m + 6 * m
     \<and> unat (current_version t) \<le> 1 + m * m + 3 * m) \<and> (\<forall>k. contains (whole t) k)
     \<and> succ_law (inc_key t) (max_key t) \<and> max_key t = U64_MAX"

abbreviation OPS_MAX :: nat where
  "OPS_MAX \<equiv> 2 ^ 30"

lemma small_square: "m < OPS_MAX \<Longrightarrow> m * m \<le> 2 ^ 60" for m :: nat
  using mult_le_mono [of m "2 ^ 30" m "2 ^ 30"] by simp

lemma db_after_capacity:
  assumes "db L n H t Hs" and "H \<le> m" and "n \<le> 3 * m * m + 6 * m" and "unat (current_version t) \<le> 1 + m * m + 3 * m" and "m < OPS_MAX"
  shows "capacity n H t"
  using assms(2-5) small_square [OF assms(5)] by (simp add: capacity_def)

lemma refines_after:
  assumes d: "db L n H t Hs" "H \<le> m" "n \<le> 3 * m * m + 6 * m" "unat (current_version t) \<le> 1 + m * m + 3 * m"
    and k: "\<And>k. contains (whole t) k" "succ_law (inc_key t) (max_key t)" "max_key t = U64_MAX"
    and r: "refines L n H t (\<lambda>w. spec_of op w Hs) out" and op: "\<And>w r. same_result r (fst (spec_of op w Hs)) \<Longrightarrow> answers op w Hs r"
  shows "\<exists>res t' Hs'. out = Some (res, t') \<and> op_spec op (current_version t) Hs res (current_version t') Hs' \<and> db_after L (Suc m) t' Hs'
    \<and> static t' = static t"
proof -
  obtain w res t' H' where t': "out = Some (res, t')" "current_version t \<le> w"
    "if wrote res then w < current_version t' else w \<le> current_version t'" "same_result res (fst (spec_of op w Hs))"
    "db L (n + 3 * H + 6) H' t' (snd (spec_of op w Hs))" "H' \<le> Suc H"
    "unat (current_version t') \<le> unat (current_version t) + H + 3" "static t' = static t"
    using r unfolding refines_def by blast
  have b: "n + 3 * H + 6 \<le> 3 * Suc m * Suc m + 6 * Suc m" "H' \<le> Suc m" "unat (current_version t') \<le> 1 + Suc m * Suc m + 3 * Suc m"
    using d(2-4) t'(6,7) by (simp_all add: algebra_simps)
  have le: "current_version t \<le> current_version t'" using t'(2,3) by (auto split: if_splits)
  have "contains (whole t') j" for j using k(1) whole_static [OF t'(8)] by simp
  moreover have "succ_law (inc_key t') (max_key t')" "max_key t' = U64_MAX" using k(2,3) static_eqD [OF t'(8)] by simp_all
  ultimately have "db_after L (Suc m) t' (snd (spec_of op w Hs))" unfolding db_after_def using t'(5) b by blast
  moreover have "op_spec op (current_version t) Hs res (current_version t') (snd (spec_of op w Hs))"
    unfolding op_spec_def using t'(2,3) op [OF t'(4)] le by blast
  ultimately show ?thesis using t'(1,8) by blast
qed

lemma db_after_Suc:
  assumes "db_after L m t Hs"
  shows "db_after L (Suc m) t Hs"
proof -
  have "3 * m * m + 6 * m \<le> 3 * Suc m * Suc m + 6 * Suc m" "1 + m * m + 3 * m \<le> 1 + Suc m * Suc m + 3 * Suc m"
    by (simp_all add: algebra_simps)
  then show ?thesis using assms unfolding db_after_def by (meson le_SucI le_trans)
qed

lemma db_step:
  assumes d: "db_after L m t Hs" and op: "keyed op" and m: "m < OPS_MAX"
  shows "\<exists>res t' Hs'. dispatch_crud L dflt op t = Some (res, t') \<and> op_spec op (current_version t) Hs res (current_version t') Hs'
    \<and> db_after L (Suc m) t' Hs' \<and> static t' = static t"
proof -
  obtain n H where b: "db L n H t Hs" "H \<le> m" "n \<le> 3 * m * m + 6 * m" "unat (current_version t) \<le> 1 + m * m + 3 * m"
    and k: "\<And>k. contains (whole t) k" "succ_law (inc_key t) (max_key t)" "max_key t = U64_MAX"
    using d unfolding db_after_def by blast
  note c = db_after_capacity [OF b m]
  show ?thesis
  proof (cases op)
    case (Insert j x)
    then show ?thesis using refines_after [OF b k, of op] crud_insert_refines [OF b(1) c k(1)] by simp
  next
    case (Update j x)
    then show ?thesis using refines_after [OF b k, of op] crud_update_refines [OF b(1) c k(1)] by simp
  next
    case (Delete j)
    then show ?thesis using refines_after [OF b k, of op] crud_delete_refines [OF b(1) c k(1)] by simp
  next
    case (Point j v)
    show ?thesis
      using db_after_Suc [OF d] crud_point_reads [OF b(1) _ k(1), of v j] op Point by (auto simp: op_spec_def same_result_def)
  next
    case (Range rng v)
    then have rng: "START_VERSION \<le> v" "upper rng < max_key t" using op k(3) by simp_all
    obtain xs t' where t': "crud_range L rng v t = Some (MatchedRecords xs, t')" "found xs (contains rng) (Hs v)" "db L n H t' Hs"
      "static t' = static t" "current_version t' = current_version t"
      using crud_range_reads [OF b(1) k(2) rng(2) k(1) rng(1)] by blast
    have "db_after L m t' Hs"
      unfolding db_after_def using b(2-4) t'(3,5) k whole_static [OF t'(4)] static_eqD [OF t'(4)] by auto
    then have "db_after L (Suc m) t' Hs" by (rule db_after_Suc)
    then show ?thesis
      using t'(1,2,4,5) Range by (intro exI [of _ "MatchedRecords xs"] exI [of _ t'] exI [of _ Hs]) (auto simp: op_spec_def)
  qed (use op in simp_all)
qed

interpretation ts: simulation "snapshot_dispatch_crud L dflt si" "\<lambda>op. op_spec (isolate si op)" current_version
  "\<lambda>m t Hs. db_after L m t Hs \<and> static t = static t0" "\<lambda>op. keyed (isolate si op)" OPS_MAX
  for L :: "(u64, 'p) lib" and dflt si and t0 :: "(u64, 'p) mvbt"
proof unfold_locales
  fix m and t :: "(u64, 'p) mvbt" and Hs and op :: "(u64, 'p) crud_operation"
  assume "db_after L m t Hs \<and> static t = static t0" "keyed (isolate si op)" "m < OPS_MAX"
  then show "\<exists>r t' Hs'. snapshot_dispatch_crud L dflt si op t = Some (r, t')
    \<and> op_spec (isolate si op) (current_version t) Hs r (current_version t') Hs' \<and> db_after L (Suc m) t' Hs' \<and> static t' = static t0"
    using db_step [of L m t Hs "isolate si op" dflt] by (simp add: snapshot_dispatch_crud_def)
qed

section \<open>The dispatch of a transaction\<close>

lemma dispatch_ops_run:
  assumes "run_ops (snapshot_dispatch_crud L dflt si) ops t = Some (rs, t')" and "\<forall>r \<in> set rs. \<not> crud_is_err r"
  shows "dispatch_ops L dflt si (ops @ rest) acc t = dispatch_ops L dflt si rest (acc @ rs) t'"
  using assms by (induction ops arbitrary: t acc rs) (auto simp: bind_eq_Some_conv)

lemma keyed_not_error: "keyed op \<Longrightarrow> op_spec op now Hs r now' Hs' \<Longrightarrow> \<not> crud_is_err r"
  by (cases op) (auto simp: op_spec_def same_result_def spec_insert_def spec_update_def spec_delete_def crud_is_err_def
      split: if_splits)

lemma explained_no_error:
  assumes "explained spec now ops a rs now' a'" and "\<And>op now a r now' a'. op \<in> set ops \<Longrightarrow> spec op now a r now' a' \<Longrightarrow> \<not> crud_is_err r"
  shows "\<forall>r \<in> set rs. \<not> crud_is_err r"
  using assms
proof (induction rule: explained.induct)
  case (continued op now a r now' a' ops rs now'' a'')
  have "\<not> crud_is_err r" by (rule continued.prems [OF _ continued.hyps(1)]) simp
  moreover have "\<forall>r \<in> set rs. \<not> crud_is_err r" by (rule continued.IH) (rule continued.prems, simp_all)
  ultimately show ?case by simp
qed simp

lemma transaction_runs:
  assumes d: "db_after L m t Hs" and ops: "\<forall>op \<in> set ops. keyed (isolate si op)" and len: "m + length ops \<le> OPS_MAX"
  shows "\<exists>rs t' Hs'. dispatch_ops L dflt si (ops @ rest) acc t = dispatch_ops L dflt si rest (acc @ rs) t'
    \<and> explained (\<lambda>op. op_spec (isolate si op)) (current_version t) ops Hs rs (current_version t') Hs' \<and> db_after L (m + length ops) t' Hs'
    \<and> static t' = static t"
proof -
  obtain rs t' Hs' where r: "run_ops (snapshot_dispatch_crud L dflt si) ops t = Some (rs, t')"
    "explained (\<lambda>op. op_spec (isolate si op)) (current_version t) ops Hs rs (current_version t') Hs'" "db_after L (m + length ops) t' Hs'"
    "static t' = static t"
    using ts.run_sim [OF conjI [OF d refl], of ops si dflt] ops len by blast
  have "\<forall>r \<in> set rs. \<not> crud_is_err r"
    by (rule explained_no_error [OF r(2)]) (use ops keyed_not_error in blast)
  then show ?thesis using dispatch_ops_run [OF r(1)] r(2-4) by blast
qed

lemma transaction_ok:
  assumes d: "db_after L m t Hs" and ops: "\<forall>op \<in> set ops. keyed (isolate (transaction_snapshot (transaction_new si ops)) op)"
    and len: "m + length ops \<le> OPS_MAX"
  obtains rs t' Hs' where "dispatch_transaction L dflt (transaction_new si ops) t
      = Some (Inr (transaction_snapshot (transaction_new si ops), rs), t')"
    "explained (\<lambda>op. op_spec (isolate (transaction_snapshot (transaction_new si ops)) op)) (current_version t) ops Hs
       rs (current_version t') Hs'"
    "db_after L (m + length ops) t' Hs'" "static t' = static t"
proof -
  let ?si = "transaction_snapshot (transaction_new si ops)"
  obtain rs t' Hs' where r: "dispatch_ops L dflt ?si (ops @ []) [] t = dispatch_ops L dflt ?si [] ([] @ rs) t'"
    "explained (\<lambda>op. op_spec (isolate ?si op)) (current_version t) ops Hs rs (current_version t') Hs'"
    "db_after L (m + length ops) t' Hs'" "static t' = static t"
    using transaction_runs [OF d ops len, of dflt "[]" "[]"] by auto
  have "dispatch_transaction L dflt (transaction_new si ops) t = Some (Inr (?si, rs), t')"
    using r(1) by (simp add: dispatch_transaction_def transaction_new_def transaction_snapshot_def)
  then show thesis using that r(2-4) by blast
qed

lemma new_tree_after:
  assumes "lib_laws L" and "root_laws L variant" and "roomy C" and "sizes_ok C"
  shows "db_after L 0 (make_standard L C variant m th) (\<lambda>v. Map.empty)"
proof -
  have "succ_law (inc_key (make_standard L C variant m th)) (max_key (make_standard L C variant m th))"
    "max_key (make_standard L C variant m th) = U64_MAX"
    using inc_key_u64_succ by (simp_all add: make_standard_def mvbt_make_simps)
  then show ?thesis using make_standard_db [OF assms] by (auto simp: db_after_def START_VERSION_def)
qed

lemma db_after_reads:
  assumes "db_after L m t Hs" and "START_VERSION \<le> v"
  shows "crud_point L k v t = Some (MatchedRecords (point_result k (Hs v k)), t)"
  using assms crud_point_reads unfolding db_after_def by blast

lemma db_after_ranges:
  assumes "db_after L m t Hs" and "START_VERSION \<le> v" and "upper rng < U64_MAX"
  shows "\<exists>xs t'. crud_range L rng v t = Some (MatchedRecords xs, t') \<and> found xs (contains rng) (Hs v)"
proof -
  obtain n H where d: "db L n H t Hs" "\<And>k. contains (whole t) k" "succ_law (inc_key t) (max_key t)" "max_key t = U64_MAX"
    using assms(1) unfolding db_after_def by blast
  show ?thesis using crud_range_reads [OF d(1,3) _ d(2) assms(2), of rng] assms(3) d(4) by auto
qed

section \<open>What the results mean\<close>

text \<open>The map after an operation, for whoever reads the present.\<close>

fun apply_op :: "('k, 'p) crud_operation \<Rightarrow> ('k \<rightharpoonup> 'p) \<Rightarrow> ('k \<rightharpoonup> 'p)" where
  "apply_op (Insert k x) M = (if M k = None then M(k \<mapsto> x) else M)"
| "apply_op (Update k x) M = (if M k = None then M else M(k \<mapsto> x))"
| "apply_op (Delete k) M = M(k := None)"
| "apply_op _ M = M"

lemma op_spec_past: "op_spec op now Hs r now' Hs' \<Longrightarrow> v < now \<Longrightarrow> Hs' v = Hs v"
  by (cases op) (auto simp: op_spec_def spec_insert_def spec_update_def spec_delete_def spec_write_def)

lemma same_result_wrote: "same_result r s \<Longrightarrow> wrote r = wrote s"
  by (auto simp: same_result_def)

lemma spec_of_present:
  assumes "keyed op" and "Hs w = M" and "Hs v = M" and "w \<le> v"
  shows "snd (spec_of op w Hs) v = apply_op op M"
  using assms by (cases op) (auto simp: spec_insert_def spec_update_def spec_delete_def spec_write_def)

lemma op_spec_present:
  assumes "op_spec op now Hs r now' Hs'" and "keyed op" and "\<And>v. now \<le> v \<Longrightarrow> Hs v = M" and "now' \<le> v"
  shows "Hs' v = apply_op op M"
proof -
  obtain w where w: "now \<le> w" "if wrote r then w < now' else w \<le> now'" "Hs' = snd (spec_of op w Hs)"
    using assms(1) unfolding op_spec_def by blast
  then have "w \<le> v" using assms(4) by (auto split: if_splits)
  then show ?thesis using spec_of_present [OF assms(2)] assms(3) w(1,3) by force
qed

lemma explained_past:
  assumes "explained (\<lambda>op. op_spec (f op)) now ops Hs rs now' Hs'" and "v < now"
  shows "Hs' v = Hs v"
  using assms
proof (induction rule: explained.induct)
  case (continued op now a r now' a' ops rs now'' a'')
  have "v < now'" using continued.hyps(1) continued.prems by (auto simp: op_spec_def)
  then show ?case using continued.IH op_spec_past [OF continued.hyps(1) continued.prems] by simp
qed simp

lemma explained_present:
  assumes "explained (\<lambda>op. op_spec (f op)) now ops Hs rs now' Hs'" and "\<forall>op \<in> set ops. keyed (f op)"
    and "\<And>v. now \<le> v \<Longrightarrow> Hs v = M" and "now' \<le> v"
  shows "Hs' v = fold (\<lambda>op. apply_op (f op)) ops M"
  using assms
proof (induction arbitrary: M rule: explained.induct)
  case (continued op now a r now' a' ops rs now'' a'')
  have "a' u = apply_op (f op) M" if "now' \<le> u" for u
    by (rule op_spec_present [OF continued.hyps(1) _ _ that]) (use continued.prems in auto)
  then show ?case using continued.IH [of "apply_op (f op) M"] continued.prems by simp
qed simp

lemma explained_cong:
  assumes "explained spec now ops a rs now' a'" and "\<And>op. op \<in> set ops \<Longrightarrow> spec op = spec' op"
  shows "explained spec' now ops a rs now' a'"
  using assms
proof (induction rule: explained.induct)
  case (continued op now a r now' a' ops rs now'' a'')
  have "spec' op now a r now' a'" using continued.hyps(1) continued.prems [of op] by simp
  moreover have "explained spec' now' ops a' rs now'' a''" by (rule continued.IH) (simp add: continued.prems)
  ultimately show ?case by (rule explained.continued)
qed (rule finished)

lemma explained_clock: "explained (\<lambda>op. op_spec (f op)) now ops Hs rs now' Hs' \<Longrightarrow> now \<le> now'"
  by (induction rule: explained.induct) (auto simp: op_spec_def intro: order_trans)

text \<open>Operations that name their versions: the present is the map of the writes.\<close>

lemma isolate_keyed: "keyed op \<Longrightarrow> isolate si op = op"
  by (cases op) auto

lemma transaction_present:
  assumes "lib_laws L" and "root_laws L variant" and "roomy C" and "sizes_ok C" and "\<forall>op \<in> set ops. keyed op" and "length ops \<le> OPS_MAX"
  obtains rs t' Hs' where "dispatch_transaction L dflt (transaction_new si ops) (make_standard L C variant m th)
      = Some (Inr (transaction_snapshot (transaction_new si ops), rs), t')"
    "db_after L (length ops) t' Hs'" "sizes t' = C" "\<And>v. current_version t' \<le> v \<Longrightarrow> Hs' v = fold apply_op ops Map.empty"
    "START_VERSION \<le> current_version t'"
proof -
  let ?si = "transaction_snapshot (transaction_new si ops)" and ?t = "make_standard L C variant m th"
  have keyed: "\<forall>op \<in> set ops. keyed (isolate ?si op)" using assms(5) by (auto simp: isolate_keyed)
  have len: "0 + length ops \<le> OPS_MAX" using assms(6) by simp
  obtain rs t' Hs' where tx: "dispatch_transaction L dflt (transaction_new si ops) ?t = Some (Inr (?si, rs), t')" and r:
    "explained (\<lambda>op. op_spec (isolate ?si op)) (current_version ?t) ops (\<lambda>v. Map.empty) rs (current_version t') Hs'"
    "db_after L (0 + length ops) t' Hs'" "static t' = static ?t"
    by (rule transaction_ok [OF new_tree_after [OF assms(1-4)] keyed len])
  have fold: "fold (\<lambda>op. apply_op (isolate ?si op)) ops Map.empty = fold apply_op ops Map.empty"
    by (rule fold_cong [OF refl refl]) (use isolate_keyed [OF bspec [OF assms(5)]] in simp)
  have "Hs' v = fold apply_op ops Map.empty" if "current_version t' \<le> v" for v
    using explained_present [OF r(1) keyed refl that] by (simp add: fold)
  moreover have "START_VERSION \<le> current_version t'" using explained_clock [OF r(1)] make_standard_db(3) [OF assms(1-4)] by simp
  moreover have "sizes t' = C" using static_eqD(1) [OF r(3)] by (simp add: make_standard_def mvbt_make_simps)
  ultimately show thesis using that tx r(2) by simp
qed

section \<open>Properties\<close>

text \<open>
  C1: one thread, no garbage collection: a transaction of reads and writes on a new tree (point reads,
  range reads that end below the largest key, inserts, updates, deletes), of any page sizes from
  seven on and with any index over the roots, returns; its results are, in order, those of the
  abstract operations on a multiversion map, each at a version of its own that is not before its
  predecessors'; and afterwards a point read at every version returns what the resulting history
  holds there.
\<close>

theorem transaction_refines_history:
  assumes "lib_laws L" and "root_laws L variant" and "roomy C" and "sizes_ok C"
    and "\<forall>op \<in> set ops. keyed (isolate (transaction_snapshot (transaction_new si ops)) op)" and "length ops \<le> OPS_MAX"
  shows "\<exists>rs t' Hs'. dispatch_transaction L dflt (transaction_new si ops) (make_standard L C variant m th)
        = Some (Inr (transaction_snapshot (transaction_new si ops), rs), t')
    \<and> explained (\<lambda>op. op_spec (isolate (transaction_snapshot (transaction_new si ops)) op)) START_VERSION ops (\<lambda>v. Map.empty)
        rs (current_version t') Hs'
    \<and> (\<forall>k. \<forall>v \<ge> START_VERSION. crud_point L k v t' = Some (MatchedRecords (point_result k (Hs' v k)), t'))"
proof -
  let ?si = "transaction_snapshot (transaction_new si ops)" and ?t = "make_standard L C variant m th"
  note d = new_tree_after [OF assms(1-4), of m th]
  have len: "0 + length ops \<le> OPS_MAX" using assms(6) by simp
  obtain rs t' Hs' where r: "dispatch_transaction L dflt (transaction_new si ops) ?t = Some (Inr (?si, rs), t')"
    "explained (\<lambda>op. op_spec (isolate ?si op)) (current_version ?t) ops (\<lambda>v. Map.empty) rs (current_version t') Hs'"
    "db_after L (0 + length ops) t' Hs'"
    by (rule transaction_ok [OF d assms(5) len])
  then show ?thesis using db_after_reads [OF r(3)] make_standard_db(3) [OF assms(1-4)] by auto
qed

lemma ref_tree_ready: "lib_laws ref_tree_lib" "root_laws ref_tree_lib TFrugalList" "roomy \<lparr>FAN_OUT = 8, NUM_RECORDS = 8\<rparr>"
  "sizes_ok \<lparr>FAN_OUT = 8, NUM_RECORDS = 8\<rparr>"
  using ref_tree_lib_laws ref_root_lib_ok(1) by (simp_all add: root_laws_def ref_tree_lib_def roomy_def sizes_ok_def)

theorem transaction_refines_history_witness:
  "\<exists>w t'. dispatch_transaction ref_tree_lib 0 (transaction_new None [Insert 5 50, PointSi 5])
      (make_standard ref_tree_lib \<lparr>FAN_OUT = 8, NUM_RECORDS = 8\<rparr> TFrugalList clock_new \<lparr>t_id = 0, reads_in_row = 0\<rparr>)
    = Some (Inr (U64_MAX, [Inserted w, MatchedRecords (point_result 5 (Some 50))]), t')"
proof -
  let ?ops = "[Insert 5 50, PointSi 5] :: (u64, u64) crud_operation list"
  have si: "transaction_snapshot (transaction_new None ?ops) = U64_MAX" by (simp add: transaction_snapshot_def transaction_new_def)
  have ok: "\<forall>op \<in> set ?ops. keyed (isolate (transaction_snapshot (transaction_new None ?ops)) op)" "length ?ops \<le> OPS_MAX"
    by (simp_all add: si START_VERSION_def)
  obtain rs t' Hs' where r: "dispatch_transaction ref_tree_lib 0 (transaction_new None ?ops)
      (make_standard ref_tree_lib \<lparr>FAN_OUT = 8, NUM_RECORDS = 8\<rparr> TFrugalList clock_new \<lparr>t_id = 0, reads_in_row = 0\<rparr>)
    = Some (Inr (U64_MAX, rs), t')"
    "explained (\<lambda>op. op_spec (isolate U64_MAX op)) START_VERSION ?ops (\<lambda>v. Map.empty) rs (current_version t') Hs'"
    using transaction_refines_history [OF ref_tree_ready ok, of 0 clock_new "\<lparr>t_id = 0, reads_in_row = 0\<rparr>"] unfolding si by blast
  have "\<exists>w. rs = [Inserted w, MatchedRecords (point_result 5 (Some 50))]"
    using r(2) by (auto elim!: explained_ConsE explained_NilE simp: op_spec_def same_result_def spec_insert_def spec_write_def max_version)
  then show ?thesis using r(1) by auto
qed

text \<open>
  C6: after a transaction on a new tree, a reader of the present (any version from the clock's on, and
  so the largest one) finds the map that the successful writes give in their order: an insert of a
  present key, an update and a delete of an absent one change nothing.
\<close>

theorem present_is_map_of_writes:
  assumes "lib_laws L" and "root_laws L variant" and "roomy C" and "sizes_ok C"
    and "\<forall>op \<in> set ops. keyed op" and "length ops \<le> OPS_MAX"
  shows "\<exists>rs t'. dispatch_transaction L dflt (transaction_new si ops) (make_standard L C variant m th)
        = Some (Inr (transaction_snapshot (transaction_new si ops), rs), t')
    \<and> (\<forall>k. \<forall>v \<ge> current_version t'. crud_point L k v t' = Some (MatchedRecords (point_result k (fold apply_op ops Map.empty k)), t'))"
proof -
  obtain rs t' Hs' where r: "dispatch_transaction L dflt (transaction_new si ops) (make_standard L C variant m th)
      = Some (Inr (transaction_snapshot (transaction_new si ops), rs), t')"
    "db_after L (length ops) t' Hs'" "sizes t' = C" "\<And>v. current_version t' \<le> v \<Longrightarrow> Hs' v = fold apply_op ops Map.empty"
    "START_VERSION \<le> current_version t'"
    by (rule transaction_present [OF assms, where dflt = dflt and si = si and m = m and th = th]) blast
  have "crud_point L k v t' = Some (MatchedRecords (point_result k (fold apply_op ops Map.empty k)), t')"
    if "current_version t' \<le> v" for k v
    using db_after_reads [OF r(2) order_trans [OF r(5) that]] r(4) [OF that] by simp
  then show ?thesis using r(1) by blast
qed

theorem present_is_map_of_writes_witness:
  "\<exists>rs t'. dispatch_transaction ref_tree_lib 0 (transaction_new None [Insert 5 50, Update 5 51, Insert 6 60, Delete 6])
      (make_standard ref_tree_lib \<lparr>FAN_OUT = 8, NUM_RECORDS = 8\<rparr> TFrugalList clock_new \<lparr>t_id = 0, reads_in_row = 0\<rparr>)
      = Some (Inr (U64_MAX, rs), t')
    \<and> crud_point ref_tree_lib 5 U64_MAX t' = Some (MatchedRecords (point_result 5 (Some 51)), t')
    \<and> crud_point ref_tree_lib 6 U64_MAX t' = Some (MatchedRecords [], t')"
proof -
  let ?ops = "[Insert 5 50, Update 5 51, Insert 6 60, Delete 6] :: (u64, u64) crud_operation list"
  have ok: "\<forall>op \<in> set ?ops. keyed op" "length ?ops \<le> OPS_MAX" by simp_all
  obtain rs t' where r: "dispatch_transaction ref_tree_lib 0 (transaction_new None ?ops)
      (make_standard ref_tree_lib \<lparr>FAN_OUT = 8, NUM_RECORDS = 8\<rparr> TFrugalList clock_new \<lparr>t_id = 0, reads_in_row = 0\<rparr>)
      = Some (Inr (transaction_snapshot (transaction_new None ?ops), rs), t')"
    "\<forall>k. \<forall>v \<ge> current_version t'. crud_point ref_tree_lib k v t' = Some (MatchedRecords (point_result k (fold apply_op ?ops Map.empty k)), t')"
    using present_is_map_of_writes [OF ref_tree_ready ok, of 0 None clock_new "\<lparr>t_id = 0, reads_in_row = 0\<rparr>"] by blast
  have "crud_point ref_tree_lib 5 U64_MAX t' = Some (MatchedRecords (point_result 5 (Some 51)), t')"
    "crud_point ref_tree_lib 6 U64_MAX t' = Some (MatchedRecords [], t')"
    using r(2) max_version [of "current_version t'"] by (simp_all add: point_result_def)
  then show ?thesis using r(1) by (auto simp: transaction_snapshot_def transaction_new_def)
qed

text \<open>
  C7: snapshots are isolated from later transactions: whatever a transaction of point reads and writes
  does to a tree that a transaction has built, a point read at any version before it started
  returns the same records afterwards.
\<close>

theorem snapshots_isolated:
  assumes "lib_laws L" and "root_laws L variant" and "roomy C" and "sizes_ok C"
    and "\<forall>op \<in> set ops. keyed (isolate (transaction_snapshot (transaction_new si ops)) op)"
    and "\<forall>op \<in> set later. keyed (isolate (transaction_snapshot (transaction_new si' later)) op)"
    and "length ops + length later \<le> OPS_MAX"
  shows "\<exists>r1 r2 t t'. dispatch_transaction L dflt (transaction_new si ops) (make_standard L C variant m th) = Some (Inr r1, t)
    \<and> dispatch_transaction L dflt (transaction_new si' later) t = Some (Inr r2, t')
    \<and> (\<forall>k v. START_VERSION \<le> v \<longrightarrow> v < current_version t \<longrightarrow>
         (\<exists>res. crud_point L k v t = Some (res, t) \<and> crud_point L k v t' = Some (res, t')))"
proof -
  let ?t = "make_standard L C variant m th"
  note d = new_tree_after [OF assms(1-4), of m th]
  have len: "0 + length ops \<le> OPS_MAX" "0 + length ops + length later \<le> OPS_MAX" using assms(7) by simp_all
  obtain rs t Hs where t: "dispatch_transaction L dflt (transaction_new si ops) ?t = Some (Inr (transaction_snapshot (transaction_new si ops), rs), t)"
    "explained (\<lambda>op. op_spec (isolate (transaction_snapshot (transaction_new si ops)) op)) (current_version ?t) ops (\<lambda>v. Map.empty)
       rs (current_version t) Hs"
    "db_after L (0 + length ops) t Hs"
    by (rule transaction_ok [OF d assms(5) len(1)])
  obtain rs' t' Hs' where t': "dispatch_transaction L dflt (transaction_new si' later) t
      = Some (Inr (transaction_snapshot (transaction_new si' later), rs'), t')"
    "explained (\<lambda>op. op_spec (isolate (transaction_snapshot (transaction_new si' later)) op)) (current_version t) later Hs
       rs' (current_version t') Hs'"
    "db_after L (0 + length ops + length later) t' Hs'"
    by (rule transaction_ok [OF t(3) assms(6) len(2)])
  have "crud_point L k v t = Some (MatchedRecords (point_result k (Hs v k)), t)
      \<and> crud_point L k v t' = Some (MatchedRecords (point_result k (Hs v k)), t')"
    if "START_VERSION \<le> v" "v < current_version t" for k v
    using db_after_reads [OF t(3) that(1)] db_after_reads [OF t'(3) that(1)] explained_past [OF t'(2) that(2)] by simp
  then show ?thesis using t(1) t'(1) by blast
qed

theorem snapshots_isolated_witness:
  "\<exists>r1 r2 t t' res. dispatch_transaction ref_tree_lib 0 (transaction_new None [Insert 5 50])
      (make_standard ref_tree_lib \<lparr>FAN_OUT = 8, NUM_RECORDS = 8\<rparr> TFrugalList clock_new \<lparr>t_id = 0, reads_in_row = 0\<rparr>) = Some (Inr r1, t)
    \<and> dispatch_transaction ref_tree_lib 0 (transaction_new None [Delete 5]) t = Some (Inr r2, t')
    \<and> crud_point ref_tree_lib 5 1 t = Some (res, t) \<and> crud_point ref_tree_lib 5 1 t' = Some (res, t')"
proof -
  let ?ops = "[Insert 5 50] :: (u64, u64) crud_operation list" and ?later = "[Delete 5] :: (u64, u64) crud_operation list"
    and ?t = "make_standard ref_tree_lib \<lparr>FAN_OUT = 8, NUM_RECORDS = 8\<rparr> TFrugalList clock_new \<lparr>t_id = 0, reads_in_row = 0\<rparr>
      :: (u64, u64) mvbt"
  have ok: "\<forall>op \<in> set ?ops. keyed (isolate (transaction_snapshot (transaction_new None ?ops)) op)"
    "\<forall>op \<in> set ?later. keyed (isolate (transaction_snapshot (transaction_new None ?later)) op)" "length ?ops + length ?later \<le> OPS_MAX"
    by simp_all
  obtain r1 r2 t t' where r: "dispatch_transaction ref_tree_lib 0 (transaction_new None ?ops) ?t = Some (Inr r1, t)"
    "dispatch_transaction ref_tree_lib 0 (transaction_new None ?later) t = Some (Inr r2, t')"
    "\<forall>k v. START_VERSION \<le> v \<longrightarrow> v < current_version t \<longrightarrow>
       (\<exists>res. crud_point ref_tree_lib k v t = Some (res, t) \<and> crud_point ref_tree_lib k v t' = Some (res, t'))"
    using snapshots_isolated [OF ref_tree_ready ok, of 0 clock_new "\<lparr>t_id = 0, reads_in_row = 0\<rparr>"] by blast
  have len: "0 + length ?ops \<le> OPS_MAX" by simp
  obtain rs u Hs where u: "dispatch_transaction ref_tree_lib 0 (transaction_new None ?ops) ?t
      = Some (Inr (transaction_snapshot (transaction_new None ?ops), rs), u)"
    "explained (\<lambda>op. op_spec (isolate (transaction_snapshot (transaction_new None ?ops)) op)) (current_version ?t) ?ops (\<lambda>v. Map.empty)
       rs (current_version u) Hs"
    by (rule transaction_ok [OF new_tree_after [OF ref_tree_ready] ok(1) len])
  have "t = u" using r(1) u(1) by simp
  moreover have "current_version ?t < current_version u"
    using u(2) by (auto elim!: explained_ConsE explained_NilE simp: op_spec_def same_result_def spec_insert_def)
  ultimately show ?thesis
    using r make_standard_db(3) [OF ref_tree_ready, of clock_new "\<lparr>t_id = 0, reads_in_row = 0\<rparr>"] by (fastforce simp: START_VERSION_def)
qed

text \<open>
  C11: an operation that the dispatch does not know ends a transaction with an error: the operations
  before it have been done and stay done (there is no roll-back), the ones behind it are handed
  back, and the results end with the error.
\<close>

theorem unknown_operation_ends_transaction:
  assumes "lib_laws L" and "root_laws L variant" and "roomy C" and "sizes_ok C" and "\<forall>op \<in> set ops. keyed op" and "length ops \<le> OPS_MAX"
  shows "\<exists>rs t' Hs'. dispatch_transaction L dflt (transaction_new si (ops @ Empty # rest)) (make_standard L C variant m th)
        = Some (Inl (transaction_new si rest, rs @ [Error]), t')
    \<and> explained op_spec START_VERSION ops (\<lambda>v. Map.empty) rs (current_version t') Hs'
    \<and> (\<forall>k. \<forall>v \<ge> START_VERSION. crud_point L k v t' = Some (MatchedRecords (point_result k (Hs' v k)), t'))"
proof -
  let ?si = "transaction_snapshot (transaction_new si (ops @ Empty # rest))" and ?t = "make_standard L C variant m th"
  have keyed: "\<forall>op \<in> set ops. keyed (isolate ?si op)" using assms(5) by (auto simp: isolate_keyed)
  have len: "0 + length ops \<le> OPS_MAX" using assms(6) by simp
  obtain rs t' Hs' where r: "dispatch_ops L dflt ?si (ops @ Empty # rest) [] ?t = dispatch_ops L dflt ?si (Empty # rest) ([] @ rs) t'"
    "explained (\<lambda>op. op_spec (isolate ?si op)) (current_version ?t) ops (\<lambda>v. Map.empty) rs (current_version t') Hs'"
    "db_after L (0 + length ops) t' Hs'"
    using transaction_runs [OF new_tree_after [OF assms(1-4)] keyed len] by blast
  have "dispatch_transaction L dflt (transaction_new si (ops @ Empty # rest)) ?t = Some (Inl (transaction_new si rest, rs @ [Error]), t')"
    using r(1) by (simp add: dispatch_transaction_def transaction_new_def transaction_snapshot_def snapshot_dispatch_crud_def crud_is_err_def)
  moreover have "explained op_spec START_VERSION ops (\<lambda>v. Map.empty) rs (current_version t') Hs'"
    using explained_cong [OF r(2), of op_spec] isolate_keyed [OF bspec [OF assms(5)]] make_standard_db(3) [OF assms(1-4)] by simp
  ultimately show ?thesis using db_after_reads [OF r(3)] by blast
qed

theorem unknown_operation_ends_transaction_witness:
  "\<exists>w t'. dispatch_transaction ref_tree_lib 0 (transaction_new None [Insert 5 50, Empty, Delete 5])
      (make_standard ref_tree_lib \<lparr>FAN_OUT = 8, NUM_RECORDS = 8\<rparr> TFrugalList clock_new \<lparr>t_id = 0, reads_in_row = 0\<rparr>)
    = Some (Inl (transaction_new None [Delete 5], [Inserted w, Error]), t')"
proof -
  let ?ops = "[Insert 5 50] :: (u64, u64) crud_operation list"
  have ok: "\<forall>op \<in> set ?ops. keyed op" "length ?ops \<le> OPS_MAX" by simp_all
  obtain rs t' Hs' where r: "dispatch_transaction ref_tree_lib 0 (transaction_new None (?ops @ Empty # [Delete 5]))
      (make_standard ref_tree_lib \<lparr>FAN_OUT = 8, NUM_RECORDS = 8\<rparr> TFrugalList clock_new \<lparr>t_id = 0, reads_in_row = 0\<rparr>)
    = Some (Inl (transaction_new None [Delete 5], rs @ [Error]), t')"
    "explained op_spec START_VERSION ?ops (\<lambda>v. Map.empty) rs (current_version t') Hs'"
    using unknown_operation_ends_transaction [OF ref_tree_ready ok] by blast
  have "\<exists>w. rs = [Inserted w]"
    using r(2) by (auto elim!: explained_ConsE explained_NilE simp: op_spec_def same_result_def spec_insert_def)
  then show ?thesis using r(1) by auto
qed

lemma found_point_result:
  assumes "found xs K M" and "K k"
  shows "filter (\<lambda>x. res_key x = k) xs = point_result k (M k)"
proof (cases "M k")
  case None
  then have "res_key x \<noteq> k" if "x \<in> set xs" for x
    using assms(1) that unfolding found_def by (metis (full_types) option.distinct(1) old.unit.exhaust record_point_result.surjective)
  then show ?thesis using None by (simp add: point_result_def filter_empty_conv)
next
  case (Some y)
  then have m: "\<lparr>res_key = k, res_payload = y\<rparr> \<in> set xs" using assms by (simp add: found_def)
  obtain as bs where xs: "xs = as @ \<lparr>res_key = k, res_payload = y\<rparr> # bs" using split_list [OF m] by blast
  then have "k \<notin> res_key ` set as" "k \<notin> res_key ` set bs" using assms(1) by (auto simp: found_def)
  then have "filter (\<lambda>x. res_key x = k) as = []" "filter (\<lambda>x. res_key x = k) bs = []" by (auto simp: filter_empty_conv)
  then show ?thesis using xs Some by (simp add: point_result_def)
qed

text \<open>
  C9: after a transaction on a new tree, a range read at any version, past or present, of a range that
  ends below the largest key, returns; no key is returned twice, every returned key is in the range,
  and for every key of the range it has exactly the records that a point read at that version
  returns.
\<close>

theorem range_reads_are_point_reads:
  assumes "lib_laws L" and "root_laws L variant" and "roomy C" and "sizes_ok C"
    and "\<forall>op \<in> set ops. keyed (isolate (transaction_snapshot (transaction_new si ops)) op)" and "length ops \<le> OPS_MAX"
    and "upper rng < U64_MAX" and "START_VERSION \<le> v"
  shows "\<exists>r t' xs t''. dispatch_transaction L dflt (transaction_new si ops) (make_standard L C variant m th) = Some (Inr r, t')
    \<and> crud_range L rng v t' = Some (MatchedRecords xs, t'') \<and> distinct (map res_key xs) \<and> list_all (\<lambda>x. contains rng (res_key x)) xs
    \<and> (\<forall>k. contains rng k \<longrightarrow> crud_point L k v t' = Some (MatchedRecords (filter (\<lambda>x. res_key x = k) xs), t'))"
proof -
  have len: "0 + length ops \<le> OPS_MAX" using assms(6) by simp
  obtain rs t' Hs' where r: "dispatch_transaction L dflt (transaction_new si ops) (make_standard L C variant m th)
      = Some (Inr (transaction_snapshot (transaction_new si ops), rs), t')" and d: "db_after L (0 + length ops) t' Hs'"
    by (rule transaction_ok [OF new_tree_after [OF assms(1-4)] assms(5) len])
  obtain xs t'' where xs: "crud_range L rng v t' = Some (MatchedRecords xs, t'')" "found xs (contains rng) (Hs' v)"
    using db_after_ranges [OF d assms(8,7)] by blast
  have "distinct (map res_key xs)" using xs(2) by (simp add: found_def)
  moreover have "list_all (\<lambda>x. contains rng (res_key x)) xs" using found_key [OF xs(2)] by (simp add: list_all_iff)
  ultimately show ?thesis using r xs(1) db_after_reads [OF d assms(8)] found_point_result [OF xs(2)] by fastforce
qed

theorem range_reads_are_point_reads_witness:
  "\<exists>r t' xs t''. dispatch_transaction ref_tree_lib 0 (transaction_new None [Insert 5 50, Insert 7 70])
      (make_standard ref_tree_lib \<lparr>FAN_OUT = 8, NUM_RECORDS = 8\<rparr> TFrugalList clock_new \<lparr>t_id = 0, reads_in_row = 0\<rparr>) = Some (Inr r, t')
    \<and> crud_range ref_tree_lib (interval_new 4 9) U64_MAX t' = Some (MatchedRecords xs, t'')
    \<and> crud_point ref_tree_lib 5 U64_MAX t' = Some (MatchedRecords (filter (\<lambda>x. res_key x = 5) xs), t')"
proof -
  let ?ops = "[Insert 5 50, Insert 7 70] :: (u64, u64) crud_operation list"
  have ok: "\<forall>op \<in> set ?ops. keyed (isolate (transaction_snapshot (transaction_new None ?ops)) op)" "length ?ops \<le> OPS_MAX"
    "upper (interval_new 4 9) < U64_MAX" "START_VERSION \<le> U64_MAX" by (simp_all add: START_VERSION_def)
  show ?thesis
    using range_reads_are_point_reads [OF ref_tree_ready ok, of 0 clock_new "\<lparr>t_id = 0, reads_in_row = 0\<rparr>"]
    by (fastforce simp: contains_def)
qed

end
