(* ===== verification/Shape.thy ===== *)
theory Shape
  imports Tx_Correct
begin

text \<open>
  The shape of the current tree: all leaves are equally deep, every node but the root is filled to a
  fifth at least, and so the height is logarithmic in the number of keys. The writer's descent
  returns on it.
\<close>

section \<open>Balance\<close>

text \<open>The current tree below \<open>a\<close>: the active entries, down to leaves at depth \<open>h\<close>.\<close>

fun balanced :: "nat \<Rightarrow> ('k::linorder, 'p) mvbt \<Rightarrow> addr \<Rightarrow> bool" where
  "balanced 0 t a \<longleftrightarrow> (case node_at t a of Some (NLeaf p) \<Rightarrow> True | _ \<Rightarrow> False)"
| "balanced (Suc h) t a \<longleftrightarrow> (case node_at t a of
       Some (NInternal p) \<Rightarrow> (case internal_entries p of
           Some es \<Rightarrow> active_entries es \<noteq> [] \<and> list_all (\<lambda>e. fill_min t (e_child e) \<and> balanced h t (e_child e)) (active_entries es)
         | None \<Rightarrow> False)
     | _ \<Rightarrow> False)"

lemma rep_balanced:
  assumes "rep h now t a F S M" and "nonempty F"
  shows "balanced h t a"
  using assms
proof (induction h arbitrary: a F S)
  case 0
  then show ?case by (auto simp: leaf_in_def leaf_at_node)
next
  case (Suc h)
  obtain es Sf where fam: "family h now t a F es Sf M" using family_of_rep [OF Suc.prems(1)] by metis
  obtain p where p: "node_at t a = Some (NInternal p)" "internal_entries p = Some es"
    using familyD(1) [OF fam] by (auto simp: index_in_def index_view_def)
  have "contains F (lower F)" using Suc.prems(2) by (simp add: contains_def)
  then have "active_entries es \<noteq> []"
    using index_okD(4) [OF familyD(2) [OF fam]] unfolding tiles_def by (auto simp del: set_filter)
  moreover have "fill_min t (e_child e) \<and> balanced h t (e_child e)" if "e \<in> set (active_entries es)" for e
    using entry_repD [OF familyD(5) [OF fam that]] Suc.IH by blast
  ultimately show ?case using p by (auto simp: list_all_iff)
qed

section \<open>Height\<close>

definition keys_in :: "'k::linorder interval \<Rightarrow> ('k \<rightharpoonup> 'p) \<Rightarrow> 'k set" where
  "keys_in F M = {k. contains F k \<and> M k \<noteq> None}"

lemma leaf_keys:
  assumes "rep 0 now t a F S M"
  shows "finite (keys_in F M)" and "card (keys_in F M) = acount t a"
proof -
  obtain rs where rs: "leaf_in t a rs" "leaf_part now F (live_records rs) M" using leaf_part_of_rep [OF assms] by metis
  have eq: "keys_in F M = set (map r_key (live_records rs))"
  proof (rule set_eqI)
    fix k
    show "k \<in> keys_in F M \<longleftrightarrow> k \<in> set (map r_key (live_records rs))"
      using rs(2) unfolding keys_in_def leaf_part_def agrees_def by auto
  qed
  then show "finite (keys_in F M)" by simp
  have "acount t a = length (live_records rs)" using leaf_in_counts [OF rs(1)] by metis
  then show "card (keys_in F M) = acount t a"
    unfolding eq using rs(2) distinct_card [of "map r_key (live_records rs)"] by (simp add: leaf_part_def)
qed

text \<open>A subtree of height \<open>h\<close> that is filled to a fifth has at least \<open>2 ^ (h + 1)\<close> keys.\<close>

lemma card_UN_ge:
  assumes "finite A" and "\<And>x. x \<in> A \<Longrightarrow> finite (B x) \<and> n \<le> card (B x)"
    and "\<And>x y. x \<in> A \<Longrightarrow> y \<in> A \<Longrightarrow> x \<noteq> y \<Longrightarrow> B x \<inter> B y = {}"
  shows "finite (\<Union>x \<in> A. B x)" and "card A * n \<le> card (\<Union>x \<in> A. B x)"
proof -
  show "finite (\<Union>x \<in> A. B x)" using assms by blast
  have "card (\<Union>x \<in> A. B x) = (\<Sum>x \<in> A. card (B x))" by (rule card_UN_disjoint) (use assms in auto)
  then show "card A * n \<le> card (\<Union>x \<in> A. B x)" using sum_bounded_below [of A n "\<lambda>x. card (B x)"] assms(2) by simp
qed

lemma family_keys:
  assumes fam: "family h now t a F es Sf M"
    and n: "\<And>e. e \<in> set (active_entries es) \<Longrightarrow> finite (keys_in (e_fence e) M) \<and> n \<le> card (keys_in (e_fence e) M)"
  shows "finite (keys_in F M)" and "acount t a * n \<le> card (keys_in F M)"
proof -
  let ?A = "set (active_entries es)"
  have eq: "keys_in F M = (\<Union>e \<in> ?A. keys_in (e_fence e) M)"
    using index_okD(4) [OF familyD(2) [OF fam]] unfolding tiles_def keys_in_def by blast
  have "keys_in (e_fence e) M \<inter> keys_in (e_fence f) M = {}" if "e \<in> ?A" "f \<in> ?A" "e \<noteq> f" for e f
    using index_partD(3) [OF familyD(3) [OF fam] that] not_overlap_contains unfolding keys_in_def by blast
  note c = card_UN_ge [of ?A, OF _ n this]
  show "finite (keys_in F M)" unfolding eq by (rule c(1)) simp_all
  have "card ?A = acount t a"
    using distinct_card [OF index_partD(1) [OF familyD(3) [OF fam]]] index_in_counts [OF familyD(1) [OF fam]] by metis
  then show "acount t a * n \<le> card (keys_in F M)" unfolding eq using c(2) by simp
qed

lemma subtree_keys:
  assumes "rep h now t a F S M" and "fill_min t a" and "roomy (sizes t)"
  shows "finite (keys_in F M) \<and> 2 ^ Suc h \<le> card (keys_in F M)"
  using assms(1,2)
proof (induction h arbitrary: a F S)
  case 0
  obtain nd where nd: "node_at t a = Some nd" "is_leaf nd \<longleftrightarrow> (0 :: nat) = 0" using rep_counts [OF 0(1)] by metis
  have "2 \<le> acount t a" using fill_min_eq [OF nd] 0(2) roomyD(1) [OF assms(3), of 0] unfolding fifth_def by linarith
  then show ?case using leaf_keys [OF 0(1)] by simp
next
  case (Suc h)
  obtain es Sf where fam: "family h now t a F es Sf M" using family_of_rep [OF Suc.prems(1)] by metis
  have n: "finite (keys_in (e_fence e) M) \<and> 2 ^ Suc h \<le> card (keys_in (e_fence e) M)" if "e \<in> set (active_entries es)" for e
    using Suc.IH entry_repD(4,5) [OF familyD(5) [OF fam that]] by blast
  obtain nd where nd: "node_at t a = Some nd" "is_leaf nd \<longleftrightarrow> Suc h = 0" using rep_counts [OF Suc.prems(1)] by metis
  have "2 \<le> acount t a" using fill_min_eq [OF nd] Suc.prems(2) roomyD(1) [OF assms(3), of "Suc h"] unfolding fifth_def by linarith
  then have "2 * 2 ^ Suc h \<le> acount t a * 2 ^ Suc h" by (rule mult_le_mono1)
  also have "\<dots> \<le> card (keys_in F M)" by (rule family_keys(2) [OF fam n])
  finally show ?case using family_keys(1) [OF fam n] by simp
qed

lemma tree_height:
  assumes r: "rep H now t r F S M" and F: "nonempty F" and C: "roomy (sizes t)" and H: "H \<noteq> 0"
  shows "2 ^ H \<le> card (keys_in F M)"
proof -
  obtain h where h: "H = Suc h" using H by (cases H) auto
  obtain es Sf where fam: "family h now t r F es Sf M" using family_of_rep [OF r [unfolded h]] by metis
  have n: "finite (keys_in (e_fence e) M) \<and> 2 ^ Suc h \<le> card (keys_in (e_fence e) M)" if "e \<in> set (active_entries es)" for e
    using subtree_keys [OF _ _ C] entry_repD(4,5) [OF familyD(5) [OF fam that]] by blast
  have "contains F (lower F)" using F by (simp add: contains_def)
  then have "1 \<le> acount t r" using inner_has_child [OF r _ H] by blast
  then have "1 * 2 ^ Suc h \<le> acount t r * 2 ^ Suc h" by (rule mult_le_mono1)
  also have "\<dots> \<le> card (keys_in F M)" by (rule family_keys(2) [OF fam n])
  finally show ?thesis using h by simp
qed

section \<open>Properties\<close>

lemma db_shape:
  assumes "db L n H t Hs" and "nonempty (whole t)"
  shows "\<exists>r. guard_block (l_root L) (root t) = Some r \<and> balanced H t r"
    and "H \<noteq> 0 \<Longrightarrow> 2 ^ H \<le> card {k. contains (whole t) k \<and> Hs (current_version t) k \<noteq> None}"
proof -
  obtain r S where st: "standing L n {} t H r S Hs" using assms(1) unfolding db_def by blast
  note d = standingD [OF st]
  have "guard_block (l_root L) (root t) = Some r"
    using ri_current [OF rootedD(1) [OF d(4)]] rootedD(3) [OF d(4)] by (simp add: guard_block_def)
  then show "\<exists>r. guard_block (l_root L) (root t) = Some r \<and> balanced H t r" using rep_balanced [OF d(5) assms(2)] by blast
  show "2 ^ H \<le> card {k. contains (whole t) k \<and> Hs (current_version t) k \<noteq> None}" if "H \<noteq> 0"
    using tree_height [OF d(5) assms(2) settingD(3) [OF d(2)] that] by (simp add: keys_in_def)
qed

text \<open>
  C4: after any transaction on a new tree the current tree is balanced: from the current root all
  leaves are at the same depth \<open>H\<close>, every node below the root is filled to a fifth at least, and the
  depth is logarithmic: a tree that is not a single leaf has at least \<open>2 ^ H\<close> present keys.
\<close>

theorem tree_stays_balanced:
  assumes "lib_laws L" and "root_laws L variant" and "roomy C" and "sizes_ok C" and "\<forall>op \<in> set ops. keyed op" and "length ops \<le> OPS_MAX"
  shows "\<exists>r t' H b. dispatch_transaction L dflt (transaction_new si ops) (make_standard L C variant m th) = Some (Inr r, t')
    \<and> guard_block (l_root L) (root t') = Some b \<and> balanced H t' b
    \<and> (if H = 0 then True else 2 ^ H \<le> card (dom (fold apply_op ops Map.empty)))"
proof -
  obtain rs t' Hs' where r: "dispatch_transaction L dflt (transaction_new si ops) (make_standard L C variant m th)
      = Some (Inr (transaction_snapshot (transaction_new si ops), rs), t')"
    "db_after L (length ops) t' Hs'" "sizes t' = C" "\<And>v. current_version t' \<le> v \<Longrightarrow> Hs' v = fold apply_op ops Map.empty"
    "START_VERSION \<le> current_version t'"
    by (rule transaction_present [OF assms, where dflt = dflt and si = si and m = m and th = th]) blast
  obtain n H where d: "db L n H t' Hs'" "\<And>k. contains (whole t') k" using r(2) unfolding db_after_def by blast
  have ne: "nonempty (whole t')" using d(2) [of 0] by (auto simp: contains_def)
  have M: "{k. contains (whole t') k \<and> Hs' (current_version t') k \<noteq> None} = dom (fold apply_op ops Map.empty)"
    using d(2) r(4) [OF order_refl] by (simp add: dom_def)
  obtain b where b: "guard_block (l_root L) (root t') = Some b" "balanced H t' b" using db_shape(1) [OF d(1) ne] by blast
  have "if H = 0 then True else 2 ^ H \<le> card (dom (fold apply_op ops Map.empty))" using db_shape(2) [OF d(1) ne] M by simp
  then show ?thesis using r(1) b by blast
qed

theorem tree_stays_balanced_witness:
  "\<exists>r t' H b. dispatch_transaction ref_tree_lib 0 (transaction_new None [Insert 5 50, Insert 6 60, Delete 5])
      (make_standard ref_tree_lib \<lparr>FAN_OUT = 8, NUM_RECORDS = 8\<rparr> TFrugalList clock_new \<lparr>t_id = 0, reads_in_row = 0\<rparr>) = Some (Inr r, t')
    \<and> guard_block (l_root ref_tree_lib) (root t') = Some b \<and> balanced H t' b"
proof -
  let ?ops = "[Insert 5 50, Insert 6 60, Delete 5] :: (u64, u64) crud_operation list"
  have ok: "\<forall>op \<in> set ?ops. keyed op" "length ?ops \<le> OPS_MAX" by simp_all
  show ?thesis using tree_stays_balanced [OF ref_tree_ready ok, of 0 None clock_new "\<lparr>t_id = 0, reads_in_row = 0\<rparr>"] by blast
qed

text \<open>
  C3: the descent of a writer ends: on a tree that a transaction has built, for every key, it returns a
  latched leaf that has room for a record, after at most one repair for every level, and every
  point read at every version returns the same records as before the descent.
\<close>

theorem writer_descent_returns:
  assumes "lib_laws L" and "root_laws L variant" and "roomy C" and "sizes_ok C"
    and "\<forall>op \<in> set ops. keyed (isolate (transaction_snapshot (transaction_new si ops)) op)" and "length ops < OPS_MAX"
  shows "\<exists>r t g t'. dispatch_transaction L dflt (transaction_new si ops) (make_standard L C variant m th) = Some (Inr r, t)
    \<and> traversal_write_olc L t key = Some (g, t') \<and> leaf_room t' (guard_addr g) \<and> (\<exists>v. g = Writer (guard_addr g) v)
    \<and> (\<forall>k. \<forall>v \<ge> START_VERSION. \<exists>res. crud_point L k v t = Some (res, t) \<and> crud_point L k v t' = Some (res, t'))"
proof -
  let ?t = "make_standard L C variant m th" and ?si = "transaction_snapshot (transaction_new si ops)"
  have len: "0 + length ops \<le> OPS_MAX" using assms(6) by simp
  obtain rs t Hs where r: "dispatch_transaction L dflt (transaction_new si ops) ?t = Some (Inr (?si, rs), t)"
    and d: "db_after L (0 + length ops) t Hs"
    by (rule transaction_ok [OF new_tree_after [OF assms(1-4)] assms(5) len])
  obtain n H where b: "db L n H t Hs" "H \<le> length ops" "n \<le> 3 * length ops * length ops + 6 * length ops"
    "unat (current_version t) \<le> 1 + length ops * length ops + 3 * length ops" and k: "\<And>k. contains (whole t) k"
    using d unfolding db_after_def by auto
  have c: "n + 3 * H + 5 < 2 ^ 62" "unat (current_version t) + H + 2 < 2 ^ 63"
    using db_after_capacity [OF b assms(6)] by (auto simp: capacity_def)
  obtain q S where st: "standing L n {} t H q S Hs" using b(1) unfolding db_def by blast
  obtain g t' H' r' where t': "traversal_write_olc L t key = Some (g, t')" "H' \<le> Suc H"
    "at_node L (n + 3 * H + 5) t' H' r' Hs key 0 g {guard_addr g}" "entered 0 t' r' (guard_addr g)"
    "current_version t \<le> current_version t'" "unat (current_version t') \<le> unat (current_version t) + H + 2" "static t' = static t"
    by (rule traversal_ok [OF st c k])
  obtain S' where st': "standing L (n + 3 * H + 5) {guard_addr g} t' H' r' S' Hs" and g: "holds t' {guard_addr g} g"
    using t'(3) unfolding at_node_def by blast
  have room: "leaf_room t' (guard_addr g)"
    using at_leaf [OF t'(3,4)] leaf_view_length leaf_at_node unfolding leaf_room_def by (metis option.simps(5))
  have w: "\<exists>v. g = Writer (guard_addr g) v" using g by (cases g) auto
  have "crud_point L j v t = Some (MatchedRecords (point_result j (Hs v j)), t)
      \<and> crud_point L j v t' = Some (MatchedRecords (point_result j (Hs v j)), t')" if "START_VERSION \<le> v" for j v
    using standing_point [OF st that k] standing_point [OF st' that] k whole_static [OF t'(7)] by simp
  then show ?thesis using r t'(1) room w by blast
qed

theorem writer_descent_returns_witness:
  "\<exists>r t g t'. dispatch_transaction ref_tree_lib 0 (transaction_new None [Insert 5 50])
      (make_standard ref_tree_lib \<lparr>FAN_OUT = 8, NUM_RECORDS = 8\<rparr> TFrugalList clock_new \<lparr>t_id = 0, reads_in_row = 0\<rparr>) = Some (Inr r, t)
    \<and> traversal_write_olc ref_tree_lib t 7 = Some (g, t') \<and> leaf_room t' (guard_addr g)"
proof -
  let ?ops = "[Insert 5 50] :: (u64, u64) crud_operation list"
  have ok: "\<forall>op \<in> set ?ops. keyed (isolate (transaction_snapshot (transaction_new None ?ops)) op)" "length ?ops < OPS_MAX"
    by simp_all
  show ?thesis
    using writer_descent_returns [OF ref_tree_ready ok, of 0 clock_new "\<lparr>t_id = 0, reads_in_row = 0\<rparr>" 7] by blast
qed

text \<open>A tree with more keys than a leaf has slots has an internal root.\<close>

lemma db_not_leaf:
  assumes d: "db L n H t Hs" and k: "NUM_RECORDS (sizes t) < card {k. contains (whole t) k \<and> Hs (current_version t) k \<noteq> None}"
  shows "H \<noteq> 0"
proof
  assume "H = 0"
  then obtain r S where r: "rep 0 (current_version t) t r (whole t) S (Hs (current_version t))"
    using d standingD(5) unfolding db_def by blast
  obtain rs where rs: "leaf_in t r rs" using leaf_part_of_rep [OF r] by metis
  have "acount t r \<le> length rs" using leaf_in_counts [OF rs] by (metis length_filter_le)
  also have "\<dots> \<le> NUM_RECORDS (sizes t)" using rs leaf_view_cap unfolding leaf_in_def by metis
  finally show False using leaf_keys(2) [OF r] k by (simp add: keys_in_def)
qed



end
