(* ===== verification/Version_Chain.thy ===== *)
theory Version_Chain
  imports Frugal_Root
begin

text \<open>
  The version-list tree of \<^verbatim>\<open>dexa\<close> keeps, for every key, all versions of its payload in a version
  index. This theory has what a version index promises, as a locale, and two of its kinds: the
  plain list of \<^verbatim>\<open>dexa/mvb_version_index/vanilla.rs\<close> and the list with skip pointers of
  \<^verbatim>\<open>dexa/mvb_version_index/frugal.rs\<close>. In the first an entry has a deletion version, in the second a
  deletion is an entry of its own without a payload (a tombstone).
\<close>

lemma find_snoc: "List.find P (xs @ [x]) = (case List.find P xs of Some y \<Rightarrow> Some y | None \<Rightarrow> if P x then Some x else None)"
  by (induction xs) auto

lemma rfind_Cons: "rfind P (x # xs) = (case rfind P xs of Some y \<Rightarrow> Some y | None \<Rightarrow> if P x then Some x else None)"
  by (simp add: rfind_def find_snoc)

section \<open>The interface\<close>

text \<open>
  \<open>lookup s v\<close> is the payload that a reader of the version \<open>v\<close> finds; \<open>good now s\<close> says that \<open>s\<close> is
  well-formed and everything in it is older than \<open>now\<close>. Storing and removing change the present and
  the future only, whatever the choice \<open>c\<close> (a coin toss) they make.
\<close>

locale version_chain =
  fixes lookup :: "'s \<Rightarrow> version \<Rightarrow> 'p option"
    and store :: "'c \<Rightarrow> version \<Rightarrow> 'p \<Rightarrow> 's \<Rightarrow> 's option"
    and remove :: "'c \<Rightarrow> version \<Rightarrow> 's \<Rightarrow> 's option"
    and alive :: "'s \<Rightarrow> bool"
    and good :: "version \<Rightarrow> 's \<Rightarrow> bool"
  assumes store_ok: "good now s \<Longrightarrow> now \<le> w \<Longrightarrow> w < VERSION_LIMIT \<Longrightarrow>
      \<exists>s'. store c w p s = Some s' \<and> good (w + 1) s' \<and> (\<forall>v < VERSION_LIMIT. lookup s' v = (if w \<le> v then Some p else lookup s v))"
    and remove_ok: "good now s \<Longrightarrow> now \<le> w \<Longrightarrow> w < VERSION_LIMIT \<Longrightarrow>
      \<exists>s'. remove c w s = Some s' \<and> good (w + 1) s' \<and> (\<forall>v < VERSION_LIMIT. lookup s' v = (if w \<le> v then None else lookup s v))"
    and alive_iff: "good now s \<Longrightarrow> now \<le> v \<Longrightarrow> v < VERSION_LIMIT \<Longrightarrow> alive s \<longleftrightarrow> lookup s v \<noteq> None"
begin

text \<open>One write, of a payload or of its removal, and a sequence of them.\<close>

definition put :: "'c \<Rightarrow> version \<Rightarrow> 'p option \<Rightarrow> 's \<Rightarrow> 's option" where
  "put c w x s = (case x of Some p \<Rightarrow> store c w p s | None \<Rightarrow> remove c w s)"

lemma put_ok:
  assumes "good now s" and "now \<le> w" and "w < VERSION_LIMIT"
  shows "\<exists>s'. put c w x s = Some s' \<and> good (w + 1) s' \<and> (\<forall>v < VERSION_LIMIT. lookup s' v = (if w \<le> v then x else lookup s v))"
proof (cases x)
  case None
  show ?thesis using remove_ok [OF assms, of c] unfolding None put_def by simp
next
  case (Some p)
  show ?thesis using store_ok [OF assms, of c p] unfolding Some put_def by simp
qed

primrec replay :: "('c \<times> version \<times> 'p option) list \<Rightarrow> 's \<Rightarrow> 's option" where
  "replay [] s = Some s"
| "replay (e # es) s = Option.bind (put (fst e) (fst (snd e)) (snd (snd e)) s) (replay es)"

text \<open>
  After writes at increasing versions a reader of a version finds what the last write not after
  that version has left.
\<close>

lemma replay_ok:
  assumes "good now s" and "sorted_wrt (<) (map (fst \<circ> snd) es)"
    and "\<forall>e \<in> set es. now \<le> fst (snd e) \<and> fst (snd e) < VERSION_LIMIT"
  shows "\<exists>s' now'. replay es s = Some s' \<and> good now' s'
    \<and> (\<forall>v < VERSION_LIMIT. lookup s' v = (case rfind (\<lambda>e. fst (snd e) \<le> v) es of Some e \<Rightarrow> snd (snd e) | None \<Rightarrow> lookup s v))"
  using assms
proof (induction es arbitrary: now s)
  case Nil
  then show ?case by auto
next
  case (Cons e es)
  obtain c w x where e: "e = (c, w, x)" by (cases e)
  obtain s1 where s1: "put c w x s = Some s1" "good (w + 1) s1"
    "\<forall>v < VERSION_LIMIT. lookup s1 v = (if w \<le> v then x else lookup s v)"
    using put_ok [OF Cons.prems(1), of w c x] Cons.prems(3) e by auto
  have "\<forall>f \<in> set es. w + 1 \<le> fst (snd f) \<and> fst (snd f) < VERSION_LIMIT"
    using Cons.prems(2,3) e by (auto intro!: inc_le)
  then obtain s' now' where s': "replay es s1 = Some s'" "good now' s'"
    "\<forall>v < VERSION_LIMIT. lookup s' v = (case rfind (\<lambda>e. fst (snd e) \<le> v) es of Some e \<Rightarrow> snd (snd e) | None \<Rightarrow> lookup s1 v)"
    using Cons.IH [OF s1(2)] Cons.prems(2) by auto
  then show ?case using s1 e by (auto simp: rfind_Cons split: option.splits)
qed

end

section \<open>The plain list\<close>

text \<open>The entries from the newest to the oldest; an empty list is the null pointer.\<close>

record 'p versioned_entry =
  ve_payload :: 'p
  ve_insert :: version
  ve_del :: version

type_synonym 'p version_list = "'p versioned_entry list"

definition vl_new :: "'p \<Rightarrow> version \<Rightarrow> version option \<Rightarrow> 'p version_list" where
  "vl_new payload ins_version del =
     [\<lparr>ve_payload = payload, ve_insert = ins_version, ve_del = (case del of Some d \<Rightarrow> d | None \<Rightarrow> U64_MAX)\<rparr>]"

text \<open>The outer \<open>None\<close> is the null head.\<close>

fun vl_find :: "'p version_list \<Rightarrow> version \<Rightarrow> 'p versioned_entry option option" where
  "vl_find [] version = None"
| "vl_find [e] version = Some (if ve_insert e \<le> version \<and> ve_del e > version then Some e else None)"
| "vl_find (e # e' # es) version =
     (if ve_insert e \<le> version \<and> ve_del e > version then Some (Some e) else vl_find (e' # es) version)"

definition vl_append :: "version \<Rightarrow> 'p \<Rightarrow> 'p version_list \<Rightarrow> 'p version_list option" where
  "vl_append ins_version payload es =
     (case es of
        [] \<Rightarrow> None
      | head # rest \<Rightarrow>
          Some (\<lparr>ve_payload = payload, ve_insert = ins_version, ve_del = U64_MAX\<rparr>
            # (if ve_del head = U64_MAX then head\<lparr>ve_del := ins_version\<rparr> else head) # rest))"

definition vl_push :: "version \<Rightarrow> 'p \<Rightarrow> 'p version_list \<Rightarrow> 'p version_list option" where
  "vl_push ins_version payload es = vl_append ins_version payload es"

definition vl_delete :: "version \<Rightarrow> 'p version_list \<Rightarrow> 'p version_list option" where
  "vl_delete del_version es =
     (case es of
        [] \<Rightarrow> None
      | head # rest \<Rightarrow>
          Some ((if ve_insert head < del_version \<and> ve_del head = U64_MAX then head\<lparr>ve_del := del_version\<rparr> else head) # rest))"

definition vl_is_live :: "'p version_list \<Rightarrow> bool option" where
  "vl_is_live es = (case es of [] \<Rightarrow> None | head # _ \<Rightarrow> Some (ve_del head = U64_MAX))"

definition vl_newest_payload :: "'p version_list \<Rightarrow> 'p option" where
  "vl_newest_payload es = (case es of [] \<Rightarrow> None | head # _ \<Rightarrow> Some (ve_payload head))"

text \<open>\<open>VersionListIterator\<close>: the entries from the head on.\<close>

fun vl_iter :: "'p version_list \<Rightarrow> ('p \<times> version \<times> version) list option" where
  "vl_iter [] = None"
| "vl_iter [e] = Some [(ve_payload e, ve_insert e, ve_del e)]"
| "vl_iter (e # e' # es) = map_option ((#) (ve_payload e, ve_insert e, ve_del e)) (vl_iter (e' # es))"

definition vl_len :: "'p version_list \<Rightarrow> usize option" where
  "vl_len es = map_option length (vl_iter es)"

text \<open>\<open>Clone\<close>: the entries are rebuilt from the oldest to the newest.\<close>

definition vl_clone :: "'p version_list \<Rightarrow> 'p version_list option" where
  "vl_clone es = map_option
     (\<lambda>xs. fold (\<lambda>(p, i, d) head. \<lparr>ve_payload = p, ve_insert = i, ve_del = d\<rparr> # head) (rev xs) []) (vl_iter es)"

text \<open>The lifespans are proper and follow each other; only the newest one may be open.\<close>

definition entry_ok :: "version \<Rightarrow> 'p versioned_entry \<Rightarrow> bool" where
  "entry_ok now e \<longleftrightarrow> ve_insert e < now \<and> (ve_del e = U64_MAX \<or> ve_del e < now)"

definition vl_ok :: "version \<Rightarrow> 'p version_list \<Rightarrow> bool" where
  "vl_ok now es \<longleftrightarrow> es \<noteq> [] \<and> now \<le> VERSION_LIMIT \<and> (\<forall>e \<in> set es. entry_ok now e)
     \<and> sorted_wrt (\<lambda>e f. ve_del f \<le> ve_insert e) es"

definition vl_lookup :: "'p version_list \<Rightarrow> version \<Rightarrow> 'p option" where
  "vl_lookup es v = (case vl_find es v of Some (Some e) \<Rightarrow> Some (ve_payload e) | _ \<Rightarrow> None)"

lemma vl_find_eq: "es \<noteq> [] \<Longrightarrow> vl_find es v = Some (List.find (\<lambda>e. ve_insert e \<le> v \<and> v < ve_del e) es)"
  by (induction es v rule: vl_find.induct) auto

lemma vl_lookup_eq:
  "vl_lookup es v = map_option ve_payload (List.find (\<lambda>e. ve_insert e \<le> v \<and> v < ve_del e) es)"
  by (cases "es = []") (auto simp: vl_lookup_def vl_find_eq split: option.splits)

lemma below_max: "(v :: u64) < VERSION_LIMIT \<Longrightarrow> v < U64_MAX"
  by (erule order.strict_trans) (simp add: word_less_nat_alt)

text \<open>A closed lifespan before \<open>now\<close> hides nothing that is read from \<open>now\<close> on.\<close>

lemma vl_find_old:
  assumes "\<forall>e \<in> set es. ve_del e < now" and "now \<le> v"
  shows "List.find (\<lambda>e. ve_insert e \<le> v \<and> v < ve_del e) es = None"
  using assms by (force simp: find_None_iff)

lemma vl_ok_Cons:
  "vl_ok now (e # es) \<longleftrightarrow> now \<le> VERSION_LIMIT \<and> entry_ok now e \<and> (\<forall>f \<in> set es. ve_del f \<le> ve_insert e)
     \<and> (es = [] \<or> vl_ok now es)"
  by (auto simp: vl_ok_def)

lemma vl_older: "vl_ok now (e # es) \<Longrightarrow> f \<in> set es \<Longrightarrow> ve_del f < now"
  by (auto simp: vl_ok_def entry_ok_def intro: order_le_less_trans)

lemma entry_ok_mono: "entry_ok now e \<Longrightarrow> now \<le> now' \<Longrightarrow> entry_ok now' e"
  by (auto simp: entry_ok_def)

lemma vl_ok_mono: "vl_ok now es \<Longrightarrow> now \<le> now' \<Longrightarrow> now' \<le> VERSION_LIMIT \<Longrightarrow> vl_ok now' es"
  by (auto simp: vl_ok_def intro: entry_ok_mono)

text \<open>Closing the head at \<open>w\<close> leaves every reader before \<open>w\<close> what it had.\<close>

definition closed_at :: "version \<Rightarrow> 'p versioned_entry \<Rightarrow> 'p versioned_entry" where
  "closed_at w e = (if ve_del e = U64_MAX then e\<lparr>ve_del := w\<rparr> else e)"

lemma closed_at_ok:
  assumes "vl_ok now (e # es)" and "now \<le> w" and "w < VERSION_LIMIT"
  shows "vl_ok (w + 1) (closed_at w e # es)" and "ve_del (closed_at w e) \<le> w"
    and "v < w \<Longrightarrow> vl_lookup (closed_at w e # es) v = vl_lookup (e # es) v"
    and "w \<le> v \<Longrightarrow> vl_lookup (closed_at w e # es) v = None"
proof -
  note w = version_step [OF assms(3)] inc_le [OF assms(3)]
  have e: "entry_ok now e" using assms(1) by (simp add: vl_ok_Cons)
  then show d: "ve_del (closed_at w e) \<le> w" using assms(2) by (auto simp: closed_at_def entry_ok_def)
  have "entry_ok (w + 1) (closed_at w e)" using e assms(2) w by (auto simp: closed_at_def entry_ok_def)
  moreover have "ve_insert (closed_at w e) = ve_insert e" by (simp add: closed_at_def)
  ultimately show "vl_ok (w + 1) (closed_at w e # es)"
    using assms(1,2) w by (auto simp: vl_ok_Cons intro: vl_ok_mono)
  show "vl_lookup (closed_at w e # es) v = vl_lookup (e # es) v" if "v < w"
    using that below_max [of v] assms(3) by (auto simp: vl_lookup_eq closed_at_def)
  show "vl_lookup (closed_at w e # es) v = None" if "w \<le> v"
    using vl_find_old [of es now v] vl_older [OF assms(1)] assms(2) d that by (auto simp: vl_lookup_eq)
qed

lemma vl_push_ok:
  assumes "vl_ok now es" and "now \<le> w" and "w < VERSION_LIMIT"
  shows "\<exists>es'. vl_push w p es = Some es' \<and> vl_ok (w + 1) es'
    \<and> (\<forall>v < VERSION_LIMIT. vl_lookup es' v = (if w \<le> v then Some p else vl_lookup es v))"
proof -
  obtain e rest where es: "es = e # rest" using assms(1) by (cases es) (auto simp: vl_ok_def)
  note c = closed_at_ok [OF assms(1) [unfolded es] assms(2,3)]
  let ?new = "\<lparr>ve_payload = p, ve_insert = w, ve_del = U64_MAX\<rparr>"
  have "vl_push w p es = Some (?new # closed_at w e # rest)"
    by (simp add: vl_push_def vl_append_def es closed_at_def)
  moreover have "entry_ok (w + 1) ?new" using version_step [OF assms(3)] by (simp add: entry_ok_def)
  then have "vl_ok (w + 1) (?new # closed_at w e # rest)"
    using c(1,2) inc_le [OF assms(3)] vl_older [OF assms(1) [unfolded es]] assms(2)
    by (auto simp: vl_ok_Cons [of _ ?new] intro!: order.trans [OF less_imp_le assms(2)])
  moreover have "vl_lookup (?new # closed_at w e # rest) v = (if w \<le> v then Some p else vl_lookup es v)"
    if "v < VERSION_LIMIT" for v
    using c(3) [of v] below_max [OF that] es by (auto simp: vl_lookup_eq)
  ultimately show ?thesis by blast
qed

lemma vl_delete_ok:
  assumes "vl_ok now es" and "now \<le> w" and "w < VERSION_LIMIT"
  shows "\<exists>es'. vl_delete w es = Some es' \<and> vl_ok (w + 1) es'
    \<and> (\<forall>v < VERSION_LIMIT. vl_lookup es' v = (if w \<le> v then None else vl_lookup es v))"
proof -
  obtain e rest where es: "es = e # rest" using assms(1) by (cases es) (auto simp: vl_ok_def)
  have "ve_insert e < w" using assms(1,2) es by (auto simp: vl_ok_Cons entry_ok_def)
  then have "vl_delete w es = Some (closed_at w e # rest)"
    by (simp add: vl_delete_def es closed_at_def)
  then show ?thesis using closed_at_ok [OF assms(1) [unfolded es] assms(2,3)] es by auto
qed

lemma vl_alive:
  assumes "vl_ok now es" and "now \<le> v" and "v < VERSION_LIMIT"
  shows "vl_is_live es = Some True \<longleftrightarrow> vl_lookup es v \<noteq> None"
proof -
  obtain e rest where es: "es = e # rest" using assms(1) by (cases es) (auto simp: vl_ok_def)
  have "entry_ok now e" using assms(1) es by (simp add: vl_ok_Cons)
  then show ?thesis
    using vl_find_old [of rest now v] vl_older [OF assms(1) [unfolded es]] assms(2) below_max [OF assms(3)]
    by (auto simp: vl_is_live_def es vl_lookup_eq entry_ok_def)
qed

interpretation vanilla: version_chain vl_lookup "\<lambda>_ :: unit. vl_push" "\<lambda>_. vl_delete" "\<lambda>es. vl_is_live es = Some True" vl_ok
  by unfold_locales (rule vl_push_ok vl_delete_ok vl_alive; assumption)+

lemma vl_iter_eq: "es \<noteq> [] \<Longrightarrow> vl_iter es = Some (map (\<lambda>e. (ve_payload e, ve_insert e, ve_del e)) es)"
  by (induction es rule: vl_iter.induct) auto

text \<open>A clone keeps every entry with its deletion version.\<close>

lemma vl_clone_eq: "es \<noteq> [] \<Longrightarrow> vl_clone es = Some es"
proof -
  have "fold (\<lambda>(p, i, d) head. \<lparr>ve_payload = p, ve_insert = i, ve_del = d\<rparr> # head)
      (rev (map (\<lambda>e. (ve_payload e, ve_insert e, ve_del e)) xs)) [] = xs" for xs :: "'a version_list"
    by (induction xs) auto
  then show "es \<noteq> [] \<Longrightarrow> vl_clone es = Some es" by (simp add: vl_clone_def vl_iter_eq)
qed

section \<open>The list with skip pointers\<close>

text \<open>
  The nodes, the walk to the target of a new tower and the walk of a lookup are those of the index
  over the roots; here a node's payload may be missing. A tower grows by one level over the head,
  and only one coin is tossed for an entry: \<open>toss\<close>, its outcome, is a parameter. The level of the
  sentinel wraps around to the flat level when a tower is put on it.
\<close>

type_synonym 'p frugal_list = "'p option frugal_node"

definition fl_is_live :: "'p frugal_list \<Rightarrow> bool" where
  "fl_is_live head \<longleftrightarrow> fn_payload head \<noteq> None"

definition fl_new :: "'p \<Rightarrow> version \<Rightarrow> 'p frugal_list" where
  "fl_new payload ins_version = FrugalNode None None (Some payload) ins_version SENTINEL_LEVEL"

definition fl_append_next :: "'p option \<Rightarrow> version \<Rightarrow> 'p frugal_list \<Rightarrow> 'p frugal_list" where
  "fl_append_next payload ins_version head =
     FrugalNode (Some head) (Some head) payload ins_version FLAT_LEVEL"

definition fl_append_tower :: "'p option \<Rightarrow> version \<Rightarrow> 'p frugal_list \<Rightarrow> 'p frugal_list option" where
  "fl_append_tower payload ins_version head =
     (let new_tower_level = fn_level head + 1
      in map_option (\<lambda>k. FrugalNode (Some head) (Some k) payload ins_version new_tower_level)
           (tower_target head new_tower_level))"

definition fl_append :: "bool \<Rightarrow> 'p option \<Rightarrow> version \<Rightarrow> 'p frugal_list \<Rightarrow> 'p frugal_list option" where
  "fl_append toss payload ins_version head =
     (if toss then fl_append_tower payload ins_version head
      else Some (fl_append_next payload ins_version head))"

definition fl_push :: "bool \<Rightarrow> 'p option \<Rightarrow> version \<Rightarrow> 'p frugal_list \<Rightarrow> 'p frugal_list option" where
  "fl_push toss payload ins_version head = fl_append toss payload ins_version head"

definition fl_delete :: "bool \<Rightarrow> version \<Rightarrow> 'p frugal_list \<Rightarrow> 'p frugal_list option" where
  "fl_delete toss ins_version head =
     (if fl_is_live head then fl_append toss None ins_version head else Some head)"

definition fl_find_from :: "'p frugal_list \<Rightarrow> version \<Rightarrow> bool \<Rightarrow> 'p frugal_list option option" where
  "fl_find_from head look_up_version allow_tombstone =
     map_option (\<lambda>found. case found of
         Some n \<Rightarrow> if allow_tombstone \<or> fl_is_live n then Some n else None
       | None \<Rightarrow> None) (find_from head look_up_version)"

definition fl_find :: "'p frugal_list \<Rightarrow> version \<Rightarrow> 'p frugal_list option option" where
  "fl_find head look_up_version = fl_find_from head look_up_version False"

definition fl_find_any :: "'p frugal_list \<Rightarrow> version \<Rightarrow> 'p frugal_list option option" where
  "fl_find_any head look_up_version = fl_find_from head look_up_version True"

text \<open>\<open>newest_payload\<close>: \<open>None\<close> is the \<open>unwrap\<close> of a tombstone.\<close>

definition fl_newest_payload :: "'p frugal_list \<Rightarrow> 'p option" where
  "fl_newest_payload head = fn_payload head"

text \<open>\<open>FrugalVersionIterator\<close>: along \<open>next\<close>, without the tombstones.\<close>

fun fl_iter :: "'p frugal_list \<Rightarrow> 'p frugal_list list" where
  "fl_iter (FrugalNode n r p v l) =
     (let rest = (case n of Some m \<Rightarrow> fl_iter m | None \<Rightarrow> [])
      in if p = None then rest else FrugalNode n r p v l # rest)"

definition fl_len :: "'p frugal_list \<Rightarrow> usize" where
  "fl_len head = length (fl_iter head)"

text \<open>\<open>Clone\<close>: the last entry starts a new list, the others are appended from the oldest on.\<close>

fun fl_append_all :: "(nat \<Rightarrow> bool) \<Rightarrow> ('p option \<times> version) list \<Rightarrow> 'p frugal_list \<Rightarrow> 'p frugal_list option" where
  "fl_append_all tosses [] head = Some head"
| "fl_append_all tosses ((payload, version) # items) head =
     Option.bind (fl_append (tosses 0) payload version head) (fl_append_all (\<lambda>i. tosses (Suc i)) items)"

definition fl_clone :: "(nat \<Rightarrow> bool) \<Rightarrow> 'p frugal_list \<Rightarrow> 'p frugal_list option" where
  "fl_clone tosses head =
     (let items = map (\<lambda>n. (fn_payload n, fn_version n)) (frugal_iter head)
      in case last items of
           (Some p, v) \<Rightarrow> fl_append_all tosses (rev (butlast items)) (fl_new p v)
         | (None, _) \<Rightarrow> None)"

text \<open>What a list holds, and what a reader of a version finds.\<close>

definition fl_entries :: "'p frugal_list \<Rightarrow> ('p option \<times> version) list" where
  "fl_entries head = map (\<lambda>n. (fn_payload n, fn_version n)) (frugal_iter head)"

definition fl_lookup :: "'p frugal_list \<Rightarrow> version \<Rightarrow> 'p option" where
  "fl_lookup head v = (case fl_find head v of Some (Some n) \<Rightarrow> fn_payload n | _ \<Rightarrow> None)"

text \<open>
  Besides the shape of the list: the versions go down strictly, a tower is not higher than the
  version of its entry, and the oldest entry is no tombstone.
\<close>

definition fl_ok :: "version \<Rightarrow> 'p frugal_list \<Rightarrow> bool" where
  "fl_ok now head \<longleftrightarrow> frugal_ok head \<and> now \<le> VERSION_LIMIT \<and> fn_version head < now
     \<and> (fn_next head \<noteq> None \<longrightarrow> fn_level head \<le> fn_version head)
     \<and> sorted_wrt (\<lambda>e f. snd f < snd e) (fl_entries head) \<and> fst (last (fl_entries head)) \<noteq> None"

lemma fl_find_from_eq:
  "frugal_ok n \<Longrightarrow> fl_find_from n v tomb =
     Some (case List.find (\<lambda>m. fn_version m \<le> v) (frugal_iter n) of
         Some m \<Rightarrow> if tomb \<or> fl_is_live m then Some m else None
       | None \<Rightarrow> None)"
  by (simp add: fl_find_from_def find_from_correct)

lemma find_map: "List.find P (map f xs) = map_option f (List.find (P \<circ> f) xs)"
  by (induction xs) auto

lemma fl_lookup_eq:
  "frugal_ok n \<Longrightarrow> fl_lookup n v = Option.bind (List.find (\<lambda>e. snd e \<le> v) (fl_entries n)) fst"
  by (auto simp: fl_lookup_def fl_find_def fl_find_from_eq fl_entries_def find_map comp_def fl_is_live_def
      split: option.splits)

lemma fl_iter_eq: "fl_iter n = filter fl_is_live (frugal_iter n)"
  by (induction n rule: frugal_iter.induct) (simp_all add: fl_is_live_def Let_def)

lemma fl_entries_hd: "hd (fl_entries n) = (fn_payload n, fn_version n)"
  by (simp add: fl_entries_def hd_map frugal_iter_hd)

lemma fl_entries_ne [simp]: "fl_entries n \<noteq> []"
  by (simp add: fl_entries_def)

lemma sentinel_wraps: "SENTINEL_LEVEL + 1 = 0"
  by (simp add: SENTINEL_LEVEL_def word_eq_iff_unsigned unsigned_of_nat)

text \<open>The level of a new tower is below the sentinel's.\<close>

lemma fl_level:
  assumes "fl_ok now n" and "now \<le> w" and "w < VERSION_LIMIT"
  shows "fn_level n + 1 \<le> w" and "fn_level n + 1 < SENTINEL_LEVEL"
proof -
  show le: "fn_level n + 1 \<le> w"
  proof (cases "fn_next n")
    case None
    then show ?thesis using assms(1) by (cases n) (auto simp: fl_ok_def sentinel_wraps)
  next
    case (Some m)
    then have "fn_level n < w" using assms(1,2) by (auto simp: fl_ok_def)
    then show ?thesis by (rule inc_le)
  qed
  show "fn_level n + 1 < SENTINEL_LEVEL"
    using order.strict_trans1 [OF le below_max [OF assms(3)]] by (simp add: SENTINEL_LEVEL_def)
qed

lemma fl_entry_old: "fl_ok now n \<Longrightarrow> e \<in> set (fl_entries n) \<Longrightarrow> snd e < now"
  by (auto simp: fl_ok_def fl_entries_def intro: order.strict_trans1 [OF frugal_iter_le])

lemma fl_append_ok:
  assumes ok: "fl_ok now n" and w: "now \<le> w" "w < VERSION_LIMIT"
  shows "\<exists>n'. fl_append toss x w n = Some n' \<and> fl_ok (w + 1) n' \<and> fl_entries n' = (x, w) # fl_entries n"
proof -
  obtain k where k: "tower_target n (fn_level n + 1) = Some k" "k \<in> set (frugal_iter n)"
    using tower_target_total [of n] ok unfolding fl_ok_def by blast
  define lvl where "lvl = (if toss then fn_level n + 1 else FLAT_LEVEL)"
  define r where "r = (if toss then k else n)"
  let ?n = "FrugalNode (Some n) (Some r) x w lvl"
  have "fl_append toss x w n = Some ?n"
    using k(1) by (simp add: fl_append_def fl_append_tower_def fl_append_next_def lvl_def r_def Let_def)
  moreover have "lvl \<le> w" "lvl < SENTINEL_LEVEL"
    using fl_level [OF ok w] by (auto simp: lvl_def FLAT_LEVEL_def SENTINEL_LEVEL_def)
  then have "frugal_ok ?n" using ok w k(2) frugal_iter_self [of n] by (auto simp: fl_ok_def r_def)
  moreover have ent: "fl_entries ?n = (x, w) # fl_entries n" by (simp add: fl_entries_def)
  moreover have "snd e < w" if "e \<in> set (fl_entries n)" for e
    using order.strict_trans2 [OF fl_entry_old [OF ok that] w(1)] .
  ultimately show ?thesis
    using ok w \<open>lvl \<le> w\<close> version_step [OF w(2)] inc_le [OF w(2)] by (auto simp: fl_ok_def)
qed

lemma fl_push_ok:
  assumes "fl_ok now n" and "now \<le> w" and "w < VERSION_LIMIT"
  shows "\<exists>n'. fl_push toss (Some p) w n = Some n' \<and> fl_ok (w + 1) n'
    \<and> (\<forall>v < VERSION_LIMIT. fl_lookup n' v = (if w \<le> v then Some p else fl_lookup n v))"
proof -
  obtain n' where n': "fl_append toss (Some p) w n = Some n'" "fl_ok (w + 1) n'" "fl_entries n' = (Some p, w) # fl_entries n"
    using fl_append_ok [OF assms] by blast
  then show ?thesis using assms(1) by (auto simp: fl_push_def fl_ok_def fl_lookup_eq)
qed

text \<open>The head is what the newest readers see.\<close>

lemma fl_lookup_new:
  assumes "fl_ok now n" and "now \<le> v"
  shows "fl_lookup n v = fn_payload n"
proof -
  obtain e es where e: "fl_entries n = e # es" by (cases "fl_entries n") auto
  then have "e = (fn_payload n, fn_version n)" using fl_entries_hd [of n] by simp
  then show ?thesis using assms e by (auto simp: fl_lookup_eq fl_ok_def)
qed

lemma fl_ok_mono: "fl_ok now n \<Longrightarrow> now \<le> now' \<Longrightarrow> now' \<le> VERSION_LIMIT \<Longrightarrow> fl_ok now' n"
  by (auto simp: fl_ok_def)

lemma fl_delete_ok:
  assumes "fl_ok now n" and "now \<le> w" and "w < VERSION_LIMIT"
  shows "\<exists>n'. fl_delete toss w n = Some n' \<and> fl_ok (w + 1) n'
    \<and> (\<forall>v < VERSION_LIMIT. fl_lookup n' v = (if w \<le> v then None else fl_lookup n v))"
proof (cases "fl_is_live n")
  case True
  obtain n' where n': "fl_append toss None w n = Some n'" "fl_ok (w + 1) n'" "fl_entries n' = (None, w) # fl_entries n"
    using fl_append_ok [OF assms] by blast
  then show ?thesis using True assms(1) by (auto simp: fl_delete_def fl_ok_def fl_lookup_eq)
next
  case False
  have "fl_ok (w + 1) n"
    using fl_ok_mono [OF assms(1)] assms(2) version_step [OF assms(3)] inc_le [OF assms(3)] by auto
  moreover have "fl_lookup n v = None" if "w \<le> v" for v
    using fl_lookup_new [OF assms(1), of v] assms(2) that False by (auto simp: fl_is_live_def)
  ultimately show ?thesis using False by (auto simp: fl_delete_def)
qed

interpretation frugal: version_chain fl_lookup "\<lambda>toss w p. fl_push toss (Some p) w" fl_delete fl_is_live fl_ok
proof unfold_locales
  fix now v :: version and n :: "'a frugal_list"
  assume "fl_ok now n" "now \<le> v"
  then show "fl_is_live n \<longleftrightarrow> fl_lookup n v \<noteq> None"
    using fl_lookup_new [of now n v] by (simp add: fl_is_live_def)
qed (rule fl_push_ok fl_delete_ok; assumption)+

text \<open>A clone has the same entries, whatever the coins show while it is built.\<close>

lemma fl_append_all_ok:
  assumes "fl_ok now n" and "sorted_wrt (\<lambda>e f. snd e < snd f) items"
    and "\<forall>e \<in> set items. now \<le> snd e \<and> snd e < VERSION_LIMIT"
  shows "\<exists>n' now'. fl_append_all tosses items n = Some n' \<and> fl_ok now' n'
    \<and> fl_entries n' = rev items @ fl_entries n"
  using assms
proof (induction items arbitrary: now n tosses)
  case Nil
  then show ?case by auto
next
  case (Cons e items)
  obtain x w where e: "e = (x, w)" by (cases e)
  obtain n1 where n1: "fl_append (tosses 0) x w n = Some n1" "fl_ok (w + 1) n1" "fl_entries n1 = (x, w) # fl_entries n"
    using fl_append_ok [OF Cons.prems(1), of w "tosses 0" x] Cons.prems(3) e by auto
  have "\<forall>f \<in> set items. w + 1 \<le> snd f \<and> snd f < VERSION_LIMIT"
    using Cons.prems(2,3) e by (auto intro!: inc_le)
  then show ?case using Cons.IH [OF n1(2), of "\<lambda>i. tosses (Suc i)"] Cons.prems(2) n1 e by auto
qed

lemma fl_clone_ok:
  assumes ok: "fl_ok now n"
  shows "\<exists>n'. fl_clone tosses n = Some n' \<and> (\<exists>now'. fl_ok now' n') \<and> fl_entries n' = fl_entries n"
proof -
  let ?es = "fl_entries n"
  obtain p v where l: "last ?es = (Some p, v)" using ok by (cases "last ?es") (auto simp: fl_ok_def)
  have es: "?es = butlast ?es @ [(Some p, v)]" using l append_butlast_last_id [of ?es] by simp
  have sorted: "sorted_wrt (\<lambda>e f. snd f < snd e) (butlast ?es @ [(Some p, v)])" using ok es by (simp add: fl_ok_def)
  have low: "snd e < VERSION_LIMIT" if "e \<in> set ?es" for e
    using fl_entry_old [OF ok that] ok by (auto simp: fl_ok_def)
  have v: "v < VERSION_LIMIT" using low [OF last_in_set [of ?es]] l by simp
  have new: "fl_ok (v + 1) (fl_new p v)"
    using version_step [OF v] inc_le [OF v] by (simp add: fl_ok_def fl_new_def fl_entries_def)
  have "sorted_wrt (\<lambda>e f. snd e < snd f) (rev (butlast ?es))"
    using sorted by (simp add: sorted_wrt_append sorted_wrt_rev)
  moreover have "\<forall>e \<in> set (rev (butlast ?es)). v + 1 \<le> snd e \<and> snd e < VERSION_LIMIT"
    using sorted low by (auto simp: sorted_wrt_append intro!: inc_le dest: in_set_butlastD)
  ultimately obtain n' now' where "fl_append_all tosses (rev (butlast ?es)) (fl_new p v) = Some n'" "fl_ok now' n'"
      "fl_entries n' = butlast ?es @ fl_entries (fl_new p v)"
    using fl_append_all_ok [OF new, of "rev (butlast ?es)" tosses] by auto
  moreover have "fl_entries (fl_new p v) = [(Some p, v)]" by (simp add: fl_new_def fl_entries_def)
  ultimately show ?thesis using l es by (auto simp: fl_clone_def Let_def simp flip: fl_entries_def)
qed

end
