(* ===== verification/Weaver_List.thy ===== *)
theory Weaver_List
  imports Version_Chain
begin

text \<open>
  The version lists of \<^verbatim>\<open>dexa/mvb_version_index/v_weaver.rs\<close>. They have the skip pointers of the
  list of \<^verbatim>\<open>frugal.rs\<close> and one more pointer per node, \<open>k_ridgy\<close>, which leads to a node of the next
  key and is written after the node has been published. So the nodes (\<open>Arc\<close>s shared by the
  lists) are cells of a heap here and a pointer is an address; a list is the address of its head.
  That every operation does what the operation of the frugal list does is a simulation: \<open>weaves\<close>
  relates an address to the list it represents, and does not look at \<open>k_ridgy\<close>.
\<close>

record ('k, 'p) weaver_node =
  wn_next :: "nat option"
  wn_v_ridgy :: "nat option"
  wn_k_ridgy :: "nat option"
  wn_key :: 'k
  wn_payload :: "'p option"
  wn_version :: version
  wn_level :: tower_level

type_synonym ('k, 'p) weaver_heap = "('k, 'p) weaver_node list"

definition wn_load :: "('k, 'p) weaver_heap \<Rightarrow> nat \<Rightarrow> ('k, 'p) weaver_node option" where
  "wn_load h a = (if a < length h then Some (h ! a) else None)"

definition wn_new_with ::
    "'k \<Rightarrow> 'p option \<Rightarrow> version \<Rightarrow> tower_level \<Rightarrow> nat option \<Rightarrow> nat option \<Rightarrow> ('k, 'p) weaver_node" where
  "wn_new_with key payload ins_version level nxt v_ridgy =
     \<lparr>wn_next = nxt, wn_v_ridgy = v_ridgy, wn_k_ridgy = None, wn_key = key, wn_payload = payload,
      wn_version = ins_version, wn_level = level\<rparr>"

definition wn_new :: "'k \<Rightarrow> 'p option \<Rightarrow> version \<Rightarrow> tower_level \<Rightarrow> ('k, 'p) weaver_node" where
  "wn_new key payload ins_version level = wn_new_with key payload ins_version level None None"

definition wn_is_live :: "('k, 'p) weaver_node \<Rightarrow> bool" where
  "wn_is_live n \<longleftrightarrow> wn_payload n \<noteq> None"

text \<open>\<open>Arc::new\<close>.\<close>

definition wn_alloc :: "('k, 'p) weaver_node \<Rightarrow> ('k, 'p) weaver_heap \<Rightarrow> ('k, 'p) weaver_heap \<times> nat" where
  "wn_alloc n h = (h @ [n], length h)"

section \<open>The operations\<close>

definition wl_new :: "'k \<Rightarrow> 'p \<Rightarrow> version \<Rightarrow> ('k, 'p) weaver_heap \<Rightarrow> ('k, 'p) weaver_heap \<times> nat" where
  "wl_new key payload ins_version h = wn_alloc (wn_new key (Some payload) ins_version SENTINEL_LEVEL) h"

definition wl_is_live :: "('k, 'p) weaver_heap \<Rightarrow> nat \<Rightarrow> bool option" where
  "wl_is_live h head = map_option wn_is_live (wn_load h head)"

definition wl_newest_payload :: "('k, 'p) weaver_heap \<Rightarrow> nat \<Rightarrow> 'p option" where
  "wl_newest_payload h head = Option.bind (wn_load h head) wn_payload"

definition wl_append_next ::
    "'p option \<Rightarrow> version \<Rightarrow> ('k, 'p) weaver_heap \<Rightarrow> nat \<Rightarrow> (('k, 'p) weaver_heap \<times> nat) option" where
  "wl_append_next payload ins_version h head = do {
     n \<leftarrow> wn_load h head;
     Some (wn_alloc (wn_new_with (wn_key n) payload ins_version FLAT_LEVEL (Some head) (Some head)) h)
   }"

text \<open>The walk along \<open>v_ridgy\<close>; \<open>None\<close> is the \<open>unreachable!\<close>, or a walk without an end.\<close>

partial_function (option) wl_tower_target :: "('k, 'p) weaver_heap \<Rightarrow> nat \<Rightarrow> tower_level \<Rightarrow> nat option" where
  [code]: "wl_tower_target h addr new_tower_level =
     (case wn_load h addr of
        Some n \<Rightarrow>
          if wn_level n < new_tower_level then
            (case wn_v_ridgy n of Some k \<Rightarrow> wl_tower_target h k new_tower_level | None \<Rightarrow> None)
          else Some addr
      | None \<Rightarrow> None)"

definition wl_append_tower ::
    "'p option \<Rightarrow> version \<Rightarrow> ('k, 'p) weaver_heap \<Rightarrow> nat \<Rightarrow> (('k, 'p) weaver_heap \<times> nat) option" where
  "wl_append_tower payload ins_version h head = do {
     n \<leftarrow> wn_load h head;
     k \<leftarrow> wl_tower_target h head (wn_level n + 1);
     Some (wn_alloc (wn_new_with (wn_key n) payload ins_version (wn_level n + 1) (Some head) (Some k)) h)
   }"

definition wl_append ::
    "bool \<Rightarrow> 'p option \<Rightarrow> version \<Rightarrow> ('k, 'p) weaver_heap \<Rightarrow> nat \<Rightarrow> (('k, 'p) weaver_heap \<times> nat) option" where
  "wl_append toss payload ins_version h head =
     (if toss then wl_append_tower payload ins_version h head
      else wl_append_next payload ins_version h head)"

definition wl_push ::
    "bool \<Rightarrow> 'p option \<Rightarrow> version \<Rightarrow> ('k, 'p) weaver_heap \<Rightarrow> nat \<Rightarrow> (('k, 'p) weaver_heap \<times> nat) option" where
  "wl_push toss payload ins_version h head = wl_append toss payload ins_version h head"

definition wl_delete ::
    "bool \<Rightarrow> version \<Rightarrow> ('k, 'p) weaver_heap \<Rightarrow> nat \<Rightarrow> (('k, 'p) weaver_heap \<times> nat) option" where
  "wl_delete toss ins_version h head = do {
     alive \<leftarrow> wl_is_live h head;
     if alive then wl_append toss None ins_version h head else Some (h, head)
   }"

text \<open>The loop of \<open>find_from\<close>: the address where it stops.\<close>

partial_function (option) wl_walk :: "('k, 'p) weaver_heap \<Rightarrow> nat \<Rightarrow> version \<Rightarrow> nat option" where
  [code]: "wl_walk h addr look_up_version =
     (case wn_load h addr of
        None \<Rightarrow> None
      | Some n \<Rightarrow>
          if wn_level n < SENTINEL_LEVEL \<and> wn_version n > look_up_version then
            (case wn_v_ridgy n of
               Some k \<Rightarrow>
                 (case wn_load h k of
                    None \<Rightarrow> None
                  | Some r \<Rightarrow>
                      if wn_version r > look_up_version then wl_walk h k look_up_version
                      else (case wn_next n of Some m \<Rightarrow> wl_walk h m look_up_version | None \<Rightarrow> None))
             | None \<Rightarrow> (case wn_next n of Some m \<Rightarrow> wl_walk h m look_up_version | None \<Rightarrow> None))
          else Some addr)"

definition wl_find_from :: "('k, 'p) weaver_heap \<Rightarrow> nat \<Rightarrow> version \<Rightarrow> bool \<Rightarrow> nat option option" where
  "wl_find_from h addr look_up_version allow_tombstone = do {
     b \<leftarrow> wl_walk h addr look_up_version;
     n \<leftarrow> wn_load h b;
     Some (if wn_version n \<le> look_up_version \<and> (\<not> allow_tombstone \<and> wn_is_live n \<or> allow_tombstone)
           then Some b else None)
   }"

definition wl_find :: "('k, 'p) weaver_heap \<Rightarrow> nat \<Rightarrow> version \<Rightarrow> nat option option" where
  "wl_find h head look_up_version = wl_find_from h head look_up_version False"

definition wl_find_any :: "('k, 'p) weaver_heap \<Rightarrow> nat \<Rightarrow> version \<Rightarrow> nat option option" where
  "wl_find_any h head look_up_version = wl_find_from h head look_up_version True"

text \<open>
  \<open>VWeaverVersionIterator\<close>: \<open>take\<close> leaves nothing behind, so at a tombstone the loop goes on with
  nothing and the iteration ends.
\<close>

partial_function (option) wl_iter :: "('k, 'p) weaver_heap \<Rightarrow> nat \<Rightarrow> nat list option" where
  [code]: "wl_iter h addr =
     (case wn_load h addr of
        None \<Rightarrow> None
      | Some n \<Rightarrow>
          if wn_payload n = None then Some []
          else (case wn_next n of
                  Some m \<Rightarrow> Option.bind (wl_iter h m) (\<lambda>rest. Some (addr # rest))
                | None \<Rightarrow> Some [addr]))"

definition wl_len :: "('k, 'p) weaver_heap \<Rightarrow> nat \<Rightarrow> usize option" where
  "wl_len h head = map_option length (wl_iter h head)"

text \<open>\<open>VWeaverKeyRidgyIterator\<close>: the nodes along \<open>k_ridgy\<close> that are no tombstones.\<close>

partial_function (option) wl_key_iter :: "('k, 'p) weaver_heap \<Rightarrow> nat \<Rightarrow> nat list option" where
  [code]: "wl_key_iter h addr =
     (case wn_load h addr of
        None \<Rightarrow> None
      | Some n \<Rightarrow>
          Option.bind (case wn_k_ridgy n of Some m \<Rightarrow> wl_key_iter h m | None \<Rightarrow> Some [])
            (\<lambda>rest. Some (if wn_payload n = None then rest else addr # rest)))"

section \<open>The simulation\<close>

fun weaves :: "('k, 'p) weaver_heap \<Rightarrow> 'k \<Rightarrow> nat \<Rightarrow> 'p frugal_list \<Rightarrow> bool" where
  "weaves h key a (FrugalNode n r p v l) \<longleftrightarrow> a < length h \<and> wn_key (h ! a) = key
     \<and> wn_payload (h ! a) = p \<and> wn_version (h ! a) = v \<and> wn_level (h ! a) = l
     \<and> (case n of None \<Rightarrow> wn_next (h ! a) = None | Some m \<Rightarrow> \<exists>b. wn_next (h ! a) = Some b \<and> weaves h key b m)
     \<and> (case r of None \<Rightarrow> wn_v_ridgy (h ! a) = None | Some k \<Rightarrow> \<exists>b. wn_v_ridgy (h ! a) = Some b \<and> weaves h key b k)"

text \<open>A heap that has grown and in which \<open>k_ridgy\<close> pointers have been set.\<close>

definition heap_kept :: "('k, 'p) weaver_heap \<Rightarrow> ('k, 'p) weaver_heap \<Rightarrow> bool" where
  "heap_kept h h' \<longleftrightarrow> length h \<le> length h' \<and> (\<forall>i < length h. \<exists>k. h' ! i = (h ! i)\<lparr>wn_k_ridgy := k\<rparr>)"

lemma node_same: "\<exists>k. n = n\<lparr>wn_k_ridgy := k\<rparr>"
  by (rule exI [of _ "wn_k_ridgy n"]) simp

lemma heap_kept_refl: "heap_kept h h"
  by (simp add: heap_kept_def node_same)

lemma heap_kept_alloc: "heap_kept h (h @ [n])"
  by (auto simp: heap_kept_def nth_append intro: node_same)

lemma heap_kept_ridgy: "heap_kept h (h[a := (h ! a)\<lparr>wn_k_ridgy := k\<rparr>])"
proof -
  have "\<exists>j. h[a := (h ! a)\<lparr>wn_k_ridgy := k\<rparr>] ! i = (h ! i)\<lparr>wn_k_ridgy := j\<rparr>" if "i < length h" for i
    using that by (cases "i = a") (auto intro: node_same)
  then show ?thesis by (simp add: heap_kept_def)
qed

lemma weaves_kept: "weaves h key a n \<Longrightarrow> heap_kept h h' \<Longrightarrow> weaves h' key a n"
proof (induction n arbitrary: a)
  case (FrugalNode n r p v l)
  then obtain k where "h' ! a = (h ! a)\<lparr>wn_k_ridgy := k\<rparr>" "a < length h'"
    by (auto simp: heap_kept_def)
  then show ?case using FrugalNode by (auto split: option.splits)
qed

lemma weaves_load: "weaves h key a n \<Longrightarrow> wn_load h a = Some (h ! a) \<and> wn_key (h ! a) = key
    \<and> wn_payload (h ! a) = fn_payload n \<and> wn_version (h ! a) = fn_version n \<and> wn_level (h ! a) = fn_level n"
  by (cases n) (simp add: wn_load_def)

lemma wl_tower_target_sim:
  "weaves h key a n \<Longrightarrow> tower_target n lvl = Some k \<Longrightarrow> \<exists>b. wl_tower_target h a lvl = Some b \<and> weaves h key b k"
proof (induction n arbitrary: a)
  case (FrugalNode n r p v l)
  note here = weaves_load [OF FrugalNode.prems(1)]
  show ?case
  proof (cases "l < lvl")
    case True
    then obtain m where m: "r = Some m" "tower_target m lvl = Some k"
      using FrugalNode.prems(2) by (auto split: option.splits)
    then obtain b where "wn_v_ridgy (h ! a) = Some b" "weaves h key b m" using FrugalNode.prems(1) by auto
    then show ?thesis
      using FrugalNode.IH(2) m here True by (auto simp: wl_tower_target.simps [of h a])
  next
    case False
    then show ?thesis using FrugalNode.prems here by (auto simp: wl_tower_target.simps [of h a])
  qed
qed

lemma wl_append_sim:
  assumes "weaves h key a n" and "fl_append toss x w n = Some n'"
  shows "\<exists>h' a'. wl_append toss x w h a = Some (h', a') \<and> weaves h' key a' n' \<and> heap_kept h h'"
proof -
  note here = weaves_load [OF assms(1)]
  define k where "k = (if toss then the (tower_target n (fn_level n + 1)) else n)"
  define lvl where "lvl = (if toss then fn_level n + 1 else FLAT_LEVEL)"
  have n': "n' = FrugalNode (Some n) (Some k) x w lvl" "toss \<Longrightarrow> tower_target n (fn_level n + 1) = Some k"
    using assms(2)
    by (auto simp: fl_append_def fl_append_tower_def fl_append_next_def Let_def k_def lvl_def split: if_splits)
  obtain b where b: "weaves h key b k" "toss \<Longrightarrow> wl_tower_target h a (fn_level n + 1) = Some b" "\<not> toss \<Longrightarrow> b = a"
    using wl_tower_target_sim [OF assms(1) n'(2)] assms(1) by (cases toss) (auto simp: k_def)
  let ?new = "wn_new_with key x w lvl (Some a) (Some b)"
  have "wl_append toss x w h a = Some (h @ [?new], length h)"
    using b(2,3) here by (cases toss)
      (auto simp: wl_append_def wl_append_tower_def wl_append_next_def wn_alloc_def lvl_def)
  moreover have "weaves (h @ [?new]) key (length h) n'"
    using weaves_kept [OF _ heap_kept_alloc, of h key _ _ ?new] assms(1) b(1)
    by (auto simp: n'(1) wn_new_with_def)
  ultimately show ?thesis using heap_kept_alloc by blast
qed

lemma wl_walk_sim:
  "weaves h key a n \<Longrightarrow> find_from n v = Some f \<Longrightarrow> \<exists>b m. wl_walk h a v = Some b \<and> weaves h key b m
     \<and> f = (if fn_version m \<le> v then Some m else None)"
proof (induction n arbitrary: a)
  case (FrugalNode n r p u l)
  note here = weaves_load [OF FrugalNode.prems(1)]
  have via: "\<exists>b m. wl_walk h c v = Some b \<and> weaves h key b m \<and> f = (if fn_version m \<le> v then Some m else None)"
    if "n = Some k" "weaves h key c k" "find_from k v = Some f" for c k
    using FrugalNode.IH(1) that by auto
  show ?case
  proof (cases "l < SENTINEL_LEVEL \<and> v < u")
    case False
    then have "wl_walk h a v = Some a" using here by (auto simp: wl_walk.simps [of h a])
    moreover have "f = (if fn_version (FrugalNode n r p u l) \<le> v then Some (FrugalNode n r p u l) else None)"
      using False FrugalNode.prems(2) by auto
    ultimately show ?thesis using FrugalNode.prems(1) by blast
  next
    case True
    show ?thesis
    proof (cases "\<exists>k. r = Some k \<and> v < fn_version k")
      case high: True
      then obtain k where k: "r = Some k" "v < fn_version k" "find_from k v = Some f" using True FrugalNode.prems(2) by auto
      then obtain c where c: "wn_v_ridgy (h ! a) = Some c" "weaves h key c k" using FrugalNode.prems(1) by auto
      then show ?thesis
        using FrugalNode.IH(2) k True here weaves_load [OF c(2)] by (auto simp: wl_walk.simps [of h a])
    next
      case low: False
      then obtain m where m: "n = Some m" "find_from m v = Some f"
        using True FrugalNode.prems(2) by (auto split: option.splits if_splits)
      then obtain c where c: "wn_next (h ! a) = Some c" "weaves h key c m" using FrugalNode.prems(1) by auto
      have "wl_walk h a v = wl_walk h c v"
      proof (cases r)
        case None
        then show ?thesis using FrugalNode.prems(1) c(1) True here by (auto simp: wl_walk.simps [of h a])
      next
        case (Some k)
        then obtain d where d: "wn_v_ridgy (h ! a) = Some d" "weaves h key d k" using FrugalNode.prems(1) by auto
        then show ?thesis
          using low Some c(1) True here weaves_load [OF d(2)] by (auto simp: wl_walk.simps [of h a])
      qed
      then show ?thesis using via [OF m(1) c(2) m(2)] by simp
    qed
  qed
qed

lemma wl_find_from_sim:
  assumes "weaves h key a n" and "fl_find_from n v tomb = Some f"
  shows "\<exists>b. wl_find_from h a v tomb = Some b \<and> (f = None \<longleftrightarrow> b = None) \<and>
    (\<forall>m c. f = Some m \<longrightarrow> b = Some c \<longrightarrow> weaves h key c m)"
proof -
  obtain f' where f': "find_from n v = Some f'" "f = (case f' of Some m \<Rightarrow> if tomb \<or> fl_is_live m then Some m else None | None \<Rightarrow> None)"
    using assms(2) by (auto simp: fl_find_from_def)
  obtain b m where b: "wl_walk h a v = Some b" "weaves h key b m" "f' = (if fn_version m \<le> v then Some m else None)"
    using wl_walk_sim [OF assms(1) f'(1)] by blast
  then show ?thesis
    using f'(2) weaves_load [OF b(2)] by (auto simp: wl_find_from_def wn_is_live_def fl_is_live_def)
qed

section \<open>What a reader finds\<close>

definition wl_lookup :: "('k, 'p) weaver_heap \<times> nat \<Rightarrow> version \<Rightarrow> 'p option" where
  "wl_lookup = (\<lambda>(h, a) v. case wl_find h a v of Some (Some b) \<Rightarrow> wn_payload (h ! b) | _ \<Rightarrow> None)"

definition wl_good :: "'k \<Rightarrow> version \<Rightarrow> ('k, 'p) weaver_heap \<times> nat \<Rightarrow> bool" where
  "wl_good key now = (\<lambda>(h, a). \<exists>n. weaves h key a n \<and> fl_ok now n)"

lemma wl_lookup_sim:
  assumes "weaves h key a n" and "frugal_ok n"
  shows "wl_lookup (h, a) v = fl_lookup n v"
proof -
  obtain f where f: "fl_find_from n v False = Some f" using fl_find_from_eq [OF assms(2)] by blast
  obtain b where "wl_find_from h a v False = Some b" "f = None \<longleftrightarrow> b = None" "\<forall>m c. f = Some m \<longrightarrow> b = Some c \<longrightarrow> weaves h key c m"
    using wl_find_from_sim [OF assms(1) f] by blast
  then show ?thesis
    using f by (auto simp: wl_lookup_def wl_find_def fl_lookup_def fl_find_def dest: weaves_load split: option.splits)
qed

lemma wl_is_live_sim: "weaves h key a n \<Longrightarrow> wl_is_live h a = Some (fl_is_live n)"
  using weaves_load [of h key a n] by (simp add: wl_is_live_def wn_is_live_def fl_is_live_def)

lemma wl_delete_sim:
  assumes "weaves h key a n" and "fl_delete toss w n = Some n'"
  shows "\<exists>h' a'. wl_delete toss w h a = Some (h', a') \<and> weaves h' key a' n' \<and> heap_kept h h'"
proof (cases "fl_is_live n")
  case True
  then show ?thesis
    using wl_append_sim [OF assms(1), of toss None w n'] assms(2) wl_is_live_sim [OF assms(1)]
    by (simp add: wl_delete_def fl_delete_def)
next
  case False
  then show ?thesis
    using assms wl_is_live_sim [OF assms(1)] heap_kept_refl [of h] by (simp add: wl_delete_def fl_delete_def)
qed

text \<open>A list is not touched by what happens to the others.\<close>

lemma wl_frame:
  assumes "wl_good key now (h, a)" and "heap_kept h h'"
  shows "wl_good key now (h', a)" and "wl_lookup (h', a) = wl_lookup (h, a)" and "wl_is_live h' a = wl_is_live h a"
proof -
  obtain n where n: "weaves h key a n" "fl_ok now n" using assms(1) by (auto simp: wl_good_def)
  note n' = weaves_kept [OF n(1) assms(2)]
  show "wl_good key now (h', a)" using n' n(2) by (auto simp: wl_good_def)
  show "wl_lookup (h', a) = wl_lookup (h, a)"
    using wl_lookup_sim [OF n'] wl_lookup_sim [OF n(1)] n(2) by (auto simp: fl_ok_def)
  show "wl_is_live h' a = wl_is_live h a" using wl_is_live_sim [OF n'] wl_is_live_sim [OF n(1)] by simp
qed

lemma wl_new_good:
  assumes "v < VERSION_LIMIT"
  shows "wl_good key (v + 1) (wl_new key p v h)" and "heap_kept h (fst (wl_new key p v h))"
    and "wl_lookup (wl_new key p v h) u = (if v \<le> u then Some p else None)"
proof -
  have w: "weaves (h @ [wn_new key (Some p) v SENTINEL_LEVEL]) key (length h) (fl_new p v)"
    by (simp add: fl_new_def wn_new_def wn_new_with_def)
  have ok: "fl_ok (v + 1) (fl_new p v)"
    using version_step [OF assms] inc_le [OF assms] by (simp add: fl_ok_def fl_new_def fl_entries_def)
  show "wl_good key (v + 1) (wl_new key p v h)"
    using w ok by (auto simp: wl_good_def wl_new_def wn_alloc_def)
  show "heap_kept h (fst (wl_new key p v h))" by (simp add: wl_new_def wn_alloc_def heap_kept_alloc)
  have "frugal_ok (fl_new p v)" using ok by (simp add: fl_ok_def)
  then show "wl_lookup (wl_new key p v h) u = (if v \<le> u then Some p else None)"
    using wl_lookup_sim [OF w, of u] by (simp add: wl_new_def wn_alloc_def fl_lookup_eq fl_entries_def fl_new_def)
qed

lemma wl_push_ok:
  assumes "wl_good key now s" and "now \<le> w" and "w < VERSION_LIMIT"
  shows "\<exists>s'. wl_push toss (Some p) w (fst s) (snd s) = Some s' \<and> wl_good key (w + 1) s' \<and> heap_kept (fst s) (fst s')
    \<and> (\<forall>v < VERSION_LIMIT. wl_lookup s' v = (if w \<le> v then Some p else wl_lookup s v))"
proof -
  obtain h a n where s: "s = (h, a)" "weaves h key a n" "fl_ok now n" using assms(1) by (auto simp: wl_good_def)
  obtain n' where n': "fl_append toss (Some p) w n = Some n'" "fl_ok (w + 1) n'"
      "\<forall>v < VERSION_LIMIT. fl_lookup n' v = (if w \<le> v then Some p else fl_lookup n v)"
    using fl_push_ok [OF s(3) assms(2,3), of toss p] by (auto simp: fl_push_def)
  obtain h' a' where "wl_append toss (Some p) w h a = Some (h', a')" "weaves h' key a' n'" "heap_kept h h'"
    using wl_append_sim [OF s(2) n'(1)] by blast
  then show ?thesis
    using n'(2,3) s wl_lookup_sim [of h' key a' n'] wl_lookup_sim [OF s(2)]
    by (auto simp: wl_push_def wl_good_def fl_ok_def)
qed

lemma wl_delete_ok:
  assumes "wl_good key now s" and "now \<le> w" and "w < VERSION_LIMIT"
  shows "\<exists>s'. wl_delete toss w (fst s) (snd s) = Some s' \<and> wl_good key (w + 1) s' \<and> heap_kept (fst s) (fst s')
    \<and> (\<forall>v < VERSION_LIMIT. wl_lookup s' v = (if w \<le> v then None else wl_lookup s v))"
proof -
  obtain h a n where s: "s = (h, a)" "weaves h key a n" "fl_ok now n" using assms(1) by (auto simp: wl_good_def)
  obtain n' where n': "fl_delete toss w n = Some n'" "fl_ok (w + 1) n'"
      "\<forall>v < VERSION_LIMIT. fl_lookup n' v = (if w \<le> v then None else fl_lookup n v)"
    using fl_delete_ok [OF s(3) assms(2,3), of toss] by auto
  obtain h' a' where "wl_delete toss w h a = Some (h', a')" "weaves h' key a' n'" "heap_kept h h'"
    using wl_delete_sim [OF s(2) n'(1)] by blast
  then show ?thesis
    using n'(2,3) s wl_lookup_sim [of h' key a' n'] wl_lookup_sim [OF s(2)]
    by (auto simp: wl_good_def fl_ok_def)
qed

lemma wl_alive:
  assumes "wl_good key now s" and "now \<le> v" and "v < VERSION_LIMIT"
  shows "wl_is_live (fst s) (snd s) = Some True \<longleftrightarrow> wl_lookup s v \<noteq> None"
proof -
  obtain h a n where s: "s = (h, a)" "weaves h key a n" "fl_ok now n" using assms(1) by (auto simp: wl_good_def)
  then show ?thesis
    using fl_lookup_new [OF s(3) assms(2)] wl_lookup_sim [OF s(2), of v] wl_is_live_sim [OF s(2)]
    by (simp add: fl_ok_def fl_is_live_def)
qed

interpretation weaver: version_chain wl_lookup "\<lambda>toss w p s. wl_push toss (Some p) w (fst s) (snd s)"
    "\<lambda>toss w s. wl_delete toss w (fst s) (snd s)" "\<lambda>s. wl_is_live (fst s) (snd s) = Some True" "wl_good key"
  for key :: 'k
proof (unfold_locales, goal_cases)
  case (1 now s w toss p)
  then show ?case using wl_push_ok [of key now s w toss p] by blast
next
  case (2 now s w toss)
  then show ?case using wl_delete_ok [of key now s w toss] by blast
next
  case (3 now s v)
  then show ?case by (rule wl_alive)
qed

text \<open>The iterator counts the versions above the newest tombstone only.\<close>

lemma wl_iter_sim:
  "weaves h key a n \<Longrightarrow> frugal_ok n \<Longrightarrow>
     \<exists>as. wl_iter h a = Some as \<and> length as = length (takeWhile (\<lambda>e. fst e \<noteq> None) (fl_entries n))"
proof (induction n arbitrary: a rule: frugal_iter.induct)
  case (1 r p v l)
  then show ?case using weaves_load [OF "1.prems"(1)] by (auto simp: wl_iter.simps [of h a] fl_entries_def)
next
  case (2 n r p v l)
  then obtain b where b: "wn_next (h ! a) = Some b" "weaves h key b n" by auto
  then show ?case
    using "2.IH" [OF b(2)] "2.prems"(2) weaves_load [OF "2.prems"(1)]
    by (auto simp: wl_iter.simps [of h a] fl_entries_def)
qed

end
