(* ===== verification/Version_Index.thy ===== *)
theory Version_Index
  imports Weaver_List Skip_List
begin

text \<open>
  \<^verbatim>\<open>dexa/mvb_version_index/version_index.rs\<close> and \<^verbatim>\<open>dexa/mvb_record_model/v_record_point.rs\<close>: the version
  index of a key, one of five kinds, and the record that holds a key and its index. The ordered map
  (\<open>SkipMap\<close>) and the B+-tree of the last two kinds are library code and parameters; the heap of the
  weaver nodes is passed along and only the weaver lists change it. \<open>None\<close> as the result of an
  operation is a panic (\<open>unwrap\<close> of nothing, \<open>unreachable!\<close>).
\<close>

record 'p record_info =
  rec_del :: deleted_version
  rec_payload :: 'p

definition record_info_new :: "'p \<Rightarrow> 'p record_info" where
  "record_info_new payload = \<lparr>rec_del = deleted_new_null, rec_payload = payload\<rparr>"

type_synonym 'p info_map = "(version \<times> 'p record_info) list"

text \<open>
  The library: the ordered map, and of the B+-tree the dispatch of \<open>Point\<close>, \<open>PeekMax\<close>, \<open>Update\<close> and
  \<open>Insert\<close> (whether the result was the expected one) and its height.
\<close>

record 'p index_lib =
  ix_skip :: "(version, 'p record_info) skip_ops"
  ix_point :: "version \<Rightarrow> 'p info_map \<Rightarrow> (version \<times> 'p record_info) option"
  ix_peek_max :: "'p info_map \<Rightarrow> (version \<times> 'p record_info) option"
  ix_update :: "version \<Rightarrow> 'p record_info \<Rightarrow> 'p info_map \<Rightarrow> 'p info_map \<times> bool"
  ix_insert :: "version \<Rightarrow> 'p record_info \<Rightarrow> 'p info_map \<Rightarrow> 'p info_map \<times> bool"
  ix_height :: "'p info_map \<Rightarrow> u16"

datatype version_index_type = TypeVanilla | TypeVWeaver | TypeSkipList | TypeFrugalSkipList | TypeBTree

datatype 'p version_index =
    FrugalSkipList "'p frugal_list"
  | VWEAVER nat
  | VANILLA "'p version_list"
  | SkipListIndex "'p info_map"
  | DexaBTree "'p info_map"

definition is_v_weaver :: "version_index_type \<Rightarrow> bool" where
  "is_v_weaver kind \<longleftrightarrow> kind = TypeVWeaver"

section \<open>The ordered map\<close>

definition sx_find :: "'p info_map \<Rightarrow> version \<Rightarrow> (version \<times> 'p) option" where
  "sx_find xs version =
     (case sl_back (filter (\<lambda>e. fst e \<le> version) xs) of
        Some (key, info) \<Rightarrow>
          if version \<ge> key \<and> (case deleted_get (rec_del info) of Some del \<Rightarrow> del > version | None \<Rightarrow> True)
          then Some (key, rec_payload info) else None
      | None \<Rightarrow> None)"

text \<open>The value of the last entry is changed in place.\<close>

definition set_last_del :: "version \<Rightarrow> 'p info_map \<Rightarrow> 'p info_map" where
  "set_last_del version xs = butlast xs @ [(fst (last xs), (snd (last xs))\<lparr>rec_del := deleted_new version\<rparr>)]"

definition sx_push :: "'p index_lib \<Rightarrow> version \<Rightarrow> 'p \<Rightarrow> 'p info_map \<Rightarrow> 'p info_map option" where
  "sx_push L ins_version payload xs =
     (case sl_back xs of
        None \<Rightarrow> None
      | Some old \<Rightarrow>
          Some (sl_insert (ix_skip L) ins_version (record_info_new payload)
            (if deleted_get (rec_del (snd old)) = None then set_last_del ins_version xs else xs)))"

definition sx_append :: "'p index_lib \<Rightarrow> version \<Rightarrow> 'p \<Rightarrow> 'p info_map \<Rightarrow> 'p info_map option" where
  "sx_append L ins_version payload xs =
     (case sl_back xs of
        None \<Rightarrow> None
      | Some old \<Rightarrow>
          Some (if deleted_get (rec_del (snd old)) = None
            then sl_insert (ix_skip L) ins_version (record_info_new payload) (set_last_del ins_version xs)
            else xs))"

definition sx_delete :: "version \<Rightarrow> 'p info_map \<Rightarrow> 'p info_map option" where
  "sx_delete del_version xs =
     (case sl_back xs of
        None \<Rightarrow> None
      | Some (key, info) \<Rightarrow>
          Some (if key < del_version \<and> deleted_get (rec_del info) = None
            then set_last_del del_version xs else xs))"

definition sx_is_live :: "'p info_map \<Rightarrow> bool option" where
  "sx_is_live xs = map_option (\<lambda>e. deleted_get (rec_del (snd e)) = None) (sl_back xs)"

section \<open>The B+-tree\<close>

definition bx_push :: "'p index_lib \<Rightarrow> version \<Rightarrow> 'p \<Rightarrow> 'p info_map \<Rightarrow> 'p info_map option" where
  "bx_push L ins_version payload xs = do {
     (key, info) \<leftarrow> ix_peek_max L xs;
     xs1 \<leftarrow> if deleted_get (rec_del info) = None
       then (case ix_update L key (info\<lparr>rec_del := deleted_new ins_version\<rparr>) xs of
               (xs', True) \<Rightarrow> Some xs' | (_, False) \<Rightarrow> None)
       else Some xs;
     (case ix_insert L ins_version (record_info_new payload) xs1 of
        (xs2, True) \<Rightarrow> Some xs2 | (_, False) \<Rightarrow> None)
   }"

definition bx_delete :: "'p index_lib \<Rightarrow> version \<Rightarrow> 'p info_map \<Rightarrow> 'p info_map option" where
  "bx_delete L del_version xs =
     (case ix_peek_max L xs of
        None \<Rightarrow> Some xs
      | Some (key, info) \<Rightarrow>
          if key < del_version \<and> deleted_get (rec_del info) = None then
            (case ix_update L key (info\<lparr>rec_del := deleted_new del_version\<rparr>) xs of
               (xs', True) \<Rightarrow> Some xs' | (_, False) \<Rightarrow> None)
          else Some xs)"

section \<open>The index\<close>

definition vx_new :: "'k \<Rightarrow> version_index_type \<Rightarrow> 'p \<Rightarrow> version \<Rightarrow> ('k, 'p) weaver_heap
    \<Rightarrow> ('k, 'p) weaver_heap \<times> 'p version_index" where
  "vx_new key kind payload version h =
     (case kind of
        TypeFrugalSkipList \<Rightarrow> (h, FrugalSkipList (fl_new payload version))
      | TypeVanilla \<Rightarrow> (h, VANILLA (vl_new payload version None))
      | TypeSkipList \<Rightarrow> (h, SkipListIndex [(version, record_info_new payload)])
      | TypeBTree \<Rightarrow> (h, DexaBTree [])
      | TypeVWeaver \<Rightarrow> map_prod id VWEAVER (wl_new key payload version h))"

fun find_weaver_node :: "('k, 'p) weaver_heap \<Rightarrow> 'p version_index \<Rightarrow> version \<Rightarrow> nat option option" where
  "find_weaver_node h (VWEAVER head) version = wl_find h head version"
| "find_weaver_node h _ version = Some None"

fun find_weaver_node_or_tombstone :: "('k, 'p) weaver_heap \<Rightarrow> 'p version_index \<Rightarrow> version \<Rightarrow> nat option option" where
  "find_weaver_node_or_tombstone h (VWEAVER head) version = wl_find_any h head version"
| "find_weaver_node_or_tombstone h _ version = Some None"

fun vx_find :: "'p index_lib \<Rightarrow> ('k, 'p) weaver_heap \<Rightarrow> 'p version_index \<Rightarrow> version
    \<Rightarrow> (version \<times> 'p) option option" where
  "vx_find L h (VANILLA es) version =
     map_option (map_option (\<lambda>e. (ve_insert e, ve_payload e))) (vl_find es version)"
| "vx_find L h (SkipListIndex xs) version = Some (sx_find xs version)"
| "vx_find L h (DexaBTree xs) version =
     Some (map_option (\<lambda>(key, info). (key, rec_payload info)) (ix_point L version xs))"
| "vx_find L h (FrugalSkipList head) version = do {
     found \<leftarrow> fl_find head version;
     case found of
       None \<Rightarrow> Some None
     | Some n \<Rightarrow> map_option (\<lambda>p. Some (fn_version n, p)) (fn_payload n)
   }"
| "vx_find L h (VWEAVER head) version = do {
     found \<leftarrow> wl_find h head version;
     case found of
       None \<Rightarrow> Some None
     | Some a \<Rightarrow> do {
         n \<leftarrow> wn_load h a;
         map_option (\<lambda>p. Some (wn_version n, p)) (wn_payload n)
       }
   }"

text \<open>\<open>toss\<close> is the coin that the lists with towers toss for an entry.\<close>

fun vx_push :: "'p index_lib \<Rightarrow> bool \<Rightarrow> version \<Rightarrow> 'p \<Rightarrow> ('k, 'p) weaver_heap \<Rightarrow> 'p version_index
    \<Rightarrow> (('k, 'p) weaver_heap \<times> 'p version_index) option" where
  "vx_push L toss ins_version payload h (FrugalSkipList head) =
     map_option (\<lambda>n. (h, FrugalSkipList n)) (fl_push toss (Some payload) ins_version head)"
| "vx_push L toss ins_version payload h (VANILLA es) =
     map_option (\<lambda>es'. (h, VANILLA es')) (vl_push ins_version payload es)"
| "vx_push L toss ins_version payload h (SkipListIndex xs) =
     map_option (\<lambda>xs'. (h, SkipListIndex xs')) (sx_push L ins_version payload xs)"
| "vx_push L toss ins_version payload h (DexaBTree xs) =
     map_option (\<lambda>xs'. (h, DexaBTree xs')) (bx_push L ins_version payload xs)"
| "vx_push L toss ins_version payload h (VWEAVER head) =
     map_option (map_prod id VWEAVER) (wl_push toss (Some payload) ins_version h head)"

fun vx_append :: "'p index_lib \<Rightarrow> bool \<Rightarrow> version \<Rightarrow> 'p \<Rightarrow> ('k, 'p) weaver_heap \<Rightarrow> 'p version_index
    \<Rightarrow> (('k, 'p) weaver_heap \<times> 'p version_index) option" where
  "vx_append L toss ins_version payload h (FrugalSkipList head) =
     map_option (\<lambda>n. (h, FrugalSkipList n)) (fl_append toss (Some payload) ins_version head)"
| "vx_append L toss ins_version payload h (VANILLA es) =
     map_option (\<lambda>es'. (h, VANILLA es')) (vl_append ins_version payload es)"
| "vx_append L toss ins_version payload h (SkipListIndex xs) =
     map_option (\<lambda>xs'. (h, SkipListIndex xs')) (sx_append L ins_version payload xs)"
| "vx_append L toss ins_version payload h (DexaBTree xs) =
     map_option (\<lambda>xs'. (h, DexaBTree xs')) (bx_push L ins_version payload xs)"
| "vx_append L toss ins_version payload h (VWEAVER head) =
     map_option (map_prod id VWEAVER) (wl_append toss (Some payload) ins_version h head)"

fun vx_delete :: "'p index_lib \<Rightarrow> bool \<Rightarrow> version \<Rightarrow> ('k, 'p) weaver_heap \<Rightarrow> 'p version_index
    \<Rightarrow> (('k, 'p) weaver_heap \<times> 'p version_index) option" where
  "vx_delete L toss del_version h (FrugalSkipList head) =
     map_option (\<lambda>n. (h, FrugalSkipList n)) (fl_delete toss del_version head)"
| "vx_delete L toss del_version h (VANILLA es) =
     map_option (\<lambda>es'. (h, VANILLA es')) (vl_delete del_version es)"
| "vx_delete L toss del_version h (SkipListIndex xs) =
     map_option (\<lambda>xs'. (h, SkipListIndex xs')) (sx_delete del_version xs)"
| "vx_delete L toss del_version h (DexaBTree xs) =
     map_option (\<lambda>xs'. (h, DexaBTree xs')) (bx_delete L del_version xs)"
| "vx_delete L toss del_version h (VWEAVER head) =
     map_option (map_prod id VWEAVER) (wl_delete toss del_version h head)"

fun vx_is_live :: "'p index_lib \<Rightarrow> ('k, 'p) weaver_heap \<Rightarrow> 'p version_index \<Rightarrow> bool option" where
  "vx_is_live L h (VANILLA es) = vl_is_live es"
| "vx_is_live L h (SkipListIndex xs) = sx_is_live xs"
| "vx_is_live L h (FrugalSkipList head) = Some (fl_is_live head)"
| "vx_is_live L h (DexaBTree xs) =
     Some (case ix_peek_max L xs of Some e \<Rightarrow> deleted_get (rec_del (snd e)) = None | None \<Rightarrow> False)"
| "vx_is_live L h (VWEAVER head) = wl_is_live h head"

fun vx_newest_payload :: "'p index_lib \<Rightarrow> ('k, 'p) weaver_heap \<Rightarrow> 'p version_index \<Rightarrow> 'p option" where
  "vx_newest_payload L h (FrugalSkipList head) = fl_newest_payload head"
| "vx_newest_payload L h (VANILLA es) = vl_newest_payload es"
| "vx_newest_payload L h (SkipListIndex xs) = map_option (\<lambda>e. rec_payload (snd e)) (sl_back xs)"
| "vx_newest_payload L h (DexaBTree xs) = map_option (\<lambda>e. rec_payload (snd e)) (ix_peek_max L xs)"
| "vx_newest_payload L h (VWEAVER head) = wl_newest_payload h head"

fun vx_len :: "'p index_lib \<Rightarrow> ('k, 'p) weaver_heap \<Rightarrow> 'p version_index \<Rightarrow> usize option" where
  "vx_len L h (VANILLA es) = vl_len es"
| "vx_len L h (SkipListIndex xs) = Some (length xs)"
| "vx_len L h (FrugalSkipList head) = Some (fl_len head)"
| "vx_len L h (DexaBTree xs) = Some (2 ^ unat (ix_height L xs) - 1)"
| "vx_len L h (VWEAVER head) = wl_len h head"

text \<open>
  \<open>clone\<close>: the plain and the frugal list are copied, the others shared. No two owners of a shared
  index are ever used: a leaf whose records have been cloned is thrown away.
\<close>

fun vx_clone :: "(nat \<Rightarrow> bool) \<Rightarrow> 'p version_index \<Rightarrow> 'p version_index option" where
  "vx_clone tosses (VANILLA es) = map_option VANILLA (vl_clone es)"
| "vx_clone tosses (SkipListIndex xs) = Some (SkipListIndex xs)"
| "vx_clone tosses (FrugalSkipList head) = map_option FrugalSkipList (fl_clone tosses head)"
| "vx_clone tosses (DexaBTree xs) = Some (DexaBTree xs)"
| "vx_clone tosses (VWEAVER head) = Some (VWEAVER head)"

section \<open>The ordered map as a version index\<close>

text \<open>\<open>open_info i\<close>: no deletion version is set.\<close>

abbreviation open_info :: "'p record_info \<Rightarrow> bool" where
  "open_info info \<equiv> deleted_get (rec_del info) = None"

definition sx_ok :: "'p index_lib \<Rightarrow> version \<Rightarrow> 'p info_map \<Rightarrow> bool" where
  "sx_ok L now xs \<longleftrightarrow> skip_laws (ix_skip L) \<and> now \<le> VERSION_LIMIT \<and> xs \<noteq> [] \<and> ascending xs
     \<and> (\<forall>e \<in> set xs. fst e < now)
     \<and> (\<forall>d. deleted_get (rec_del (snd (last xs))) = Some d \<longrightarrow> d < now)"

definition sx_lookup :: "'p info_map \<Rightarrow> version \<Rightarrow> 'p option" where
  "sx_lookup xs v = map_option snd (sx_find xs v)"

lemma sl_insert_above:
  assumes "skip_laws L" and "ascending xs" and "\<forall>e \<in> set xs. fst e < k"
  shows "sl_insert L k v xs = xs @ [(k, v)]"
proof (rule ascending_set_eq)
  show "ascending (sl_insert L k v xs)" using skip_lawsD(1) [OF assms(1,2)] .
  show "ascending (xs @ [(k, v)])" using assms(2,3) by (simp add: ascending_append)
  show "set (sl_insert L k v xs) = set (xs @ [(k, v)])"
    using skip_lawsD(2) [OF assms(1,2), of k v] assms(3) by force
qed

text \<open>The last entry decides from its own version on, the entries before it decide earlier.\<close>

lemma sx_lookup_snoc:
  "sx_lookup (xs @ [(k, info)]) v =
     (if k \<le> v then if (case deleted_get (rec_del info) of Some d \<Rightarrow> v < d | None \<Rightarrow> True)
        then Some (rec_payload info) else None
      else sx_lookup xs v)"
  by (auto simp: sx_lookup_def sx_find_def sl_back_def)

lemma sx_split: "sx_ok L now xs \<Longrightarrow> \<exists>ys k info. xs = ys @ [(k, info)]"
  by (cases xs rule: rev_cases) (auto simp: sx_ok_def)

text \<open>Closing the newest entry at \<open>w\<close>.\<close>

definition sx_closed :: "version \<Rightarrow> 'p info_map \<Rightarrow> 'p info_map" where
  "sx_closed w xs = (if open_info (snd (last xs)) then set_last_del w xs else xs)"

lemma sx_closed_ok:
  assumes ok: "sx_ok L now xs" and w: "now \<le> w" "w < VERSION_LIMIT"
  shows "sx_ok L (w + 1) (sx_closed w xs)" and "\<forall>e \<in> set (sx_closed w xs). fst e < w"
    and "v < w \<Longrightarrow> sx_lookup (sx_closed w xs) v = sx_lookup xs v"
    and "w \<le> v \<Longrightarrow> sx_lookup (sx_closed w xs) v = None"
proof -
  obtain ys k info where xs: "xs = ys @ [(k, info)]" using sx_split [OF ok] by blast
  obtain info' where c: "sx_closed w xs = ys @ [(k, info')]" "rec_payload info' = rec_payload info"
      "deleted_get (rec_del info') = Some (case deleted_get (rec_del info) of Some d \<Rightarrow> d | None \<Rightarrow> w)"
    using w(2) by (cases "deleted_get (rec_del info)") (auto simp: sx_closed_def set_last_del_def xs)
  have d: "d < now" if "deleted_get (rec_del info) = Some d" for d using ok that by (simp add: sx_ok_def xs)
  have low: "\<forall>e \<in> set xs. fst e < w" using ok w(1) by (auto simp: sx_ok_def)
  show below: "\<forall>e \<in> set (sx_closed w xs). fst e < w" using low [unfolded xs] unfolding c(1) by simp
  show "sx_ok L (w + 1) (sx_closed w xs)"
    using ok [unfolded xs] below w version_step [OF w(2)] inc_le [OF w(2)] d c(3) unfolding c(1)
    by (force simp: sx_ok_def ascending_append split: option.splits)
  show "sx_lookup (sx_closed w xs) v = sx_lookup xs v" if "v < w"
    using c(2,3) that unfolding c(1) by (auto simp: xs sx_lookup_snoc split: option.splits)
  show "sx_lookup (sx_closed w xs) v = None" if "w \<le> v"
    using c(3) that d w(1) low unfolding c(1) by (fastforce simp: xs sx_lookup_snoc split: option.splits)
qed

lemma sx_push_ok:
  assumes ok: "sx_ok L now xs" and w: "now \<le> w" "w < VERSION_LIMIT"
  shows "\<exists>xs'. sx_push L w p xs = Some xs' \<and> sx_ok L (w + 1) xs'
    \<and> (\<forall>v < VERSION_LIMIT. sx_lookup xs' v = (if w \<le> v then Some p else sx_lookup xs v))"
proof -
  note c = sx_closed_ok [OF ok w]
  have "sl_insert (ix_skip L) w (record_info_new p) (sx_closed w xs) = sx_closed w xs @ [(w, record_info_new p)]"
    using c(1,2) by (intro sl_insert_above) (auto simp: sx_ok_def)
  then have "sx_push L w p xs = Some (sx_closed w xs @ [(w, record_info_new p)])"
    using ok by (simp add: sx_push_def sx_closed_def sl_back_def sx_ok_def)
  moreover have "sx_ok L (w + 1) (sx_closed w xs @ [(w, record_info_new p)])"
    using c(1,2) version_step [OF w(2)] by (auto simp: sx_ok_def ascending_append record_info_new_def)
  moreover have "sx_lookup (sx_closed w xs @ [(w, record_info_new p)]) v = (if w \<le> v then Some p else sx_lookup xs v)" for v
    using c(3) [of v] by (auto simp: sx_lookup_snoc record_info_new_def)
  ultimately show ?thesis by blast
qed

lemma sx_delete_ok:
  assumes ok: "sx_ok L now xs" and w: "now \<le> w" "w < VERSION_LIMIT"
  shows "\<exists>xs'. sx_delete w xs = Some xs' \<and> sx_ok L (w + 1) xs'
    \<and> (\<forall>v < VERSION_LIMIT. sx_lookup xs' v = (if w \<le> v then None else sx_lookup xs v))"
proof -
  note c = sx_closed_ok [OF ok w]
  have "fst (last xs) < w" using ok w(1) by (auto simp: sx_ok_def intro: order.strict_trans2)
  then have "sx_delete w xs = Some (sx_closed w xs)"
    using ok by (auto simp: sx_delete_def sx_closed_def sl_back_def sx_ok_def split: prod.splits)
  then show ?thesis using c by auto
qed

lemma sx_alive:
  assumes ok: "sx_ok L now xs" and v: "now \<le> v" "v < VERSION_LIMIT"
  shows "sx_is_live xs = Some True \<longleftrightarrow> sx_lookup xs v \<noteq> None"
proof -
  obtain ys k info where xs: "xs = ys @ [(k, info)]" using sx_split [OF ok] by blast
  then have "k \<le> v" "deleted_get (rec_del info) = Some d \<Longrightarrow> d < v" for d
    using ok v(1) by (auto simp: sx_ok_def intro: order.strict_trans2)
  then show ?thesis
    by (cases "deleted_get (rec_del info)") (auto simp: xs sx_is_live_def sl_back_def sx_lookup_snoc)
qed

interpretation ordered: version_chain sx_lookup "\<lambda>_ :: unit. sx_push L" "\<lambda>_. sx_delete" "\<lambda>xs. sx_is_live xs = Some True" "sx_ok L"
  for L :: "'p index_lib"
  by unfold_locales (rule sx_push_ok sx_delete_ok sx_alive; assumption)+

section \<open>All kinds as a version index\<close>

fun vx_lookup :: "'p index_lib \<Rightarrow> ('k, 'p) weaver_heap \<times> 'p version_index \<Rightarrow> version \<Rightarrow> 'p option" where
  "vx_lookup L (h, idx) v = (case vx_find L h idx v of Some (Some r) \<Rightarrow> Some (snd r) | _ \<Rightarrow> None)"

fun vx_good :: "'p index_lib \<Rightarrow> 'k \<Rightarrow> version \<Rightarrow> ('k, 'p) weaver_heap \<times> 'p version_index \<Rightarrow> bool" where
  "vx_good L key now (h, FrugalSkipList n) \<longleftrightarrow> fl_ok now n"
| "vx_good L key now (h, VWEAVER a) \<longleftrightarrow> wl_good key now (h, a)"
| "vx_good L key now (h, VANILLA es) \<longleftrightarrow> vl_ok now es"
| "vx_good L key now (h, SkipListIndex xs) \<longleftrightarrow> sx_ok L now xs"
| "vx_good L key now (h, DexaBTree xs) \<longleftrightarrow> False"

lemma vx_lookup_vanilla: "vl_ok now es \<Longrightarrow> vx_lookup L (h, VANILLA es) v = vl_lookup es v"
  by (auto simp: vl_lookup_def split: option.splits)

lemma vx_lookup_frugal: "fl_ok now n \<Longrightarrow> vx_lookup L (h, FrugalSkipList n) v = fl_lookup n v"
  by (auto simp: fl_lookup_def fl_find_def fl_find_from_eq fl_ok_def fl_is_live_def split: option.splits bind_splits)

lemma vx_lookup_ordered: "vx_lookup L (h, SkipListIndex xs) v = sx_lookup xs v"
  by (auto simp: sx_lookup_def split: option.splits)

lemma wl_find_total:
  assumes "wl_good key now (h, a)"
  obtains f where "wl_find h a v = Some f" and "\<And>b. f = Some b \<Longrightarrow> b < length h \<and> wn_payload (h ! b) \<noteq> None"
proof -
  obtain n where n: "weaves h key a n" "fl_ok now n" using assms by (auto simp: wl_good_def)
  have fr: "frugal_ok n" using n(2) by (simp add: fl_ok_def)
  obtain f where f: "fl_find_from n v False = Some f" using fl_find_from_eq [OF fr] by blast
  obtain b where b: "wl_find_from h a v False = Some b" "f = None \<longleftrightarrow> b = None" "\<forall>m c. f = Some m \<longrightarrow> b = Some c \<longrightarrow> weaves h key c m"
    using wl_find_from_sim [OF n(1) f] by blast
  have "fl_is_live m" if "f = Some m" for m
    using f that fl_find_from_eq [OF fr, of v False] by (auto split: option.splits if_splits)
  then have "c < length h \<and> wn_payload (h ! c) \<noteq> None" if c: "b = Some c" for c
  proof -
    obtain m where m: "f = Some m" using b(2) c by auto
    then have "weaves h key c m" using b(3) c by blast
    then show ?thesis
      using \<open>\<And>m. f = Some m \<Longrightarrow> fl_is_live m\<close> [OF m] weaves_load [of h key c m]
      by (auto simp: fl_is_live_def wn_load_def split: if_splits)
  qed
  then show ?thesis using that b(1) by (simp add: wl_find_def)
qed

lemma vx_lookup_weaver:
  assumes "wl_good key now (h, a)"
  shows "vx_lookup L (h, VWEAVER a) v = wl_lookup (h, a) v"
  by (rule wl_find_total [OF assms, of v]) (auto simp: wl_lookup_def wn_load_def split: option.splits bind_splits)

lemmas vx_lookups = vx_lookup_vanilla vx_lookup_frugal vx_lookup_ordered vx_lookup_weaver

text \<open>A lookup does not panic.\<close>

lemma vx_find_ok:
  assumes "vx_good L key now (h, idx)"
  obtains u where "vx_find L h idx v = Some (map_option (Pair u) (vx_lookup L (h, idx) v))"
proof -
  have "vx_find L h idx v \<noteq> None"
  proof (cases idx)
    case (VWEAVER a)
    show ?thesis
      by (rule wl_find_total [of key now h a v])
        (use assms VWEAVER in \<open>auto simp: wn_load_def split: option.splits bind_splits\<close>)
  next
    case (FrugalSkipList n)
    then show ?thesis
      using assms by (auto simp: fl_find_def fl_find_from_eq fl_ok_def fl_is_live_def split: option.splits bind_splits)
  next
    case (VANILLA es)
    then show ?thesis using assms by (auto simp: vl_ok_def vl_find_eq)
  qed auto
  then obtain r where "vx_find L h idx v = Some r" by blast
  then show ?thesis using that [of "fst (the r)"] by (cases r) auto
qed

text \<open>What happens to the heap of the weaver lists does not matter to an index.\<close>

lemma vx_frame:
  assumes "vx_good L key now (h, idx)" and "heap_kept h h'"
  shows "vx_good L key now (h', idx)" and "vx_lookup L (h', idx) = vx_lookup L (h, idx)"
    and "vx_is_live L h' idx = vx_is_live L h idx"
proof -
  have "vx_good L key now (h', idx) \<and> vx_lookup L (h', idx) = vx_lookup L (h, idx) \<and> vx_is_live L h' idx = vx_is_live L h idx"
  proof (cases idx)
    case (VWEAVER a)
    then have a: "wl_good key now (h, a)" using assms(1) by simp
    note fr = wl_frame [OF a assms(2)]
    show ?thesis
      using fr by (simp add: VWEAVER fun_eq_iff vx_lookup_weaver [OF a] vx_lookup_weaver [OF fr(1)] del: vx_lookup.simps)
  qed (use assms(1) in \<open>simp_all add: fun_eq_iff\<close>)
  then show "vx_good L key now (h', idx)" and "vx_lookup L (h', idx) = vx_lookup L (h, idx)"
    and "vx_is_live L h' idx = vx_is_live L h idx" by simp_all
qed

lemma vx_good_mono:
  assumes "vx_good L key now s" and "now \<le> now'" and "now' \<le> VERSION_LIMIT"
  shows "vx_good L key now' s"
proof -
  obtain h idx where s: "s = (h, idx)" by (cases s)
  show ?thesis
    using assms unfolding s
    by (cases idx) (auto simp: sx_ok_def wl_good_def intro: fl_ok_mono vl_ok_mono)
qed

definition vx_step :: "'p index_lib \<Rightarrow> 'k \<Rightarrow> version \<Rightarrow> 'p option \<Rightarrow> ('k, 'p) weaver_heap \<times> 'p version_index
    \<Rightarrow> (('k, 'p) weaver_heap \<times> 'p version_index) option \<Rightarrow> bool" where
  "vx_step L key w x s r \<longleftrightarrow> (\<exists>s'. r = Some s' \<and> vx_good L key (w + 1) s' \<and> heap_kept (fst s) (fst s')
     \<and> (\<forall>v < VERSION_LIMIT. vx_lookup L s' v = (if w \<le> v then x else vx_lookup L s v)))"

text \<open>What holds of a list holds of the index that is this list.\<close>

lemma vx_step_frugal:
  assumes "\<exists>n'. r = Some n' \<and> fl_ok (w + 1) n' \<and> (\<forall>v < VERSION_LIMIT. fl_lookup n' v = (if w \<le> v then x else fl_lookup n v))"
    and "fl_ok now n"
  shows "vx_step L key w x (h, FrugalSkipList n) (map_option (\<lambda>n. (h, FrugalSkipList n)) r)"
  using assms heap_kept_refl [of h]
  by (auto simp: vx_step_def vx_lookup_frugal [of "w + 1"] vx_lookup_frugal [of now] simp del: vx_lookup.simps)

lemma vx_step_vanilla:
  assumes "\<exists>es'. r = Some es' \<and> vl_ok (w + 1) es' \<and> (\<forall>v < VERSION_LIMIT. vl_lookup es' v = (if w \<le> v then x else vl_lookup es v))"
    and "vl_ok now es"
  shows "vx_step L key w x (h, VANILLA es) (map_option (\<lambda>es. (h, VANILLA es)) r)"
  using assms heap_kept_refl [of h]
  by (auto simp: vx_step_def vx_lookup_vanilla [of "w + 1"] vx_lookup_vanilla [of now] simp del: vx_lookup.simps)

lemma vx_step_ordered:
  assumes "\<exists>xs'. r = Some xs' \<and> sx_ok L (w + 1) xs' \<and> (\<forall>v < VERSION_LIMIT. sx_lookup xs' v = (if w \<le> v then x else sx_lookup xs v))"
  shows "vx_step L key w x (h, SkipListIndex xs) (map_option (\<lambda>xs. (h, SkipListIndex xs)) r)"
  using assms heap_kept_refl [of h] by (auto simp: vx_step_def vx_lookup_ordered simp del: vx_lookup.simps)

lemma vx_step_weaver:
  assumes "\<exists>s'. r = Some s' \<and> wl_good key (w + 1) s' \<and> heap_kept (fst (h, a)) (fst s')
      \<and> (\<forall>v < VERSION_LIMIT. wl_lookup s' v = (if w \<le> v then x else wl_lookup (h, a) v))"
    and "wl_good key now (h, a)"
  shows "vx_step L key w x (h, VWEAVER a) (map_option (map_prod id VWEAVER) r)"
  using assms
  by (auto simp: vx_step_def vx_lookup_weaver [of key "w + 1"] vx_lookup_weaver [of key now] simp del: vx_lookup.simps)

lemma vx_push_ok:
  assumes "vx_good L key now (h, idx)" and w: "now \<le> w" "w < VERSION_LIMIT"
  shows "vx_step L key w (Some p) (h, idx) (vx_push L toss w p h idx)"
proof (cases idx)
  case (FrugalSkipList n)
  then show ?thesis using vx_step_frugal [OF fl_push_ok [OF _ w]] assms(1) by simp
next
  case (VWEAVER a)
  then show ?thesis using vx_step_weaver [OF wl_push_ok [OF _ w, of key "(h, a)"]] assms(1) by simp
next
  case (VANILLA es)
  then show ?thesis using vx_step_vanilla [OF vl_push_ok [OF _ w]] assms(1) by simp
next
  case (SkipListIndex xs)
  then show ?thesis using vx_step_ordered [OF sx_push_ok [OF _ w]] assms(1) by simp
qed (use assms(1) in simp)

lemma vx_delete_ok:
  assumes "vx_good L key now (h, idx)" and w: "now \<le> w" "w < VERSION_LIMIT"
  shows "vx_step L key w None (h, idx) (vx_delete L toss w h idx)"
proof (cases idx)
  case (FrugalSkipList n)
  then show ?thesis using vx_step_frugal [OF fl_delete_ok [OF _ w]] assms(1) by simp
next
  case (VWEAVER a)
  then show ?thesis using vx_step_weaver [OF wl_delete_ok [OF _ w, of key "(h, a)"]] assms(1) by simp
next
  case (VANILLA es)
  then show ?thesis using vx_step_vanilla [OF vl_delete_ok [OF _ w]] assms(1) by simp
next
  case (SkipListIndex xs)
  then show ?thesis using vx_step_ordered [OF sx_delete_ok [OF _ w]] assms(1) by simp
qed (use assms(1) in simp)

lemma vx_alive:
  assumes "vx_good L key now (h, idx)" and "now \<le> v" and "v < VERSION_LIMIT"
  shows "vx_is_live L h idx = Some True \<longleftrightarrow> vx_lookup L (h, idx) v \<noteq> None"
proof (cases idx)
  case (FrugalSkipList n)
  then show ?thesis
    using frugal.alive_iff [OF _ assms(2,3)] assms(1) by (simp add: vx_lookup_frugal [of now] del: vx_lookup.simps)
next
  case (VWEAVER a)
  then show ?thesis
    using wl_alive [of key now "(h, a)" v] assms by (simp add: vx_lookup_weaver [of key now] del: vx_lookup.simps)
next
  case (VANILLA es)
  then show ?thesis using vl_alive [OF _ assms(2,3)] assms(1) by (simp add: vx_lookup_vanilla [of now] del: vx_lookup.simps)
next
  case (SkipListIndex xs)
  then show ?thesis using sx_alive [OF _ assms(2,3)] assms(1) by (simp add: vx_lookup_ordered del: vx_lookup.simps)
qed (use assms(1) in simp)

lemma vx_is_live_total: "vx_good L key now (h, idx) \<Longrightarrow> \<exists>b. vx_is_live L h idx = Some b"
  by (cases idx) (auto simp: vl_ok_def vl_is_live_def sx_ok_def sx_is_live_def sl_back_def wl_good_def dest: wl_is_live_sim
      split: list.splits)

interpretation vindex: version_chain "vx_lookup L" "\<lambda>toss w p s. vx_push L toss w p (fst s) (snd s)"
    "\<lambda>toss w s. vx_delete L toss w (fst s) (snd s)" "\<lambda>s. vx_is_live L (fst s) (snd s) = Some True" "vx_good L key"
  for L :: "'p index_lib" and key :: 'k
proof (unfold_locales, goal_cases)
  case (1 now s w toss p)
  then show ?case
    using vx_push_ok [of L key now "fst s" "snd s" w, where toss = toss and p = p] by (auto simp: vx_step_def)
next
  case (2 now s w toss)
  then show ?case using vx_delete_ok [of L key now "fst s" "snd s" w toss] by (auto simp: vx_step_def)
next
  case (3 now s v)
  then show ?case using vx_alive [of L key now "fst s" "snd s" v] by simp
qed

text \<open>On a live index \<open>append\<close> is \<open>push\<close>.\<close>

lemma vx_append_live:
  assumes "vx_is_live L h idx = Some True"
  shows "vx_append L toss w p h idx = vx_push L toss w p h idx"
  using assms
  by (cases idx) (auto simp: fl_push_def vl_push_def wl_push_def sx_append_def sx_push_def sx_is_live_def split: option.splits)

lemma vl_new_ok:
  assumes "v < VERSION_LIMIT"
  shows "vl_ok (v + 1) (vl_new p v None)" and "u < VERSION_LIMIT \<Longrightarrow> vl_lookup (vl_new p v None) u = (if v \<le> u then Some p else None)"
  using version_step [OF assms] inc_le [OF assms] below_max [of u]
  by (auto simp: vl_new_def vl_ok_def entry_ok_def vl_lookup_eq)

lemma fl_new_ok:
  assumes "v < VERSION_LIMIT"
  shows "fl_ok (v + 1) (fl_new p v)" and "fl_lookup (fl_new p v) u = (if v \<le> u then Some p else None)"
  using version_step [OF assms] inc_le [OF assms] fl_lookup_eq [of "fl_new p v" u]
  by (auto simp: fl_ok_def fl_new_def fl_entries_def)

lemma vx_new_ok:
  assumes "v < VERSION_LIMIT" and "kind \<noteq> TypeBTree" and "skip_laws (ix_skip L)"
  shows "vx_good L key (v + 1) (vx_new key kind p v h)" and "heap_kept h (fst (vx_new key kind p v h))"
    and "u < VERSION_LIMIT \<Longrightarrow> vx_lookup L (vx_new key kind p v h) u = (if v \<le> u then Some p else None)"
proof -
  note w = version_step [OF assms(1)] inc_le [OF assms(1)]
  note new = vl_new_ok [OF assms(1), where p = p] fl_new_ok [OF assms(1), where p = p] wl_new_good [OF assms(1), where key = key and p = p and h = h]
  have wn: "wl_new key p v h = (fst (wl_new key p v h), snd (wl_new key p v h))" by simp
  have sk: "sx_ok L (v + 1) [(v, record_info_new p)]" "sx_lookup [(v, record_info_new p)] u = (if v \<le> u then Some p else None)" for u
    using w assms(3) sx_lookup_snoc [of "[]" v "record_info_new p" u]
    by (auto simp: sx_ok_def record_info_new_def sx_lookup_def sx_find_def sl_back_def)
  show "vx_good L key (v + 1) (vx_new key kind p v h)"
    using new sk(1) wn assms(2) by (cases kind) (auto simp: vx_new_def map_prod_def split: prod.splits)
  show "heap_kept h (fst (vx_new key kind p v h))"
    using new heap_kept_refl [of h] by (cases kind) (auto simp: vx_new_def)
  show "vx_lookup L (vx_new key kind p v h) u = (if v \<le> u then Some p else None)" if "u < VERSION_LIMIT"
  proof (cases kind)
    case TypeVWeaver
    then show ?thesis
      using vx_lookup_weaver [of key "v + 1" "fst (wl_new key p v h)" "snd (wl_new key p v h)" L u] new
      by (simp add: vx_new_def map_prod_def split_beta del: vx_lookup.simps)
  qed (use assms(2) that new sk in \<open>simp_all add: vx_new_def vx_lookup_vanilla [of "v + 1"] vx_lookup_frugal [of "v + 1"]
      vx_lookup_ordered del: vx_lookup.simps\<close>)
qed

text \<open>A clone of an index answers every lookup as the index does.\<close>

lemma vx_clone_ok:
  assumes "vx_good L key now (h, idx)"
  shows "\<exists>idx'. vx_clone tosses idx = Some idx' \<and> (\<exists>now'. vx_good L key now' (h, idx'))
    \<and> vx_lookup L (h, idx') = vx_lookup L (h, idx)"
proof (cases idx)
  case (FrugalSkipList n)
  then have n: "fl_ok now n" using assms by simp
  obtain n' now' where n': "fl_clone tosses n = Some n'" "fl_ok now' n'" "fl_entries n' = fl_entries n"
    using fl_clone_ok [OF n] by blast
  have "fl_lookup n' v = fl_lookup n v" for v
    using n'(2,3) n fl_lookup_eq [of n' v] fl_lookup_eq [of n v] by (simp add: fl_ok_def)
  then show ?thesis
    using n' FrugalSkipList by (auto simp: fun_eq_iff vx_lookup_frugal [OF n] vx_lookup_frugal [OF n'(2)] simp del: vx_lookup.simps)
next
  case (VANILLA es)
  then show ?thesis using assms by (auto simp: vl_ok_def vl_clone_eq)
qed (use assms in auto)

text \<open>A sequence of writes to one index: the coin, the version, and the payload or its removal.\<close>

fun vx_writes :: "'p index_lib \<Rightarrow> (bool \<times> version \<times> 'p option) list \<Rightarrow> ('k, 'p) weaver_heap \<times> 'p version_index
    \<Rightarrow> (('k, 'p) weaver_heap \<times> 'p version_index) option" where
  "vx_writes L [] s = Some s"
| "vx_writes L ((toss, w, x) # es) (h, idx) =
     Option.bind (case x of Some p \<Rightarrow> vx_push L toss w p h idx | None \<Rightarrow> vx_delete L toss w h idx) (vx_writes L es)"

lemma vx_writes_replay:
  fixes s :: "('k, 'p) weaver_heap \<times> 'p version_index"
  shows "vx_writes L es s = vindex.replay L es s"
proof (induction es arbitrary: s)
  case (Cons e es)
  obtain toss w x h idx where "e = (toss, w, x)" "s = (h, idx)" by (cases e, cases s)
  moreover have "vx_writes L es = (vindex.replay L es :: ('k, 'p) weaver_heap \<times> 'p version_index \<Rightarrow> _)" by (rule ext) (rule Cons.IH)
  ultimately show ?case by (cases x) (simp_all add: vindex.put_def)
qed simp

text \<open>\<open>index_btree_laws L\<close>: what is documented of the B+-tree's point query and of its greatest entry.\<close>

definition index_btree_laws :: "'p index_lib \<Rightarrow> bool" where
  "index_btree_laws L \<longleftrightarrow> (\<forall>xs v. ascending xs \<longrightarrow> ix_peek_max L xs = sl_back xs
     \<and> ix_point L v xs = map_option (Pair v) (map_of xs v))"

definition ref_index_lib :: "'p index_lib" where
  "ref_index_lib = \<lparr>ix_skip = ref_ops, ix_point = (\<lambda>v xs. map_option (Pair v) (map_of xs v)), ix_peek_max = sl_back,
     ix_update = (\<lambda>k i xs. (map (\<lambda>e. if fst e = k then (k, i) else e) xs, k \<in> fst ` set xs)),
     ix_insert = (\<lambda>k i xs. (ref_insert k i xs, k \<notin> fst ` set xs)), ix_height = (\<lambda>_. 1)\<rparr>"

lemma ref_index_lib_laws: "skip_laws (ix_skip ref_index_lib)" "index_btree_laws ref_index_lib"
  by (simp_all add: ref_index_lib_def ref_ops_laws index_btree_laws_def)

section \<open>Properties\<close>

text \<open>
  C37: an index of any kind but the B+-tree that is created with a payload at a version and then
  written at increasing versions, whatever its coins show, ends without a panic, and a lookup at a
  version finds the payload of the last write not after it, or nothing when that write was a
  removal or when the version is before the first one.
\<close>

theorem version_index_reads_last_write:
  assumes "skip_laws (ix_skip L)" and "kind \<noteq> TypeBTree" and "w0 < VERSION_LIMIT"
    and "sorted_wrt (<) (map (fst \<circ> snd) es)" and "\<forall>e \<in> set es. w0 < fst (snd e) \<and> fst (snd e) < VERSION_LIMIT"
    and "v < VERSION_LIMIT"
  shows "\<exists>h' idx' u. vx_writes L es (vx_new key kind p w0 h) = Some (h', idx')
    \<and> vx_find L h' idx' v = Some (map_option (Pair u)
        (case rfind (\<lambda>e. fst (snd e) \<le> v) es of Some e \<Rightarrow> snd (snd e) | None \<Rightarrow> if w0 \<le> v then Some p else None))"
proof -
  note new = vx_new_ok [OF assms(3,2,1), where key = key and p = p and h = h]
  have es: "\<forall>e \<in> set es. w0 + 1 \<le> fst (snd e) \<and> fst (snd e) < VERSION_LIMIT"
    using assms(5) by (auto intro!: inc_le)
  obtain h' idx' now' where "vindex.replay L es (vx_new key kind p w0 h) = Some (h', idx')" "vx_good L key now' (h', idx')"
      "vx_lookup L (h', idx') v = (case rfind (\<lambda>e. fst (snd e) \<le> v) es of Some e \<Rightarrow> snd (snd e) | None \<Rightarrow> vx_lookup L (vx_new key kind p w0 h) v)"
    using vindex.replay_ok [OF new(1) assms(4) es] assms(6) by fastforce
  moreover from this(2) obtain u where "vx_find L h' idx' v = Some (map_option (Pair u) (vx_lookup L (h', idx') v))"
    by (rule vx_find_ok)
  ultimately show ?thesis unfolding vx_writes_replay new(3) [OF assms(6)] by (metis (no_types, lifting))
qed

theorem version_index_reads_last_write_witness:
  "\<exists>h' idx' u. vx_writes ref_index_lib [(True, 3, Some 30), (False, 5, None), (True, 8, Some 80)]
      (vx_new (7 :: nat) TypeVWeaver (10 :: nat) 1 []) = Some (h', idx')
    \<and> vx_find ref_index_lib h' idx' 6 = Some (map_option (Pair u) None)"
  using version_index_reads_last_write [of ref_index_lib TypeVWeaver 1
      "[(True, 3, Some 30), (False, 5, None), (True, 8, Some 80)]" 6 "7 :: nat" "10 :: nat" "[]"]
  by (simp add: ref_index_lib_laws rfind_def)





end
