(* ===== verification/Dexa_Node.thy ===== *)
theory Dexa_Node
  imports Version_Index
begin

text \<open>
  The pages of the version-list tree: \<^verbatim>\<open>dexa/mvb_utils/shadow_vec.rs\<close>, \<^verbatim>\<open>dexa/mvb_page_model\<close> and
  \<^verbatim>\<open>dexa/mvb_block/block.rs\<close>. A leaf is the array of its records in key order, one record per key with
  a version index; an index page is its separators and its children. A child is owned by its parent
  (no node is shared while the tree is at rest), so a node is a value. \<open>None\<close> is a panic or a write
  past the end of an array.
\<close>

section \<open>The vectors over a page's arrays\<close>

definition sv_insert :: "usize \<Rightarrow> usize \<Rightarrow> 'e \<Rightarrow> 'e list \<Rightarrow> 'e list option" where
  "sv_insert cap index e xs =
     (if index \<le> length xs \<and> length xs < cap then Some (take index xs @ e # drop index xs) else None)"

definition sv_pop :: "'e list \<Rightarrow> ('e list \<times> 'e) option" where
  "sv_pop xs = (if xs = [] then None else Some (butlast xs, last xs))"

definition sv_remove :: "usize \<Rightarrow> 'e list \<Rightarrow> ('e list \<times> 'e) option" where
  "sv_remove index xs =
     (if index = length xs - 1 then sv_pop xs
      else if index < length xs then Some (take index xs @ drop (Suc index) xs, xs ! index)
      else None)"

definition sv_push :: "usize \<Rightarrow> 'e \<Rightarrow> 'e list \<Rightarrow> 'e list option" where
  "sv_push cap e xs = (if length xs < cap then Some (xs @ [e]) else None)"

definition sv_extend :: "usize \<Rightarrow> 'e list \<Rightarrow> 'e list \<Rightarrow> 'e list option" where
  "sv_extend cap items xs = (if length xs + length items \<le> cap then Some (xs @ items) else None)"

definition sv_set :: "usize \<Rightarrow> 'e \<Rightarrow> 'e list \<Rightarrow> 'e list option" where
  "sv_set index e xs = (if index < length xs then Some (xs[index := e]) else None)"

section \<open>Records and nodes\<close>

record ('k, 'p) v_record =
  vr_key :: 'k
  vr_index :: "'p version_index"

definition v_record_new :: "'k \<Rightarrow> version \<Rightarrow> 'p \<Rightarrow> version_index_type \<Rightarrow> ('k, 'p) weaver_heap
    \<Rightarrow> ('k, 'p) weaver_heap \<times> ('k, 'p) v_record" where
  "v_record_new key version payload kind h =
     map_prod id (\<lambda>idx. \<lparr>vr_key = key, vr_index = idx\<rparr>) (vx_new key kind payload version h)"

datatype ('k, 'p) dnode =
    DLeaf "('k, 'p) v_record list"
  | DIndex "'k list" "('k, 'p) dnode list"

fun dn_is_leaf :: "('k, 'p) dnode \<Rightarrow> bool" where
  "dn_is_leaf (DLeaf rs) \<longleftrightarrow> True"
| "dn_is_leaf (DIndex ks cs) \<longleftrightarrow> False"

fun dn_len :: "('k, 'p) dnode \<Rightarrow> usize" where
  "dn_len (DLeaf rs) = length rs"
| "dn_len (DIndex ks cs) = length ks"

fun dn_records :: "('k, 'p) dnode \<Rightarrow> ('k, 'p) v_record list option" where
  "dn_records (DLeaf rs) = Some rs"
| "dn_records (DIndex ks cs) = None"

fun dn_keys :: "('k, 'p) dnode \<Rightarrow> 'k list option" where
  "dn_keys (DLeaf rs) = None"
| "dn_keys (DIndex ks cs) = Some ks"

fun dn_children :: "('k, 'p) dnode \<Rightarrow> ('k, 'p) dnode list option" where
  "dn_children (DLeaf rs) = None"
| "dn_children (DIndex ks cs) = Some cs"

text \<open>The number of children follows from the number of separators; an index page without a separator has none.\<close>

definition children_len :: "'k list \<Rightarrow> usize" where
  "children_len ks = (if ks = [] then 0 else length ks + 1)"

text \<open>
  An index page whose two arrays have been filled separately: what is behind the number of children
  that the separators give is not seen, and a child that has not been written is a fault.
\<close>

definition index_page :: "'k list \<Rightarrow> ('k, 'p) dnode list \<Rightarrow> ('k, 'p) dnode option" where
  "index_page ks cs =
     (if children_len ks \<le> length cs then Some (DIndex ks (take (children_len ks) cs)) else None)"

definition dn_is_overflow :: "('k, 'p) dnode \<Rightarrow> usize \<Rightarrow> bool" where
  "dn_is_overflow n allocation \<longleftrightarrow> dn_len n \<ge> allocation"

text \<open>
  \<open>((allocation / 2) as f32).ceil() as usize - 1\<close>: an allocation below \<open>2^24\<close> is exact as \<open>f32\<close>, and
  the subtraction wraps around when the half is zero.
\<close>

definition dn_is_underflow :: "('k, 'p) dnode \<Rightarrow> usize \<Rightarrow> bool" where
  "dn_is_underflow n allocation \<longleftrightarrow>
     dn_len n < (if allocation div 2 = 0 then 2 ^ 64 - 1 else allocation div 2 - 1)"

datatype split_type = SplitAndFilter | SplitNormal

text \<open>\<open>those\<close> over a leaf: the liveness of every record, \<open>None\<close> when one of the indexes panics.\<close>

definition live_flags :: "'p index_lib \<Rightarrow> ('k, 'p) weaver_heap \<Rightarrow> ('k, 'p) v_record list \<Rightarrow> bool list option" where
  "live_flags L h rs = those (map (\<lambda>r. vx_is_live L h (vr_index r)) rs)"

definition dn_split_type :: "'p index_lib \<Rightarrow> usize \<Rightarrow> ('k, 'p) weaver_heap \<Rightarrow> ('k, 'p) dnode \<Rightarrow> split_type option" where
  "dn_split_type L num_records h n =
     (case n of
        DIndex ks cs \<Rightarrow> Some SplitNormal
      | DLeaf rs \<Rightarrow> map_option (\<lambda>fs.
          if length (filter Not fs) < (2 * num_records + 4) div 5 then SplitAndFilter else SplitNormal) (live_flags L h rs))"

text \<open>The loop that filters: the live records stay, the others go to the limbo of the tree.\<close>

definition filter_live :: "'p index_lib \<Rightarrow> ('k, 'p) weaver_heap \<Rightarrow> ('k, 'p) v_record list
    \<Rightarrow> (('k, 'p) v_record list \<times> ('k, 'p) v_record list) option" where
  "filter_live L h rs = map_option (\<lambda>fs.
     (map fst (filter snd (zip rs fs)), map fst (filter (\<lambda>e. \<not> snd e) (zip rs fs)))) (live_flags L h rs)"

section \<open>Writes to a leaf\<close>

text \<open>\<open>Inl ()\<close> is \<open>Err\<close>, \<open>Inr None\<close> is \<open>Ok(None)\<close>.\<close>

definition delete_key :: "'p index_lib \<Rightarrow> bool \<Rightarrow> 'k::linorder \<Rightarrow> version \<Rightarrow> ('k, 'p) weaver_heap \<Rightarrow> ('k, 'p) dnode
    \<Rightarrow> (('k, 'p) weaver_heap \<times> ('k, 'p) dnode \<times> (unit + unit option)) option" where
  "delete_key L toss key del_version h n =
     (case n of
        DIndex ks cs \<Rightarrow> Some (h, n, Inl ())
      | DLeaf rs \<Rightarrow>
          (case binary_search_by_key vr_key key rs of
             Inl _ \<Rightarrow> Some (h, n, Inl ())
           | Inr found \<Rightarrow> do {
               alive \<leftarrow> vx_is_live L h (vr_index (rs ! found));
               if alive then do {
                 (h', idx) \<leftarrow> vx_delete L toss del_version h (vr_index (rs ! found));
                 Some (h', DLeaf (rs[found := (rs ! found)\<lparr>vr_index := idx\<rparr>]), Inr (Some ()))
               }
               else Some (h, n, Inl ())
             }))"

definition update_record_point :: "'p index_lib \<Rightarrow> bool \<Rightarrow> 'k::linorder \<Rightarrow> 'p \<Rightarrow> version \<Rightarrow> ('k, 'p) weaver_heap
    \<Rightarrow> ('k, 'p) dnode \<Rightarrow> (('k, 'p) weaver_heap \<times> ('k, 'p) dnode \<times> (unit + unit option)) option" where
  "update_record_point L toss key payload version h n =
     (case n of
        DIndex ks cs \<Rightarrow> Some (h, n, Inl ())
      | DLeaf rs \<Rightarrow>
          (case binary_search_by_key vr_key key rs of
             Inl _ \<Rightarrow> Some (h, n, Inr None)
           | Inr found \<Rightarrow> do {
               alive \<leftarrow> vx_is_live L h (vr_index (rs ! found));
               if alive then do {
                 (h', idx) \<leftarrow> vx_append L toss version payload h (vr_index (rs ! found));
                 Some (h', DLeaf (rs[found := (rs ! found)\<lparr>vr_index := idx\<rparr>]), Inr (Some ()))
               }
               else Some (h, n, Inr None)
             }))"

definition push_record_point :: "'p index_lib \<Rightarrow> bool \<Rightarrow> usize \<Rightarrow> 'k::linorder \<Rightarrow> 'p \<Rightarrow> version \<Rightarrow> version_index_type
    \<Rightarrow> ('k, 'p) weaver_heap \<Rightarrow> ('k, 'p) dnode \<Rightarrow> (('k, 'p) weaver_heap \<times> ('k, 'p) dnode \<times> bool) option" where
  "push_record_point L toss num_records key payload version kind h n =
     (case n of
        DIndex ks cs \<Rightarrow> Some (h, n, False)
      | DLeaf rs \<Rightarrow>
          (case binary_search_by_key vr_key key rs of
             Inl pos \<Rightarrow> do {
               let (h', r) = v_record_new key version payload kind h;
               rs' \<leftarrow> sv_insert num_records pos r rs;
               Some (h', DLeaf rs', True)
             }
           | Inr pos \<Rightarrow> do {
               (h', idx) \<leftarrow> vx_push L toss version payload h (vr_index (rs ! pos));
               Some (h', DLeaf (rs[pos := (rs ! pos)\<lparr>vr_index := idx\<rparr>]), True)
             }))"

section \<open>Records in key order\<close>

text \<open>What a reader of a version finds for a key in a sequence of records.\<close>

definition recs_lookup :: "'p index_lib \<Rightarrow> ('k, 'p) weaver_heap \<Rightarrow> ('k, 'p) v_record list \<Rightarrow> version \<Rightarrow> 'k \<Rightarrow> 'p option" where
  "recs_lookup L h rs v key =
     (case List.find (\<lambda>r. vr_key r = key) rs of Some r \<Rightarrow> vx_lookup L (h, vr_index r) v | None \<Rightarrow> None)"

definition recs_ok :: "'p index_lib \<Rightarrow> version \<Rightarrow> ('k::linorder, 'p) weaver_heap \<Rightarrow> ('k, 'p) v_record list \<Rightarrow> bool" where
  "recs_ok L now h rs \<longleftrightarrow> sorted_wrt (<) (map vr_key rs) \<and> now \<le> VERSION_LIMIT
     \<and> (\<forall>r \<in> set rs. vx_good L (vr_key r) now (h, vr_index r))"

lemma find_SomeD: "List.find P xs = Some x \<Longrightarrow> x \<in> set xs \<and> P x"
  by (induction xs) (auto split: if_splits)

lemma find_unique:
  fixes r :: "('k::linorder, 'p) v_record"
  assumes "sorted_wrt (<) (map vr_key (pre @ r # post))"
  shows "List.find (\<lambda>q. vr_key q = vr_key r) (pre @ r # post) = Some r"
proof -
  have "List.find (\<lambda>q. vr_key q = vr_key r) pre = None"
    using assms by (fastforce simp: sorted_wrt_append find_None_iff)
  then show ?thesis by (simp add: find_append_None)
qed

lemma find_other: "vr_key r \<noteq> key \<Longrightarrow>
    List.find (\<lambda>q. vr_key q = key) (pre @ r # post) = List.find (\<lambda>q. vr_key q = key) (pre @ post)"
  by (induction pre) auto

lemma recs_lookup_at:
  fixes r :: "('k::linorder, 'p) v_record"
  assumes "sorted_wrt (<) (map vr_key (pre @ r # post))"
  shows "recs_lookup L h (pre @ r # post) v key =
    (if key = vr_key r then vx_lookup L (h, vr_index r) v else recs_lookup L h (pre @ post) v key)"
  using find_unique [OF assms] by (auto simp: recs_lookup_def find_other)

lemma recs_kept:
  assumes "\<forall>r \<in> set rs. vx_good L (vr_key r) now (h, vr_index r)" and "heap_kept h h'"
  shows "\<forall>r \<in> set rs. vx_good L (vr_key r) now (h', vr_index r)" and "recs_lookup L h' rs v key = recs_lookup L h rs v key"
proof -
  show "\<forall>r \<in> set rs. vx_good L (vr_key r) now (h', vr_index r)" using vx_frame(1) [OF bspec [OF assms(1)] assms(2)] by simp
  have "vx_lookup L (h', vr_index r) v = vx_lookup L (h, vr_index r) v" if "r \<in> set rs" for r
    using vx_frame(2) [OF bspec [OF assms(1) that] assms(2)] by simp
  then show "recs_lookup L h' rs v key = recs_lookup L h rs v key"
    by (auto simp: recs_lookup_def dest: find_SomeD split: option.splits simp del: vx_lookup.simps)
qed

text \<open>
  \<open>recs_step\<close>: the records after a write of \<open>x\<close> to a key at the version \<open>w\<close>. A write to the index of a
  record makes such a step, and so does a new record.
\<close>

definition recs_step :: "'p index_lib \<Rightarrow> version \<Rightarrow> 'k::linorder \<Rightarrow> 'p option \<Rightarrow> ('k, 'p) weaver_heap \<Rightarrow> ('k, 'p) v_record list
    \<Rightarrow> ('k, 'p) weaver_heap \<Rightarrow> ('k, 'p) v_record list \<Rightarrow> bool" where
  "recs_step L w key x h rs h' rs' \<longleftrightarrow> recs_ok L (w + 1) h' rs' \<and> heap_kept h h'
     \<and> (\<forall>v < VERSION_LIMIT. \<forall>k. recs_lookup L h' rs' v k = (if k = key \<and> w \<le> v then x else recs_lookup L h rs v k))"

lemma good_later:
  fixes rs :: "('k, 'p) v_record list"
  assumes "\<forall>r \<in> set rs. vx_good L (vr_key r) now (h, vr_index r)" and "heap_kept h h'" and "now \<le> w" and "w < VERSION_LIMIT"
  shows "\<forall>r \<in> set rs. vx_good L (vr_key r) (w + 1) (h', vr_index r)"
  using recs_kept(1) [OF assms(1,2)] vx_good_mono [of L _ now _ "w + 1"] assms(3) version_step [OF assms(4)] inc_le [OF assms(4)]
  by (meson less_imp_le order_trans)

lemma recs_replace:
  assumes ok: "recs_ok L now h (pre @ r # post)" and w: "now \<le> w" "w < VERSION_LIMIT"
    and step: "vx_step L (vr_key r) w x (h, vr_index r) (Some (h', idx))"
  shows "recs_step L w (vr_key r) x h (pre @ r # post) h' (pre @ r\<lparr>vr_index := idx\<rparr> # post)"
proof -
  let ?r = "r\<lparr>vr_index := idx\<rparr>"
  have s: "vx_good L (vr_key r) (w + 1) (h', idx)" "heap_kept h h'"
      "\<forall>v < VERSION_LIMIT. vx_lookup L (h', idx) v = (if w \<le> v then x else vx_lookup L (h, vr_index r) v)"
    using step by (auto simp: vx_step_def simp del: vx_lookup.simps)
  have srt: "sorted_wrt (<) (map vr_key (pre @ r # post))" "sorted_wrt (<) (map vr_key (pre @ ?r # post))"
    using ok by (auto simp: recs_ok_def)
  have rest: "\<forall>q \<in> set (pre @ post). vx_good L (vr_key q) now (h, vr_index q)" using ok by (auto simp: recs_ok_def)
  have "recs_ok L (w + 1) h' (pre @ ?r # post)"
    using srt(2) s(1) good_later [OF rest s(2) w] inc_le [OF w(2)] by (auto simp: recs_ok_def)
  moreover have "recs_lookup L h' (pre @ ?r # post) v k = (if k = vr_key r \<and> w \<le> v then x else recs_lookup L h (pre @ r # post) v k)"
    if "v < VERSION_LIMIT" for v k
    unfolding recs_lookup_at [OF srt(1)] recs_lookup_at [OF srt(2)] recs_kept(2) [OF rest s(2)]
    using s(3) that by (simp del: vx_lookup.simps)
  ultimately show ?thesis using s(2) by (simp add: recs_step_def)
qed

lemma recs_insert:
  assumes ok: "recs_ok L now h (pre @ post)" and w: "now \<le> w" "w < VERSION_LIMIT"
    and good: "vx_good L key (w + 1) (h', idx)" and kept: "heap_kept h h'"
    and new: "\<And>v. v < VERSION_LIMIT \<Longrightarrow> vx_lookup L (h', idx) v = (if w \<le> v then Some p else None)"
    and srt: "sorted_wrt (<) (map vr_key (pre @ \<lparr>vr_key = key, vr_index = idx\<rparr> # post))"
  shows "recs_step L w key (Some p) h (pre @ post) h' (pre @ \<lparr>vr_key = key, vr_index = idx\<rparr> # post)"
proof -
  have old: "\<forall>q \<in> set (pre @ post). vx_good L (vr_key q) now (h, vr_index q)" using ok by (auto simp: recs_ok_def)
  have "List.find (\<lambda>q. vr_key q = key) (pre @ post) = None"
    using srt by (fastforce simp: find_None_iff sorted_wrt_append)
  then have none: "recs_lookup L h (pre @ post) v key = None" for v by (simp add: recs_lookup_def)
  have "recs_ok L (w + 1) h' (pre @ \<lparr>vr_key = key, vr_index = idx\<rparr> # post)"
    using srt good good_later [OF old kept w] inc_le [OF w(2)] by (auto simp: recs_ok_def)
  moreover have "recs_lookup L h' (pre @ \<lparr>vr_key = key, vr_index = idx\<rparr> # post) v k =
      (if k = key \<and> w \<le> v then Some p else recs_lookup L h (pre @ post) v k)" if "v < VERSION_LIMIT" for v k
    unfolding recs_lookup_at [OF srt] recs_kept(2) [OF old kept] using new [OF that] none by (simp del: vx_lookup.simps)
  ultimately show ?thesis using kept by (simp add: recs_step_def)
qed

section \<open>The writes of a leaf\<close>

lemma search_hit:
  assumes "sorted_wrt (<) (map f rs)" and "binary_search_by_key f key rs = Inr i"
  shows "i < length rs \<and> f (rs ! i) = key"
  using binary_search_cases [OF strict_sorted_imp_sorted [OF assms(1)], of key] assms(2) by simp

lemma search_miss:
  assumes "sorted_wrt (<) (map f rs)" and "binary_search_by_key f key rs = Inl i"
  shows "i \<le> length rs \<and> (\<forall>r \<in> set (take i rs). f r < key) \<and> (\<forall>r \<in> set (drop i rs). key < f r)"
proof -
  have "i \<le> length rs" "\<forall>j < i. f (rs ! j) < key" "\<forall>j. i \<le> j \<and> j < length rs \<longrightarrow> key < f (rs ! j)"
    using binary_search_cases [OF strict_sorted_imp_sorted [OF assms(1)], of key] assms(2) by simp_all
  then show ?thesis by (auto simp: in_set_conv_nth)
qed

lemma recs_ok_part: "recs_ok L now h (pre @ rs @ post) \<Longrightarrow> sorted_wrt (<) (map vr_key rs)"
  by (auto simp: recs_ok_def sorted_wrt_append)

lemma nth_parts: "i < length rs \<Longrightarrow> pre @ rs @ post = (pre @ take i rs) @ rs ! i # (drop (Suc i) rs @ post)"
  by (simp add: id_take_nth_drop [symmetric])

lemma update_parts: "i < length rs \<Longrightarrow> pre @ rs[i := r] @ post = (pre @ take i rs) @ r # (drop (Suc i) rs @ post)"
  by (simp add: upd_conv_take_nth_drop)

lemma keys_same: "i < length rs \<Longrightarrow> map vr_key (rs[i := (rs ! i)\<lparr>vr_index := idx\<rparr>]) = map vr_key rs"
  by (simp add: map_update list_update_same_conv)

lemma take_drop_parts: "(pre @ take i rs) @ (drop i rs @ post) = pre @ rs @ post"
  using append_take_drop_id [of i rs] by (metis append_assoc)

text \<open>A write to the index of a record of the leaf, the leaf standing between other records.\<close>

lemma recs_update:
  assumes ok: "recs_ok L now h (pre @ rs @ post)" and w: "now \<le> w" "w < VERSION_LIMIT" and i: "i < length rs"
    and step: "vx_step L (vr_key (rs ! i)) w x (h, vr_index (rs ! i)) (Some (h', idx))"
  shows "recs_step L w (vr_key (rs ! i)) x h (pre @ rs @ post) h' (pre @ rs[i := (rs ! i)\<lparr>vr_index := idx\<rparr>] @ post)"
  using recs_replace [OF ok [unfolded nth_parts [OF i]] w step] by (simp only: nth_parts [OF i] update_parts [OF i])

lemma recs_lookup_nth:
  assumes "recs_ok L now h (pre @ rs @ post)" and "i < length rs"
  shows "recs_lookup L h (pre @ rs @ post) v (vr_key (rs ! i)) = vx_lookup L (h, vr_index (rs ! i)) v"
  using recs_lookup_at [of "pre @ take i rs" "rs ! i" "drop (Suc i) rs @ post" L h v] assms
  unfolding recs_ok_def nth_parts [OF assms(2)] by simp

lemma recs_lookup_none:
  assumes "key \<notin> vr_key ` set rs"
  shows "recs_lookup L h rs v key = None"
  using assms by (auto simp: recs_lookup_def find_None_iff dest: find_SomeD split: option.splits)

text \<open>Where a key is in the leaf, the record of the key is found with its liveness.\<close>

lemma leaf_hit:
  assumes "recs_ok L now h (pre @ rs @ post)" and "binary_search_by_key vr_key key rs = Inr i"
  shows "i < length rs" and "vr_key (rs ! i) = key" and "vx_good L key now (h, vr_index (rs ! i))"
    and "now \<le> v \<Longrightarrow> v < VERSION_LIMIT \<Longrightarrow>
      vx_is_live L h (vr_index (rs ! i)) = Some (recs_lookup L h (pre @ rs @ post) v key \<noteq> None)"
proof -
  show i: "i < length rs" "vr_key (rs ! i) = key" using search_hit [OF recs_ok_part [OF assms(1)] assms(2)] by auto
  show good: "vx_good L key now (h, vr_index (rs ! i))"
    using assms(1) i nth_mem [OF i(1)] unfolding recs_ok_def by force
  show "vx_is_live L h (vr_index (rs ! i)) = Some (recs_lookup L h (pre @ rs @ post) v key \<noteq> None)"
    if "now \<le> v" "v < VERSION_LIMIT"
    using vx_is_live_total [OF good] vx_alive [OF good that] recs_lookup_nth [OF assms(1) i(1), of v] i(2) by auto
qed

lemma leaf_miss:
  fixes key :: "'k::linorder"
  assumes ok: "recs_ok L now h (pre @ rs @ post)" and miss: "binary_search_by_key vr_key key rs = Inl i"
    and below: "\<forall>r \<in> set pre. vr_key r < key" and above: "\<forall>r \<in> set post. key < vr_key r"
  shows "recs_lookup L h (pre @ rs @ post) v key = None"
    and "i \<le> length rs"
    and "vr_key r = key \<Longrightarrow> sorted_wrt (<) (map vr_key ((pre @ take i rs) @ r # (drop i rs @ post)))"
proof -
  have i: "i \<le> length rs" "\<forall>r \<in> set (take i rs). vr_key r < key" "\<forall>r \<in> set (drop i rs). key < vr_key r"
    using search_miss [OF recs_ok_part [OF ok] miss] by auto
  show "i \<le> length rs" by (rule i(1))
  have split: "set rs = set (take i rs) \<union> set (drop i rs)" by (metis append_take_drop_id set_append)
  show "recs_lookup L h (pre @ rs @ post) v key = None"
    by (rule recs_lookup_none) (use below above i split in fastforce)
  have "sorted_wrt (<) (map vr_key (pre @ (take i rs @ drop i rs) @ post))"
    using ok by (simp add: recs_ok_def)
  then show "sorted_wrt (<) (map vr_key ((pre @ take i rs) @ r # (drop i rs @ post)))" if "vr_key r = key"
    using below above i(2,3) that by (auto simp: sorted_wrt_append simp del: append_take_drop_id)
qed

lemma push_record_point_ok:
  assumes ok: "recs_ok L now h (pre @ rs @ post)" and w: "now \<le> w" "w < VERSION_LIMIT"
    and kind: "kind \<noteq> TypeBTree" "skip_laws (ix_skip L)" and room: "length rs < cap"
    and below: "\<forall>r \<in> set pre. vr_key r < key" and above: "\<forall>r \<in> set post. key < vr_key r"
  shows "\<exists>h' rs'. push_record_point L toss cap key p w kind h (DLeaf rs) = Some (h', DLeaf rs', True)
    \<and> recs_step L w key (Some p) h (pre @ rs @ post) h' (pre @ rs' @ post)
    \<and> length rs \<le> length rs' \<and> length rs' \<le> cap \<and> vr_key ` set rs' = insert key (vr_key ` set rs)"
proof (cases "binary_search_by_key vr_key key rs")
  case (Inr i)
  note hit = leaf_hit [OF ok Inr]
  obtain h' idx where s: "vx_push L toss w p h (vr_index (rs ! i)) = Some (h', idx)"
      "vx_step L key w (Some p) (h, vr_index (rs ! i)) (Some (h', idx))"
    using vx_push_ok [OF hit(3) w, of p toss] by (auto simp: vx_step_def simp del: vx_lookup.simps)
  have "set (map vr_key (rs[i := (rs ! i)\<lparr>vr_index := idx\<rparr>])) = set (map vr_key rs)" by (simp only: keys_same [OF hit(1)])
  moreover have "key \<in> vr_key ` set rs" using nth_mem [OF hit(1)] hit(2) by blast
  ultimately have "vr_key ` set (rs[i := (rs ! i)\<lparr>vr_index := idx\<rparr>]) = insert key (vr_key ` set rs)" by auto
  then show ?thesis
    using recs_update [OF ok w hit(1), of "Some p" h' idx] s hit(2) room by (simp add: push_record_point_def Inr)
next
  case (Inl i)
  note miss = leaf_miss [OF ok Inl below above]
  obtain h' idx where new: "vx_new key kind p w h = (h', idx)" by (cases "vx_new key kind p w h")
  note good = vx_new_ok [OF w(2) kind, where key = key and p = p and h = h, unfolded new]
  let ?r = "\<lparr>vr_key = key, vr_index = idx\<rparr>"
  have "recs_step L w key (Some p) h ((pre @ take i rs) @ (drop i rs @ post)) h' ((pre @ take i rs) @ ?r # (drop i rs @ post))"
    by (rule recs_insert [OF ok [folded take_drop_parts [of pre i rs post]] w good(1) _ good(3) miss(3)]) (use good(2) in simp_all)
  then have "recs_step L w key (Some p) h (pre @ rs @ post) h' (pre @ (take i rs @ ?r # drop i rs) @ post)"
    unfolding take_drop_parts by simp
  moreover have "vr_key ` set (take i rs @ ?r # drop i rs) = insert key (vr_key ` set rs)"
  proof -
    have "set rs = set (take i rs) \<union> set (drop i rs)" by (metis append_take_drop_id set_append)
    then have keys: "vr_key ` set rs = vr_key ` set (take i rs) \<union> vr_key ` set (drop i rs)" by (simp only: image_Un)
    show ?thesis by (simp only: set_append list.set image_Un image_insert Un_insert_right v_record.select_convs keys)
  qed
  ultimately show ?thesis
    using miss(2) room by (simp add: push_record_point_def Inl v_record_new_def new sv_insert_def)
qed

text \<open>A write that is refused changes nothing.\<close>

lemma update_record_point_ok:
  assumes ok: "recs_ok L now h (pre @ rs @ post)" and w: "now \<le> w" "w < VERSION_LIMIT"
    and below: "\<forall>r \<in> set pre. vr_key r < key" and above: "\<forall>r \<in> set post. key < vr_key r"
  shows "if recs_lookup L h (pre @ rs @ post) w key \<noteq> None
    then \<exists>h' rs'. update_record_point L toss key p w h (DLeaf rs) = Some (h', DLeaf rs', Inr (Some ()))
      \<and> recs_step L w key (Some p) h (pre @ rs @ post) h' (pre @ rs' @ post) \<and> map vr_key rs' = map vr_key rs
    else update_record_point L toss key p w h (DLeaf rs) = Some (h, DLeaf rs, Inr None)"
proof (cases "binary_search_by_key vr_key key rs")
  case (Inr i)
  note hit = leaf_hit [OF ok Inr] leaf_hit(4) [OF ok Inr w]
  obtain h' idx where s: "vx_push L toss w p h (vr_index (rs ! i)) = Some (h', idx)"
      "vx_step L key w (Some p) (h, vr_index (rs ! i)) (Some (h', idx))"
    using vx_push_ok [OF hit(3) w, of p toss] by (auto simp: vx_step_def simp del: vx_lookup.simps)
  show ?thesis
    using recs_update [OF ok w hit(1), of "Some p" h' idx] s hit(1,2,5) vx_append_live [of L h "vr_index (rs ! i)" toss w p]
    by (auto simp: update_record_point_def Inr keys_same)
next
  case (Inl i)
  then show ?thesis using leaf_miss(1) [OF ok Inl below above] by (simp add: update_record_point_def)
qed

lemma delete_key_ok:
  assumes ok: "recs_ok L now h (pre @ rs @ post)" and w: "now \<le> w" "w < VERSION_LIMIT"
    and below: "\<forall>r \<in> set pre. vr_key r < key" and above: "\<forall>r \<in> set post. key < vr_key r"
  shows "if recs_lookup L h (pre @ rs @ post) w key \<noteq> None
    then \<exists>h' rs'. delete_key L toss key w h (DLeaf rs) = Some (h', DLeaf rs', Inr (Some ()))
      \<and> recs_step L w key None h (pre @ rs @ post) h' (pre @ rs' @ post) \<and> map vr_key rs' = map vr_key rs
    else delete_key L toss key w h (DLeaf rs) = Some (h, DLeaf rs, Inl ())"
proof (cases "binary_search_by_key vr_key key rs")
  case (Inr i)
  note hit = leaf_hit [OF ok Inr] leaf_hit(4) [OF ok Inr w]
  obtain h' idx where s: "vx_delete L toss w h (vr_index (rs ! i)) = Some (h', idx)"
      "vx_step L key w None (h, vr_index (rs ! i)) (Some (h', idx))"
    using vx_delete_ok [OF hit(3) w, of toss] by (auto simp: vx_step_def simp del: vx_lookup.simps)
  show ?thesis
    using recs_update [OF ok w hit(1), of None h' idx] s hit(1,2,5) by (auto simp: delete_key_def Inr keys_same)
next
  case (Inl i)
  then show ?thesis using leaf_miss(1) [OF ok Inl below above] by (simp add: delete_key_def)
qed

end
