(* ===== verification/Dexa_Tree.thy ===== *)
theory Dexa_Tree
  imports Dexa_Node Clock Interval
begin

text \<open>
  The version-list tree: \<^verbatim>\<open>dexa/mvb_tree/bplus_tree.rs\<close>, \<^verbatim>\<open>root.rs\<close>, \<^verbatim>\<open>dexa/mvb_block/block_manager.rs\<close> and the
  structure modifications and descents of \<^verbatim>\<open>dexa/mvb_crud_model/query.rs\<close>, for the default locking
  strategy \<open>MonoWriter\<close>: cells are \<open>FreeCell\<close>s, a guard is a pointer, every latch request succeeds and
  every guard is valid, so that no descent restarts because of another thread. A guard is the path
  of child positions from the root to its block. Lock levels, attempts and the number of node
  visits have no effect and are left out.
\<close>

text \<open>\<open>dx_merge_keys\<close> is \<open>Itertools::merge\<close>, \<open>dx_merge_records\<close> is \<open>Itertools::merge_by\<close> on the order of the keys.\<close>

record ('k, 'p) dexa_cfg =
  dx_fan_out :: usize
  dx_num_records :: usize
  dx_kind :: version_index_type
  dx_gc :: bool
  dx_min_key :: 'k
  dx_max_key :: 'k
  dx_inc_key :: "'k \<Rightarrow> 'k"
  dx_dec_key :: "'k \<Rightarrow> 'k"
  dx_default :: "'k \<times> 'p"
  dx_lib :: "'p index_lib"
  dx_merge_keys :: "'k list \<Rightarrow> 'k list \<Rightarrow> 'k list"
  dx_merge_records :: "('k, 'p) v_record list \<Rightarrow> ('k, 'p) v_record list \<Rightarrow> ('k, 'p) v_record list"
  dx_coin :: "nat \<Rightarrow> bool"

text \<open>\<open>dt_coins\<close> counts the coins used so far: a write takes one, the clone of a list one per entry.\<close>

record ('k, 'p) dexa_tree =
  dt_root :: "('k, 'p) dnode"
  dt_height :: u16
  dt_heap :: "('k, 'p) weaver_heap"
  dt_limbo :: "('k, 'p) v_record list"
  dt_alloc :: usize
  dt_clock :: clock_mem
  dt_coins :: nat

definition DX_INIT_TREE_HEIGHT :: u16 where
  "DX_INIT_TREE_HEIGHT = 1"

definition allocation_leaf :: "('k, 'p) dexa_cfg \<Rightarrow> usize" where
  "allocation_leaf C = dx_num_records C"

definition allocation_directory :: "('k, 'p) dexa_cfg \<Rightarrow> usize" where
  "allocation_directory C = dx_fan_out C - 1"

text \<open>\<open>new_empty_leaf\<close> and \<open>new_empty_index_block\<close> count the block that their caller fills.\<close>

definition count_blocks :: "nat \<Rightarrow> ('k, 'p) dexa_tree \<Rightarrow> ('k, 'p) dexa_tree" where
  "count_blocks n t = t\<lparr>dt_alloc := dt_alloc t + n\<rparr>"

definition dexa_make :: "clock_mem \<Rightarrow> ('k, 'p) dexa_tree" where
  "dexa_make m = count_blocks 1 \<lparr>dt_root = DLeaf [], dt_height = DX_INIT_TREE_HEIGHT, dt_heap = [], dt_limbo = [],
     dt_alloc = 0, dt_clock = m\<lparr>global_clock := START_VERSION\<rparr>, dt_coins = 0\<rparr>"

section \<open>Guards\<close>

fun node_at :: "('k, 'p) dnode \<Rightarrow> nat list \<Rightarrow> ('k, 'p) dnode option" where
  "node_at n [] = Some n"
| "node_at (DIndex ks cs) (i # path) = (if i < length cs then node_at (cs ! i) path else None)"
| "node_at (DLeaf rs) (i # path) = None"

fun node_set :: "('k, 'p) dnode \<Rightarrow> nat list \<Rightarrow> ('k, 'p) dnode \<Rightarrow> ('k, 'p) dnode option" where
  "node_set n [] m = Some m"
| "node_set (DIndex ks cs) (i # path) m =
     (if i < length cs then map_option (\<lambda>c. DIndex ks (cs[i := c])) (node_set (cs ! i) path m) else None)"
| "node_set (DLeaf rs) (i # path) m = None"

section \<open>Fill\<close>

definition dx_has_overflow :: "('k, 'p) dexa_cfg \<Rightarrow> ('k, 'p) dnode \<Rightarrow> bool" where
  "dx_has_overflow C n =
     (if dn_is_leaf n then dn_is_overflow n (allocation_leaf C)
      else dn_is_overflow n (allocation_directory C - 1))"

definition dx_has_underflow :: "('k, 'p) dexa_cfg \<Rightarrow> ('k, 'p) dnode \<Rightarrow> bool" where
  "dx_has_underflow C n =
     (if dn_is_leaf n then dn_is_underflow n (allocation_leaf C)
      else dn_is_underflow n (allocation_directory C))"

section \<open>Splits\<close>

text \<open>The records of a leaf that is about to be split: with garbage collection, perhaps without the dead ones.\<close>

definition split_records :: "('k, 'p) dexa_cfg \<Rightarrow> ('k, 'p) dexa_tree \<Rightarrow> ('k, 'p) v_record list
    \<Rightarrow> (('k, 'p) dexa_tree \<times> ('k, 'p) v_record list) option" where
  "split_records C t rs = do {
     kind \<leftarrow> if dx_gc C then dn_split_type (dx_lib C) (dx_num_records C) (dt_heap t) (DLeaf rs) else Some SplitNormal;
     (case kind of
        SplitAndFilter \<Rightarrow> do {
          (kept, dead) \<leftarrow> filter_live (dx_lib C) (dt_heap t) rs;
          Some (t\<lparr>dt_limbo := dt_limbo t @ dead\<rparr>, kept)
        }
      | SplitNormal \<Rightarrow> Some (t, rs))
   }"

definition split_index :: "'k list \<Rightarrow> ('k, 'p) dnode list \<Rightarrow> (('k, 'p) dnode \<times> 'k \<times> ('k, 'p) dnode) option" where
  "split_index ks cs = do {
     let keys_mid = length ks div 2;
     k3 \<leftarrow> if keys_mid < length ks then Some (ks ! keys_mid) else None;
     left \<leftarrow> index_page (take keys_mid ks) (take (keys_mid + 1) cs);
     right \<leftarrow> index_page (drop (keys_mid + 1) ks) (drop (keys_mid + 1) cs);
     Some (left, k3, right)
   }"

definition split_leaf :: "('k, 'p) v_record list \<Rightarrow> (('k, 'p) dnode \<times> 'k \<times> ('k, 'p) dnode) option" where
  "split_leaf rs =
     (let records_mid = length rs div 2
      in if records_mid < length rs
         then Some (DLeaf (take records_mid rs), vr_key (rs ! records_mid), DLeaf (drop records_mid rs))
         else None)"

text \<open>
  \<open>retrieve_root_internal\<close>: \<open>True\<close> is \<open>Ok\<close> with the guard of the root, \<open>False\<close> the restart after the
  split of a leaf. The height of the new root is handed out but not stored in the tree.
\<close>

definition retrieve_root_internal :: "('k, 'p) dexa_cfg \<Rightarrow> ('k, 'p) dexa_tree \<Rightarrow> (('k, 'p) dexa_tree \<times> bool) option" where
  "retrieve_root_internal C t =
     (if \<not> dx_has_overflow C (dt_root t) then Some (t, True)
      else (case dt_root t of
          DIndex ks cs \<Rightarrow> do {
            (left, k3, right) \<leftarrow> split_index ks cs;
            Some ((count_blocks 2 t)\<lparr>dt_root := DIndex [k3] [left, right]\<rparr>, True)
          }
        | DLeaf rs \<Rightarrow> do {
            (t1, kept) \<leftarrow> split_records C t rs;
            (left, k3, right) \<leftarrow> split_leaf kept;
            Some ((count_blocks 2 t1)\<lparr>dt_root := DIndex [k3] [left, right]\<rparr>, False)
          }))"

partial_function (option) dx_retrieve_root :: "('k, 'p) dexa_cfg \<Rightarrow> ('k, 'p) dexa_tree \<Rightarrow> ('k, 'p) dexa_tree option" where
  [code]: "dx_retrieve_root C t =
     (case retrieve_root_internal C t of
        None \<Rightarrow> None
      | Some (t1, ok) \<Rightarrow> if ok then Some t1 else dx_retrieve_root C t1)"

text \<open>\<open>do_overflow_correction\<close>: the child at \<open>child_pos\<close> is split, the parent gets a separator and a child.\<close>

definition do_overflow_correction :: "('k, 'p) dexa_cfg \<Rightarrow> ('k, 'p) dexa_tree \<Rightarrow> 'k list \<Rightarrow> ('k, 'p) dnode list \<Rightarrow> nat
    \<Rightarrow> (('k, 'p) dexa_tree \<times> ('k, 'p) dnode) option" where
  "do_overflow_correction C t ks cs child_pos = do {
     (t1, left, k3, right) \<leftarrow> (case cs ! child_pos of
         DIndex ks1 cs1 \<Rightarrow> map_option (Pair t) (split_index ks1 cs1)
       | DLeaf rs \<Rightarrow> do {
           (t1, kept) \<leftarrow> split_records C t rs;
           map_option (Pair t1) (split_leaf kept)
         });
     cs' \<leftarrow> sv_insert (dx_fan_out C) (child_pos + 1) right (cs[child_pos := left]);
     ks' \<leftarrow> sv_insert (dx_fan_out C - 1) child_pos k3 ks;
     Some (count_blocks 1 t1, DIndex ks' cs')
   }"

section \<open>Merges\<close>

text \<open>\<open>Vec::insert\<close>, and the clone of a leaf's records.\<close>

definition vec_insert :: "nat \<Rightarrow> 'a \<Rightarrow> 'a list \<Rightarrow> 'a list option" where
  "vec_insert i x xs = (if i \<le> length xs then Some (take i xs @ x # drop i xs) else None)"

fun clone_coins :: "'p version_index \<Rightarrow> nat" where
  "clone_coins (FrugalSkipList n) = length (frugal_iter n) - 1"
| "clone_coins _ = 0"

fun clone_records :: "(nat \<Rightarrow> bool) \<Rightarrow> nat \<Rightarrow> ('k, 'p) v_record list \<Rightarrow> (nat \<times> ('k, 'p) v_record list) option" where
  "clone_records coin pos [] = Some (pos, [])"
| "clone_records coin pos (r # rs) = do {
     idx \<leftarrow> vx_clone (\<lambda>i. coin (pos + i)) (vr_index r);
     (pos', rs') \<leftarrow> clone_records coin (pos + clone_coins (vr_index r)) rs;
     Some (pos', r\<lparr>vr_index := idx\<rparr> # rs')
   }"

definition new_leaf_of :: "('k, 'p) dexa_cfg \<Rightarrow> ('k, 'p) dexa_tree \<Rightarrow> ('k, 'p) v_record list
    \<Rightarrow> (('k, 'p) dexa_tree \<times> ('k, 'p) dnode) option" where
  "new_leaf_of C t rs = do {
     (pos, rs') \<leftarrow> clone_records (dx_coin C) (dt_coins t) rs;
     rs'' \<leftarrow> sv_extend (dx_num_records C) rs' [];
     Some ((count_blocks 1 t)\<lparr>dt_coins := pos\<rparr>, DLeaf rs'')
   }"

text \<open>The loop that joins the index pages: the separator is written before the page behind the child.\<close>

fun join_pages :: "('k, 'p) dexa_cfg \<Rightarrow> nat \<Rightarrow> 'k \<Rightarrow> nat \<Rightarrow> ('k, 'p) dnode list \<Rightarrow> 'k list \<Rightarrow> ('k, 'p) dnode list
    \<Rightarrow> ('k list \<times> ('k, 'p) dnode list) option" where
  "join_pages C child_pos child_key index [] ks cs = Some (ks, cs)"
| "join_pages C child_pos child_key index (n # ns) ks cs = do {
     keys \<leftarrow> dn_keys n;
     children \<leftarrow> dn_children n;
     cs1 \<leftarrow> sv_extend (dx_fan_out C) children (take (children_len ks) cs);
     ks1 \<leftarrow> if index = child_pos + 1 then sv_push (dx_fan_out C - 1) child_key ks else Some ks;
     ks2 \<leftarrow> sv_extend (dx_fan_out C - 1) keys ks1;
     join_pages C child_pos child_key (Suc index) ns ks2 cs1
   }"

text \<open>\<open>merge\<close>: the children of the root, in the order in which they are latched, become the root.\<close>

definition dx_merge :: "('k, 'p) dexa_cfg \<Rightarrow> ('k, 'p) dexa_tree \<Rightarrow> nat list \<Rightarrow> ('k, 'p) dnode list \<Rightarrow> nat option \<Rightarrow> nat \<Rightarrow> 'k
    \<Rightarrow> (('k, 'p) dexa_tree \<times> ('k, 'p) dnode) option" where
  "dx_merge C t path cs merge_pos child_pos child_key = do {
     let others = map snd (filter (\<lambda>e. fst e \<noteq> child_pos \<and> merge_pos \<noteq> Some (fst e)) (zip [0..<length cs] cs));
     latched \<leftarrow> if others = [] then Some [cs ! child_pos] else vec_insert child_pos (cs ! child_pos) others;
     latched \<leftarrow> (case merge_pos of None \<Rightarrow> Some latched | Some m \<Rightarrow> vec_insert m (cs ! m) latched);
     (t1, block) \<leftarrow> (if dn_is_leaf (hd latched)
       then do {
         rss \<leftarrow> those (map dn_records latched);
         new_leaf_of C t (concat rss)
       }
       else do {
         (ks', cs') \<leftarrow> join_pages C child_pos child_key 0 latched [] [];
         n \<leftarrow> index_page ks' cs';
         Some (count_blocks 1 t, n)
       });
     if path = [] then Some (t1\<lparr>dt_height := dt_height t1 - 1\<rparr>, block) else None
   }"

text \<open>
  Both children are leaves: into one leaf where they fit, or the records are shared out anew. Before
  they are shared out they are cloned once more; a clone of a clone is a clone, so one is enough here.
\<close>

definition underflow_leaves :: "('k::linorder, 'p) dexa_cfg \<Rightarrow> ('k, 'p) dexa_tree \<Rightarrow> nat list \<Rightarrow> 'k list \<Rightarrow> ('k, 'p) dnode list
    \<Rightarrow> nat \<Rightarrow> nat \<Rightarrow> 'k \<Rightarrow> ('k, 'p) v_record list \<Rightarrow> ('k, 'p) v_record list \<Rightarrow> (('k, 'p) dexa_tree \<times> ('k, 'p) dnode) option" where
  "underflow_leaves C t path ks cs child_pos merge_index child_key from other =
     (let fit = (length from + length other < dx_num_records C);
          joined = dx_merge_records C from other;
          lo = min child_pos merge_index; hi = max child_pos merge_index
      in if length ks = 1 \<and> fit then dx_merge C t path cs (Some merge_index) child_pos child_key
         else if fit then do {
           (t1, leaf) \<leftarrow> new_leaf_of C t joined;
           (ks', _) \<leftarrow> sv_remove lo ks;
           (cs', _) \<leftarrow> sv_remove hi cs;
           cs'' \<leftarrow> sv_set lo leaf cs';
           Some (t1, DIndex ks' cs'')
         }
         else do {
           let half = length joined div 2;
           left_key \<leftarrow> if half < length joined then Some (vr_key (joined ! half)) else None;
           (t1, left) \<leftarrow> new_leaf_of C t (take half joined);
           (t2, right) \<leftarrow> new_leaf_of C t1 (drop half joined);
           ks' \<leftarrow> sv_set lo left_key ks;
           cs' \<leftarrow> sv_set lo left cs;
           cs'' \<leftarrow> sv_set hi right cs';
           Some (t2, DIndex ks' cs'')
         })"

text \<open>
  Both children are index pages. Their children are joined by a \<open>merge_by\<close> that always takes the left one. \<open>keys[merge_index]\<close> behind the last separator is a slot of the array
  that nothing reads.
\<close>

definition underflow_indexes :: "('k::linorder, 'p) dexa_cfg \<Rightarrow> ('k, 'p) dexa_tree \<Rightarrow> 'k list \<Rightarrow> ('k, 'p) dnode list
    \<Rightarrow> nat \<Rightarrow> nat \<Rightarrow> 'k \<Rightarrow> 'k \<Rightarrow> 'k list \<Rightarrow> ('k, 'p) dnode list \<Rightarrow> 'k list \<Rightarrow> ('k, 'p) dnode list
    \<Rightarrow> (('k, 'p) dexa_tree \<times> ('k, 'p) dnode) option" where
  "underflow_indexes C t ks cs child_pos merge_index child_key merge_key from_ks from_cs other_ks other_cs =
     (let (lo, hi, ks1, cs1, sep, ks2, cs2) =
            (if child_pos < merge_index then (child_pos, merge_index, from_ks, from_cs, child_key, other_ks, other_cs)
             else (merge_index, child_pos, other_ks, other_cs, merge_key, from_ks, from_cs))
      in if length from_ks + length other_ks < dx_fan_out C - 1 then do {
           n \<leftarrow> index_page (ks1 @ sep # ks2) (cs1 @ cs2);
           (cs', _) \<leftarrow> sv_remove hi cs;
           (ks', _) \<leftarrow> sv_remove lo ks;
           cs'' \<leftarrow> sv_set lo n cs';
           Some (count_blocks 1 t, DIndex ks' cs'')
         }
         else do {
           let joined_keys = dx_merge_keys C ks1 ks2;
           let joined_children = cs1 @ cs2;
           let half = length joined_keys div 2;
           split_key \<leftarrow> if half < length joined_keys then Some (joined_keys ! half) else None;
           left \<leftarrow> index_page (take half joined_keys) (take (half + 1) joined_children);
           right \<leftarrow> index_page (drop (half + 1) joined_keys) (drop (half + 1) joined_children);
           cs' \<leftarrow> sv_set lo left cs;
           cs'' \<leftarrow> sv_set hi right cs';
           Some (count_blocks 2 t, DIndex (ks[hi := split_key]) cs'')
         })"

definition do_underflow_correction :: "('k::linorder, 'p) dexa_cfg \<Rightarrow> ('k, 'p) dexa_tree \<Rightarrow> nat list \<Rightarrow> 'k interval \<Rightarrow> 'k list
    \<Rightarrow> ('k, 'p) dnode list \<Rightarrow> nat \<Rightarrow> (('k, 'p) dexa_tree \<times> ('k, 'p) dnode) option" where
  "do_underflow_correction C t path fence ks cs child_pos =
     (let child_key = (if child_pos < length ks then ks ! child_pos else upper fence);
          from = cs ! child_pos;
          is_leaf = dn_is_leaf from;
          candidates = filter (\<lambda>(i, _). i \<noteq> child_pos)
            (zip [0..<length cs] (zip cs (dx_merge_keys C ks [upper fence])));
          index = (case binary_search_by_key (\<lambda>(_, _, key). key) child_key candidates of Inr i \<Rightarrow> i | Inl i \<Rightarrow> i)
      in if length candidates = 1 \<and> \<not> is_leaf \<or> candidates = []
         then dx_merge C t path cs None child_pos child_key
         else
           (let (merge_index, other, merge_key) = (if index < length candidates then candidates ! index else last candidates)
            in case (from, other) of
                 (DLeaf from_rs, DLeaf other_rs) \<Rightarrow>
                   underflow_leaves C t path ks cs child_pos merge_index child_key from_rs other_rs
               | (DIndex from_ks from_cs, DIndex other_ks other_cs) \<Rightarrow>
                   underflow_indexes C t ks cs child_pos merge_index child_key merge_key from_ks from_cs other_ks other_cs
               | _ \<Rightarrow> None))"

section \<open>Descents\<close>

text \<open>The position that both outcomes of the binary search give.\<close>

definition child_position :: "'k::linorder \<Rightarrow> 'k list \<Rightarrow> nat" where
  "child_position key ks = (case binary_search_by_key (\<lambda>k. k) key ks of Inr pos \<Rightarrow> pos | Inl pos \<Rightarrow> pos)"

definition set_node :: "('k, 'p) dexa_tree \<Rightarrow> nat list \<Rightarrow> ('k, 'p) dnode \<Rightarrow> ('k, 'p) dexa_tree option" where
  "set_node t path n = map_option (\<lambda>r. t\<lparr>dt_root := r\<rparr>) (node_set (dt_root t) path n)"

text \<open>The loop of \<open>traversal_write_internal\<close>; \<open>key\<close> is the successor of the key looked for.\<close>

partial_function (option) write_descent :: "('k::linorder, 'p) dexa_cfg \<Rightarrow> ('k, 'p) dexa_tree \<Rightarrow> nat list \<Rightarrow> 'k interval \<Rightarrow> 'k
    \<Rightarrow> (('k, 'p) dexa_tree \<times> nat list) option" where
  [code]: "write_descent C t path fence key =
     (case node_at (dt_root t) path of
        None \<Rightarrow> None
      | Some (DLeaf rs) \<Rightarrow> Some (t, path)
      | Some (DIndex ks cs) \<Rightarrow>
          (let child_pos = child_position key ks in
           if child_pos < length cs then
             if dx_has_overflow C (cs ! child_pos) then
               (case do_overflow_correction C t ks cs child_pos of
                  None \<Rightarrow> None
                | Some (t1, parent) \<Rightarrow>
                    (case set_node t1 path parent of None \<Rightarrow> None | Some t2 \<Rightarrow> write_descent C t2 path fence key))
             else if dx_has_underflow C (cs ! child_pos) then
               (case do_underflow_correction C t path fence ks cs child_pos of
                  None \<Rightarrow> None
                | Some (t1, parent) \<Rightarrow>
                    (case set_node t1 path parent of None \<Rightarrow> None | Some t2 \<Rightarrow> write_descent C t2 path fence key))
             else
               write_descent C t (path @ [child_pos])
                 \<lparr>lower = (if child_pos > 0 then ks ! (child_pos - 1) else lower fence),
                  upper = (if child_pos < length ks then ks ! child_pos else upper fence)\<rparr> key
           else None))"

definition dx_traversal_write :: "('k::linorder, 'p) dexa_cfg \<Rightarrow> ('k, 'p) dexa_tree \<Rightarrow> 'k
    \<Rightarrow> (('k, 'p) dexa_tree \<times> nat list) option" where
  "dx_traversal_write C t key = do {
     t1 \<leftarrow> dx_retrieve_root C t;
     write_descent C t1 [] \<lparr>lower = dx_min_key C, upper = dx_max_key C\<rparr> (dx_inc_key C key)
   }"

text \<open>\<open>traversal_read\<close>: the leaf of a key.\<close>

lemma size_child: "i < length cs \<Longrightarrow> size (cs ! i) < size (DIndex ks cs)"
  using size_list_estimation' [of "cs ! i" cs "size (cs ! i)" size] by (simp add: less_Suc_eq_le)

function read_descent :: "'k::linorder \<Rightarrow> ('k, 'p) dnode \<Rightarrow> ('k, 'p) v_record list option" where
  "read_descent key (DLeaf rs) = Some rs"
| "read_descent key (DIndex ks cs) =
     (let pos = child_position key ks in if pos < length cs then read_descent key (cs ! pos) else None)"
  by pat_completeness auto
termination
  by (relation "measure (size \<circ> snd)") (use size_child in auto)

definition dx_traversal_read :: "('k::linorder, 'p) dexa_cfg \<Rightarrow> ('k, 'p) dexa_tree \<Rightarrow> 'k \<Rightarrow> ('k, 'p) v_record list option" where
  "dx_traversal_read C t key = read_descent (dx_inc_key C key) (dt_root t)"

end
