(* ===== verification/Dexa_Correct.thy ===== *)
theory Dexa_Correct
  imports Dexa_Tree
begin

text \<open>
  The invariant of the version-list tree and its descents. Without garbage collection a node only
  ever splits, both halves are filled enough, and so no descent meets an underflow: the merges are
  never reached and the records of the tree stay what they are.
\<close>

section \<open>The invariant\<close>

text \<open>The records of a subtree in order, and the bounds of its keys.\<close>

fun records_of :: "('k, 'p) dnode \<Rightarrow> ('k, 'p) v_record list" where
  "records_of (DLeaf rs) = rs"
| "records_of (DIndex ks cs) = concat (map records_of cs)"

definition within :: "'k::linorder option \<Rightarrow> 'k option \<Rightarrow> 'k \<Rightarrow> bool" where
  "within lo hi k \<longleftrightarrow> (\<forall>l. lo = Some l \<longrightarrow> l \<le> k) \<and> (\<forall>u. hi = Some u \<longrightarrow> k < u)"

definition lo_of :: "'k option \<Rightarrow> 'k list \<Rightarrow> nat \<Rightarrow> 'k option" where
  "lo_of lo ks i = (if i = 0 then lo else Some (ks ! (i - 1)))"

definition hi_of :: "'k option \<Rightarrow> 'k list \<Rightarrow> nat \<Rightarrow> 'k option" where
  "hi_of hi ks i = (if i < length ks then Some (ks ! i) else hi)"

definition seps_ok :: "'k::linorder option \<Rightarrow> 'k option \<Rightarrow> 'k list \<Rightarrow> bool" where
  "seps_ok lo hi ks \<longleftrightarrow> sorted_wrt (<) ks \<and> (\<forall>k \<in> set ks. within lo hi k)"

primrec tree_ok :: "('k::linorder, 'p) dexa_cfg \<Rightarrow> nat \<Rightarrow> 'k option \<Rightarrow> 'k option \<Rightarrow> ('k, 'p) dnode \<Rightarrow> bool" where
  "tree_ok C 0 lo hi n \<longleftrightarrow> (\<exists>rs. n = DLeaf rs \<and> length rs \<le> dx_num_records C
     \<and> sorted_wrt (<) (map vr_key rs) \<and> (\<forall>r \<in> set rs. within lo hi (vr_key r) \<and> vr_key r < dx_max_key C))"
| "tree_ok C (Suc d) lo hi n \<longleftrightarrow> (\<exists>ks cs. n = DIndex ks cs \<and> ks \<noteq> [] \<and> length ks \<le> dx_fan_out C - 2
     \<and> length cs = Suc (length ks) \<and> seps_ok lo hi ks \<and> (\<forall>k \<in> set ks. k < dx_max_key C)
     \<and> (\<forall>i \<le> length ks. tree_ok C d (lo_of lo ks i) (hi_of hi ks i) (cs ! i) \<and> \<not> dx_has_underflow C (cs ! i)))"

text \<open>Sizes for which splitting works: a leaf has two halves, an index page two pages with a separator each.\<close>

definition cfg_ok :: "('k, 'p) dexa_cfg \<Rightarrow> bool" where
  "cfg_ok C \<longleftrightarrow> 2 \<le> dx_num_records C \<and> 5 \<le> dx_fan_out C"

lemma has_overflow_iff: "dx_has_overflow C n \<longleftrightarrow> dn_len n \<ge> (if dn_is_leaf n then dx_num_records C else dx_fan_out C - 2)"
  by (simp add: dx_has_overflow_def dn_is_overflow_def allocation_leaf_def allocation_directory_def numeral_2_eq_2)

lemma has_underflow_iff:
  "cfg_ok C \<Longrightarrow> dx_has_underflow C n \<longleftrightarrow>
     dn_len n < (if dn_is_leaf n then dx_num_records C div 2 - 1 else (dx_fan_out C - 1) div 2 - 1)"
  by (auto simp: cfg_ok_def dx_has_underflow_def dn_is_underflow_def allocation_leaf_def allocation_directory_def)

lemma pairs_Suc:
  "(\<forall>i j. i < j \<longrightarrow> j < Suc n \<longrightarrow> P i j) \<longleftrightarrow> (\<forall>j < n. P 0 (Suc j)) \<and> (\<forall>i j. i < j \<longrightarrow> j < n \<longrightarrow> P (Suc i) (Suc j))"
  (is "?l \<longleftrightarrow> ?r")
proof
  assume r: ?r
  show ?l
  proof (intro allI impI)
    fix i j assume "i < j" "j < Suc n"
    then show "P i j" using r by (cases i; cases j) auto
  qed
qed auto

lemma sorted_concat_iff:
  "sorted_wrt R (concat xss) \<longleftrightarrow> (\<forall>xs \<in> set xss. sorted_wrt R xs)
     \<and> (\<forall>i j. i < j \<longrightarrow> j < length xss \<longrightarrow> (\<forall>x \<in> set (xss ! i). \<forall>y \<in> set (xss ! j). R x y))"
proof (induction xss)
  case (Cons xs xss)
  have "(\<forall>x \<in> set xs. \<forall>y \<in> set (concat xss). R x y) \<longleftrightarrow> (\<forall>j < length xss. \<forall>x \<in> set xs. \<forall>y \<in> set (xss ! j). R x y)"
    by (auto simp: in_set_conv_nth [of _ xss]) (metis nth_mem)+
  moreover have "(\<forall>i j. i < j \<longrightarrow> j < length (xs # xss) \<longrightarrow> (\<forall>x \<in> set ((xs # xss) ! i). \<forall>y \<in> set ((xs # xss) ! j). R x y))
      \<longleftrightarrow> (\<forall>j < length xss. \<forall>x \<in> set xs. \<forall>y \<in> set (xss ! j). R x y)
        \<and> (\<forall>i j. i < j \<longrightarrow> j < length xss \<longrightarrow> (\<forall>x \<in> set (xss ! i). \<forall>y \<in> set (xss ! j). R x y))"
    by (simp add: pairs_Suc)
  ultimately show ?case using Cons.IH by (auto simp: sorted_wrt_append)
qed simp

lemma seps_nth: "seps_ok lo hi ks \<Longrightarrow> i \<le> j \<Longrightarrow> j < length ks \<Longrightarrow> ks ! i \<le> ks ! j"
  by (metis le_neq_implies_less less_imp_le order_refl seps_ok_def sorted_wrt_nth_less)

lemma within_child:
  assumes "seps_ok lo hi ks" and "i \<le> length ks" and "within (lo_of lo ks i) (hi_of hi ks i) k"
  shows "within lo hi k"
proof -
  have "l \<le> k" if "lo = Some l" for l
  proof (cases "i = 0")
    case True
    then show ?thesis using assms(3) that by (simp add: within_def lo_of_def)
  next
    case False
    then have "ks ! (i - 1) \<le> k" "ks ! (i - 1) \<in> set ks" using assms(2,3) by (auto simp: within_def lo_of_def)
    then show ?thesis using assms(1) that by (auto simp: seps_ok_def within_def intro: order_trans)
  qed
  moreover have "k < u" if "hi = Some u" for u
  proof (cases "i < length ks")
    case True
    then have "k < ks ! i" "ks ! i \<in> set ks" using assms(3) by (auto simp: within_def hi_of_def)
    then show ?thesis using assms(1) that by (auto simp: seps_ok_def within_def intro: less_trans)
  next
    case False
    then show ?thesis using assms(3) that by (simp add: within_def hi_of_def)
  qed
  ultimately show ?thesis by (simp add: within_def)
qed

text \<open>The keys of two children are apart.\<close>

lemma children_apart:
  assumes "seps_ok lo hi ks" and "i < j" and "j \<le> length ks"
    and "within (lo_of lo ks i) (hi_of hi ks i) x" and "within (lo_of lo ks j) (hi_of hi ks j) y"
  shows "x < y"
proof -
  have "x < ks ! i" using assms(2,3,4) by (simp add: within_def hi_of_def)
  also have "ks ! i \<le> ks ! (j - 1)" using seps_nth [OF assms(1), of i "j - 1"] assms(2,3) by auto
  also have "ks ! (j - 1) \<le> y" using assms(2,5) by (simp add: within_def lo_of_def)
  finally show ?thesis .
qed

lemma tree_ok_records:
  "tree_ok C d lo hi n \<Longrightarrow> sorted_wrt (<) (map vr_key (records_of n)) \<and> (\<forall>r \<in> set (records_of n). within lo hi (vr_key r))"
proof (induction d arbitrary: lo hi n)
  case 0
  then show ?case by auto
next
  case (Suc d)
  then obtain ks cs where n: "n = DIndex ks cs" "length cs = Suc (length ks)" "seps_ok lo hi ks"
      "\<forall>i \<le> length ks. tree_ok C d (lo_of lo ks i) (hi_of hi ks i) (cs ! i)" by auto
  have child: "sorted_wrt (<) (map vr_key (records_of (cs ! i)))"
      "\<forall>r \<in> set (records_of (cs ! i)). within (lo_of lo ks i) (hi_of hi ks i) (vr_key r)" if "i \<le> length ks" for i
    using Suc.IH n(4) that by blast+
  have "sorted_wrt (\<lambda>r q. vr_key r < vr_key q) (concat (map records_of cs))"
    unfolding sorted_concat_iff
  proof (intro conjI ballI allI impI)
    fix rs assume "rs \<in> set (map records_of cs)"
    then obtain i where "i \<le> length ks" "rs = records_of (cs ! i)"
      using n(2) by (auto simp: in_set_conv_nth [of _ cs] less_Suc_eq_le)
    then show "sorted_wrt (\<lambda>r q. vr_key r < vr_key q) rs" using child(1) by (simp add: sorted_wrt_map)
  next
    fix i j r q
    assume "i < j" "j < length (map records_of cs)" "r \<in> set (map records_of cs ! i)" "q \<in> set (map records_of cs ! j)"
    then show "vr_key r < vr_key q"
      using child(2) [of i] child(2) [of j] children_apart [OF n(3), of i j "vr_key r" "vr_key q"] n(2) by auto
  qed
  moreover have "within lo hi (vr_key r)" if r: "r \<in> set (records_of n)" for r
  proof -
    obtain i where "i \<le> length ks" "r \<in> set (records_of (cs ! i))"
      using r n(1,2) by (auto simp: in_set_conv_nth [of _ cs] less_Suc_eq_le)
    then show ?thesis using child(2) within_child [OF n(3)] by blast
  qed
  ultimately show ?case by (simp add: n(1) sorted_wrt_map)
qed

section \<open>Splits\<close>

text \<open>Two nodes that a node has been split into: they share its range, its records, and are neither too full nor too empty.\<close>

definition fill_ok :: "('k, 'p) dexa_cfg \<Rightarrow> ('k, 'p) dnode \<Rightarrow> bool" where
  "fill_ok C n \<longleftrightarrow> \<not> dx_has_overflow C n \<and> \<not> dx_has_underflow C n"

definition halves :: "('k::linorder, 'p) dexa_cfg \<Rightarrow> nat \<Rightarrow> 'k option \<Rightarrow> 'k option \<Rightarrow> ('k, 'p) dnode \<Rightarrow> ('k, 'p) dnode \<Rightarrow> 'k
    \<Rightarrow> ('k, 'p) dnode \<Rightarrow> bool" where
  "halves C d lo hi n left k3 right \<longleftrightarrow> tree_ok C d lo (Some k3) left \<and> tree_ok C d (Some k3) hi right
     \<and> (\<forall>l. lo = Some l \<longrightarrow> l < k3) \<and> (\<forall>u. hi = Some u \<longrightarrow> k3 < u) \<and> k3 < dx_max_key C
     \<and> records_of left @ records_of right = records_of n \<and> fill_ok C left \<and> fill_ok C right"

lemma split_leaf_halves:
  assumes C: "cfg_ok C" and ok: "tree_ok C 0 lo hi (DLeaf rs)" and full: "dx_has_overflow C (DLeaf rs)"
  shows "\<exists>left k3 right. split_leaf rs = Some (left, k3, right) \<and> halves C 0 lo hi (DLeaf rs) left k3 right"
proof -
  define m where "m = length rs div 2"
  have len: "length rs = dx_num_records C" "2 \<le> dx_num_records C"
    using ok full C by (auto simp: has_overflow_iff cfg_ok_def)
  then have m: "0 < m" "m < length rs" "m < dx_num_records C" "length rs - m < dx_num_records C"
      "dx_num_records C div 2 - 1 \<le> m" "dx_num_records C div 2 - 1 \<le> length rs - m"
    unfolding m_def by linarith+
  have srt: "vr_key (rs ! i) < vr_key (rs ! j)" if "i < j" "j < length rs" for i j
    using ok sorted_wrt_nth_less [of "(<)" "map vr_key rs" i j] that by simp
  have win: "within lo hi (vr_key (rs ! i))" if "i < length rs" for i using ok that by simp
  have mx: "\<forall>r \<in> set rs. vr_key r < dx_max_key C" using ok by simp
  let ?k = "vr_key (rs ! m)"
  have l: "\<forall>r \<in> set (take m rs). within lo (Some ?k) (vr_key r)"
    using win srt m(2) by (auto simp: in_set_conv_nth within_def)
  have r: "\<forall>r \<in> set (drop m rs). within (Some ?k) hi (vr_key r)"
  proof
    fix r assume "r \<in> set (drop m rs)"
    then obtain i where "i < length rs - m" "r = rs ! (m + i)" by (auto simp: in_set_conv_nth)
    then have i: "m + i < length rs" "r = rs ! (m + i)" by auto
    then have "?k \<le> vr_key r" using srt [of m "m + i"] by (cases "i = 0") auto
    then show "within (Some ?k) hi (vr_key r)" using win [OF i(1)] i(2) by (auto simp: within_def)
  qed
  have "l < ?k" if "lo = Some l" for l
    using win [of 0] srt [of 0 m] m(1,2) that by (fastforce simp: within_def)
  moreover have "?k < u" if "hi = Some u" for u using win [OF m(2)] that by (simp add: within_def)
  moreover have "sorted_wrt (<) (map vr_key (take m rs))" "sorted_wrt (<) (map vr_key (drop m rs))"
    using ok by (simp_all add: sorted_wrt_take sorted_wrt_drop flip: take_map drop_map)
  ultimately have "halves C 0 lo hi (DLeaf rs) (DLeaf (take m rs)) ?k (DLeaf (drop m rs))"
    using l r m len mx by (auto simp: halves_def fill_ok_def has_overflow_iff has_underflow_iff [OF C] dest: in_set_takeD in_set_dropD)
  then show ?thesis using m(2) by (auto simp: split_leaf_def Let_def simp flip: m_def)
qed

lemma index_page_full: "ks \<noteq> [] \<Longrightarrow> length cs = Suc (length ks) \<Longrightarrow> index_page ks cs = Some (DIndex ks cs)"
  by (simp add: index_page_def children_len_def)

lemma split_index_halves:
  assumes C: "cfg_ok C" and ok: "tree_ok C (Suc d) lo hi (DIndex ks cs)" and full: "dx_has_overflow C (DIndex ks cs)"
  shows "\<exists>left k3 right. split_index ks cs = Some (left, k3, right) \<and> halves C (Suc d) lo hi (DIndex ks cs) left k3 right"
proof -
  define m where "m = length ks div 2"
  have len: "length ks = dx_fan_out C - 2" "5 \<le> dx_fan_out C" and cs: "length cs = Suc (length ks)"
    and seps: "seps_ok lo hi ks"
    and ch: "\<And>i. i \<le> length ks \<Longrightarrow> tree_ok C d (lo_of lo ks i) (hi_of hi ks i) (cs ! i) \<and> \<not> dx_has_underflow C (cs ! i)"
    and mx: "\<forall>k \<in> set ks. k < dx_max_key C"
    using ok full C by (auto simp: has_overflow_iff cfg_ok_def)
  have m: "0 < m" "m < length ks" "m + 1 < length ks" "m < dx_fan_out C - 2" "length ks - (m + 1) < dx_fan_out C - 2"
      "(dx_fan_out C - 1) div 2 - 1 \<le> m" "(dx_fan_out C - 1) div 2 - 1 \<le> length ks - (m + 1)"
    using len unfolding m_def by linarith+
  let ?k = "ks ! m"
  let ?l = "DIndex (take m ks) (take (m + 1) cs)" and ?r = "DIndex (drop (m + 1) ks) (drop (m + 1) cs)"
  have srt: "ks ! i < ks ! j" if "i < j" "j < length ks" for i j
    using seps that by (simp add: seps_ok_def sorted_wrt_nth_less)
  have win: "within lo hi (ks ! i)" if "i < length ks" for i using seps that by (simp add: seps_ok_def)
  have "seps_ok lo (Some ?k) (take m ks)"
    using seps win srt m(2) by (auto simp: seps_ok_def sorted_wrt_take within_def in_set_conv_nth)
  moreover have "lo_of lo (take m ks) i = lo_of lo ks i \<and> hi_of (Some ?k) (take m ks) i = hi_of hi ks i" if "i \<le> m" for i
    using that m(2) by (auto simp: lo_of_def hi_of_def)
  ultimately have left: "tree_ok C (Suc d) lo (Some ?k) ?l"
    using ch m cs len mx by (auto dest: in_set_takeD)
  have "within (Some ?k) hi (ks ! (m + 1 + i))" if "m + 1 + i < length ks" for i
    using win [OF that] srt [of m "m + 1 + i"] that by (auto simp: within_def)
  then have "seps_ok (Some ?k) hi (drop (m + 1) ks)"
    using seps by (auto simp: seps_ok_def sorted_wrt_drop in_set_conv_nth)
  moreover have "lo_of (Some ?k) (drop (m + 1) ks) i = lo_of lo ks (m + 1 + i)
      \<and> hi_of hi (drop (m + 1) ks) i = hi_of hi ks (m + 1 + i)" if "i \<le> length ks - (m + 1)" for i
    using that m(3) by (auto simp: lo_of_def hi_of_def)
  moreover have "m + 1 + i \<le> length ks" if "i \<le> length ks - (m + 1)" for i using that m(3) by linarith
  moreover have "length (drop (m + 1) cs) = Suc (length (drop (m + 1) ks))" using cs m(3) by simp
  ultimately have right: "tree_ok C (Suc d) (Some ?k) hi ?r"
    using ch m(3,5) mx by (auto dest: in_set_dropD)
  have "l < ?k" if "lo = Some l" for l
    using win [of 0] srt [of 0 m] m(1,2) that by (fastforce simp: within_def)
  moreover have "?k < u" if "hi = Some u" for u using win [OF m(2)] that by (simp add: within_def)
  moreover have "records_of ?l @ records_of ?r = records_of (DIndex ks cs)"
    by (simp flip: concat_append map_append del: concat_append map_append)
  ultimately have "halves C (Suc d) lo hi (DIndex ks cs) ?l ?k ?r"
    using left right m len mx by (auto simp: halves_def fill_ok_def has_overflow_iff has_underflow_iff [OF C] simp del: tree_ok.simps)
  moreover have "index_page (take m ks) (take (m + 1) cs) = Some ?l"
    using m(1,2) cs by (intro index_page_full) auto
  moreover have "index_page (drop (m + 1) ks) (drop (m + 1) cs) = Some ?r"
    using m(3) cs by (intro index_page_full) auto
  ultimately have "halves C (Suc d) lo hi (DIndex ks cs) ?l ?k ?r \<and> split_index ks cs = Some (?l, ?k, ?r)"
    using m(2) by (simp add: split_index_def Let_def flip: m_def del: tree_ok.simps)
  then show ?thesis by blast
qed

text \<open>A parent takes the two halves of a child.\<close>

definition with_halves :: "'k list \<Rightarrow> ('k, 'p) dnode list \<Rightarrow> nat \<Rightarrow> ('k, 'p) dnode \<Rightarrow> 'k \<Rightarrow> ('k, 'p) dnode \<Rightarrow> ('k, 'p) dnode" where
  "with_halves ks cs i left k3 right = DIndex (take i ks @ k3 # drop i ks) (take i cs @ left # right # drop (Suc i) cs)"

lemma seps_insert:
  assumes seps: "seps_ok lo hi ks" and i: "i \<le> length ks"
    and k: "\<And>l. lo_of lo ks i = Some l \<Longrightarrow> l < k" "\<And>u. hi_of hi ks i = Some u \<Longrightarrow> k < u"
  shows "seps_ok lo hi (take i ks @ k # drop i ks)"
proof -
  have low: "x < k" if x: "x \<in> set (take i ks)" for x
  proof -
    obtain j where j: "j < i" "x = ks ! j" "j < length ks" using x i by (auto simp: in_set_conv_nth)
    then have "x \<le> ks ! (i - 1)" using seps_nth [OF seps, of j "i - 1"] i by auto
    then show ?thesis using k(1) [of "ks ! (i - 1)"] j(1) by (auto simp: lo_of_def)
  qed
  have high: "k < x" if x: "x \<in> set (drop i ks)" for x
  proof -
    obtain j where "j < length ks - i" "x = ks ! (i + j)" using x by (auto simp: in_set_conv_nth)
    then have j: "i + j < length ks" "x = ks ! (i + j)" by auto
    then have "ks ! i \<le> x" using seps_nth [OF seps, of i "i + j"] by auto
    then show ?thesis using k(2) [of "ks ! i"] j(1) by (auto simp: hi_of_def)
  qed
  have "within (lo_of lo ks i) (hi_of hi ks i) k" using k by (auto simp: within_def less_imp_le)
  then have "within lo hi k" by (rule within_child [OF seps i])
  moreover have "sorted_wrt (<) (take i ks @ drop i ks)" using seps by (simp add: seps_ok_def)
  ultimately show ?thesis
    using seps low high by (auto simp: seps_ok_def sorted_wrt_append dest: in_set_takeD in_set_dropD simp del: append_take_drop_id)
qed

lemma bounds_insert:
  assumes "i \<le> length ks" and "j \<le> Suc (length ks)"
  shows "lo_of lo (take i ks @ k # drop i ks) j = (if j \<le> i then lo_of lo ks j else if j = Suc i then Some k else lo_of lo ks (j - 1))"
    and "hi_of hi (take i ks @ k # drop i ks) j = (if j < i then hi_of hi ks j else if j = i then Some k else hi_of hi ks (j - 1))"
  using assms by (auto simp: lo_of_def hi_of_def nth_append nth_Cons' min_def numeral_2_eq_2)

text \<open>The records of an index page around those of a child.\<close>

definition recs_before :: "('k, 'p) dnode list \<Rightarrow> nat \<Rightarrow> ('k, 'p) v_record list" where
  "recs_before cs i = concat (map records_of (take i cs))"

definition recs_after :: "('k, 'p) dnode list \<Rightarrow> nat \<Rightarrow> ('k, 'p) v_record list" where
  "recs_after cs i = concat (map records_of (drop (Suc i) cs))"

lemma records_child:
  assumes "i < length cs"
  shows "concat (map records_of cs) = recs_before cs i @ records_of (cs ! i) @ recs_after cs i"
proof -
  have "concat (map records_of (take i cs @ cs ! i # drop (Suc i) cs)) = recs_before cs i @ records_of (cs ! i) @ recs_after cs i"
    by (simp add: recs_before_def recs_after_def)
  then show ?thesis using id_take_nth_drop [OF assms] by simp
qed

lemma with_halves_ok:
  assumes C: "cfg_ok C" and ok: "tree_ok C (Suc d) lo hi (DIndex ks cs)" and i: "i \<le> length ks" and room: "length ks < dx_fan_out C - 2"
    and h: "halves C d (lo_of lo ks i) (hi_of hi ks i) (cs ! i) left k3 right"
  shows "tree_ok C (Suc d) lo hi (with_halves ks cs i left k3 right)"
    and "records_of (with_halves ks cs i left k3 right) = records_of (DIndex ks cs)"
proof -
  have cs: "length cs = Suc (length ks)" and seps: "seps_ok lo hi ks"
    and ch: "\<And>j. j \<le> length ks \<Longrightarrow> tree_ok C d (lo_of lo ks j) (hi_of hi ks j) (cs ! j) \<and> \<not> dx_has_underflow C (cs ! j)"
    and mx: "\<forall>k \<in> set ks. k < dx_max_key C"
    using ok by auto
  let ?ks = "take i ks @ k3 # drop i ks" and ?cs = "take i cs @ left # right # drop (Suc i) cs"
  have "seps_ok lo hi ?ks" using seps_insert [OF seps i, of k3] h by (simp add: halves_def)
  moreover have "tree_ok C d (lo_of lo ?ks j) (hi_of hi ?ks j) (?cs ! j) \<and> \<not> dx_has_underflow C (?cs ! j)" if j: "j \<le> Suc (length ks)" for j
  proof -
    note b = bounds_insert(1) [OF i j, of lo k3] bounds_insert(2) [OF i j, of hi k3]
    consider "j < i" | "j = i" | "j = Suc i" | "Suc i < j" by linarith
    then show ?thesis
    proof cases
      case 1
      then show ?thesis using ch [of j] i cs b by (simp add: nth_append)
    next
      case 2
      then show ?thesis using h i cs b by (simp add: nth_append halves_def fill_ok_def)
    next
      case 3
      then show ?thesis using h i cs b by (simp add: nth_append halves_def fill_ok_def)
    next
      case 4
      then obtain j' where j': "j = Suc (Suc j')" "i \<le> j'" by (metis Suc_le_D Suc_le_mono less_eq_Suc_le)
      then have "?cs ! j = cs ! Suc j'" using i cs j by (simp add: nth_append)
      then show ?thesis using ch [of "Suc j'"] j j' b by simp
    qed
  qed
  moreover have "\<forall>k \<in> set ?ks. k < dx_max_key C" using mx h by (auto simp: halves_def dest: in_set_takeD in_set_dropD)
  ultimately show "tree_ok C (Suc d) lo hi (with_halves ks cs i left k3 right)"
    using room i cs by (auto simp: with_halves_def)
  have "i < length cs" using i cs by simp
  then show "records_of (with_halves ks cs i left k3 right) = records_of (DIndex ks cs)"
    using h by (simp add: with_halves_def halves_def records_child [of i cs] recs_before_def recs_after_def
        del: append_assoc flip: append_assoc)
qed

section \<open>The child of a key\<close>

lemma child_position_within:
  assumes inc: "succ_law (dx_inc_key C) (dx_max_key C)" "key \<le> dx_max_key C" and mx: "\<forall>k \<in> set ks. k < dx_max_key C"
    and seps: "seps_ok lo hi ks" and key: "within lo hi key"
  shows "child_position (dx_inc_key C key) ks \<le> length ks"
    and "within (lo_of lo ks (child_position (dx_inc_key C key) ks)) (hi_of hi ks (child_position (dx_inc_key C key) ks)) key"
proof -
  let ?i = "child_position (dx_inc_key C key) ks"
  have srt: "sorted_wrt (<) (map (\<lambda>k. k) ks)" using seps by (simp add: seps_ok_def)
  have le: "ks ! j < dx_inc_key C key \<longleftrightarrow> ks ! j \<le> key" if "j < length ks" for j
  proof (cases "key < dx_max_key C")
    case True
    then show ?thesis using succ_law_from [OF inc(1) True, of "ks ! j"] by (auto simp: not_le not_less [symmetric])
  next
    case False
    then have "dx_max_key C \<le> dx_inc_key C key" "ks ! j < dx_max_key C"
      using inc mx nth_mem [OF that] unfolding succ_law_def by auto
    then show ?thesis using False by auto
  qed
  have i: "?i \<le> length ks" "\<forall>j < ?i. ks ! j \<le> key" "\<forall>j. ?i \<le> j \<longrightarrow> j < length ks \<longrightarrow> key < ks ! j"
  proof -
    have b: "?i \<le> length ks \<and> (\<forall>j < ?i. ks ! j < dx_inc_key C key) \<and> (\<forall>j. ?i \<le> j \<longrightarrow> j < length ks \<longrightarrow> \<not> ks ! j < dx_inc_key C key)"
    proof (cases "binary_search_by_key (\<lambda>k. k) (dx_inc_key C key) ks")
      case (Inl p)
      have "p \<le> length ks" "\<forall>j < p. ks ! j < dx_inc_key C key" "\<forall>j. p \<le> j \<and> j < length ks \<longrightarrow> dx_inc_key C key < ks ! j"
        using binary_search_cases [OF strict_sorted_imp_sorted [OF srt], of "dx_inc_key C key"] Inl by simp_all
      then show ?thesis using Inl by (auto simp: child_position_def)
    next
      case (Inr p)
      have p: "p < length ks" "ks ! p = dx_inc_key C key" using search_hit [OF srt Inr] by auto
      have "ks ! j < ks ! p" if "j < p" for j using seps p(1) that by (simp add: seps_ok_def sorted_wrt_nth_less)
      moreover have "ks ! p \<le> ks ! j" if "p \<le> j" "j < length ks" for j using seps_nth [OF seps that] .
      ultimately show ?thesis using Inr p by (auto simp: child_position_def not_less)
    qed
    then show "?i \<le> length ks" "\<forall>j < ?i. ks ! j \<le> key" "\<forall>j. ?i \<le> j \<longrightarrow> j < length ks \<longrightarrow> key < ks ! j"
      using le by (fastforce simp: not_le)+
  qed
  show "?i \<le> length ks" by (rule i(1))
  show "within (lo_of lo ks ?i) (hi_of hi ks ?i) key"
    using i(2) [rule_format, of "?i - 1"] i(3) [rule_format, of ?i] key by (auto simp: within_def lo_of_def hi_of_def split: if_splits)
qed

lemma child_unique:
  assumes "seps_ok lo hi ks" and "i \<le> length ks" and "j \<le> length ks"
    and "within (lo_of lo ks i) (hi_of hi ks i) k" and "within (lo_of lo ks j) (hi_of hi ks j) k"
  shows "i = j"
  using children_apart [OF assms(1) _ assms(3,4,5)] children_apart [OF assms(1) _ assms(2,5,4)] by (meson less_irrefl linorder_neqE_nat)

section \<open>The place of a guard\<close>

lemma node_set_at: "node_set n path m = Some n' \<Longrightarrow> node_at n' path = Some m"
  by (induction n path m arbitrary: n' rule: node_set.induct) (auto split: if_splits)

lemma node_set_again: "node_set n path m = Some n' \<Longrightarrow> node_set n' path m' = node_set n path m'"
  by (induction n path m arbitrary: n' rule: node_set.induct) (auto split: if_splits)

lemma node_at_snoc: "node_at n path = Some (DIndex ks cs) \<Longrightarrow> i < length cs \<Longrightarrow> node_at n (path @ [i]) = Some (cs ! i)"
  by (induction n path rule: node_at.induct) (auto split: if_splits)

lemma node_set_snoc:
  "node_at n path = Some (DIndex ks cs) \<Longrightarrow> i < length cs \<Longrightarrow>
     node_set n (path @ [i]) m = node_set n path (DIndex ks (cs[i := m]))"
  by (induction n path rule: node_at.induct) (auto split: if_splits)

text \<open>
  \<open>focus C D n path d lo hi pre post\<close>: a well-formed node of depth \<open>d\<close> between \<open>lo\<close> and \<open>hi\<close> fits into the
  tree \<open>n\<close> at \<open>path\<close>; its records stand between \<open>pre\<close> and \<open>post\<close>.
\<close>

definition focus :: "('k::linorder, 'p) dexa_cfg \<Rightarrow> nat \<Rightarrow> ('k, 'p) dnode \<Rightarrow> nat list \<Rightarrow> nat \<Rightarrow> 'k option \<Rightarrow> 'k option
    \<Rightarrow> ('k, 'p) v_record list \<Rightarrow> ('k, 'p) v_record list \<Rightarrow> bool" where
  "focus C D n path d lo hi pre post \<longleftrightarrow>
     (\<forall>m. tree_ok C d lo hi m \<longrightarrow> (path \<noteq> [] \<longrightarrow> \<not> dx_has_underflow C m) \<longrightarrow>
        (\<exists>n'. node_set n path m = Some n' \<and> tree_ok C D None None n' \<and> records_of n' = pre @ records_of m @ post))
     \<and> (\<forall>k. within lo hi k \<longrightarrow> (\<forall>r \<in> set pre. vr_key r < k) \<and> (\<forall>r \<in> set post. k < vr_key r))"

lemma dx_focusD:
  assumes "focus C D n path d lo hi pre post" and "tree_ok C d lo hi m" and "path \<noteq> [] \<longrightarrow> \<not> dx_has_underflow C m"
  obtains n' where "node_set n path m = Some n'" and "tree_ok C D None None n'" and "records_of n' = pre @ records_of m @ post"
  using assms unfolding focus_def by blast

lemma dx_focus_root: "focus C D n [] D None None [] []"
  by (simp add: focus_def)

lemma focus_set: "focus C D n path d lo hi pre post \<Longrightarrow> node_set n path m = Some n' \<Longrightarrow> focus C D n' path d lo hi pre post"
  by (simp add: focus_def node_set_again)

lemma underflow_same_keys: "dx_has_underflow C (DIndex ks cs) = dx_has_underflow C (DIndex ks cs')"
  by (simp add: dx_has_underflow_def dn_is_underflow_def)

lemma tree_ok_update:
  assumes "tree_ok C (Suc d) lo hi (DIndex ks cs)" and "i \<le> length ks"
    and "tree_ok C d (lo_of lo ks i) (hi_of hi ks i) m" and "\<not> dx_has_underflow C m"
  shows "tree_ok C (Suc d) lo hi (DIndex ks (cs[i := m]))"
  using assms by (auto simp: nth_list_update)

lemma siblings_apart:
  assumes ok: "tree_ok C (Suc d) lo hi (DIndex ks cs)" and i: "i \<le> length ks" and k: "within (lo_of lo ks i) (hi_of hi ks i) k"
  shows "\<forall>r \<in> set (recs_before cs i). vr_key r < k" and "\<forall>r \<in> set (recs_after cs i). k < vr_key r"
proof -
  have cs: "length cs = Suc (length ks)" and seps: "seps_ok lo hi ks"
    and ch: "\<And>j. j \<le> length ks \<Longrightarrow> tree_ok C d (lo_of lo ks j) (hi_of hi ks j) (cs ! j)"
    using ok by auto
  have keys: "within (lo_of lo ks j) (hi_of hi ks j) (vr_key r)" if "j \<le> length ks" "r \<in> set (records_of (cs ! j))" for j r
    using tree_ok_records [OF ch [OF that(1)]] that(2) by blast
  show "\<forall>r \<in> set (recs_before cs i). vr_key r < k"
  proof
    fix r assume r: "r \<in> set (recs_before cs i)"
    obtain c where c: "c \<in> set (take i cs)" "r \<in> set (records_of c)" using r by (auto simp: recs_before_def)
    then obtain j where "j < i" "c = cs ! j" by (auto simp: in_set_conv_nth)
    then have "j < i" "r \<in> set (records_of (cs ! j))" using c(2) by auto
    then show "vr_key r < k" using children_apart [OF seps _ i _ k, of j] keys [of j r] i by auto
  qed
  show "\<forall>r \<in> set (recs_after cs i). k < vr_key r"
  proof
    fix r assume r: "r \<in> set (recs_after cs i)"
    obtain c where c: "c \<in> set (drop (Suc i) cs)" "r \<in> set (records_of c)" using r by (auto simp: recs_after_def)
    then obtain j where "j < length cs - Suc i" "c = cs ! (Suc i + j)" by (auto simp: in_set_conv_nth)
    then have "Suc i + j \<le> length ks" "r \<in> set (records_of (cs ! (Suc i + j)))" using cs c(2) by auto
    then show "k < vr_key r" using children_apart [OF seps _ _ k, of "Suc i + j"] keys by auto
  qed
qed

lemma dx_focus_child:
  assumes f: "focus C D n path (Suc d) lo hi pre post" and at: "node_at n path = Some (DIndex ks cs)"
    and ok: "tree_ok C (Suc d) lo hi (DIndex ks cs)" and fill: "path \<noteq> [] \<longrightarrow> \<not> dx_has_underflow C (DIndex ks cs)"
    and i: "i \<le> length ks"
  shows "focus C D n (path @ [i]) d (lo_of lo ks i) (hi_of hi ks i) (pre @ recs_before cs i) (recs_after cs i @ post)"
proof -
  have cs: "length cs = Suc (length ks)" and seps: "seps_ok lo hi ks"
    using ok by auto
  have "\<exists>n'. node_set n (path @ [i]) m = Some n' \<and> tree_ok C D None None n'
      \<and> records_of n' = (pre @ recs_before cs i) @ records_of m @ (recs_after cs i @ post)"
    if m: "tree_ok C d (lo_of lo ks i) (hi_of hi ks i) m" "\<not> dx_has_underflow C m" for m
  proof -
    have "path \<noteq> [] \<longrightarrow> \<not> dx_has_underflow C (DIndex ks (cs[i := m]))"
      using fill underflow_same_keys [of C ks cs "cs[i := m]"] by simp
    then obtain n' where "node_set n path (DIndex ks (cs[i := m])) = Some n'" "tree_ok C D None None n'"
        "records_of n' = pre @ records_of (DIndex ks (cs[i := m])) @ post"
      by (rule dx_focusD [OF f tree_ok_update [OF ok i m]])
    moreover have "records_of (DIndex ks (cs[i := m])) = recs_before cs i @ records_of m @ recs_after cs i"
      using records_child [of i "cs[i := m]"] i cs by (simp add: recs_before_def recs_after_def)
    ultimately show ?thesis using node_set_snoc [OF at, of i m] i cs by simp
  qed
  moreover have "(\<forall>r \<in> set (pre @ recs_before cs i). vr_key r < k) \<and> (\<forall>r \<in> set (recs_after cs i @ post). k < vr_key r)"
    if k: "within (lo_of lo ks i) (hi_of hi ks i) k" for k
    using within_child [OF seps i k] siblings_apart [OF ok i k] f by (auto simp: focus_def)
  ultimately show ?thesis by (auto simp: focus_def)
qed

section \<open>The descent of a writer\<close>

text \<open>What the descent leaves alone.\<close>

definition same_but_root :: "('k, 'p) dexa_tree \<Rightarrow> ('k, 'p) dexa_tree \<Rightarrow> bool" where
  "same_but_root t t' \<longleftrightarrow> dt_heap t' = dt_heap t \<and> dt_clock t' = dt_clock t \<and> dt_limbo t' = dt_limbo t
     \<and> dt_coins t' = dt_coins t \<and> dt_height t' = dt_height t"

text \<open>A guard on a leaf that takes one more record of the key.\<close>

definition at_leaf :: "('k::linorder, 'p) dexa_cfg \<Rightarrow> nat \<Rightarrow> 'k \<Rightarrow> ('k, 'p) dexa_tree \<Rightarrow> nat list \<Rightarrow> ('k, 'p) v_record list
    \<Rightarrow> ('k, 'p) v_record list \<Rightarrow> ('k, 'p) v_record list \<Rightarrow> bool" where
  "at_leaf C D key t path pre rs post \<longleftrightarrow> (\<exists>lo hi. node_at (dt_root t) path = Some (DLeaf rs) \<and> length rs < dx_num_records C
     \<and> tree_ok C 0 lo hi (DLeaf rs) \<and> (path \<noteq> [] \<longrightarrow> \<not> dx_has_underflow C (DLeaf rs)) \<and> within lo hi key
     \<and> focus C D (dt_root t) path 0 lo hi pre post)"

lemma split_records_normal: "\<not> dx_gc C \<Longrightarrow> split_records C t rs = Some (t, rs)"
  by (simp add: split_records_def)

lemma overflow_correction_ok:
  assumes C: "cfg_ok C" "\<not> dx_gc C" and ok: "tree_ok C (Suc d) lo hi (DIndex ks cs)" and room: "\<not> dx_has_overflow C (DIndex ks cs)"
    and i: "i \<le> length ks" and full: "dx_has_overflow C (cs ! i)"
  shows "\<exists>left k3 right. do_overflow_correction C t ks cs i = Some (count_blocks 1 t, with_halves ks cs i left k3 right)
    \<and> halves C d (lo_of lo ks i) (hi_of hi ks i) (cs ! i) left k3 right"
proof -
  have cs: "length cs = Suc (length ks)" and len: "length ks < dx_fan_out C - 2"
    and child: "tree_ok C d (lo_of lo ks i) (hi_of hi ks i) (cs ! i)"
    using ok room i by (auto simp: has_overflow_iff)
  obtain left k3 right where s: "halves C d (lo_of lo ks i) (hi_of hi ks i) (cs ! i) left k3 right"
      "(case cs ! i of DIndex ks1 cs1 \<Rightarrow> map_option (Pair t) (split_index ks1 cs1)
         | DLeaf rs \<Rightarrow> do { (t1, kept) \<leftarrow> split_records C t rs; map_option (Pair t1) (split_leaf kept) }) = Some (t, left, k3, right)"
  proof (cases d)
    case 0
    then obtain rs where rs: "cs ! i = DLeaf rs" using child by auto
    have "\<exists>left k3 right. split_leaf rs = Some (left, k3, right) \<and> halves C d (lo_of lo ks i) (hi_of hi ks i) (cs ! i) left k3 right"
      using split_leaf_halves [OF C(1), of "lo_of lo ks i" "hi_of hi ks i" rs] child full unfolding 0 rs by blast
    then show ?thesis using that split_records_normal [OF C(2), of t rs] rs by auto
  next
    case (Suc d')
    then obtain ks1 cs1 where ix: "cs ! i = DIndex ks1 cs1" using child by auto
    have "\<exists>left k3 right. split_index ks1 cs1 = Some (left, k3, right) \<and> halves C d (lo_of lo ks i) (hi_of hi ks i) (cs ! i) left k3 right"
      using split_index_halves [OF C(1), of d' "lo_of lo ks i" "hi_of hi ks i" ks1 cs1] child full unfolding Suc ix by blast
    then show ?thesis using that ix by auto
  qed
  have "sv_insert (dx_fan_out C) (i + 1) right (cs[i := left]) = Some (take i cs @ left # right # drop (Suc i) cs)"
    using i cs len by (simp add: sv_insert_def take_Suc_conv_app_nth)
  moreover have "sv_insert (dx_fan_out C - 1) i k3 ks = Some (take i ks @ k3 # drop i ks)"
    using i len by (simp add: sv_insert_def)
  ultimately have "do_overflow_correction C t ks cs i = Some (count_blocks 1 t, with_halves ks cs i left k3 right)"
    unfolding do_overflow_correction_def s(2) by (simp add: with_halves_def)
  then show ?thesis using s(1) by blast
qed

lemma count_blocks_kept [simp]:
  "dt_root (count_blocks n t) = dt_root t" "dt_heap (count_blocks n t) = dt_heap t" "dt_clock (count_blocks n t) = dt_clock t"
  "dt_limbo (count_blocks n t) = dt_limbo t" "dt_coins (count_blocks n t) = dt_coins t" "dt_height (count_blocks n t) = dt_height t"
  by (simp_all add: count_blocks_def)

lemma same_but_root_trans: "same_but_root t t' \<Longrightarrow> same_but_root t' t'' \<Longrightarrow> same_but_root t t''"
  by (simp add: same_but_root_def)

lemma same_but_root_set [simp]: "same_but_root t ((count_blocks n t)\<lparr>dt_root := r\<rparr>)"
  by (simp add: same_but_root_def)

text \<open>After a split the key belongs to one of the halves.\<close>

lemma halves_child:
  assumes "i \<le> length ks" and "length cs = Suc (length ks)" and "seps_ok lo hi (take i ks @ k3 # drop i ks)"
    and "within (lo_of lo ks i) (hi_of hi ks i) key"
    and "j \<le> Suc (length ks)" and "within (lo_of lo (take i ks @ k3 # drop i ks) j) (hi_of hi (take i ks @ k3 # drop i ks) j) key"
  shows "(take i cs @ left # right # drop (Suc i) cs) ! j \<in> {left, right}"
proof -
  let ?ks = "take i ks @ k3 # drop i ks"
  have len: "length ?ks = Suc (length ks)" using assms(1) by simp
  define j' where "j' = (if key < k3 then i else Suc i)"
  have j': "j' \<le> Suc (length ks)" using assms(1) by (simp add: j'_def)
  have "within (lo_of lo ?ks j') (hi_of hi ?ks j') key"
    using bounds_insert(1) [OF assms(1) j', of lo k3] bounds_insert(2) [OF assms(1) j', of hi k3] assms(4)
    by (auto simp: j'_def within_def not_less split: if_splits)
  then have "j = j'" using child_unique [OF assms(3), of j j' key] assms(5,6) j' len by simp
  then show ?thesis using assms(1,2) by (auto simp: j'_def nth_append)
qed

text \<open>The writer arrives at the leaf of the key, all records of the tree still being there.\<close>

definition lands :: "('k::linorder, 'p) dexa_cfg \<Rightarrow> nat \<Rightarrow> 'k \<Rightarrow> ('k, 'p) dexa_tree \<Rightarrow> ('k, 'p) v_record list
    \<Rightarrow> (('k, 'p) dexa_tree \<times> nat list) option \<Rightarrow> bool" where
  "lands C D key t all res \<longleftrightarrow> (\<exists>t' path pre rs post. res = Some (t', path) \<and> same_but_root t t'
     \<and> at_leaf C D key t' path pre rs post \<and> pre @ rs @ post = all)"

text \<open>A guard on a node that the writer may enter.\<close>

definition enters :: "('k::linorder, 'p) dexa_cfg \<Rightarrow> nat \<Rightarrow> 'k \<Rightarrow> nat \<Rightarrow> ('k, 'p) dexa_tree \<Rightarrow> nat list \<Rightarrow> ('k, 'p) v_record list
    \<Rightarrow> ('k, 'p) dnode \<Rightarrow> ('k, 'p) v_record list \<Rightarrow> bool" where
  "enters C D key d t path pre m post \<longleftrightarrow> (\<exists>lo hi. node_at (dt_root t) path = Some m \<and> tree_ok C d lo hi m
     \<and> (path \<noteq> [] \<longrightarrow> \<not> dx_has_underflow C m) \<and> within lo hi key \<and> focus C D (dt_root t) path d lo hi pre post)"

lemma enters_index:
  assumes inc: "succ_law (dx_inc_key C) (dx_max_key C)" "key < dx_max_key C" and e: "enters C D key (Suc d) t path pre m post"
  obtains ks cs i where "m = DIndex ks cs" and "node_at (dt_root t) path = Some (DIndex ks cs)"
    and "i = child_position (dx_inc_key C key) ks" and "i < length cs"
    and "\<not> dx_has_underflow C (cs ! i)"
    and "enters C D key d t (path @ [i]) (pre @ recs_before cs i) (cs ! i) (recs_after cs i @ post)"
    and "(pre @ recs_before cs i) @ records_of (cs ! i) @ (recs_after cs i @ post) = pre @ records_of m @ post"
proof -
  obtain lo hi where m: "node_at (dt_root t) path = Some m" "tree_ok C (Suc d) lo hi m" "path \<noteq> [] \<longrightarrow> \<not> dx_has_underflow C m"
      "within lo hi key" "focus C D (dt_root t) path (Suc d) lo hi pre post" using e unfolding enters_def by blast
  then obtain ks cs where n: "m = DIndex ks cs" and cs: "length cs = Suc (length ks)" and seps: "seps_ok lo hi ks"
    and mx: "\<forall>k \<in> set ks. k < dx_max_key C"
    and ch: "\<And>j. j \<le> length ks \<Longrightarrow> tree_ok C d (lo_of lo ks j) (hi_of hi ks j) (cs ! j) \<and> \<not> dx_has_underflow C (cs ! j)" by auto
  let ?i = "child_position (dx_inc_key C key) ks"
  note pos = child_position_within [OF inc(1) less_imp_le [OF inc(2)] mx seps m(4)]
  have "enters C D key d t (path @ [?i]) (pre @ recs_before cs ?i) (cs ! ?i) (recs_after cs ?i @ post)"
    unfolding enters_def
    using ch [OF pos(1)] node_at_snoc [OF m(1) [unfolded n], of ?i] pos cs dx_focus_child [OF m(5) m(1) [unfolded n] m(2) [unfolded n] m(3) [unfolded n] pos(1)]
    by auto
  then show ?thesis using that [of ks cs ?i] n m(1) pos(1) cs ch [OF pos(1)] records_child [of ?i cs] by simp
qed

lemma write_descent_child:
  assumes "node_at (dt_root t) path = Some (DIndex ks cs)" and "child_position key ks < length cs"
    and "fill_ok C (cs ! child_position key ks)"
  shows "\<exists>fence'. write_descent C t path fence key = write_descent C t (path @ [child_position key ks]) fence' key"
  by (subst write_descent.simps) (use assms in \<open>auto simp: fill_ok_def Let_def\<close>)

lemma underflow_more_keys: "\<not> dx_has_underflow C (DIndex ks cs) \<Longrightarrow> \<not> dx_has_underflow C (with_halves ks cs i left k3 right)"
  by (auto simp: dx_has_underflow_def dn_is_underflow_def with_halves_def split: if_splits)

text \<open>The split of a full child: the child that the writer looks at next has room.\<close>

lemma split_child:
  assumes C: "cfg_ok C" "\<not> dx_gc C" and inc: "succ_law (dx_inc_key C) (dx_max_key C)" "key < dx_max_key C"
    and e: "enters C D key (Suc d) t path pre (DIndex ks cs) post" and room: "\<not> dx_has_overflow C (DIndex ks cs)"
    and i: "i = child_position (dx_inc_key C key) ks" and full: "dx_has_overflow C (cs ! i)"
  obtains t' ks' cs' where "\<And>fence. write_descent C t path fence (dx_inc_key C key) = write_descent C t' path fence (dx_inc_key C key)"
    and "same_but_root t t'" and "enters C D key (Suc d) t' path pre (DIndex ks' cs') post"
    and "records_of (DIndex ks' cs') = records_of (DIndex ks cs)"
    and "fill_ok C (cs' ! child_position (dx_inc_key C key) ks')"
proof -
  obtain lo hi where m: "node_at (dt_root t) path = Some (DIndex ks cs)" "tree_ok C (Suc d) lo hi (DIndex ks cs)"
      "path \<noteq> [] \<longrightarrow> \<not> dx_has_underflow C (DIndex ks cs)" "within lo hi key" "focus C D (dt_root t) path (Suc d) lo hi pre post"
    using e unfolding enters_def by blast
  have cs: "length cs = Suc (length ks)" and seps: "seps_ok lo hi ks" and mx: "\<forall>k \<in> set ks. k < dx_max_key C" using m(2) by auto
  note pos = child_position_within [OF inc(1) less_imp_le [OF inc(2)] mx seps m(4), folded i]
  obtain left k3 right where s: "do_overflow_correction C t ks cs i = Some (count_blocks 1 t, with_halves ks cs i left k3 right)"
      "halves C d (lo_of lo ks i) (hi_of hi ks i) (cs ! i) left k3 right"
    using overflow_correction_ok [OF C m(2) room pos(1) full] by blast
  define ks' where "ks' = take i ks @ k3 # drop i ks"
  define cs' where "cs' = take i cs @ left # right # drop (Suc i) cs"
  have w: "with_halves ks cs i left k3 right = DIndex ks' cs'" by (simp add: with_halves_def ks'_def cs'_def)
  have new: "tree_ok C (Suc d) lo hi (DIndex ks' cs')" "records_of (DIndex ks' cs') = records_of (DIndex ks cs)"
    using with_halves_ok [OF C(1) m(2) pos(1) _ s(2)] room unfolding w by (simp_all add: has_overflow_iff del: tree_ok.simps)
  have fill: "path \<noteq> [] \<longrightarrow> \<not> dx_has_underflow C (DIndex ks' cs')" using m(3) underflow_more_keys w by metis
  obtain n' where n': "node_set (dt_root t) path (DIndex ks' cs') = Some n'" by (rule dx_focusD [OF m(5) new(1) fill])
  let ?t = "(count_blocks 1 t)\<lparr>dt_root := n'\<rparr>"
  have "write_descent C t path fence (dx_inc_key C key) = write_descent C ?t path fence (dx_inc_key C key)" for fence
    by (subst write_descent.simps) (use m(1) pos(1) cs full s(1) n' in \<open>simp add: Let_def w set_node_def flip: i\<close>)
  moreover have "enters C D key (Suc d) ?t path pre (DIndex ks' cs') post"
    unfolding enters_def using node_set_at [OF n'] new(1) fill m(4) focus_set [OF m(5) n'] by (auto simp del: tree_ok.simps)
  moreover have "fill_ok C (cs' ! child_position (dx_inc_key C key) ks')"
  proof -
    have seps': "seps_ok lo hi ks'" "length ks' = Suc (length ks)" "\<forall>k \<in> set ks'. k < dx_max_key C" using new(1) pos(1) by (auto simp: ks'_def)
    show ?thesis
      using halves_child [OF pos(1) cs seps'(1) [unfolded ks'_def] pos(2),
          of "child_position (dx_inc_key C key) ks'" left right] child_position_within [OF inc(1) less_imp_le [OF inc(2)] seps'(3,1) m(4)] seps'(2) s(2)
      unfolding ks'_def cs'_def halves_def by auto
  qed
  ultimately show ?thesis using that [of ?t ks' cs'] new(2) by simp
qed

lemma write_descent_ok:
  assumes C: "cfg_ok C" "\<not> dx_gc C" and inc: "succ_law (dx_inc_key C) (dx_max_key C)" "key < dx_max_key C"
  shows "enters C D key d t path pre m post \<Longrightarrow> \<not> dx_has_overflow C m
    \<Longrightarrow> lands C D key t (pre @ records_of m @ post) (write_descent C t path fence (dx_inc_key C key))"
proof (induction d arbitrary: t path pre m post fence)
  case 0
  then obtain rs where m: "m = DLeaf rs" by (auto simp: enters_def)
  have "write_descent C t path fence (dx_inc_key C key) = Some (t, path)"
    by (subst write_descent.simps) (use 0(1) m in \<open>simp add: enters_def\<close>)
  moreover have "at_leaf C D key t path pre rs post"
    using 0 m unfolding at_leaf_def enters_def by (auto simp: has_overflow_iff)
  moreover have "same_but_root t t" by (simp add: same_but_root_def)
  ultimately show ?case unfolding lands_def m by auto
next
  case (Suc d)
  have down: "lands C D key t (pre @ records_of (DIndex ks cs) @ post) (write_descent C t path fence (dx_inc_key C key))"
    if h: "enters C D key (Suc d) t path pre (DIndex ks cs) post" "fill_ok C (cs ! child_position (dx_inc_key C key) ks)"
    for t :: "('a, 'b) dexa_tree" and path pre post ks cs
  proof -
    obtain i where i: "node_at (dt_root t) path = Some (DIndex ks cs)" "i = child_position (dx_inc_key C key) ks" "i < length cs"
        "enters C D key d t (path @ [i]) (pre @ recs_before cs i) (cs ! i) (recs_after cs i @ post)"
        "(pre @ recs_before cs i) @ records_of (cs ! i) @ (recs_after cs i @ post) = pre @ records_of (DIndex ks cs) @ post"
      using enters_index [OF inc h(1)] by (metis dnode.inject(2))
    obtain fence' where "write_descent C t path fence (dx_inc_key C key) = write_descent C t (path @ [i]) fence' (dx_inc_key C key)"
      using write_descent_child [OF i(1)] i(2,3) h(2) by metis
    moreover have "\<not> dx_has_overflow C (cs ! i)" using h(2) i(2) by (simp add: fill_ok_def)
    ultimately show ?thesis using Suc.IH [OF i(4), of fence'] unfolding i(5) by metis
  qed
  obtain ks cs i where m: "m = DIndex ks cs" "i = child_position (dx_inc_key C key) ks" "\<not> dx_has_underflow C (cs ! i)"
    using enters_index [OF inc Suc.prems(1)] by metis
  show ?case
  proof (cases "dx_has_overflow C (cs ! i)")
    case True
    obtain t' ks' cs' where s: "\<And>fence. write_descent C t path fence (dx_inc_key C key) = write_descent C t' path fence (dx_inc_key C key)"
        "same_but_root t t'" "enters C D key (Suc d) t' path pre (DIndex ks' cs') post"
        "records_of (DIndex ks' cs') = records_of (DIndex ks cs)" "fill_ok C (cs' ! child_position (dx_inc_key C key) ks')"
      using split_child [OF C inc Suc.prems(1) [unfolded m(1)] Suc.prems(2) [unfolded m(1)] m(2) True] by metis
    then show ?thesis
      using down [OF s(3,5)] same_but_root_trans [OF s(2)] unfolding lands_def m(1) s(4) by metis
  next
    case False
    then show ?thesis using down [of t path pre ks cs post] Suc.prems(1) m by (simp add: fill_ok_def)
  qed
qed

section \<open>The root\<close>

lemma root_of_halves:
  assumes C: "cfg_ok C" and h: "halves C d None None n left k3 right"
  shows "tree_ok C (Suc d) None None (DIndex [k3] [left, right])" and "\<not> dx_has_overflow C (DIndex [k3] [left, right])"
    and "records_of (DIndex [k3] [left, right]) = records_of n"
proof -
  have "tree_ok C d (lo_of None [k3] i) (hi_of None [k3] i) ([left, right] ! i) \<and> \<not> dx_has_underflow C ([left, right] ! i)"
    if "i \<le> length [k3]" for i
    using h that by (cases i) (auto simp: halves_def fill_ok_def lo_of_def hi_of_def)
  then show "tree_ok C (Suc d) None None (DIndex [k3] [left, right])"
    using C h by (auto simp: cfg_ok_def seps_ok_def within_def halves_def simp del: One_nat_def)
  show "\<not> dx_has_overflow C (DIndex [k3] [left, right])" using C by (auto simp: has_overflow_iff cfg_ok_def)
  show "records_of (DIndex [k3] [left, right]) = records_of n" using h by (simp add: halves_def)
qed

lemma retrieve_root_internal_ok:
  assumes C: "cfg_ok C" "\<not> dx_gc C" and ok: "tree_ok C D None None (dt_root t)"
  shows "\<exists>t' b D'. retrieve_root_internal C t = Some (t', b) \<and> same_but_root t t' \<and> tree_ok C D' None None (dt_root t')
    \<and> \<not> dx_has_overflow C (dt_root t') \<and> records_of (dt_root t') = records_of (dt_root t)"
proof (cases "dx_has_overflow C (dt_root t)")
  case False
  then show ?thesis using ok by (auto simp: retrieve_root_internal_def same_but_root_def simp del: tree_ok.simps)
next
  case full: True
  have split: ?thesis
    if h: "halves C D None None (dt_root t) left k3 right"
      "retrieve_root_internal C t = Some ((count_blocks 2 t)\<lparr>dt_root := DIndex [k3] [left, right]\<rparr>, b)" for left k3 right b
    unfolding h(2) using root_of_halves [OF C(1) h(1)] same_but_root_set [of t "DIndex [k3] [left, right]" 2]
    by (intro exI [of _ "(count_blocks 2 t)\<lparr>dt_root := DIndex [k3] [left, right]\<rparr>"] exI [of _ b] exI [of _ "Suc D"])
      (simp del: tree_ok.simps)
  show ?thesis
  proof (cases "dt_root t")
    case (DLeaf rs)
    then have D: "D = 0" using ok by (cases D) auto
    obtain left k3 right where s: "split_leaf rs = Some (left, k3, right)" "halves C 0 None None (DLeaf rs) left k3 right"
      using split_leaf_halves [OF C(1)] ok full unfolding D DLeaf by blast
    show ?thesis
      by (rule split [of left k3 right False])
        (use s full DLeaf D split_records_normal [OF C(2), of t rs] in \<open>simp_all add: retrieve_root_internal_def\<close>)
  next
    case (DIndex ks cs)
    then obtain d where D: "D = Suc d" using ok by (cases D) auto
    obtain left k3 right where s: "split_index ks cs = Some (left, k3, right)" "halves C (Suc d) None None (DIndex ks cs) left k3 right"
      using split_index_halves [OF C(1)] ok full unfolding D DIndex by blast
    show ?thesis
      by (rule split [of left k3 right True]) (use s full DIndex D in \<open>simp_all add: retrieve_root_internal_def\<close>)
  qed
qed

lemma dx_retrieve_root_ok:
  assumes C: "cfg_ok C" "\<not> dx_gc C" and ok: "tree_ok C D None None (dt_root t)"
  shows "\<exists>t' D'. dx_retrieve_root C t = Some t' \<and> same_but_root t t' \<and> tree_ok C D' None None (dt_root t')
    \<and> \<not> dx_has_overflow C (dt_root t') \<and> records_of (dt_root t') = records_of (dt_root t)"
proof -
  obtain t' b D' where s: "retrieve_root_internal C t = Some (t', b)" "same_but_root t t'" "tree_ok C D' None None (dt_root t')"
      "\<not> dx_has_overflow C (dt_root t')" "records_of (dt_root t') = records_of (dt_root t)"
    using retrieve_root_internal_ok [OF assms] by metis
  have "retrieve_root_internal C t' = Some (t', True)" using s(4) by (simp add: retrieve_root_internal_def)
  then have "dx_retrieve_root C t' = Some t'" by (subst dx_retrieve_root.simps) simp
  then have "dx_retrieve_root C t = Some t'" by (subst dx_retrieve_root.simps) (simp add: s(1))
  then show ?thesis using s by blast
qed

lemma traversal_write_ok:
  assumes C: "cfg_ok C" "\<not> dx_gc C" and inc: "succ_law (dx_inc_key C) (dx_max_key C)" "key < dx_max_key C"
    and ok: "tree_ok C D None None (dt_root t)"
  shows "\<exists>D'. lands C D' key t (records_of (dt_root t)) (dx_traversal_write C t key)"
proof -
  obtain t' D' where s: "dx_retrieve_root C t = Some t'" "same_but_root t t'" "tree_ok C D' None None (dt_root t')"
      "\<not> dx_has_overflow C (dt_root t')" "records_of (dt_root t') = records_of (dt_root t)"
    using dx_retrieve_root_ok [OF C ok] by blast
  have "enters C D' key D' t' [] [] (dt_root t') []"
    unfolding enters_def using s(3) dx_focus_root [of C D' "dt_root t'"] by (auto simp: within_def)
  then have "lands C D' key t' ([] @ records_of (dt_root t') @ [])
      (write_descent C t' [] \<lparr>lower = dx_min_key C, upper = dx_max_key C\<rparr> (dx_inc_key C key))"
    by (rule write_descent_ok [OF C inc _ s(4)])
  then have "lands C D' key t (records_of (dt_root t)) (dx_traversal_write C t key)"
    using s(1,5) same_but_root_trans [OF s(2)] unfolding lands_def dx_traversal_write_def by fastforce
  then show ?thesis by blast
qed

section \<open>The descent of a reader\<close>

lemma read_descent_ok:
  assumes inc: "succ_law (dx_inc_key C) (dx_max_key C)" "key < dx_max_key C"
  shows "tree_ok C d lo hi m \<Longrightarrow> within lo hi key \<Longrightarrow> \<exists>pre rs post. read_descent (dx_inc_key C key) m = Some rs
    \<and> records_of m = pre @ rs @ post \<and> (\<forall>r \<in> set pre. vr_key r < key) \<and> (\<forall>r \<in> set post. key < vr_key r)"
proof (induction d arbitrary: lo hi m)
  case 0
  then obtain rs where "m = DLeaf rs" by auto
  then show ?case by (intro exI [of _ "[]"] exI [of _ rs]) auto
next
  case (Suc d)
  then obtain ks cs where n: "m = DIndex ks cs" and cs: "length cs = Suc (length ks)" and seps: "seps_ok lo hi ks"
    and mx: "\<forall>k \<in> set ks. k < dx_max_key C"
    and ch: "\<And>j. j \<le> length ks \<Longrightarrow> tree_ok C d (lo_of lo ks j) (hi_of hi ks j) (cs ! j)" by auto
  let ?i = "child_position (dx_inc_key C key) ks"
  note pos = child_position_within [OF inc(1) less_imp_le [OF inc(2)] mx seps Suc.prems(2)]
  obtain pre rs post where r: "read_descent (dx_inc_key C key) (cs ! ?i) = Some rs" "records_of (cs ! ?i) = pre @ rs @ post"
      "\<forall>r \<in> set pre. vr_key r < key" "\<forall>r \<in> set post. key < vr_key r"
    using Suc.IH [OF ch [OF pos(1)] pos(2)] by blast
  note apart = siblings_apart [OF Suc.prems(1) [unfolded n] pos]
  have "records_of m = (recs_before cs ?i @ pre) @ rs @ (post @ recs_after cs ?i)"
    using records_child [of ?i cs] pos(1) cs r(2) by (simp add: n)
  moreover have "read_descent (dx_inc_key C key) m = Some rs" using r(1) pos(1) cs by (simp add: n Let_def)
  moreover have "\<forall>q \<in> set (recs_before cs ?i @ pre). vr_key q < key" "\<forall>q \<in> set (post @ recs_after cs ?i). key < vr_key q"
    using apart r(3,4) by auto
  ultimately show ?case by blast
qed

end
