(* ===== verification/Dexa_Query.thy ===== *)
theory Dexa_Query
  imports Dexa_Tree
begin

text \<open>
  The operations of the version-list tree: the leaf-by-leaf range scan of
  \<^verbatim>\<open>dexa/mvb_crud_model/olc_query.rs\<close>, the scan and the callback of the weaving lists in
  \<^verbatim>\<open>dexa/mvb_version_index/v_weaver.rs\<close>, and \<^verbatim>\<open>dexa/mvb_crud_model/dispatch.rs\<close>, again for the locking
  strategy \<open>MonoWriter\<close>: every guard is valid, no latch is refused, and the loops go round only for
  what is written here. A reader's guard is the node itself. The state of an operation is the tree
  and the thread-local state of the caller's commit clock.
\<close>

datatype ('k, 'p) dx_operation =
    DxEmpty
  | DxInsert 'k 'p
  | DxUpdate 'k 'p
  | DxDelete 'k
  | DxPoint 'k version
  | DxPointSi 'k
  | DxPeekMin
  | DxPeekMax
  | DxPopMin
  | DxPopMax
  | DxRange "'k interval" version
  | DxRangeSi "'k interval"
  | DxUpdateRand
  | DxDeleteRand
  | DxInsertRand

datatype dx_reason = DxKeyAlreadyDeleted | DxKeyDoesNotExist | DxKeyAlreadyExists

datatype ('k, 'p) dx_result =
    DxMatchedRecords "('k \<times> 'p) list"
  | DxMatchedRecord "('k \<times> 'p) option"
  | DxInserted version
  | DxUpdated version
  | DxDeleted version
  | DxZeroAffected dx_reason
  | DxError

definition dx_is_read :: "('k, 'p) dx_operation \<Rightarrow> bool" where
  "dx_is_read operation = (case operation of DxInsert _ _ \<Rightarrow> False | DxDelete _ \<Rightarrow> False | DxUpdate _ _ \<Rightarrow> False | _ \<Rightarrow> True)"

definition dx_is_write :: "('k, 'p) dx_operation \<Rightarrow> bool" where
  "dx_is_write operation \<longleftrightarrow> \<not> dx_is_read operation"

section \<open>The walk to the leaf of a key\<close>

text \<open>
  The path: the nodes from the root with their key ranges. \<open>climb\<close> goes up from a position until the
  range contains the key; above the root the index wraps around and \<open>unwrap\<close> panics.
\<close>

type_synonym ('k, 'p) leaf_path = "('k interval \<times> ('k, 'p) dnode) list"

fun climb :: "('k::linorder, 'p) leaf_path \<Rightarrow> nat \<Rightarrow> 'k \<Rightarrow> nat option" where
  "climb path parent_index next_key =
     (if contains (fst (path ! parent_index)) next_key then Some parent_index
      else if parent_index = 0 then None
      else climb path (parent_index - 1) next_key)"

declare climb.simps [simp del]

definition child_interval :: "('k::linorder, 'p) dexa_cfg \<Rightarrow> 'k interval \<Rightarrow> 'k list \<Rightarrow> nat \<Rightarrow> 'k interval" where
  "child_interval C curr_interval ks pos =
     interval_new (if pos \<noteq> 0 \<and> pos - 1 < length ks then ks ! (pos - 1) else lower curr_interval)
       (if pos < length ks then dx_dec_key C (ks ! pos) else upper curr_interval)"

partial_function (option) next_leaf_page :: "('k::linorder, 'p) dexa_cfg \<Rightarrow> ('k, 'p) dnode \<Rightarrow> ('k, 'p) leaf_path \<Rightarrow> nat \<Rightarrow> 'k
    \<Rightarrow> ('k, 'p) leaf_path option" where
  [code]: "next_leaf_page C root path parent_index next_key =
     (let (path1, p1) = (if parent_index \<ge> length path then ([(interval_new (dx_min_key C) (dx_max_key C), root)], 0)
                         else (path, parent_index)) in
      case climb path1 p1 next_key of
        None \<Rightarrow> None
      | Some p \<Rightarrow>
          (case path1 ! p of
             (curr_interval, DLeaf rs) \<Rightarrow> Some (take (p + 1) path1)
           | (curr_interval, DIndex ks cs) \<Rightarrow>
               (let pos = child_position (dx_inc_key C next_key) ks in
                if pos < length cs then
                  next_leaf_page C root (take (p + 1) path1 @ (child_interval C curr_interval ks pos, cs ! pos) # drop (p + 1) path1)
                    (p + 1) next_key
                else None)))"

section \<open>The range scan\<close>

text \<open>\<open>partition_point\<close> of a slice that the predicate does partition, and the slice between two positions.\<close>

definition partition_point :: "('a \<Rightarrow> bool) \<Rightarrow> 'a list \<Rightarrow> usize" where
  "partition_point P xs = length (takeWhile P xs)"

definition records_in_range :: "'k::linorder interval \<Rightarrow> ('k, 'p) v_record list \<Rightarrow> ('k, 'p) v_record list option" where
  "records_in_range rng rs =
     (let start = partition_point (\<lambda>r. vr_key r < lower rng) rs;
          stop = partition_point (\<lambda>r. vr_key r \<le> upper rng) rs
      in if start \<le> stop then Some (take (stop - start) (drop start rs)) else None)"

text \<open>The \<open>filter_map\<close>: the records that have an entry at the version.\<close>

fun found_at :: "'p index_lib \<Rightarrow> ('k, 'p) weaver_heap \<Rightarrow> version \<Rightarrow> ('k, 'p) v_record list \<Rightarrow> ('k \<times> 'p) list option" where
  "found_at L h version [] = Some []"
| "found_at L h version (r # rs) = do {
     found \<leftarrow> vx_find L h (vr_index r) version;
     rest \<leftarrow> found_at L h version rs;
     Some (case found of Some e \<Rightarrow> (vr_key r, snd e) # rest | None \<Rightarrow> rest)
   }"

partial_function (option) range_query_leaf_results :: "('k::linorder, 'p) dexa_cfg \<Rightarrow> ('k, 'p) dexa_tree \<Rightarrow> ('k, 'p) leaf_path
    \<Rightarrow> 'k interval \<Rightarrow> version \<Rightarrow> (('k, 'p) leaf_path \<times> ('k \<times> 'p) list) option" where
  [code]: "range_query_leaf_results C t path key_interval version =
     (case rev path of
        [] \<Rightarrow> None
      | (fence, DLeaf rs) # _ \<Rightarrow> do {
          in_range \<leftarrow> records_in_range key_interval rs;
          result \<leftarrow> found_at (dx_lib C) (dt_heap t) version in_range;
          Some (path, result)
        }
      | (fence, DIndex ks cs) # up \<Rightarrow>
          Option.bind (next_leaf_page C (dt_root t) (rev up) (length up - 1) (lower key_interval))
            (\<lambda>path'. range_query_leaf_results C t path' key_interval version))"

partial_function (option) range_query_olc :: "('k::linorder, 'p) dexa_cfg \<Rightarrow> ('k, 'p) dexa_tree \<Rightarrow> ('k, 'p) leaf_path
    \<Rightarrow> 'k interval \<Rightarrow> version \<Rightarrow> ('k \<times> 'p) list \<Rightarrow> ('k \<times> 'p) list option" where
  [code]: "range_query_olc C t path key_interval version all_results =
     Option.bind (range_query_leaf_results C t path key_interval version) (\<lambda>(path1, local_results).
       let all_results = all_results @ local_results in
       if path1 = [] then None
       else if upper (fst (last path1)) = dx_max_key C then Some all_results
       else
         (let key_interval = set_lower key_interval (dx_inc_key C (upper (fst (last path1)))) in
          if lower key_interval > upper key_interval then Some all_results
          else Option.bind (next_leaf_page C (dt_root t) (butlast path1) (length (butlast path1) - 1) (lower key_interval))
            (\<lambda>path2. range_query_olc C t path2 key_interval version all_results)))"

section \<open>The weaving lists\<close>

text \<open>The loop over the nodes along \<open>k_ridgy\<close>; with the last key that was found.\<close>

partial_function (option) weaver_walk :: "('k::linorder, 'p) weaver_heap \<Rightarrow> 'k interval \<Rightarrow> version \<Rightarrow> nat option \<Rightarrow> 'k
    \<Rightarrow> ('k \<times> 'p) list \<Rightarrow> ('k \<times> ('k \<times> 'p) list) option" where
  [code]: "weaver_walk h rng version cursor last_key result =
     (case cursor of
        None \<Rightarrow> Some (last_key, result)
      | Some a \<Rightarrow>
          Option.bind (wn_load h a) (\<lambda>n.
            if wn_payload n = None then weaver_walk h rng version (wn_k_ridgy n) last_key result
            else if contains rng (wn_key n) then
              Option.bind (wl_find_from h a version False) (\<lambda>found.
                case found of
                  None \<Rightarrow> weaver_walk h rng version (wn_k_ridgy n) last_key result
                | Some b \<Rightarrow> Option.bind (wn_load h b) (\<lambda>m. Option.bind (wn_payload m) (\<lambda>p.
                    weaver_walk h rng version (wn_k_ridgy n) (wn_key m) (result @ [(wn_key m, p)]))))
            else Some (last_key, result)))"

fun first_weaver_node :: "('k, 'p) weaver_heap \<Rightarrow> version \<Rightarrow> ('k, 'p) v_record list \<Rightarrow> nat option option" where
  "first_weaver_node h version [] = Some None"
| "first_weaver_node h version (r # rs) = do {
     found \<leftarrow> find_weaver_node h (vr_index r) version;
     (case found of Some a \<Rightarrow> Some (Some a) | None \<Rightarrow> first_weaver_node h version rs)
   }"

partial_function (option) weaver_scan_dispatch :: "('k::linorder, 'p) dexa_cfg \<Rightarrow> ('k, 'p) dexa_tree \<Rightarrow> ('k, 'p) leaf_path \<Rightarrow> nat
    \<Rightarrow> 'k interval \<Rightarrow> version \<Rightarrow> ('k \<times> 'p) list \<Rightarrow> ('k \<times> 'p) list option" where
  [code]: "weaver_scan_dispatch C t path parent_index rng version result =
     Option.bind (next_leaf_page C (dt_root t) path parent_index (lower rng)) (\<lambda>path1.
       if path1 = [] then Some result
       else
         Option.bind (dn_records (snd (last path1))) (\<lambda>rs.
         Option.bind (records_in_range rng rs) (\<lambda>in_range.
         Option.bind (first_weaver_node (dt_heap t) version (dropWhile (\<lambda>r. \<not> contains rng (vr_key r)) in_range)) (\<lambda>start.
         Option.bind (case start of
             Some a \<Rightarrow> Option.bind (wn_load (dt_heap t) a) (\<lambda>n. weaver_walk (dt_heap t) rng version (Some a) (wn_key n) result)
           | None \<Rightarrow> Some (upper (fst (last path1)), result)) (\<lambda>(last_key, result').
         let rng' = set_lower rng (dx_inc_key C last_key) in
         if lower rng' > upper rng' \<or> lower rng' \<le> lower rng then Some result'
         else weaver_scan_dispatch C t (butlast path1) (length path1 - 2) rng' version result')))))"

text \<open>
  \<open>weaver_callback\<close>: the node that the write has superseded is linked to the node of the next key,
  unless it has a link. The next key is looked for in the leaf, then in the leaf of the key's successor.
\<close>

definition set_k_ridgy :: "nat \<Rightarrow> nat option \<Rightarrow> ('k, 'p) dexa_tree \<Rightarrow> ('k, 'p) dexa_tree" where
  "set_k_ridgy a k t = t\<lparr>dt_heap := (dt_heap t)[a := (dt_heap t ! a)\<lparr>wn_k_ridgy := k\<rparr>]\<rparr>"

definition weaver_next :: "('k::linorder, 'p) dexa_cfg \<Rightarrow> ('k, 'p) dexa_tree \<Rightarrow> ('k, 'p) v_record list \<Rightarrow> nat \<Rightarrow> 'k \<Rightarrow> version
    \<Rightarrow> nat option option" where
  "weaver_next C t rs i from_key from_version =
     (if i + 1 < length rs then find_weaver_node_or_tombstone (dt_heap t) (vr_index (rs ! (i + 1))) from_version
      else do {
        path \<leftarrow> next_leaf_page C (dt_root t) [] 0 (dx_inc_key C from_key);
        next_leaf \<leftarrow> if path = [] then None else dn_records (snd (last path));
        (case List.find (\<lambda>r. vr_key r > from_key) next_leaf of
           Some r \<Rightarrow> find_weaver_node_or_tombstone (dt_heap t) (vr_index r) from_version
         | None \<Rightarrow> Some None)
      })"

definition weaver_callback :: "('k::linorder, 'p) dexa_cfg \<Rightarrow> ('k, 'p) dexa_tree \<Rightarrow> nat list \<Rightarrow> 'k \<Rightarrow> version
    \<Rightarrow> ('k, 'p) dexa_tree option" where
  "weaver_callback C t path from_key from_version = do {
     n \<leftarrow> node_at (dt_root t) path;
     rs \<leftarrow> dn_records n;
     i \<leftarrow> (case binary_search_by_key vr_key from_key rs of Inr i \<Rightarrow> Some i | Inl _ \<Rightarrow> None);
     found \<leftarrow> find_weaver_node_or_tombstone (dt_heap t) (vr_index (rs ! i)) from_version;
     current \<leftarrow> found;
     node \<leftarrow> wn_load (dt_heap t) current;
     (case wn_next node of
        None \<Rightarrow> Some t
      | Some superseded \<Rightarrow> do {
          old \<leftarrow> wn_load (dt_heap t) superseded;
          if wn_k_ridgy old \<noteq> None then Some t
          else do {
            nxt \<leftarrow> weaver_next C t rs i from_key from_version;
            Some (case nxt of Some k \<Rightarrow> set_k_ridgy superseded (Some k) t | None \<Rightarrow> t)
          }
        })
   }"

section \<open>The dispatch\<close>

type_synonym ('k, 'p) dx_outcome = "(('k, 'p) dexa_tree \<times> thread_state \<times> ('k, 'p) dx_result) option"

definition dx_toss :: "('k, 'p) dexa_cfg \<Rightarrow> ('k, 'p) dexa_tree \<Rightarrow> bool" where
  "dx_toss C t = dx_coin C (dt_coins t)"

definition dx_start_tx_commit :: "('k, 'p) dexa_tree \<Rightarrow> thread_state \<Rightarrow> ('k, 'p) dexa_tree \<times> thread_state \<times> version" where
  "dx_start_tx_commit t ts = (let (m, ts', v) = start_commit (dt_clock t) ts in (t\<lparr>dt_clock := m\<rparr>, ts', v))"

definition dx_end_tx_commit :: "('k, 'p) dexa_tree \<Rightarrow> thread_state \<Rightarrow> version \<Rightarrow> ('k, 'p) dexa_tree" where
  "dx_end_tx_commit t ts v = t\<lparr>dt_clock := end_commit (dt_clock t) ts v\<rparr>"

text \<open>The heap and the page after a write through the guard at \<open>path\<close>.\<close>

definition write_back :: "('k, 'p) dexa_tree \<Rightarrow> nat list \<Rightarrow> ('k, 'p) weaver_heap \<Rightarrow> ('k, 'p) dnode \<Rightarrow> ('k, 'p) dexa_tree option" where
  "write_back t path h n = set_node (t\<lparr>dt_heap := h, dt_coins := dt_coins t + 1\<rparr>) path n"

definition on_modified :: "('k::linorder, 'p) dexa_cfg \<Rightarrow> ('k, 'p) dexa_tree \<Rightarrow> nat list \<Rightarrow> 'k \<Rightarrow> version \<Rightarrow> ('k, 'p) dexa_tree option" where
  "on_modified C t path key version = (if is_v_weaver (dx_kind C) then weaver_callback C t path key version else Some t)"

definition dx_delete :: "('k::linorder, 'p) dexa_cfg \<Rightarrow> ('k, 'p) dexa_tree \<Rightarrow> thread_state \<Rightarrow> 'k \<Rightarrow> ('k, 'p) dx_outcome" where
  "dx_delete C t ts key = do {
     (t1, path) \<leftarrow> dx_traversal_write C t key;
     let (t2, ts', del_version) = dx_start_tx_commit t1 ts;
     n \<leftarrow> node_at (dt_root t2) path;
     (h, n', done) \<leftarrow> delete_key (dx_lib C) (dx_toss C t2) key del_version (dt_heap t2) n;
     t3 \<leftarrow> write_back t2 path h n';
     (t4, ret) \<leftarrow> (case done of
         Inr (Some _) \<Rightarrow> map_option (\<lambda>t4. (t4, DxDeleted del_version)) (on_modified C t3 path key del_version)
       | Inr None \<Rightarrow> Some (t3, DxZeroAffected DxKeyDoesNotExist)
       | Inl _ \<Rightarrow> Some (t3, DxZeroAffected DxKeyAlreadyDeleted));
     Some (dx_end_tx_commit t4 ts' del_version, ts', ret)
   }"

definition dx_insert :: "('k::linorder, 'p) dexa_cfg \<Rightarrow> ('k, 'p) dexa_tree \<Rightarrow> thread_state \<Rightarrow> 'k \<Rightarrow> 'p \<Rightarrow> ('k, 'p) dx_outcome" where
  "dx_insert C t ts key payload = do {
     (t1, path) \<leftarrow> dx_traversal_write C t key;
     let (t2, ts', ingest_version) = dx_start_tx_commit t1 ts;
     n \<leftarrow> node_at (dt_root t2) path;
     (h, n', done) \<leftarrow> push_record_point (dx_lib C) (dx_toss C t2) (dx_num_records C) key payload ingest_version (dx_kind C) (dt_heap t2) n;
     t3 \<leftarrow> write_back t2 path h n';
     (t4, ret) \<leftarrow> (if done
       then map_option (\<lambda>t4. (t4, DxInserted ingest_version)) (on_modified C t3 path key ingest_version)
       else Some (t3, DxError));
     Some (dx_end_tx_commit t4 ts' ingest_version, ts', ret)
   }"

definition dx_update :: "('k::linorder, 'p) dexa_cfg \<Rightarrow> ('k, 'p) dexa_tree \<Rightarrow> thread_state \<Rightarrow> 'k \<Rightarrow> 'p \<Rightarrow> ('k, 'p) dx_outcome" where
  "dx_update C t ts key payload = do {
     (t1, path) \<leftarrow> dx_traversal_write C t key;
     let (t2, ts', update_version) = dx_start_tx_commit t1 ts;
     n \<leftarrow> node_at (dt_root t2) path;
     (h, n', done) \<leftarrow> update_record_point (dx_lib C) (dx_toss C t2) key payload update_version (dt_heap t2) n;
     t3 \<leftarrow> write_back t2 path h n';
     (t4, ret) \<leftarrow> (case done of
         Inr (Some _) \<Rightarrow> map_option (\<lambda>t4. (t4, DxUpdated update_version)) (on_modified C t3 path key update_version)
       | Inr None \<Rightarrow> Some (t3, DxZeroAffected DxKeyDoesNotExist)
       | Inl _ \<Rightarrow> Some (t3, DxError));
     Some (dx_end_tx_commit t4 ts' update_version, ts', ret)
   }"

text \<open>
  \<open>Point\<close>: \<open>unwrap_or_default\<close> stands inside the \<open>map\<close> over the search result, so a record without an
  entry at the version is answered with the default record.
\<close>

definition dx_point :: "('k::linorder, 'p) dexa_cfg \<Rightarrow> ('k, 'p) dexa_tree \<Rightarrow> 'k \<Rightarrow> version \<Rightarrow> ('k, 'p) dx_result option" where
  "dx_point C t key version = do {
     rs \<leftarrow> dx_traversal_read C t key;
     (case binary_search_by_key vr_key key rs of
        Inl _ \<Rightarrow> Some (DxMatchedRecord None)
      | Inr pos \<Rightarrow> do {
          found \<leftarrow> vx_find (dx_lib C) (dt_heap t) (vr_index (rs ! pos)) version;
          Some (DxMatchedRecord (Some (case found of Some e \<Rightarrow> (key, snd e) | None \<Rightarrow> dx_default C)))
        })
   }"

definition dx_range :: "('k::linorder, 'p) dexa_cfg \<Rightarrow> ('k, 'p) dexa_tree \<Rightarrow> 'k interval \<Rightarrow> version \<Rightarrow> ('k, 'p) dx_result option" where
  "dx_range C t key_interval version =
     map_option DxMatchedRecords
       (if is_v_weaver (dx_kind C) then weaver_scan_dispatch C t [] 0 key_interval version []
        else do {
          path \<leftarrow> next_leaf_page C (dt_root t) [] 0 (lower key_interval);
          range_query_olc C t path key_interval version []
        })"

text \<open>The newest entry of a record if it is live.\<close>

definition peek_record :: "('k, 'p) dexa_cfg \<Rightarrow> ('k, 'p) dexa_tree \<Rightarrow> ('k, 'p) v_record option \<Rightarrow> ('k \<times> 'p) option option" where
  "peek_record C t rec =
     (case rec of
        None \<Rightarrow> Some None
      | Some r \<Rightarrow> do {
          alive \<leftarrow> vx_is_live (dx_lib C) (dt_heap t) (vr_index r);
          if alive then map_option (\<lambda>p. Some (vr_key r, p)) (vx_newest_payload (dx_lib C) (dt_heap t) (vr_index r))
          else Some None
        })"

definition dx_peek_min :: "('k::linorder, 'p) dexa_cfg \<Rightarrow> ('k, 'p) dexa_tree \<Rightarrow> ('k, 'p) dx_result option" where
  "dx_peek_min C t = do {
     rs \<leftarrow> dx_traversal_read C t (dx_min_key C);
     map_option DxMatchedRecord (peek_record C t (case rs of [] \<Rightarrow> None | r # _ \<Rightarrow> Some r))
   }"

definition dx_peek_max :: "('k::linorder, 'p) dexa_cfg \<Rightarrow> ('k, 'p) dexa_tree \<Rightarrow> ('k, 'p) dx_result option" where
  "dx_peek_max C t = do {
     rs \<leftarrow> dx_traversal_read C t (dx_max_key C);
     map_option DxMatchedRecord (peek_record C t (if rs = [] then None else Some (last rs)))
   }"

text \<open>\<open>PopMin\<close> and \<open>PopMax\<close> after the descent; they do not call back.\<close>

definition dx_pop_at :: "('k, 'p) dexa_cfg \<Rightarrow> ('k, 'p) dexa_tree \<Rightarrow> thread_state \<Rightarrow> nat list \<Rightarrow> ('k, 'p) v_record list \<Rightarrow> nat
    \<Rightarrow> ('k, 'p) dx_outcome" where
  "dx_pop_at C t ts path rs pos =
     (if rs = [] then Some (t, ts, DxError)
      else do {
        alive \<leftarrow> vx_is_live (dx_lib C) (dt_heap t) (vr_index (rs ! pos));
        if \<not> alive then Some (t, ts, DxError)
        else do {
          p \<leftarrow> vx_newest_payload (dx_lib C) (dt_heap t) (vr_index (rs ! pos));
          let (t1, ts', del_version) = dx_start_tx_commit t ts;
          (h, idx) \<leftarrow> vx_delete (dx_lib C) (dx_toss C t1) del_version (dt_heap t1) (vr_index (rs ! pos));
          t2 \<leftarrow> write_back t1 path h (DLeaf (rs[pos := (rs ! pos)\<lparr>vr_index := idx\<rparr>]));
          Some (dx_end_tx_commit t2 ts' del_version, ts', DxMatchedRecord (Some (vr_key (rs ! pos), p)))
        }
      })"

definition dx_pop_min :: "('k::linorder, 'p) dexa_cfg \<Rightarrow> ('k, 'p) dexa_tree \<Rightarrow> thread_state \<Rightarrow> ('k, 'p) dx_outcome" where
  "dx_pop_min C t ts = do {
     (t1, path) \<leftarrow> dx_traversal_write C t (dx_min_key C);
     n \<leftarrow> node_at (dt_root t1) path;
     rs \<leftarrow> dn_records n;
     dx_pop_at C t1 ts path rs 0
   }"

definition dx_pop_max :: "('k::linorder, 'p) dexa_cfg \<Rightarrow> ('k, 'p) dexa_tree \<Rightarrow> thread_state \<Rightarrow> ('k, 'p) dx_outcome" where
  "dx_pop_max C t ts = do {
     (t1, path) \<leftarrow> dx_traversal_write C t (dx_max_key C);
     n \<leftarrow> node_at (dt_root t1) path;
     rs \<leftarrow> dn_records n;
     dx_pop_at C t1 ts path rs (length rs - 1)
   }"

definition dx_reader_version :: "('k, 'p) dexa_tree \<Rightarrow> thread_state \<Rightarrow> ('k, 'p) dexa_tree \<times> thread_state \<times> version" where
  "dx_reader_version t ts = (let (m, ts', v) = current_version_for_reader (dt_clock t) ts in (t\<lparr>dt_clock := m\<rparr>, ts', v))"

fun dx_dispatch :: "('k::linorder, 'p) dexa_cfg \<Rightarrow> ('k, 'p) dexa_tree \<Rightarrow> thread_state \<Rightarrow> ('k, 'p) dx_operation \<Rightarrow> ('k, 'p) dx_outcome" where
  "dx_dispatch C t ts (DxDelete key) = dx_delete C t ts key"
| "dx_dispatch C t ts (DxInsert key payload) = dx_insert C t ts key payload"
| "dx_dispatch C t ts (DxUpdate key payload) = dx_update C t ts key payload"
| "dx_dispatch C t ts (DxPoint key version) = map_option (\<lambda>r. (t, ts, r)) (dx_point C t key version)"
| "dx_dispatch C t ts (DxPointSi key) =
     (let (t', ts', version) = dx_reader_version t ts in map_option (\<lambda>r. (t', ts', r)) (dx_point C t' key version))"
| "dx_dispatch C t ts (DxRange key_interval version) = map_option (\<lambda>r. (t, ts, r)) (dx_range C t key_interval version)"
| "dx_dispatch C t ts (DxRangeSi key_interval) =
     (let (t', ts', version) = dx_reader_version t ts in map_option (\<lambda>r. (t', ts', r)) (dx_range C t' key_interval version))"
| "dx_dispatch C t ts DxPeekMin = map_option (\<lambda>r. (t, ts, r)) (dx_peek_min C t)"
| "dx_dispatch C t ts DxPeekMax = map_option (\<lambda>r. (t, ts, r)) (dx_peek_max C t)"
| "dx_dispatch C t ts DxPopMin = dx_pop_min C t ts"
| "dx_dispatch C t ts DxPopMax = dx_pop_max C t ts"
| "dx_dispatch C t ts DxEmpty = Some (t, ts, DxError)"
| "dx_dispatch C t ts DxUpdateRand = None"
| "dx_dispatch C t ts DxDeleteRand = None"
| "dx_dispatch C t ts DxInsertRand = None"

text \<open>One operation after the other, all in one thread.\<close>

fun dx_run :: "('k::linorder, 'p) dexa_cfg \<Rightarrow> ('k, 'p) dx_operation list \<Rightarrow> ('k, 'p) dexa_tree \<Rightarrow> thread_state
    \<Rightarrow> (('k, 'p) dexa_tree \<times> thread_state \<times> ('k, 'p) dx_result list) option" where
  "dx_run C [] t ts = Some (t, ts, [])"
| "dx_run C (x # xs) t ts = do {
     (t1, ts1, r) \<leftarrow> dx_dispatch C t ts x;
     (t2, ts2, rs) \<leftarrow> dx_run C xs t1 ts1;
     Some (t2, ts2, r # rs)
   }"

end
