(* ===== verification/Dexa_Scan.thy ===== *)
theory Dexa_Scan
  imports Dexa_Correct Dexa_Query
begin

text \<open>
  The walks from leaf to leaf. \<open>chain\<close> is the path that a fresh descent to a key builds; a walk that
  starts from the path of another key climbs to a common node and arrives at the same path. So a
  range scan sees, leaf by leaf, the records of the tree that are in its range.
\<close>

section \<open>Fences\<close>

definition pred_law :: "('k::linorder \<Rightarrow> 'k) \<Rightarrow> 'k \<Rightarrow> bool" where
  "pred_law dec mn \<longleftrightarrow> (\<forall>k > mn. \<forall>j. j \<le> dec k \<longleftrightarrow> j < k)"

definition scan_laws :: "('k::linorder, 'p) dexa_cfg \<Rightarrow> bool" where
  "scan_laws C \<longleftrightarrow> succ_law (dx_inc_key C) (dx_max_key C) \<and> pred_law (dx_dec_key C) (dx_min_key C) \<and> (\<forall>k. dx_min_key C \<le> k)"

text \<open>An inclusive key range that stands for two bounds.\<close>

definition fence_ok :: "('k::linorder, 'p) dexa_cfg \<Rightarrow> 'k option \<Rightarrow> 'k option \<Rightarrow> 'k interval \<Rightarrow> bool" where
  "fence_ok C lo hi iv \<longleftrightarrow> lower iv = (case lo of None \<Rightarrow> dx_min_key C | Some l \<Rightarrow> l)
     \<and> upper iv = (case hi of None \<Rightarrow> dx_max_key C | Some u \<Rightarrow> dx_dec_key C u) \<and> (\<forall>u. hi = Some u \<longrightarrow> u < dx_max_key C)"

definition root_fence :: "('k::linorder, 'p) dexa_cfg \<Rightarrow> 'k interval" where
  "root_fence C = interval_new (dx_min_key C) (dx_max_key C)"

lemma fence_ok_root: "fence_ok C None None (root_fence C)"
  by (simp add: fence_ok_def root_fence_def)

lemma fence_ok_child:
  assumes "fence_ok C lo hi iv" and "\<forall>k \<in> set ks. k < dx_max_key C" and "i \<le> length ks"
  shows "fence_ok C (lo_of lo ks i) (hi_of hi ks i) (child_interval C iv ks i)"
  using assms by (auto simp: fence_ok_def child_interval_def lo_of_def hi_of_def)

text \<open>The range contains the keys between the bounds, when there is one at all.\<close>

lemma fence_contains:
  assumes laws: "scan_laws C" and f: "fence_ok C lo hi iv" and k: "k \<le> dx_max_key C" and there: "within lo hi j"
  shows "contains iv k \<longleftrightarrow> within lo hi k"
proof -
  have "k \<le> dx_dec_key C u \<longleftrightarrow> k < u" if "hi = Some u" for u
  proof -
    have "dx_min_key C < u" using laws there that by (auto simp: scan_laws_def within_def intro: le_less_trans)
    then show ?thesis using laws by (auto simp: scan_laws_def pred_law_def)
  qed
  then show ?thesis
    using f k laws by (auto simp: contains_def fence_ok_def within_def scan_laws_def split: option.splits)
qed

section \<open>The path of a key\<close>

function chain :: "('k::linorder, 'p) dexa_cfg \<Rightarrow> 'k \<Rightarrow> 'k interval \<Rightarrow> ('k, 'p) dnode \<Rightarrow> ('k, 'p) leaf_path" where
  "chain C key iv (DLeaf rs) = [(iv, DLeaf rs)]"
| "chain C key iv (DIndex ks cs) = (iv, DIndex ks cs) #
     (let i = child_position (dx_inc_key C key) ks
      in if i < length cs then chain C key (child_interval C iv ks i) (cs ! i) else [])"
  by pat_completeness auto
termination
  by (relation "measure (size \<circ> snd \<circ> snd \<circ> snd)") (use size_child in auto)

lemma chain_head: "chain C key iv n = (iv, n) # tl (chain C key iv n)"
  by (cases n) simp_all

lemma chain_ne [simp]: "chain C key iv n \<noteq> []"
  by (cases n) simp_all

text \<open>The child that a descent takes in a well-formed node.\<close>

lemma chain_step:
  assumes laws: "scan_laws C" and ok: "tree_ok C (Suc d) lo hi n" and f: "fence_ok C lo hi iv"
    and key: "within lo hi key" "key \<le> dx_max_key C"
  obtains ks cs i where "n = DIndex ks cs" and "i = child_position (dx_inc_key C key) ks" and "i < length cs" and "i \<le> length ks"
    and "chain C key iv n = (iv, n) # chain C key (child_interval C iv ks i) (cs ! i)"
    and "tree_ok C d (lo_of lo ks i) (hi_of hi ks i) (cs ! i)" and "fence_ok C (lo_of lo ks i) (hi_of hi ks i) (child_interval C iv ks i)"
    and "within (lo_of lo ks i) (hi_of hi ks i) key" and "seps_ok lo hi ks"
proof -
  obtain ks cs where n: "n = DIndex ks cs" "length cs = Suc (length ks)" "seps_ok lo hi ks" "\<forall>k \<in> set ks. k < dx_max_key C"
      "\<forall>i \<le> length ks. tree_ok C d (lo_of lo ks i) (hi_of hi ks i) (cs ! i)" using ok by auto
  have inc: "succ_law (dx_inc_key C) (dx_max_key C)" using laws by (simp add: scan_laws_def)
  note pos = child_position_within [OF inc key(2) n(4,3) key(1)]
  show ?thesis
    using that [of ks cs "child_position (dx_inc_key C key) ks"] n pos fence_ok_child [OF f n(4) pos(1)] by (simp add: Let_def)
qed

lemma chain_contains:
  assumes laws: "scan_laws C"
  shows "tree_ok C d lo hi n \<Longrightarrow> fence_ok C lo hi iv \<Longrightarrow> within lo hi key \<Longrightarrow> key \<le> dx_max_key C
    \<Longrightarrow> p < length (chain C key iv n) \<Longrightarrow> contains (fst (chain C key iv n ! p)) key"
proof (induction d arbitrary: lo hi n iv p)
  case 0
  then show ?case using fence_contains [OF laws 0(2,4,3)] by auto
next
  case (Suc d)
  show ?case
  proof (cases p)
    case 0
    then show ?thesis using fence_contains [OF laws Suc.prems(2,4,3)] Suc.prems(3) chain_head [of C key iv n] by (metis fst_conv nth_Cons_0)
  next
    case (Suc q)
    obtain ks cs i where s: "chain C key iv n = (iv, n) # chain C key (child_interval C iv ks i) (cs ! i)"
        "tree_ok C d (lo_of lo ks i) (hi_of hi ks i) (cs ! i)" "fence_ok C (lo_of lo ks i) (hi_of hi ks i) (child_interval C iv ks i)"
        "within (lo_of lo ks i) (hi_of hi ks i) key"
      using chain_step [OF laws Suc.prems(1,2,3,4)] by metis
    then show ?thesis using Suc.IH [OF s(2-4) Suc.prems(4), of q] Suc.prems(5) Suc by simp
  qed
qed

text \<open>The nodes of a path follow one another.\<close>

lemma chain_next:
  assumes laws: "scan_laws C"
  shows "tree_ok C d lo hi n \<Longrightarrow> fence_ok C lo hi iv \<Longrightarrow> within lo hi key \<Longrightarrow> key \<le> dx_max_key C
    \<Longrightarrow> p < length (chain C key iv n) \<Longrightarrow>
      (\<exists>f rs. chain C key iv n ! p = (f, DLeaf rs) \<and> length (chain C key iv n) = Suc p)
      \<or> (\<exists>f ks cs. chain C key iv n ! p = (f, DIndex ks cs) \<and> child_position (dx_inc_key C key) ks < length cs
        \<and> Suc p < length (chain C key iv n) \<and> chain C key iv n ! Suc p =
          (child_interval C f ks (child_position (dx_inc_key C key) ks), cs ! child_position (dx_inc_key C key) ks))"
proof (induction d arbitrary: lo hi n iv p)
  case 0
  then show ?case by auto
next
  case (Suc d)
  obtain ks cs i where s: "n = DIndex ks cs" "i = child_position (dx_inc_key C key) ks" "i < length cs"
      "chain C key iv n = (iv, n) # chain C key (child_interval C iv ks i) (cs ! i)"
      "tree_ok C d (lo_of lo ks i) (hi_of hi ks i) (cs ! i)" "fence_ok C (lo_of lo ks i) (hi_of hi ks i) (child_interval C iv ks i)"
      "within (lo_of lo ks i) (hi_of hi ks i) key"
    using chain_step [OF laws Suc.prems(1,2,3,4)] by metis
  show ?case
  proof (cases p)
    case 0
    have "chain C key (child_interval C iv ks i) (cs ! i) ! 0 = (child_interval C iv ks i, cs ! i)"
      by (metis chain_head nth_Cons_0)
    then show ?thesis unfolding s(4) using 0 s(1,2,3) by simp
  next
    case (Suc q)
    then show ?thesis unfolding s(4) using Suc.IH [OF s(5-7) Suc.prems(4), of q] Suc.prems(5) s(4) by simp
  qed
qed

text \<open>A node of the path of one key that contains another key is on the path of the other key.\<close>

lemma chain_within:
  assumes laws: "scan_laws C"
  shows "tree_ok C d lo hi n \<Longrightarrow> fence_ok C lo hi iv \<Longrightarrow> within lo hi k0 \<Longrightarrow> k0 \<le> dx_max_key C \<Longrightarrow> key \<le> dx_max_key C
    \<Longrightarrow> p < length (chain C k0 iv n) \<Longrightarrow> contains (fst (chain C k0 iv n ! p)) key \<Longrightarrow> within lo hi key"
proof (induction d arbitrary: lo hi n iv p)
  case 0
  then show ?case using fence_contains [OF laws 0(2,5,3)] by auto
next
  case (Suc d)
  show ?case
  proof (cases p)
    case 0
    then show ?thesis using fence_contains [OF laws Suc.prems(2,5,3)] Suc.prems(7) chain_head [of C k0 iv n] by (metis fst_conv nth_Cons_0)
  next
    case (Suc q)
    obtain ks cs i where s: "chain C k0 iv n = (iv, n) # chain C k0 (child_interval C iv ks i) (cs ! i)"
        "tree_ok C d (lo_of lo ks i) (hi_of hi ks i) (cs ! i)" "fence_ok C (lo_of lo ks i) (hi_of hi ks i) (child_interval C iv ks i)"
        "within (lo_of lo ks i) (hi_of hi ks i) k0" "seps_ok lo hi ks" "i \<le> length ks"
      using chain_step [OF laws Suc.prems(1,2,3,4)] by metis
    have "within (lo_of lo ks i) (hi_of hi ks i) key"
      using Suc.IH [OF s(2-4) Suc.prems(4,5), of q] Suc.prems(6,7) Suc s(1) by simp
    then show ?thesis by (rule within_child [OF s(5,6)])
  qed
qed

lemma chain_prefix:
  assumes laws: "scan_laws C"
  shows "tree_ok C d lo hi n \<Longrightarrow> fence_ok C lo hi iv \<Longrightarrow> within lo hi k0 \<Longrightarrow> k0 \<le> dx_max_key C \<Longrightarrow> key \<le> dx_max_key C
    \<Longrightarrow> p < length (chain C k0 iv n) \<Longrightarrow> contains (fst (chain C k0 iv n ! p)) key
    \<Longrightarrow> p < length (chain C key iv n) \<and> take (Suc p) (chain C key iv n) = take (Suc p) (chain C k0 iv n)"
proof (induction d arbitrary: lo hi n iv p)
  case 0
  then show ?case by auto
next
  case (Suc d)
  have key: "within lo hi key" by (rule chain_within [OF laws Suc.prems])
  obtain ks cs i where s: "n = DIndex ks cs" "chain C k0 iv n = (iv, n) # chain C k0 (child_interval C iv ks i) (cs ! i)"
      "tree_ok C d (lo_of lo ks i) (hi_of hi ks i) (cs ! i)" "fence_ok C (lo_of lo ks i) (hi_of hi ks i) (child_interval C iv ks i)"
      "within (lo_of lo ks i) (hi_of hi ks i) k0" "seps_ok lo hi ks" "i \<le> length ks"
    using chain_step [OF laws Suc.prems(1,2,3,4)] by metis
  obtain ks' cs' j where t: "n = DIndex ks' cs'" "chain C key iv n = (iv, n) # chain C key (child_interval C iv ks' j) (cs' ! j)"
      "within (lo_of lo ks' j) (hi_of hi ks' j) key" "j \<le> length ks'"
    using chain_step [OF laws Suc.prems(1,2) key Suc.prems(5)] by metis
  have same: "ks' = ks" "cs' = cs" using s(1) t(1) by auto
  show ?case
  proof (cases p)
    case 0
    then show ?thesis unfolding s(2) t(2) by simp
  next
    case (Suc q)
    have q: "q < length (chain C k0 (child_interval C iv ks i) (cs ! i))"
        "contains (fst (chain C k0 (child_interval C iv ks i) (cs ! i) ! q)) key"
      using Suc.prems(6,7) Suc s(2) by simp_all
    have "within (lo_of lo ks i) (hi_of hi ks i) key"
      by (rule chain_within [OF laws s(3-5) Suc.prems(4,5) q])
    then have "j = i" using child_unique [OF s(6) t(4) [unfolded same] s(7) t(3) [unfolded same]] by simp
    then show ?thesis unfolding s(2) t(2) same using Suc.IH [OF s(3-5) Suc.prems(4,5) q] Suc by simp
  qed
qed

section \<open>The walk\<close>

lemma climb_root:
  "contains (fst (path ! 0)) key \<Longrightarrow> \<exists>q \<le> p. climb path p key = Some q \<and> contains (fst (path ! q)) key"
proof (induction p)
  case (Suc p)
  then obtain q where "q \<le> p" "climb path p key = Some q" "contains (fst (path ! q)) key" by blast
  then show ?case by (subst climb.simps) (auto intro: le_SucI)
qed (simp add: climb.simps)

lemma climb_here: "contains (fst (path ! p)) key \<Longrightarrow> climb path p key = Some p"
  by (simp add: climb.simps)

lemma take_Suc_eq: "take (Suc p) xs = take (Suc p) ys \<Longrightarrow> p < length xs \<Longrightarrow> p < length ys \<Longrightarrow> xs ! p = ys ! p"
  by (metis lessI nth_take)

text \<open>From a prefix of the path of a key the walk arrives at the path.\<close>

lemma next_leaf_descends:
  fixes C :: "('k::linorder, 'p) dexa_cfg"
  assumes laws: "scan_laws C" and ok: "tree_ok C D None None root" and key: "key \<le> dx_max_key C"
  shows "p < length path \<Longrightarrow> p < length (chain C key (root_fence C) root)
    \<Longrightarrow> take (Suc p) path = take (Suc p) (chain C key (root_fence C) root)
    \<Longrightarrow> next_leaf_page C root path p key = Some (chain C key (root_fence C) root)"
proof (induction "length (chain C key (root_fence C) root) - p" arbitrary: p path rule: less_induct)
  case less
  let ?c = "chain C key (root_fence C) root"
  have w: "within None None key" by (simp add: within_def)
  have here: "path ! p = ?c ! p" using take_Suc_eq less.prems by metis
  have cl: "climb path p key = Some p"
    using chain_contains [OF laws ok fence_ok_root w key less.prems(2)] here by (simp add: climb_here)
  from chain_next [OF laws ok fence_ok_root w key less.prems(2)]
  consider (leaf) f rs where "?c ! p = (f, DLeaf rs)" "length ?c = Suc p"
    | (index) f ks cs where "?c ! p = (f, DIndex ks cs)" "child_position (dx_inc_key C key) ks < length cs" "Suc p < length ?c"
        "?c ! Suc p = (child_interval C f ks (child_position (dx_inc_key C key) ks), cs ! child_position (dx_inc_key C key) ks)"
    by blast
  then show ?case
  proof cases
    case leaf
    then show ?thesis
      by (subst next_leaf_page.simps) (use less.prems cl here in \<open>simp add: Let_def\<close>)
  next
    case index
    let ?path = "take (p + 1) path @ ?c ! Suc p # drop (p + 1) path"
    have "next_leaf_page C root path p key = next_leaf_page C root ?path (p + 1) key"
      by (subst next_leaf_page.simps) (use less.prems cl here index in \<open>simp add: Let_def\<close>)
    moreover have "take (Suc (p + 1)) ?path = take (Suc (p + 1)) ?c"
      using less.prems(1,3) index(3) by (simp add: take_Suc_conv_app_nth [of "Suc p"])
    ultimately show ?thesis
      using less.hyps [of "p + 1" ?path] less.prems(1) index(3) by simp
  qed
qed

lemma next_leaf_fresh:
  fixes C :: "('k::linorder, 'p) dexa_cfg"
  assumes laws: "scan_laws C" and ok: "tree_ok C D None None root" and key: "key \<le> dx_max_key C" and out: "length path \<le> p"
  shows "next_leaf_page C root path p key = Some (chain C key (root_fence C) root)"
proof -
  let ?c = "chain C key (root_fence C) root"
  have c: "take 1 ?c = [(root_fence C, root)]" by (subst chain_head) simp
  have "next_leaf_page C root path p key = next_leaf_page C root [(root_fence C, root)] 0 key"
    by (subst (1 2) next_leaf_page.simps) (simp add: out root_fence_def)
  then show ?thesis using next_leaf_descends [OF laws ok key, of 0 "[(root_fence C, root)]"] c by simp
qed

lemma next_leaf_climbs:
  fixes C :: "('k::linorder, 'p) dexa_cfg"
  assumes laws: "scan_laws C" and ok: "tree_ok C D None None root" and key: "key \<le> dx_max_key C" and k0: "k0 \<le> dx_max_key C"
  shows "next_leaf_page C root (butlast (chain C k0 (root_fence C) root)) (length (butlast (chain C k0 (root_fence C) root)) - 1) key
    = Some (chain C key (root_fence C) root)"
proof -
  let ?c = "chain C k0 (root_fence C) root" and ?b = "butlast (chain C k0 (root_fence C) root)"
  show ?thesis
  proof (cases "?b = []")
    case True
    then show ?thesis using next_leaf_fresh [OF laws ok key] by simp
  next
    case False
    have w: "within None None k" for k :: 'k by (simp add: within_def)
    have nth: "?b ! q = ?c ! q" if "q < length ?b" for q using that by (simp add: nth_butlast)
    have "?c ! 0 = (root_fence C, root)" by (metis chain_head nth_Cons_0)
    then have "?b ! 0 = (root_fence C, root)" using nth [of 0] False by (simp add: length_greater_0_conv [symmetric] del: length_greater_0_conv)
    then have "contains (fst (?b ! 0)) key" using fence_contains [OF laws fence_ok_root key w] by (simp add: within_def)
    then obtain q where q: "q \<le> length ?b - 1" "climb ?b (length ?b - 1) key = Some q" "contains (fst (?b ! q)) key"
      using climb_root by blast
    then have lt: "q < length ?b" "length ?b - 1 < length ?b" using False by (auto simp: length_greater_0_conv [symmetric] simp del: length_greater_0_conv length_butlast)
    then have lt': "q < length ?c" by simp
    have p: "q < length (chain C key (root_fence C) root)" "take (Suc q) (chain C key (root_fence C) root) = take (Suc q) ?c"
      using chain_prefix [OF laws ok fence_ok_root w k0 key lt'] q(3) nth [OF lt(1)] by auto
    have "next_leaf_page C root ?b (length ?b - 1) key = next_leaf_page C root ?b q key"
      by (subst (1 2) next_leaf_page.simps) (use q lt climb_here [OF q(3)] in \<open>simp del: length_butlast\<close>)
    then show ?thesis
      using next_leaf_descends [OF laws ok key lt(1) p(1)] p(2) lt(1) by (simp add: take_butlast)
  qed
qed

section \<open>The leaf at the end of the path\<close>

fun seps_of :: "('k, 'p) dnode \<Rightarrow> 'k set" where
  "seps_of (DLeaf rs) = {}"
| "seps_of (DIndex ks cs) = set ks \<union> (\<Union>c \<in> set cs. seps_of c)"

lemma finite_seps: "finite (seps_of n)"
  by (induction n) auto

text \<open>Its records stand between those of the keys below its bounds and those of the keys above.\<close>

definition leaf_between :: "('k::linorder, 'p) dexa_cfg \<Rightarrow> 'k option \<Rightarrow> 'k option \<Rightarrow> ('k, 'p) v_record list
    \<Rightarrow> ('k, 'p) v_record list \<Rightarrow> ('k, 'p) v_record list \<Rightarrow> bool" where
  "leaf_between C lo hi pre rs post \<longleftrightarrow> (\<forall>r \<in> set rs. within lo hi (vr_key r))
     \<and> (\<forall>k. within lo hi k \<longrightarrow> (\<forall>r \<in> set pre. vr_key r < k) \<and> (\<forall>r \<in> set post. k < vr_key r))"

lemma chain_leaf:
  assumes laws: "scan_laws C"
  shows "tree_ok C d lo hi n \<Longrightarrow> fence_ok C lo hi iv \<Longrightarrow> within lo hi key \<Longrightarrow> key \<le> dx_max_key C
    \<Longrightarrow> \<exists>f rs pre post lo' hi'. last (chain C key iv n) = (f, DLeaf rs) \<and> fence_ok C lo' hi' f \<and> within lo' hi' key
      \<and> (\<forall>k. within lo' hi' k \<longrightarrow> within lo hi k) \<and> (\<forall>u. hi' = Some u \<longrightarrow> hi = Some u \<or> u \<in> seps_of n)
      \<and> records_of n = pre @ rs @ post \<and> leaf_between C lo' hi' pre rs post"
proof (induction d arbitrary: lo hi n iv)
  case 0
  then obtain rs where rs: "n = DLeaf rs" "\<forall>r \<in> set rs. within lo hi (vr_key r)" by auto
  show ?case
    by (intro exI [of _ iv] exI [of _ rs] exI [of _ "[]"] exI [of _ lo] exI [of _ hi]) (use 0 rs in \<open>simp add: leaf_between_def\<close>)
next
  case (Suc d)
  obtain ks cs i where s: "n = DIndex ks cs" "i < length cs" "i \<le> length ks"
      "chain C key iv n = (iv, n) # chain C key (child_interval C iv ks i) (cs ! i)"
      "tree_ok C d (lo_of lo ks i) (hi_of hi ks i) (cs ! i)" "fence_ok C (lo_of lo ks i) (hi_of hi ks i) (child_interval C iv ks i)"
      "within (lo_of lo ks i) (hi_of hi ks i) key" "seps_ok lo hi ks"
    using chain_step [OF laws Suc.prems] by metis
  obtain f rs pre post lo' hi' where l: "last (chain C key (child_interval C iv ks i) (cs ! i)) = (f, DLeaf rs)"
      "fence_ok C lo' hi' f" "within lo' hi' key" "\<forall>k. within lo' hi' k \<longrightarrow> within (lo_of lo ks i) (hi_of hi ks i) k"
      "\<forall>u. hi' = Some u \<longrightarrow> hi_of hi ks i = Some u \<or> u \<in> seps_of (cs ! i)"
      "records_of (cs ! i) = pre @ rs @ post" "leaf_between C lo' hi' pre rs post"
    using Suc.IH [OF s(5-7) Suc.prems(4)] by blast
  have "within lo hi k" if "within lo' hi' k" for k using within_child [OF s(8,3)] l(4) that by blast
  moreover have "hi = Some u \<or> u \<in> seps_of n" if "hi' = Some u" for u
    using l(5) that s(1) nth_mem [OF s(2)] by (auto simp: hi_of_def split: if_splits)
  moreover have "records_of n = (recs_before cs i @ pre) @ rs @ (post @ recs_after cs i)"
    using records_child [OF s(2)] l(6) s(1) by simp
  moreover have "leaf_between C lo' hi' (recs_before cs i @ pre) rs (post @ recs_after cs i)"
    using l(4,7) siblings_apart [OF Suc.prems(1) [unfolded s(1)] s(3)] by (auto simp: leaf_between_def)
  ultimately show ?case using l(1-3) s(4) by (metis chain_ne last.simps)
qed

section \<open>The records of a range\<close>

lemma sorted_takeWhile_less:
  assumes "sorted_wrt (<) (map f xs)"
  shows "takeWhile (\<lambda>x. f x < (a::'k::linorder)) xs = filter (\<lambda>x. f x < a) xs"
    and "takeWhile (\<lambda>x. f x \<le> a) xs = filter (\<lambda>x. f x \<le> a) xs"
proof -
  have eq: "takeWhile P xs = filter P xs" if "\<And>x y. f x < f y \<Longrightarrow> P y \<Longrightarrow> P x" for P
    using assms that
  proof (induction xs)
    case (Cons x xs)
    show ?case
    proof (cases "P x")
      case False
      then have "\<forall>y \<in> set xs. \<not> P y" using Cons.prems by auto
      then show ?thesis using False by simp
    qed (use Cons in auto)
  qed simp
  show "takeWhile (\<lambda>x. f x < a) xs = filter (\<lambda>x. f x < a) xs" by (rule eq) (rule less_trans)
  show "takeWhile (\<lambda>x. f x \<le> a) xs = filter (\<lambda>x. f x \<le> a) xs" by (rule eq) (rule less_imp_le [OF order.strict_trans2])
qed

lemma sorted_slice:
  assumes "sorted_wrt (<) (map f xs)" and "(a::'k::linorder) \<le> b"
  shows "partition_point (\<lambda>x. f x < a) xs \<le> partition_point (\<lambda>x. f x \<le> b) xs
    \<and> take (partition_point (\<lambda>x. f x \<le> b) xs - partition_point (\<lambda>x. f x < a) xs) (drop (partition_point (\<lambda>x. f x < a) xs) xs)
      = filter (\<lambda>x. a \<le> f x \<and> f x \<le> b) xs"
  using assms(1)
proof (induction xs)
  case (Cons x xs)
  show ?case
  proof (cases "f x < a")
    case True
    then have "f x \<le> b" using assms(2) by simp
    then show ?thesis using Cons True by (auto simp: partition_point_def)
  next
    case False
    then have a: "\<forall>y \<in> set (x # xs). a \<le> f y" using Cons.prems by auto
    have "take (partition_point (\<lambda>x. f x \<le> b) (x # xs)) (x # xs) = takeWhile (\<lambda>x. f x \<le> b) (x # xs)"
      unfolding partition_point_def by (simp only: takeWhile_eq_take [symmetric])
    also have "\<dots> = filter (\<lambda>y. a \<le> f y \<and> f y \<le> b) (x # xs)"
      unfolding sorted_takeWhile_less(2) [OF Cons.prems] by (rule filter_cong) (use a in auto)
    finally show ?thesis using False by (simp add: partition_point_def [of "\<lambda>x. f x < a"])
  qed
qed (simp add: partition_point_def)

lemma records_in_range_ok:
  assumes "sorted_wrt (<) (map vr_key rs)" and "lower rng \<le> upper rng"
  shows "records_in_range rng rs = Some (filter (\<lambda>r. contains rng (vr_key r)) rs)"
  using sorted_slice [OF assms] by (simp add: records_in_range_def contains_def)

text \<open>The records that a reader of a version sees.\<close>

definition hits :: "'p index_lib \<Rightarrow> ('k, 'p) weaver_heap \<Rightarrow> version \<Rightarrow> ('k, 'p) v_record list \<Rightarrow> ('k \<times> 'p) list" where
  "hits L h v rs = concat (map (\<lambda>r. case vx_lookup L (h, vr_index r) v of Some p \<Rightarrow> [(vr_key r, p)] | None \<Rightarrow> []) rs)"

lemma hits_simps [simp]:
  "hits L h v [] = []"
  "hits L h v (r # rs) = (case vx_lookup L (h, vr_index r) v of Some p \<Rightarrow> [(vr_key r, p)] | None \<Rightarrow> []) @ hits L h v rs"
  "hits L h v (rs @ qs) = hits L h v rs @ hits L h v qs"
  by (simp_all add: hits_def)

lemma found_at_ok:
  "\<forall>r \<in> set rs. vx_good L (vr_key r) now (h, vr_index r) \<Longrightarrow> found_at L h v rs = Some (hits L h v rs)"
proof (induction rs)
  case (Cons r rs)
  obtain u where "vx_find L h (vr_index r) v = Some (map_option (Pair u) (vx_lookup L (h, vr_index r) v))"
    using vx_find_ok [of L "vr_key r" now h "vr_index r" v] Cons.prems by auto
  then show ?case using Cons by (simp split: option.splits del: vx_lookup.simps)
qed simp

section \<open>The scan\<close>

lemma leaf_between_post:
  assumes "leaf_between C lo hi pre rs post" and "within lo hi key" and "r \<in> set post"
  obtains u where "hi = Some u" and "u \<le> vr_key r" and "key < vr_key r"
proof -
  have key: "key < vr_key r" using assms by (simp add: leaf_between_def)
  have "\<not> within lo hi (vr_key r)" using assms(1,3) by (auto simp: leaf_between_def)
  then obtain u where "hi = Some u" "u \<le> vr_key r"
    using key assms(2) by (auto simp: within_def not_less)
  then show ?thesis using that key by blast
qed

lemma inc_dec:
  assumes laws: "scan_laws C" and u: "dx_min_key C < u" "u < dx_max_key C"
  shows "dx_inc_key C (dx_dec_key C u) = u" and "dx_dec_key C u < dx_max_key C"
proof -
  have d: "j \<le> dx_dec_key C u \<longleftrightarrow> j < u" for j using laws u(1) by (simp add: scan_laws_def pred_law_def)
  then show mx: "dx_dec_key C u < dx_max_key C" using u(2) by (meson order_refl less_trans)
  have "dx_inc_key C (dx_dec_key C u) \<le> j \<longleftrightarrow> u \<le> j" for j
    using laws mx d [of j] by (auto simp: scan_laws_def succ_law_def)
  then show "dx_inc_key C (dx_dec_key C u) = u" by (meson order.antisym order_refl)
qed

lemma range_leaf_ok:
  fixes path :: "('k::linorder, 'p) leaf_path"
  assumes path: "path \<noteq> []" "last path = (f, DLeaf rs)" and srt: "sorted_wrt (<) (map vr_key rs)" and rng: "lower rng \<le> upper rng"
    and good: "\<forall>r \<in> set rs. vx_good (dx_lib C) (vr_key r) now (dt_heap t, vr_index r)"
  shows "range_query_leaf_results C t path rng v
    = Some (path, hits (dx_lib C) (dt_heap t) v (filter (\<lambda>r. contains rng (vr_key r)) rs))"
proof -
  have "rev path = last path # rev (butlast path)" using path(1) by (cases path rule: rev_cases) simp_all
  then have top: "rev path = (f, DLeaf rs) # rev (butlast path)" unfolding path(2) .
  have "found_at (dx_lib C) (dt_heap t) v (filter (\<lambda>r. contains rng (vr_key r)) rs)
      = Some (hits (dx_lib C) (dt_heap t) v (filter (\<lambda>r. contains rng (vr_key r)) rs))"
    by (rule found_at_ok [of _ _ now]) (use good in auto)
  then show ?thesis
    by (subst range_query_leaf_results.simps, unfold top) (simp add: records_in_range_ok [OF srt rng])
qed

lemma range_loop:
  fixes C :: "('k::linorder, 'p) dexa_cfg"
  assumes laws: "scan_laws C" and ok: "tree_ok C D None None (dt_root t)"
    and good: "\<forall>r \<in> set (records_of (dt_root t)). vx_good (dx_lib C) (vr_key r) now (dt_heap t, vr_index r)"
  shows "lower rng \<le> dx_max_key C \<Longrightarrow> lower rng \<le> upper rng \<Longrightarrow>
    range_query_olc C t (chain C (lower rng) (root_fence C) (dt_root t)) rng v acc =
      Some (acc @ hits (dx_lib C) (dt_heap t) v (filter (\<lambda>r. contains rng (vr_key r)) (records_of (dt_root t))))"
proof (induction "card {u \<in> seps_of (dt_root t). lower rng < u}" arbitrary: rng acc rule: less_induct)
  case less
  let ?key = "lower rng" and ?L = "dx_lib C" and ?h = "dt_heap t" and ?in = "\<lambda>rng r. contains rng (vr_key r)"
  let ?c = "chain C ?key (root_fence C) (dt_root t)"
  have w: "within None None ?key" by (simp add: within_def)
  obtain f rs pre post lo hi where l: "last ?c = (f, DLeaf rs)" "fence_ok C lo hi f" "within lo hi ?key"
      "\<forall>u. hi = Some u \<longrightarrow> u \<in> seps_of (dt_root t)" "records_of (dt_root t) = pre @ rs @ post" "leaf_between C lo hi pre rs post"
    using chain_leaf [OF laws ok fence_ok_root w less.prems(1)] by auto
  have srt: "sorted_wrt (<) (map vr_key rs)" using tree_ok_records [OF ok] l(5) by (auto simp: sorted_wrt_append)
  have leaf: "range_query_leaf_results C t ?c rng v = Some (?c, hits ?L ?h v (filter (?in rng) rs))"
    by (rule range_leaf_ok [OF chain_ne l(1) srt less.prems(2)]) (use good l(5) in auto)
  have pre: "filter (?in rng) pre = []" using l(3,6) by (auto simp: leaf_between_def contains_def filter_empty_conv not_le)
  show ?case
  proof (cases hi)
    case None
    then have "post = []" using leaf_between_post [OF l(6,3)] by (cases post) auto
    moreover have "upper f = dx_max_key C" using l(2) None by (simp add: fence_ok_def)
    ultimately show ?thesis by (subst range_query_olc.simps) (simp add: leaf l(1,5) pre)
  next
    case (Some u)
    have key: "?key < u" "dx_min_key C \<le> ?key" using laws l(3) Some by (simp_all add: within_def scan_laws_def)
    have u: "dx_min_key C < u" "u < dx_max_key C" "?key < u" "upper f = dx_dec_key C u" "u \<in> seps_of (dt_root t)"
      using le_less_trans [OF key(2,1)] key(1) by (simp_all only: l(2) [unfolded fence_ok_def Some] l(4) [unfolded Some] option.case simp_thms option.inject)
    note id = inc_dec [OF laws u(1,2)]
    have post: "\<forall>r \<in> set post. u \<le> vr_key r"
    proof
      fix r assume "r \<in> set post"
      then show "u \<le> vr_key r" using Some by (elim leaf_between_post [OF l(6,3)]) simp
    qed
    show ?thesis
    proof (cases "u > upper rng")
      case True
      then have "filter (?in rng) post = []" using post by (fastforce simp: contains_def filter_empty_conv)
      then show ?thesis using True id less_imp_neq [OF id(2)] by (subst range_query_olc.simps) (simp add: leaf l(1,5) pre u(4) set_lower_def Let_def)
    next
      case False
      let ?rng = "set_lower rng u"
      have "{x \<in> seps_of (dt_root t). lower ?rng < x} \<subset> {x \<in> seps_of (dt_root t). lower rng < x}"
        using u(3,5) by (auto simp: set_lower_def)
      then have "card {x \<in> seps_of (dt_root t). lower ?rng < x} < card {x \<in> seps_of (dt_root t). lower rng < x}"
        by (rule psubset_card_mono [rotated]) (simp add: finite_seps)
      note IH = less.hyps [OF this]
      have "range_query_olc C t ?c rng v acc = range_query_olc C t (chain C u (root_fence C) (dt_root t)) ?rng v (acc @ hits ?L ?h v (filter (?in rng) rs))"
        using False id less_imp_neq [OF id(2)] next_leaf_climbs [OF laws ok less_imp_le [OF u(2)] less.prems(1)]
        by (subst range_query_olc.simps) (simp add: leaf l(1) u(4) set_lower_def Let_def del: length_butlast)
      moreover have "filter (?in ?rng) (records_of (dt_root t)) = filter (?in rng) post"
      proof -
        have "filter (?in ?rng) (pre @ rs) = []"
          using l(3,6) Some u(3) by (fastforce simp: contains_def set_lower_def filter_empty_conv leaf_between_def within_def)
        moreover have "filter (?in ?rng) post = filter (?in rng) post"
          by (rule filter_cong) (use post u(3) in \<open>auto simp: contains_def set_lower_def intro: order_trans less_imp_le\<close>)
        ultimately show ?thesis unfolding l(5) by (simp only: append_assoc [symmetric] filter_append append_Nil)
      qed
      ultimately show ?thesis using IH False u(2) by (simp add: set_lower_def l(5) pre)
    qed
  qed
qed

lemma dx_range_ok:
  fixes C :: "('k::linorder, 'p) dexa_cfg"
  assumes laws: "scan_laws C" and ok: "tree_ok C D None None (dt_root t)" and kind: "dx_kind C \<noteq> TypeVWeaver"
    and good: "\<forall>r \<in> set (records_of (dt_root t)). vx_good (dx_lib C) (vr_key r) now (dt_heap t, vr_index r)"
    and rng: "lower rng \<le> dx_max_key C" "lower rng \<le> upper rng"
  shows "dx_range C t rng v = Some (DxMatchedRecords (hits (dx_lib C) (dt_heap t) v
    (filter (\<lambda>r. contains rng (vr_key r)) (records_of (dt_root t)))))"
  using next_leaf_fresh [OF laws ok rng(1), of "[]" 0] range_loop [OF laws ok good rng] kind
  by (simp add: dx_range_def is_v_weaver_def)

end
