(* ===== verification/Dexa_Refine.thy ===== *)
theory Dexa_Refine
  imports Dexa_Scan
begin

text \<open>
  The operations of the version-list tree against a map: the keys that have a record, and for every
  version and key the value that a reader of the version finds. A write adds one version of one key.
\<close>

section \<open>The callback of the weaving lists\<close>

fun weaving :: "'p version_index \<Rightarrow> bool" where
  "weaving (VWEAVER a) \<longleftrightarrow> True"
| "weaving _ \<longleftrightarrow> False"

definition all_weave :: "bool \<Rightarrow> ('k, 'p) v_record list \<Rightarrow> bool" where
  "all_weave b rs \<longleftrightarrow> (\<forall>r \<in> set rs. weaving (vr_index r) = b)"

lemma all_weave_simps [simp]:
  "all_weave b []" "all_weave b (r # rs) \<longleftrightarrow> weaving (vr_index r) = b \<and> all_weave b rs"
  "all_weave b (rs @ qs) \<longleftrightarrow> all_weave b rs \<and> all_weave b qs"
  by (auto simp: all_weave_def)

lemma all_weave_update: "all_weave b rs \<Longrightarrow> weaving (vr_index r) = b \<Longrightarrow> all_weave b (rs[i := r])"
  by (auto simp: all_weave_def dest: set_update_subset_insert [THEN subsetD])

lemma weaving_push: "vx_push L toss w p h idx = Some (h', idx') \<Longrightarrow> weaving idx' = weaving idx"
  by (cases idx) (auto simp: map_option_eq_Some)

lemma weaving_append: "vx_append L toss w p h idx = Some (h', idx') \<Longrightarrow> weaving idx' = weaving idx"
  by (cases idx) (auto simp: map_option_eq_Some)

lemma weaving_delete: "vx_delete L toss w h idx = Some (h', idx') \<Longrightarrow> weaving idx' = weaving idx"
  by (cases idx) (auto simp: map_option_eq_Some)

lemma weaving_new: "vx_new key kind p w h = (h', idx') \<Longrightarrow> weaving idx' = is_v_weaver kind"
  by (cases "wl_new key p w h"; cases kind) (auto simp: vx_new_def is_v_weaver_def)

lemma push_weaves:
  assumes "push_record_point L toss cap key p w kind h (DLeaf rs) = Some (h', DLeaf rs', b)" and "all_weave (is_v_weaver kind) rs"
    and "sorted_wrt (<) (map vr_key rs)"
  shows "all_weave (is_v_weaver kind) rs'"
proof (cases "binary_search_by_key vr_key key rs")
  case (Inr i)
  have "weaving (vr_index (rs ! i)) = is_v_weaver kind"
    using search_hit [OF assms(3) Inr] assms(2) by (auto simp: all_weave_def)
  then show ?thesis
    using assms(1,2) Inr by (auto simp: push_record_point_def Option.bind_eq_Some_conv intro!: all_weave_update dest!: weaving_push)
next
  case (Inl i)
  obtain h1 idx where new: "vx_new key kind p w h = (h1, idx)" by (cases "vx_new key kind p w h")
  have "all_weave (is_v_weaver kind) (take i rs @ \<lparr>vr_key = key, vr_index = idx\<rparr> # drop i rs)"
    using assms(2) weaving_new [OF new] by (auto simp: all_weave_def dest: in_set_takeD in_set_dropD)
  then show ?thesis using assms(1) Inl by (auto simp: push_record_point_def v_record_new_def new sv_insert_def split: if_splits)
qed

lemma update_weaves:
  assumes "update_record_point L toss key p w h (DLeaf rs) = Some (h', DLeaf rs', res)" and "all_weave b rs"
    and "sorted_wrt (<) (map vr_key rs)"
  shows "all_weave b rs'"
proof (cases "binary_search_by_key vr_key key rs")
  case (Inr i)
  have "weaving (vr_index (rs ! i)) = b" using search_hit [OF assms(3) Inr] assms(2) by (auto simp: all_weave_def)
  then show ?thesis
    using assms(1,2) Inr
    by (auto simp: update_record_point_def Option.bind_eq_Some_conv intro!: all_weave_update dest!: weaving_append split: if_splits)
next
  case (Inl i)
  then show ?thesis using assms by (simp add: update_record_point_def)
qed

lemma delete_weaves:
  assumes "delete_key L toss key w h (DLeaf rs) = Some (h', DLeaf rs', res)" and "all_weave b rs"
    and "sorted_wrt (<) (map vr_key rs)"
  shows "all_weave b rs'"
proof (cases "binary_search_by_key vr_key key rs")
  case (Inr i)
  have "weaving (vr_index (rs ! i)) = b" using search_hit [OF assms(3) Inr] assms(2) by (auto simp: all_weave_def)
  then show ?thesis
    using assms(1,2) Inr
    by (auto simp: delete_key_def Option.bind_eq_Some_conv intro!: all_weave_update dest!: weaving_delete split: if_splits)
next
  case (Inl i)
  then show ?thesis using assms by (simp add: delete_key_def)
qed

text \<open>What the callback finds: the head itself for the key that was written, something for its neighbour.\<close>

lemma find_any_total:
  assumes "vx_good L key now (h, idx)"
  shows "\<exists>f. find_weaver_node_or_tombstone h idx v = Some f"
proof (cases idx)
  case (VWEAVER a)
  then obtain n where n: "weaves h key a n" "fl_ok now n" using assms by (auto simp: wl_good_def)
  then obtain f where "fl_find_from n v True = Some f" using fl_find_from_eq by (auto simp: fl_ok_def)
  then show ?thesis using wl_find_from_sim [OF n(1), of v True f] VWEAVER by (auto simp: wl_find_any_def)
qed auto

lemma find_any_head:
  assumes "vx_good L key (w + 1) (h, VWEAVER a)" and "w < VERSION_LIMIT"
  shows "find_weaver_node_or_tombstone h (VWEAVER a) w = Some (Some a)" and "wn_load h a = Some (h ! a)"
    and "wn_next (h ! a) = Some b \<Longrightarrow> wn_load h b = Some (h ! b)"
proof -
  obtain n where n: "weaves h key a n" "fl_ok (w + 1) n" using assms(1) by (auto simp: wl_good_def)
  obtain nx r p u l where n': "n = FrugalNode nx r p u l" by (cases n)
  have le: "wn_version (h ! a) \<le> w"
    using n inc_le [OF assms(2)] version_le_step [OF assms(2)] by (auto simp: n' fl_ok_def)
  show a: "wn_load h a = Some (h ! a)" using n(1) by (simp add: n' wn_load_def)
  show "wn_load h b = Some (h ! b)" if "wn_next (h ! a) = Some b"
    using n(1) that by (cases nx) (auto simp: n' dest: weaves_load)
  have "wl_walk h a w = Some a" using le by (subst wl_walk.simps) (auto simp: a not_less [symmetric])
  then show "find_weaver_node_or_tombstone h (VWEAVER a) w = Some (Some a)"
    using le a by (simp add: wl_find_any_def wl_find_from_def)
qed

lemma search_finds:
  assumes "sorted_wrt (<) (map f rs)" and "r \<in> set rs" and "f r = key"
  shows "\<exists>i. binary_search_by_key f key rs = Inr i \<and> i < length rs \<and> f (rs ! i) = key"
proof (cases "binary_search_by_key f key rs")
  case (Inr i)
  then show ?thesis using search_hit [OF assms(1)] by blast
next
  case (Inl i)
  have "set rs = set (take i rs) \<union> set (drop i rs)" by (metis append_take_drop_id set_append)
  then show ?thesis using search_miss [OF assms(1) Inl] assms(2,3) by (metis UnE less_irrefl)
qed

lemma weaver_callback_ok:
  fixes C :: "('k::linorder, 'p) dexa_cfg"
  assumes laws: "scan_laws C" and ok: "tree_ok C D None None (dt_root t)" and at: "node_at (dt_root t) path = Some (DLeaf rs)"
    and rs: "records_of (dt_root t) = pre @ rs @ post" and r: "r \<in> set rs" "vr_key r = key" and key: "key < dx_max_key C"
    and good: "\<forall>r \<in> set (records_of (dt_root t)). vx_good (dx_lib C) (vr_key r) (w + 1) (dt_heap t, vr_index r)"
    and weave: "all_weave True rs" and w: "w < VERSION_LIMIT"
  shows "\<exists>h'. weaver_callback C t path key w = Some (t\<lparr>dt_heap := h'\<rparr>) \<and> heap_kept (dt_heap t) h'"
proof -
  have srt: "sorted_wrt (<) (map vr_key rs)" using tree_ok_records [OF ok] rs by (auto simp: sorted_wrt_append)
  obtain i where i: "binary_search_by_key vr_key key rs = Inr i" "i < length rs" using search_finds [OF srt r] by blast
  obtain a where a: "vr_index (rs ! i) = VWEAVER a" using weave nth_mem [OF i(2)] by (auto simp: all_weave_def elim: weaving.elims(2))
  have g: "vx_good (dx_lib C) (vr_key (rs ! i)) (w + 1) (dt_heap t, VWEAVER a)" using good rs nth_mem [OF i(2)] a by (metis UnCI set_append)
  note head = find_any_head [OF g w]
  have total: "\<exists>nxt. weaver_next C t rs i key w = Some nxt"
  proof (cases "i + 1 < length rs")
    case True
    then have "rs ! (i + 1) \<in> set (records_of (dt_root t))" using rs by simp
    then show ?thesis using True find_any_total [OF bspec [OF good]] by (simp add: weaver_next_def)
  next
    case False
    let ?inc = "dx_inc_key C key"
    have inc: "?inc \<le> dx_max_key C" using laws key by (simp add: scan_laws_def succ_law_def)
    let ?c = "chain C ?inc (root_fence C) (dt_root t)"
    have wi: "within None None ?inc" by (simp add: within_def)
    obtain f qs pre' post' where l: "last ?c = (f, DLeaf qs)" "records_of (dt_root t) = pre' @ qs @ post'"
      using chain_leaf [OF laws ok fence_ok_root wi inc] by metis
    show ?thesis
    proof (cases "List.find (\<lambda>r. vr_key r > key) qs")
      case None
      then show ?thesis using False next_leaf_fresh [OF laws ok inc, of "[]" 0] l by (simp add: weaver_next_def)
    next
      case (Some q)
      then have "q \<in> set (records_of (dt_root t))" using l(2) find_SomeD by fastforce
      then obtain x where "find_weaver_node_or_tombstone (dt_heap t) (vr_index q) w = Some x"
        using find_any_total [OF bspec [OF good]] by blast
      then show ?thesis using Some False next_leaf_fresh [OF laws ok inc, of "[]" 0] l by (simp add: weaver_next_def)
    qed
  qed
  show ?thesis
  proof (cases "wn_next (dt_heap t ! a)")
    case None
    then have "weaver_callback C t path key w = Some t" by (simp add: weaver_callback_def at i(1) a head(1) [simplified] head(2))
    then show ?thesis using heap_kept_refl by (intro exI [of _ "dt_heap t"]) simp
  next
    case (Some b)
    obtain nxt where nxt: "weaver_next C t rs i key w = Some nxt" using total by blast
    have cb: "weaver_callback C t path key w =
        Some (if wn_k_ridgy (dt_heap t ! b) \<noteq> None then t else case nxt of Some k \<Rightarrow> set_k_ridgy b (Some k) t | None \<Rightarrow> t)"
      using Some head(3) [OF Some] by (simp add: weaver_callback_def at i(1) a head(1) [simplified] head(2) nxt)
    show ?thesis
    proof (cases "wn_k_ridgy (dt_heap t ! b) \<noteq> None \<or> nxt = None")
      case True
      then show ?thesis unfolding cb using heap_kept_refl by (intro exI [of _ "dt_heap t"]) auto
    next
      case False
      then show ?thesis
        unfolding cb using heap_kept_ridgy [of "dt_heap t" b nxt]
        by (intro exI [of _ "(dt_heap t)[b := (dt_heap t ! b)\<lparr>wn_k_ridgy := nxt\<rparr>]"]) (auto simp: set_k_ridgy_def)
    qed
  qed
qed

section \<open>The map\<close>

definition dx_laws :: "('k::linorder, 'p) dexa_cfg \<Rightarrow> bool" where
  "dx_laws C \<longleftrightarrow> cfg_ok C \<and> \<not> dx_gc C \<and> scan_laws C \<and> dx_kind C \<noteq> TypeBTree \<and> skip_laws (ix_skip (dx_lib C))"

text \<open>\<open>dx_rep C t K M\<close>: the keys with a record are \<open>K\<close>, and a reader of version \<open>v\<close> finds \<open>M v k\<close> for \<open>k\<close>.\<close>

definition dx_rep :: "('k::linorder, 'p) dexa_cfg \<Rightarrow> ('k, 'p) dexa_tree \<Rightarrow> 'k set \<Rightarrow> (version \<Rightarrow> 'k \<Rightarrow> 'p option) \<Rightarrow> bool" where
  "dx_rep C t K M \<longleftrightarrow> (\<exists>D. tree_ok C D None None (dt_root t))
     \<and> recs_ok (dx_lib C) (global_clock (dt_clock t)) (dt_heap t) (records_of (dt_root t))
     \<and> all_weave (is_v_weaver (dx_kind C)) (records_of (dt_root t)) \<and> K = vr_key ` set (records_of (dt_root t))
     \<and> (\<forall>v < VERSION_LIMIT. \<forall>k. M v k = recs_lookup (dx_lib C) (dt_heap t) (records_of (dt_root t)) v k)"

lemma dx_rep_make: "dx_rep C (dexa_make m) {} (\<lambda>v k. None)"
proof -
  have "tree_ok C 0 None None (DLeaf [])" by simp
  moreover have "START_VERSION \<le> VERSION_LIMIT" by (simp add: START_VERSION_def )
  ultimately show ?thesis
    unfolding dx_rep_def dexa_make_def by (auto simp: recs_ok_def recs_lookup_def simp del: tree_ok.simps)
qed

section \<open>A write\<close>

lemma same_keys_len: "map vr_key rs' = map vr_key rs \<Longrightarrow> length rs' = length rs \<and> vr_key ` set rs' = vr_key ` set rs"
  by (metis length_map list.set_map)

text \<open>The leaf of a key is replaced by a leaf that has at least the same keys.\<close>

lemma dx_leaf_write_ok:
  assumes at: "at_leaf C D key t path pre rs post" and key: "key < dx_max_key C"
    and srt: "sorted_wrt (<) (map vr_key rs')" and len: "length rs \<le> length rs'" "length rs' \<le> dx_num_records C"
    and keys: "vr_key ` set rs' \<subseteq> insert key (vr_key ` set rs)"
  shows "\<exists>n'. node_set (dt_root t) path (DLeaf rs') = Some n' \<and> node_at n' path = Some (DLeaf rs')
    \<and> tree_ok C D None None n' \<and> records_of n' = pre @ rs' @ post"
proof -
  obtain lo hi where l: "tree_ok C 0 lo hi (DLeaf rs)" "path \<noteq> [] \<longrightarrow> \<not> dx_has_underflow C (DLeaf rs)" "within lo hi key"
      "focus C D (dt_root t) path 0 lo hi pre post" using at unfolding at_leaf_def by blast
  have "\<forall>r \<in> set rs'. within lo hi (vr_key r) \<and> vr_key r < dx_max_key C" using l(1,3) key keys by fastforce
  then have ok: "tree_ok C 0 lo hi (DLeaf rs')" using srt len by simp
  have fill: "path \<noteq> [] \<longrightarrow> \<not> dx_has_underflow C (DLeaf rs')"
    using l(2) len by (auto simp: dx_has_underflow_def dn_is_underflow_def split: if_splits)
  obtain n' where n': "node_set (dt_root t) path (DLeaf rs') = Some n'" "tree_ok C D None None n'"
      "records_of n' = pre @ records_of (DLeaf rs') @ post" by (rule dx_focusD [OF l(4) ok fill])
  then show ?thesis using node_set_at [OF n'(1)] by simp
qed

lemma clock_parts [simp]:
  "global_clock (end_commit m ts v) = global_clock m"
  by (simp add: end_commit_def thread_local_commit_def)

text \<open>The end of a write: the page is in place, the version is announced, and a callback changes nothing that is read.\<close>

definition commits :: "('k::linorder, 'p) dexa_cfg \<Rightarrow> thread_state \<Rightarrow> version \<Rightarrow> 'k set \<Rightarrow> (version \<Rightarrow> 'k \<Rightarrow> 'p option)
    \<Rightarrow> ('k, 'p) dexa_tree \<Rightarrow> bool" where
  "commits C ts w K M t \<longleftrightarrow> dx_rep C (dx_end_tx_commit t ts w) K M \<and> global_clock (dt_clock (dx_end_tx_commit t ts w)) = w + 1"

lemma commit_ok:
  fixes C :: "('k::linorder, 'p) dexa_cfg"
  assumes laws: "dx_laws C" and key: "key < dx_max_key C"
    and at: "at_leaf C D key t path pre rs post" and clock: "global_clock (dt_clock t) = w + 1" and w: "w < VERSION_LIMIT"
    and ok: "recs_ok (dx_lib C) (w + 1) h (pre @ rs' @ post)"
    and len: "length rs \<le> length rs'" "length rs' \<le> dx_num_records C"
    and keys: "vr_key ` set rs' \<subseteq> insert key (vr_key ` set rs)"
    and weave: "all_weave (is_v_weaver (dx_kind C)) (pre @ rs' @ post)"
    and M: "\<forall>v < VERSION_LIMIT. \<forall>k. M v k = recs_lookup (dx_lib C) h (pre @ rs' @ post) v k"
    and K: "K = vr_key ` set (pre @ rs' @ post)"
  shows "\<exists>t'. write_back t path h (DLeaf rs') = Some t' \<and> commits C ts w K M t'
    \<and> (key \<in> vr_key ` set rs' \<longrightarrow> (\<exists>t''. on_modified C t' path key w = Some t'' \<and> commits C ts w K M t''))"
proof -
  let ?L = "dx_lib C"
  have srt: "sorted_wrt (<) (map vr_key rs')" using recs_ok_part [OF ok] .
  obtain n' where n': "node_set (dt_root t) path (DLeaf rs') = Some n'" "node_at n' path = Some (DLeaf rs')"
      "tree_ok C D None None n'" "records_of n' = pre @ rs' @ post"
    using dx_leaf_write_ok [OF at key srt len keys] by blast
  define t' where "t' = t\<lparr>dt_heap := h, dt_coins := dt_coins t + 1, dt_root := n'\<rparr>"
  have wb: "write_back t path h (DLeaf rs') = Some t'"
    using n'(1) by (simp add: write_back_def set_node_def t'_def)
  have good: "\<forall>r \<in> set (records_of n'). vx_good ?L (vr_key r) (w + 1) (h, vr_index r)" using ok n'(4) by (simp add: recs_ok_def)
  have rep: "commits C ts w K M (t'\<lparr>dt_heap := h'\<rparr>)" if kept: "heap_kept h h'" for h'
  proof -
    have "recs_ok ?L (w + 1) h' (pre @ rs' @ post)"
      using ok recs_kept(1) [OF good kept] n'(4) by (simp add: recs_ok_def)
    moreover have "recs_lookup ?L h' (pre @ rs' @ post) v k = recs_lookup ?L h (pre @ rs' @ post) v k" for v k
      using recs_kept(2) [OF good kept] n'(4) by simp
    ultimately show ?thesis
      unfolding commits_def dx_rep_def using n'(3,4) clock weave M K by (auto simp: t'_def dx_end_tx_commit_def simp del: tree_ok.simps)
  qed
  have "t'\<lparr>dt_heap := h\<rparr> = t'" by (simp add: t'_def)
  then have here: "commits C ts w K M t'" using rep [OF heap_kept_refl] by simp
  have "\<exists>t''. on_modified C t' path key w = Some t'' \<and> commits C ts w K M t''" if there: "key \<in> vr_key ` set rs'"
  proof (cases "is_v_weaver (dx_kind C)")
    case True
    have sl: "scan_laws C" using laws by (simp add: dx_laws_def)
    obtain r where r: "r \<in> set rs'" "vr_key r = key" using there by blast
    have root: "dt_root t' = n'" "dt_heap t' = h" by (simp_all add: t'_def)
    obtain h' where h': "weaver_callback C t' path key w = Some (t'\<lparr>dt_heap := h'\<rparr>)" "heap_kept h h'"
      using weaver_callback_ok [of C D t' path rs' pre post r key w] sl n' r key good weave w True unfolding root by auto
    then show ?thesis using rep [OF h'(2)] True by (simp add: on_modified_def)
  next
    case False
    then show ?thesis using here by (simp add: on_modified_def)
  qed
  then show ?thesis using wb here by blast
qed

text \<open>The start of a write: the leaf of the key, and the version of the write.\<close>

lemma write_start:
  fixes C :: "('k::linorder, 'p) dexa_cfg"
  assumes laws: "dx_laws C" and rep: "dx_rep C t K M" and key: "key < dx_max_key C" and w: "w = global_clock (dt_clock t)"
  obtains t1 path t2 ts' D pre rs post where "dx_traversal_write C t key = Some (t1, path)" and "dx_start_tx_commit t1 ts = (t2, ts', w)"
    and "at_leaf C D key t2 path pre rs post" and "global_clock (dt_clock t2) = w + 1" and "dt_heap t2 = dt_heap t"
    and "node_at (dt_root t2) path = Some (DLeaf rs)" and "length rs < dx_num_records C"
    and "pre @ rs @ post = records_of (dt_root t)"
    and "\<forall>r \<in> set pre. vr_key r < key" and "\<forall>r \<in> set post. key < vr_key r"
proof -
  have l: "cfg_ok C" "\<not> dx_gc C" "succ_law (dx_inc_key C) (dx_max_key C)" using laws by (simp_all add: dx_laws_def scan_laws_def)
  obtain D where "tree_ok C D None None (dt_root t)" using rep unfolding dx_rep_def by blast
  then obtain D' t1 path pre rs post where t: "dx_traversal_write C t key = Some (t1, path)" "same_but_root t t1"
      "at_leaf C D' key t1 path pre rs post" "pre @ rs @ post = records_of (dt_root t)"
    using traversal_write_ok [OF l key] unfolding lands_def by blast
  obtain m ts' where st: "start_commit (dt_clock t1) ts = (m, ts', w)" "global_clock m = w + 1"
    using t(2) w by (simp add: start_commit_def same_but_root_def)
  let ?t2 = "t1\<lparr>dt_clock := m\<rparr>"
  have at: "at_leaf C D' key ?t2 path pre rs post" using t(3) by (simp add: at_leaf_def)
  obtain lo hi where "within lo hi key" "focus C D' (dt_root t1) path 0 lo hi pre post" using t(3) unfolding at_leaf_def by blast
  then have "\<forall>r \<in> set pre. vr_key r < key" "\<forall>r \<in> set post. key < vr_key r" by (auto simp: focus_def)
  then show ?thesis
    using that [of t1 path ?t2 ts' D' pre rs post] t st at by (simp add: dx_start_tx_commit_def same_but_root_def at_leaf_def)
qed

section \<open>The operations\<close>

definition mv_put :: "'k \<Rightarrow> version \<Rightarrow> 'p option \<Rightarrow> (version \<Rightarrow> 'k \<Rightarrow> 'p option) \<Rightarrow> version \<Rightarrow> 'k \<Rightarrow> 'p option" where
  "mv_put key w x M = (\<lambda>v k. if k = key \<and> w \<le> v then x else M v k)"

text \<open>What a write that has been carried out, or refused, does to the records.\<close>

lemma recs_step_rep:
  assumes rep: "dx_rep C t K M" and step: "recs_step (dx_lib C) w key x (dt_heap t) (records_of (dt_root t)) h rs'"
  shows "recs_ok (dx_lib C) (w + 1) h rs'" and "\<forall>v < VERSION_LIMIT. \<forall>k. mv_put key w x M v k = recs_lookup (dx_lib C) h rs' v k"
  using rep step by (auto simp: dx_rep_def recs_step_def mv_put_def)

lemma recs_ok_later:
  assumes rep: "dx_rep C t K M" and w: "w = global_clock (dt_clock t)" "w < VERSION_LIMIT"
  shows "recs_ok (dx_lib C) (w + 1) (dt_heap t) (records_of (dt_root t))"
proof -
  have ok: "recs_ok (dx_lib C) w (dt_heap t) (records_of (dt_root t))" using rep w(1) by (simp add: dx_rep_def)
  then have good: "\<forall>r \<in> set (records_of (dt_root t)). vx_good (dx_lib C) (vr_key r) w (dt_heap t, vr_index r)" by (simp add: recs_ok_def)
  show ?thesis
    using ok good_later [OF good heap_kept_refl order_refl w(2)] inc_le [OF w(2)] by (simp add: recs_ok_def)
qed

lemma dx_insert_ok:
  fixes C :: "('k::linorder, 'p) dexa_cfg"
  assumes laws: "dx_laws C" and rep: "dx_rep C t K M" and key: "key < dx_max_key C"
    and w: "w = global_clock (dt_clock t)" "w < VERSION_LIMIT"
  shows "\<exists>t' ts'. dx_insert C t ts key p = Some (t', ts', DxInserted w) \<and> dx_rep C t' (insert key K) (mv_put key w (Some p) M)
    \<and> global_clock (dt_clock t') = w + 1"
proof -
  obtain t1 path t2 ts' D pre rs post where st: "dx_traversal_write C t key = Some (t1, path)" "dx_start_tx_commit t1 ts = (t2, ts', w)"
      "at_leaf C D key t2 path pre rs post" "global_clock (dt_clock t2) = w + 1" "dt_heap t2 = dt_heap t"
      "node_at (dt_root t2) path = Some (DLeaf rs)" "length rs < dx_num_records C"
      "pre @ rs @ post = records_of (dt_root t)" "\<forall>r \<in> set pre. vr_key r < key" "\<forall>r \<in> set post. key < vr_key r"
    by (rule write_start [OF laws rep key w(1), of ts])
  have ok: "recs_ok (dx_lib C) w (dt_heap t) (pre @ rs @ post)" using rep w(1) st(8) by (simp add: dx_rep_def)
  have kind: "dx_kind C \<noteq> TypeBTree" "skip_laws (ix_skip (dx_lib C))" using laws by (simp_all add: dx_laws_def)
  obtain h rs' where p: "push_record_point (dx_lib C) (dx_toss C t2) (dx_num_records C) key p w (dx_kind C) (dt_heap t) (DLeaf rs)
        = Some (h, DLeaf rs', True)"
      "recs_step (dx_lib C) w key (Some p) (dt_heap t) (pre @ rs @ post) h (pre @ rs' @ post)"
      "length rs \<le> length rs'" "length rs' \<le> dx_num_records C" "vr_key ` set rs' = insert key (vr_key ` set rs)"
    using push_record_point_ok [OF ok order_refl w(2) kind st(7,9,10)] by blast
  have weave: "all_weave (is_v_weaver (dx_kind C)) (pre @ rs' @ post)"
    using push_weaves [OF p(1) _ recs_ok_part [OF ok]] rep st(8) [symmetric] by (simp add: dx_rep_def)
  note r = recs_step_rep [OF rep p(2) [unfolded st(8)]]
  have K: "insert key K = vr_key ` set (pre @ rs' @ post)" using rep st(8) [symmetric] p(5) by (auto simp: dx_rep_def)
  have sub: "vr_key ` set rs' \<subseteq> insert key (vr_key ` set rs)" using p(5) by simp
  obtain t3 t4 where c: "write_back t2 path h (DLeaf rs') = Some t3" "on_modified C t3 path key w = Some t4"
      "commits C ts' w (insert key K) (mv_put key w (Some p) M) t4"
    using commit_ok [OF laws key st(3,4) w(2) r(1) p(3,4) sub weave r(2) K, of ts'] p(5) by auto
  have "dx_insert C t ts key p = Some (dx_end_tx_commit t4 ts' w, ts', DxInserted w)"
    by (simp add: dx_insert_def st(1,2,5,6) p(1) c(1,2))
  then show ?thesis using c(3) by (simp add: commits_def)
qed

lemma leaf_value:
  assumes rep: "dx_rep C t K M" and w: "w < VERSION_LIMIT" and rs: "pre @ rs @ post = records_of (dt_root t)"
  shows "recs_lookup (dx_lib C) (dt_heap t) (pre @ rs @ post) w key = M w key"
  using rep w rs by (simp add: dx_rep_def)

text \<open>An operation that writes an existing key, when the write is carried out and when it is refused.\<close>

lemma commit_done:
  fixes C :: "('k::linorder, 'p) dexa_cfg"
  assumes laws: "dx_laws C" and rep: "dx_rep C t K M" and key: "key < dx_max_key C" and w: "w < VERSION_LIMIT"
    and at: "at_leaf C D key t2 path pre rs post" "global_clock (dt_clock t2) = w + 1" "pre @ rs @ post = records_of (dt_root t)"
    and step: "recs_step (dx_lib C) w key x (dt_heap t) (pre @ rs @ post) h (pre @ rs' @ post)" "map vr_key rs' = map vr_key rs"
    and there: "key \<in> vr_key ` set rs" and weave: "all_weave (is_v_weaver (dx_kind C)) rs'"
  shows "\<exists>t' t''. write_back t2 path h (DLeaf rs') = Some t' \<and> on_modified C t' path key w = Some t''
    \<and> commits C ts w K (mv_put key w x M) t''"
proof -
  note same = same_keys_len [OF step(2)]
  note r = recs_step_rep [OF rep step(1) [unfolded at(3)]]
  have all: "all_weave (is_v_weaver (dx_kind C)) (pre @ rs' @ post)" "K = vr_key ` set (pre @ rs' @ post)"
    using rep at(3) [symmetric] weave same by (auto simp: dx_rep_def)
  have sub: "vr_key ` set rs' \<subseteq> insert key (vr_key ` set rs)" "length rs \<le> length rs'" "length rs' \<le> dx_num_records C"
    using same at(1) by (auto simp: at_leaf_def)
  show ?thesis
    using commit_ok [OF laws key at(1,2) w r(1) sub(2,3,1) all(1) r(2) all(2), of ts] there same by auto
qed

lemma commit_refused:
  fixes C :: "('k::linorder, 'p) dexa_cfg"
  assumes laws: "dx_laws C" and rep: "dx_rep C t K M" and key: "key < dx_max_key C"
    and w: "w = global_clock (dt_clock t)" "w < VERSION_LIMIT"
    and at: "at_leaf C D key t2 path pre rs post" "global_clock (dt_clock t2) = w + 1" "pre @ rs @ post = records_of (dt_root t)"
  shows "\<exists>t'. write_back t2 path (dt_heap t) (DLeaf rs) = Some t' \<and> commits C ts w K M t'"
proof -
  have all: "all_weave (is_v_weaver (dx_kind C)) (pre @ rs @ post)" "K = vr_key ` set (pre @ rs @ post)"
      "\<forall>v < VERSION_LIMIT. \<forall>k. M v k = recs_lookup (dx_lib C) (dt_heap t) (pre @ rs @ post) v k"
    using rep at(3) by (simp_all add: dx_rep_def)
  have sub: "vr_key ` set rs \<subseteq> insert key (vr_key ` set rs)" "length rs \<le> dx_num_records C" using at(1) by (auto simp: at_leaf_def)
  show ?thesis
    using commit_ok [OF laws key at(1,2) w(2) recs_ok_later [OF rep w, folded at(3)] order_refl sub(2,1) all(1,3,2), of ts] by blast
qed

lemma present_leaf:
  fixes key :: "'k::linorder"
  assumes "recs_lookup L h (pre @ rs @ post) v key \<noteq> None" and "\<forall>r \<in> set pre. vr_key r < key" and "\<forall>r \<in> set post. key < vr_key r"
  shows "key \<in> vr_key ` set rs"
proof -
  have "key \<in> vr_key ` set (pre @ rs @ post)" by (rule notnotD [OF contrapos_nn [OF assms(1) recs_lookup_none]])
  then obtain r where r: "key = vr_key r" "r \<in> set (pre @ rs @ post)" by (rule imageE)
  have "r \<notin> set pre" "r \<notin> set post" using bspec [OF assms(2), of r] bspec [OF assms(3), of r] unfolding r(1) by auto
  then show ?thesis using r by simp
qed

lemma dx_update_ok:
  fixes C :: "('k::linorder, 'p) dexa_cfg"
  assumes laws: "dx_laws C" and rep: "dx_rep C t K M" and key: "key < dx_max_key C"
    and w: "w = global_clock (dt_clock t)" "w < VERSION_LIMIT"
  shows "\<exists>t' ts'. dx_update C t ts key p = Some (t', ts', if M w key = None then DxZeroAffected DxKeyDoesNotExist else DxUpdated w)
    \<and> dx_rep C t' K (if M w key = None then M else mv_put key w (Some p) M) \<and> global_clock (dt_clock t') = w + 1"
proof -
  obtain t1 path t2 ts' D pre rs post where st: "dx_traversal_write C t key = Some (t1, path)" "dx_start_tx_commit t1 ts = (t2, ts', w)"
      "at_leaf C D key t2 path pre rs post" "global_clock (dt_clock t2) = w + 1" "dt_heap t2 = dt_heap t"
      "node_at (dt_root t2) path = Some (DLeaf rs)"
      "pre @ rs @ post = records_of (dt_root t)" "\<forall>r \<in> set pre. vr_key r < key" "\<forall>r \<in> set post. key < vr_key r"
    by (rule write_start [OF laws rep key w(1), of ts])
  have ok: "recs_ok (dx_lib C) w (dt_heap t) (pre @ rs @ post)" using rep w(1) st(7) by (simp add: dx_rep_def)
  note val = leaf_value [OF rep w(2) st(7), of key]
  note upd = update_record_point_ok [OF ok order_refl w(2) st(8,9), where toss = "dx_toss C t2" and p = p, unfolded val]
  show ?thesis
  proof (cases "M w key = None")
    case True
    obtain t3 where "write_back t2 path (dt_heap t) (DLeaf rs) = Some t3" "commits C ts' w K M t3"
      using commit_refused [OF laws rep key w st(3,4,7), of ts'] by blast
    then show ?thesis using upd True by (simp add: dx_update_def st(1,2,5,6) commits_def)
  next
    case False
    obtain h rs' where p: "update_record_point (dx_lib C) (dx_toss C t2) key p w (dt_heap t) (DLeaf rs) = Some (h, DLeaf rs', Inr (Some ()))"
        "recs_step (dx_lib C) w key (Some p) (dt_heap t) (pre @ rs @ post) h (pre @ rs' @ post)" "map vr_key rs' = map vr_key rs"
      using upd False by auto
    have weave: "all_weave (is_v_weaver (dx_kind C)) rs'"
      using update_weaves [OF p(1) _ recs_ok_part [OF ok]] rep st(7) [symmetric] by (simp add: dx_rep_def)
    have there: "key \<in> vr_key ` set rs" using present_leaf [OF _ st(8,9)] val False by metis
    obtain t3 t4 where "write_back t2 path h (DLeaf rs') = Some t3" "on_modified C t3 path key w = Some t4"
        "commits C ts' w K (mv_put key w (Some p) M) t4"
      using commit_done [OF laws rep key w(2) st(3,4,7) p(2,3) there weave, of ts'] by blast
    then show ?thesis using p(1) False by (simp add: dx_update_def st(1,2,5,6) commits_def)
  qed
qed

lemma dx_delete_ok:
  fixes C :: "('k::linorder, 'p) dexa_cfg"
  assumes laws: "dx_laws C" and rep: "dx_rep C t K M" and key: "key < dx_max_key C"
    and w: "w = global_clock (dt_clock t)" "w < VERSION_LIMIT"
  shows "\<exists>t' ts'. dx_delete C t ts key = Some (t', ts', if M w key = None then DxZeroAffected DxKeyAlreadyDeleted else DxDeleted w)
    \<and> dx_rep C t' K (if M w key = None then M else mv_put key w None M) \<and> global_clock (dt_clock t') = w + 1"
proof -
  obtain t1 path t2 ts' D pre rs post where st: "dx_traversal_write C t key = Some (t1, path)" "dx_start_tx_commit t1 ts = (t2, ts', w)"
      "at_leaf C D key t2 path pre rs post" "global_clock (dt_clock t2) = w + 1" "dt_heap t2 = dt_heap t"
      "node_at (dt_root t2) path = Some (DLeaf rs)"
      "pre @ rs @ post = records_of (dt_root t)" "\<forall>r \<in> set pre. vr_key r < key" "\<forall>r \<in> set post. key < vr_key r"
    by (rule write_start [OF laws rep key w(1), of ts])
  have ok: "recs_ok (dx_lib C) w (dt_heap t) (pre @ rs @ post)" using rep w(1) st(7) by (simp add: dx_rep_def)
  note val = leaf_value [OF rep w(2) st(7), of key]
  note del = delete_key_ok [OF ok order_refl w(2) st(8,9), where toss = "dx_toss C t2", unfolded val]
  show ?thesis
  proof (cases "M w key = None")
    case True
    obtain t3 where "write_back t2 path (dt_heap t) (DLeaf rs) = Some t3" "commits C ts' w K M t3"
      using commit_refused [OF laws rep key w st(3,4,7), of ts'] by blast
    then show ?thesis using del True by (simp add: dx_delete_def st(1,2,5,6) commits_def)
  next
    case False
    obtain h rs' where p: "delete_key (dx_lib C) (dx_toss C t2) key w (dt_heap t) (DLeaf rs) = Some (h, DLeaf rs', Inr (Some ()))"
        "recs_step (dx_lib C) w key None (dt_heap t) (pre @ rs @ post) h (pre @ rs' @ post)" "map vr_key rs' = map vr_key rs"
      using del False by auto
    have weave: "all_weave (is_v_weaver (dx_kind C)) rs'"
      using delete_weaves [OF p(1) _ recs_ok_part [OF ok]] rep st(7) [symmetric] by (simp add: dx_rep_def)
    have there: "key \<in> vr_key ` set rs" using present_leaf [OF _ st(8,9)] val False by metis
    obtain t3 t4 where "write_back t2 path h (DLeaf rs') = Some t3" "on_modified C t3 path key w = Some t4"
        "commits C ts' w K (mv_put key w None M) t4"
      using commit_done [OF laws rep key w(2) st(3,4,7) p(2,3) there weave, of ts'] by blast
    then show ?thesis using p(1) False by (simp add: dx_delete_def st(1,2,5,6) commits_def)
  qed
qed

lemma dx_point_ok:
  fixes C :: "('k::linorder, 'p) dexa_cfg"
  assumes laws: "dx_laws C" and rep: "dx_rep C t K M" and key: "key < dx_max_key C" and v: "v < VERSION_LIMIT"
  shows "dx_point C t key v = Some (DxMatchedRecord
    (if key \<notin> K then None else case M v key of Some p \<Rightarrow> Some (key, p) | None \<Rightarrow> Some (dx_default C)))"
proof -
  let ?L = "dx_lib C" and ?h = "dt_heap t"
  have inc: "succ_law (dx_inc_key C) (dx_max_key C)" using laws by (simp add: dx_laws_def scan_laws_def)
  obtain D where D: "tree_ok C D None None (dt_root t)" using rep unfolding dx_rep_def by blast
  have wi: "within None None key" by (simp add: within_def)
  obtain pre rs post where r: "read_descent (dx_inc_key C key) (dt_root t) = Some rs" "records_of (dt_root t) = pre @ rs @ post"
      "\<forall>r \<in> set pre. vr_key r < key" "\<forall>r \<in> set post. key < vr_key r"
    using read_descent_ok [OF inc key D wi] by blast
  have ok: "recs_ok ?L (global_clock (dt_clock t)) ?h (pre @ rs @ post)" and K: "K = vr_key ` set (pre @ rs @ post)"
    using rep r(2) by (simp_all add: dx_rep_def)
  have M: "M v key = recs_lookup ?L ?h (pre @ rs @ post) v key" using rep v r(2) by (simp add: dx_rep_def)
  show ?thesis
  proof (cases "binary_search_by_key vr_key key rs")
    case (Inr i)
    note hit = leaf_hit [OF ok Inr]
    obtain u where f: "vx_find ?L ?h (vr_index (rs ! i)) v = Some (map_option (Pair u) (vx_lookup ?L (?h, vr_index (rs ! i)) v))"
      by (rule vx_find_ok [OF hit(3)])
    have "vx_lookup ?L (?h, vr_index (rs ! i)) v = M v key" using recs_lookup_nth [OF ok hit(1), of v] M hit(2) by simp
    moreover have "key \<in> K" using K nth_mem [OF hit(1)] hit(2) by force
    ultimately show ?thesis
      using f by (simp add: dx_point_def dx_traversal_read_def r(1) Inr split: option.split del: vx_lookup.simps)
  next
    case (Inl i)
    have "key \<notin> vr_key ` set rs" using search_finds [OF recs_ok_part [OF ok]] Inl by fastforce
    then have "key \<notin> K" using K r(3,4) by auto
    then show ?thesis by (simp add: dx_point_def dx_traversal_read_def r(1) Inl)
  qed
qed

end
