(* ===== verification/Dexa_Index.thy ===== *)
theory Dexa_Index
  imports Dexa_Refine
begin

text \<open>
  The index that the experiments use (\<^verbatim>\<open>dexa/types.rs\<close>, \<open>new_INDEX\<close> of \<^verbatim>\<open>dexa/mvb_tree/bplus_tree.rs\<close>), and what a
  sequence of operations on a version-list tree does and answers.
\<close>

definition INDEX_FAN_OUT :: usize where
  "INDEX_FAN_OUT = 255"

definition INDEX_NUM_RECORDS :: usize where
  "INDEX_NUM_RECORDS = 170"

definition dexa_inc_key :: "u64 \<Rightarrow> u64" where
  "dexa_inc_key k = (if k = U64_MAX then U64_MAX else k + 1)"

definition dexa_dec_key :: "u64 \<Rightarrow> u64" where
  "dexa_dec_key k = (if k = 0 then 0 else k - 1)"

definition new_INDEX :: "version_index_type \<Rightarrow> bool \<Rightarrow> u64 \<times> 'p \<Rightarrow> 'p index_lib
    \<Rightarrow> (u64 list \<Rightarrow> u64 list \<Rightarrow> u64 list) \<Rightarrow> ((u64, 'p) v_record list \<Rightarrow> (u64, 'p) v_record list \<Rightarrow> (u64, 'p) v_record list)
    \<Rightarrow> (nat \<Rightarrow> bool) \<Rightarrow> clock_mem \<Rightarrow> (u64, 'p) dexa_cfg \<times> (u64, 'p) dexa_tree" where
  "new_INDEX kind gc def_record L mk mr coin m =
     (\<lparr>dx_fan_out = INDEX_FAN_OUT, dx_num_records = INDEX_NUM_RECORDS, dx_kind = kind, dx_gc = gc, dx_min_key = 0,
       dx_max_key = U64_MAX, dx_inc_key = dexa_inc_key, dx_dec_key = dexa_dec_key, dx_default = def_record, dx_lib = L,
       dx_merge_keys = mk, dx_merge_records = mr,
       dx_coin = coin\<rparr>, dexa_make m)"

text \<open>The merge of the library, for concrete runs.\<close>

fun it_merge :: "('a \<Rightarrow> 'a \<Rightarrow> bool) \<Rightarrow> 'a list \<Rightarrow> 'a list \<Rightarrow> 'a list" where
  "it_merge first [] ys = ys"
| "it_merge first xs [] = xs"
| "it_merge first (x # xs) (y # ys) =
     (if first x y then x # it_merge first xs (y # ys) else y # it_merge first (x # xs) ys)"

definition ref_INDEX :: "version_index_type \<Rightarrow> bool \<Rightarrow> (u64, nat) dexa_cfg" where
  "ref_INDEX kind toss = fst (new_INDEX kind False (0, 0) ref_index_lib (it_merge (\<le>)) (it_merge (\<lambda>a b. vr_key a < vr_key b))
     (\<lambda>i. toss) clock_new)"

lemma dexa_key_laws:
  "succ_law dexa_inc_key U64_MAX" "pred_law dexa_dec_key 0"
proof -
  have "dexa_inc_key k \<le> j \<longleftrightarrow> k < j" if "k < U64_MAX" for k j
  proof -
    have "unat (k + 1) = unat k + 1" "k \<noteq> U64_MAX" using that by (auto simp: word_less_nat_alt unat_word_ariths)
    then show ?thesis by (auto simp: dexa_inc_key_def word_le_nat_alt word_less_nat_alt)
  qed
  moreover have "U64_MAX \<le> dexa_inc_key k" if "U64_MAX \<le> k" for k
    using order.antisym [OF max_version that] by (simp add: dexa_inc_key_def)
  ultimately show "succ_law dexa_inc_key U64_MAX" by (simp add: succ_law_def)
  have "j \<le> dexa_dec_key k \<longleftrightarrow> j < k" if "0 < k" for k j
  proof -
    have k: "k \<noteq> 0" "0 < unat k" using that by (auto simp: word_less_nat_alt)
    then have "unat (k - 1) = unat k - 1" by (simp add: unat_minus_one)
    then show ?thesis using k by (auto simp: dexa_dec_key_def word_le_nat_alt word_less_nat_alt)
  qed
  then show "pred_law dexa_dec_key 0" by (simp add: pred_law_def)
qed

lemma new_INDEX_laws:
  assumes "kind \<noteq> TypeBTree" and "skip_laws (ix_skip L)"
  shows "dx_laws (fst (new_INDEX kind False def_record L mk mr coin m))" and "dx_max_key (fst (new_INDEX kind False def_record L mk mr coin m)) = U64_MAX"
  using assms dexa_key_laws
  by (simp_all add: dx_laws_def new_INDEX_def cfg_ok_def INDEX_NUM_RECORDS_def INDEX_FAN_OUT_def scan_laws_def)

section \<open>The multiversion map\<close>

text \<open>The state: the keys that have a record, and the value of every key at every version.\<close>

type_synonym ('k, 'p) mv_state = "'k set \<times> (version \<Rightarrow> 'k \<Rightarrow> 'p option)"

definition mv_range :: "'k::linorder set \<Rightarrow> ('k \<Rightarrow> 'p option) \<Rightarrow> 'k interval \<Rightarrow> ('k \<times> 'p) list" where
  "mv_range K m rng = concat (map (\<lambda>k. case m k of Some p \<Rightarrow> [(k, p)] | None \<Rightarrow> []) (sorted_list_of_set {k \<in> K. contains rng k}))"

text \<open>What an operation at the version \<open>w\<close> does and answers. A refused write draws its version all the same.\<close>

fun mv_op :: "'k \<times> 'p \<Rightarrow> version \<Rightarrow> ('k::linorder, 'p) mv_state \<Rightarrow> ('k, 'p) dx_operation \<Rightarrow> ('k, 'p) mv_state \<times> ('k, 'p) dx_result" where
  "mv_op dflt w (K, M) (DxInsert key p) = ((insert key K, mv_put key w (Some p) M), DxInserted w)"
| "mv_op dflt w (K, M) (DxUpdate key p) =
     (if M w key = None then ((K, M), DxZeroAffected DxKeyDoesNotExist) else ((K, mv_put key w (Some p) M), DxUpdated w))"
| "mv_op dflt w (K, M) (DxDelete key) =
     (if M w key = None then ((K, M), DxZeroAffected DxKeyAlreadyDeleted) else ((K, mv_put key w None M), DxDeleted w))"
| "mv_op dflt w (K, M) (DxPoint key v) = ((K, M), DxMatchedRecord
     (if key \<notin> K then None else case M v key of Some p \<Rightarrow> Some (key, p) | None \<Rightarrow> Some dflt))"
| "mv_op dflt w (K, M) (DxRange rng v) = ((K, M), DxMatchedRecords (mv_range K (M v) rng))"
| "mv_op dflt w s _ = (s, DxError)"

fun mv_run :: "'k \<times> 'p \<Rightarrow> version \<Rightarrow> ('k::linorder, 'p) mv_state \<Rightarrow> ('k, 'p) dx_operation list
    \<Rightarrow> ('k, 'p) mv_state \<times> ('k, 'p) dx_result list" where
  "mv_run dflt w s [] = (s, [])"
| "mv_run dflt w s (x # xs) =
     (let (s1, r) = mv_op dflt w s x; (s2, rs) = mv_run dflt (if dx_is_write x then w + 1 else w) s1 xs in (s2, r # rs))"

text \<open>The operations that the map describes; the scan of the weaving lists is not among them.\<close>

fun dx_described :: "('k::linorder, 'p) dexa_cfg \<Rightarrow> ('k, 'p) dx_operation \<Rightarrow> bool" where
  "dx_described C (DxInsert key p) \<longleftrightarrow> key < dx_max_key C"
| "dx_described C (DxUpdate key p) \<longleftrightarrow> key < dx_max_key C"
| "dx_described C (DxDelete key) \<longleftrightarrow> key < dx_max_key C"
| "dx_described C (DxPoint key v) \<longleftrightarrow> key < dx_max_key C \<and> v < VERSION_LIMIT"
| "dx_described C (DxRange rng v) \<longleftrightarrow> dx_kind C \<noteq> TypeVWeaver \<and> lower rng \<le> dx_max_key C \<and> lower rng \<le> upper rng \<and> v < VERSION_LIMIT"
| "dx_described C _ \<longleftrightarrow> False"

lemma sorted_list_of_records:
  fixes rs :: "('k::linorder, 'p) v_record list"
  assumes "sorted_wrt (<) (map vr_key rs)"
  shows "sorted_list_of_set {k \<in> vr_key ` set rs. P k} = map vr_key (filter (\<lambda>r. P (vr_key r)) rs)"
proof -
  have "{k \<in> vr_key ` set rs. P k} = set (map vr_key (filter (\<lambda>r. P (vr_key r)) rs))" by auto
  moreover have "sorted_wrt (<) (map vr_key (filter (\<lambda>r. P (vr_key r)) rs))"
    using assms by (simp add: sorted_wrt_map sorted_wrt_filter)
  ultimately show ?thesis by (simp only: sorted_list_of_set.idem_if_sorted_distinct strict_sorted_iff)
qed

lemma hits_range:
  fixes rs :: "('k::linorder, 'p) v_record list"
  assumes "sorted_wrt (<) (map vr_key rs)"
  shows "hits L h v (filter (\<lambda>r. contains rng (vr_key r)) rs) = mv_range (vr_key ` set rs) (recs_lookup L h rs v) rng"
proof -
  have "recs_lookup L h rs v (vr_key r) = vx_lookup L (h, vr_index r) v" if r: "r \<in> set rs" for r
  proof -
    obtain pre post where "rs = pre @ r # post" using split_list [OF r] by blast
    then show ?thesis using recs_lookup_at [of pre r post L h v "vr_key r"] assms by simp
  qed
  then show ?thesis
    unfolding hits_def mv_range_def sorted_list_of_records [OF assms]
    by (simp only: map_map comp_def) (rule arg_cong [of _ _ concat], rule map_cong, auto simp del: vx_lookup.simps)
qed

lemma dx_range_rep:
  fixes C :: "('k::linorder, 'p) dexa_cfg"
  assumes laws: "dx_laws C" and rep: "dx_rep C t K M" and d: "dx_described C (DxRange rng v)"
  shows "dx_range C t rng v = Some (DxMatchedRecords (mv_range K (M v) rng))"
proof -
  let ?rs = "records_of (dt_root t)"
  obtain D where D: "tree_ok C D None None (dt_root t)" using rep unfolding dx_rep_def by blast
  have r: "\<forall>r \<in> set ?rs. vx_good (dx_lib C) (vr_key r) (global_clock (dt_clock t)) (dt_heap t, vr_index r)"
      "sorted_wrt (<) (map vr_key ?rs)" "K = vr_key ` set ?rs" "M v = recs_lookup (dx_lib C) (dt_heap t) ?rs v"
    using rep d by (auto simp: dx_rep_def recs_ok_def)
  have "scan_laws C" using laws by (simp add: dx_laws_def)
  then show ?thesis
    using dx_range_ok [of C D t _ rng v] D r d hits_range [OF r(2)] by simp
qed

text \<open>One operation.\<close>

lemma mv_op_ok:
  fixes C :: "('k::linorder, 'p) dexa_cfg"
  assumes laws: "dx_laws C" and rep: "dx_rep C t K M" and d: "dx_described C x"
    and w: "w = global_clock (dt_clock t)" "w < VERSION_LIMIT"
  shows "\<exists>t' ts' K' M' r. dx_dispatch C t ts x = Some (t', ts', r) \<and> mv_op (dx_default C) w (K, M) x = ((K', M'), r)
    \<and> dx_rep C t' K' M' \<and> global_clock (dt_clock t') = (if dx_is_write x then w + 1 else w)"
proof (cases x)
  case (DxInsert key p)
  then show ?thesis using dx_insert_ok [OF laws rep _ w, of key ts p] d by (auto simp: dx_is_write_def dx_is_read_def)
next
  case (DxUpdate key p)
  then show ?thesis using dx_update_ok [OF laws rep _ w, of key ts p] d by (auto simp: dx_is_write_def dx_is_read_def split: if_splits)
next
  case (DxDelete key)
  then show ?thesis using dx_delete_ok [OF laws rep _ w, of key ts] d by (auto simp: dx_is_write_def dx_is_read_def split: if_splits)
next
  case (DxPoint key v)
  then show ?thesis using dx_point_ok [OF laws rep, of key v] rep w d by (simp add: dx_is_write_def dx_is_read_def)
next
  case (DxRange rng v)
  then show ?thesis using dx_range_rep [OF laws rep, of rng v] rep w d by (simp add: dx_is_write_def dx_is_read_def)
qed (use d in simp_all)

lemma mv_run_ok:
  fixes C :: "('k::linorder, 'p) dexa_cfg"
  assumes laws: "dx_laws C"
  shows "dx_rep C t K M \<Longrightarrow> \<forall>x \<in> set xs. dx_described C x \<Longrightarrow> unat (global_clock (dt_clock t)) + length xs \<le> unat VERSION_LIMIT
    \<Longrightarrow> \<exists>t' ts' K' M' rs. dx_run C xs t ts = Some (t', ts', rs) \<and> mv_run (dx_default C) (global_clock (dt_clock t)) (K, M) xs = ((K', M'), rs)
      \<and> dx_rep C t' K' M'"
proof (induction xs arbitrary: t ts K M)
  case (Cons x xs)
  let ?w = "global_clock (dt_clock t)"
  have w: "?w < VERSION_LIMIT" using Cons.prems(3) by (simp add: word_less_nat_alt)
  obtain t1 ts1 K1 M1 r where o: "dx_dispatch C t ts x = Some (t1, ts1, r)" "mv_op (dx_default C) ?w (K, M) x = ((K1, M1), r)"
      "dx_rep C t1 K1 M1" "global_clock (dt_clock t1) = (if dx_is_write x then ?w + 1 else ?w)"
    using mv_op_ok [OF laws Cons.prems(1) _ refl w, of x ts] Cons.prems(2) by auto
  have "unat (?w + 1) = Suc (unat ?w)" using w by (simp add: word_less_nat_alt unat_word_ariths)
  then have "unat (global_clock (dt_clock t1)) + length xs \<le> unat VERSION_LIMIT" using o(4) Cons.prems(3) by (auto split: if_splits)
  then obtain t' ts' K' M' rs where "dx_run C xs t1 ts1 = Some (t', ts', rs)"
      "mv_run (dx_default C) (global_clock (dt_clock t1)) (K1, M1) xs = ((K', M'), rs)" "dx_rep C t' K' M'"
    using Cons.IH [OF o(3), of ts1] Cons.prems(2) by auto
  then show ?case using o by (simp add: Let_def)
qed simp

section \<open>Properties\<close>






end
