(* ===== verification/Spec2Isabelle.thy ===== *)
theory Spec2Isabelle
  imports Shape Dexa_Index
begin

text \<open>
  \<^bold>\<open>cMVBT\<close>, a concurrent multiversion B-tree in Rust: a model of it and what is proved about it.

  \<^bold>\<open>The program.\<close> One tree holds all versions of all records. A record carries a lifespan, an
  insertion version and later a deletion version; nothing is overwritten. An entry of an internal page carries the
  version from which it routes, and a mark once it no longer routes for writers. A writer descends with optimistic
  latches, repairs every unsafe child on its way (split by version or by key, merge, redistribution), draws a commit
  version from a global clock, writes one leaf, and announces the version. A reader takes a snapshot version, looks up
  the root that was current then, and descends along the entries that match its version without latching anything.
  Pages that died before every live snapshot are reused. The repository holds a second tree, the one the experiments
  compare with: a B+-tree whose leaves have one record per key, and each record an index of its versions.

  \<^bold>\<open>The parts and their theories\<close> (paths under \<^verbatim>\<open>src/src/\<close>).
  \<^item> \<open>Prelude\<close>: machine integers, arrays of uninitialised slots, Rust's binary search, the facts all theories share.
  \<^item> \<open>Interval\<close>: \<^verbatim>\<open>mv_utils/interval.rs\<close>, key fences. \<open>Version_Info\<close>: \<^verbatim>\<open>mv_record_model/version_info.rs\<close>,
    \<^verbatim>\<open>record_point.rs\<close> and \<^verbatim>\<open>mv_page_model/time_matcher.rs\<close>, lifespans and the obsolete mark.
  \<^item> \<open>Page_Len\<close>, \<open>Leaf_Page\<close>, \<open>Internal_Page\<close>, \<open>Node\<close>: \<^verbatim>\<open>mv_page_model\<close>, the packed counts, the two page layouts,
    the tagged union, and the fill degrees of \<^verbatim>\<open>mv_tree/smo.rs\<close>.
  \<^item> \<open>Smart_Cell\<close>: \<^verbatim>\<open>mv_sync/smart_cell.rs\<close>, optimistic latches. \<open>Clock\<close>: \<^verbatim>\<open>mv_sync/clock.rs\<close> and
    \<^verbatim>\<open>version_handle.rs\<close>, the commit slots and snapshots. \<open>Garbage\<close>: \<^verbatim>\<open>mv_gc\<close>, live readers, the graveyard, reuse.
  \<^item> \<open>Skip_List\<close>, \<open>Frugal_Root\<close>, \<open>Root_Index\<close>: \<^verbatim>\<open>mv_root\<close>, the index over the roots in its four variants. The skip
    list and the B+-tree of two variants are other packages: parameters with laws.
  \<^item> \<open>Mvbt_State\<close>: \<^verbatim>\<open>mv_tree/mvbt.rs\<close> and \<^verbatim>\<open>mv_block/block_handle.rs\<close>, the tree and its allocator. \<open>Smo\<close>:
    \<^verbatim>\<open>mv_tree/smo.rs\<close>. \<open>Write_Traversal\<close>: \<^verbatim>\<open>mv_query/olc_query.rs\<close> and \<^verbatim>\<open>rand_query.rs\<close>. \<open>Read_Query\<close>, \<open>Range_Iter\<close>:
    \<^verbatim>\<open>mv_query/query.rs\<close> and \<^verbatim>\<open>iter_query.rs\<close>. \<open>Crud\<close>: \<^verbatim>\<open>mv_query/dispatch.rs\<close> and \<^verbatim>\<open>mv_crud_model\<close>.
  \<^item> \<open>Tx\<close>: \<^verbatim>\<open>mv_tx_model\<close>, \<^verbatim>\<open>mv_tx_query\<close>, transactions and their manager. \<open>Api\<close>: \<^verbatim>\<open>lib.rs\<close>, the exported functions.

  \<^item> \<open>Version_Chain\<close>, \<open>Weaver_List\<close>, \<open>Version_Index\<close>: \<^verbatim>\<open>dexa/mvb_version_index\<close>, the version indexes of the second tree: plain
    lists, lists with skip pointers, and these with pointers between keys; the ordered map and the B+-tree of two kinds are
    packages. \<open>Dexa_Node\<close>: its pages (\<^verbatim>\<open>dexa/mvb_page_model\<close>, \<^verbatim>\<open>mvb_block\<close>, \<^verbatim>\<open>mvb_utils/shadow_vec.rs\<close>). \<open>Dexa_Tree\<close>: splits,
    merges and descents (\<^verbatim>\<open>dexa/mvb_crud_model/query.rs\<close>). \<open>Dexa_Query\<close>: scans and operations (\<^verbatim>\<open>olc_query.rs\<close>,
    \<^verbatim>\<open>dispatch.rs\<close>, the callback of \<^verbatim>\<open>v_weaver.rs\<close>). \<open>Dexa_Index\<close>: the index of \<^verbatim>\<open>dexa/types.rs\<close>.

  \<^bold>\<open>How the code is rendered.\<close> A structure is a record, an enumeration a datatype. Blocks live in an explicit heap
  from addresses to cells, because a split child is shared by its old and its new parent. \<open>None\<close> is a panic, an access
  out of range, a read of an uninitialised slot, or a loop that does not end; \<open>Inl\<close> is an \<open>Err\<close> or a result of the
  program's own that reports a failure. A loop is a \<open>partial_function (option)\<close> unless it is structural, so that a
  theorem that says \<open>= Some _\<close> says that it ends. Versions are 64-bit words with their wrap-around, the packed length
  is a 32-bit word, \<open>usize\<close> counts are naturals. Guards are released where Rust drops them. Latches, clock and
  collector are also step relations of atomic accesses, for the claims about interleavings. Assertions are those of a
  release build.

  \<^bold>\<open>What is proved.\<close>
  \<^item> Components: intervals, lifespans, page words and the root index satisfy their specifications; the latch gives
    mutual exclusion and validated reads; snapshots are monotone and hide announced commits; no block is reused while a
    registered reader can reach it; where the code falls short of that, a theorem exhibits the run.
  \<^item> \<open>Leaf_History\<close>: what a leaf means is a history, a map from keys to payloads at every version, and the three writes
    at a leaf refine the operations on histories.
  \<^item> \<open>Allocation\<close>, \<open>Sequential\<close>: the allocator hands out unused blocks; one thread that works alone gets its latches.
  \<^item> \<open>Snapshot\<close>, \<open>Tree_Rep\<close>: what a page means at an old version (reads only) and at the current version (reads and
    writes), by the height of the subtree. \<open>Node_Parts\<close>, \<open>Index_Replace\<close>, \<open>Fill\<close>, \<open>Smo_Correct\<close>, \<open>Repair\<close>,
    \<open>Repair_Child\<close>: splits, merges and redistributions are compositions of cuts and joins, and replace entries of the
    parent so that the current meaning stays and every older version reads what it read before.
  \<^item> \<open>Standing\<close>, \<open>Descent\<close>, \<open>Root_Repair\<close>, \<open>Tree_Write\<close>: a tree that stands for a history; the writer's descent, with
    its repairs of the root and of children, ends at a leaf with room and keeps the history; a write extends it.
  \<^item> \<open>Database\<close>, \<open>Tx_Correct\<close>, \<open>Shape\<close>: point reads at every version return what the history says; a transaction refines
    the abstract operations (the locale \<open>simulation\<close>, interpreted on the dispatcher); the tree stays balanced.
    \<open>Range_Correct\<close>: a range read returns, leaf by leaf, what point reads of its keys return.
  \<^item> The locale \<open>version_chain\<close>, interpreted on the lists and on all indexes but the B+-tree, says what a lookup finds after
    writes at rising versions; the weaving lists simulate the lists with skip pointers. \<open>Dexa_Correct\<close>: the invariant of
    the second tree, and that its descents keep it and all records; \<open>Dexa_Scan\<close>: the walk from leaf to leaf;
    \<open>Dexa_Refine\<close>, \<open>Dexa_Index\<close>: its operations refine a map from versions and keys to values.

  \<^bold>\<open>Bounds.\<close> The theorems on the whole tree are about one thread without garbage collection (the collector and the
  concurrent protocols have theorems of their own). They ask for pages of at least seven slots, because with five or six
  a repair can leave a child that is unsafe again; for versions below \<open>2 ^ 62\<close>, because the obsolete mark
  is the top bit of a version and lifespans use the same word; and for at most \<open>2 ^ 30\<close> operations from a new tree, which
  keeps the versions, at most a bounded number per level and operation, below that limit. No fuel is used. The theorems on the second tree are about its default
  locking strategy without garbage collection, leaves of at least two records, a fan-out of at least five, keys below the
  largest one, and versions below \<open>2 ^ 63\<close>.

  \<^bold>\<open>Not modelled.\<close> Printing and statistics; the thread pool and the channels of \<^verbatim>\<open>tx_manager.rs\<close> (packages; the jobs
  are modelled as state transformers); of the second tree the locking strategies other than the default one with their
  latches, whose descents differ from the modelled one in their restarts; lock elision, which is an instruction of the hardware; the experiments
  (\<^verbatim>\<open>paper\<close>, \<^verbatim>\<open>ycsb\<close>, \<^verbatim>\<open>mv_test.rs\<close>), and code no build uses (\<^verbatim>\<open>mv_utils/outdated.rs\<close>, \<^verbatim>\<open>leaf_pagev2.rs\<close>).
\<close>

end
